(* ===== verification/Prelude.thy ===== *)
theory Prelude
  imports Main "HOL-Library.Word"
begin

text \<open>
  Shared vocabulary of the development: the byte type, Go slices, and the generic lemmas on
  lists that several components use.  Sizes, offsets and indices that the code never lets go
  below zero are \<open>nat\<close>; a subtraction whose result may be negative is done on \<open>int\<close>.
\<close>

section \<open>Bytes and slices\<close>

type_synonym byte = "8 word"
type_synonym bytes = "byte list"

text \<open>\<open>subslice i j xs\<close> is Go's \<^verbatim>\<open>xs[i:j]\<close> for \<open>i \<le> j \<le> length xs\<close>.\<close>

definition subslice :: "nat \<Rightarrow> nat \<Rightarrow> 'a list \<Rightarrow> 'a list" where
  "subslice i j xs = take (j - i) (drop i xs)"

named_theorems slice_simps

lemma length_subslice [simp]: "j \<le> length xs \<Longrightarrow> length (subslice i j xs) = j - i"
  by (simp add: subslice_def)

lemma subslice_full [simp]: "subslice 0 (length xs) xs = xs"
  by (simp add: subslice_def)

lemma subslice_empty [simp]: "subslice i i xs = []"
  by (simp add: subslice_def)

lemma subslice_0 [slice_simps]: "subslice 0 j xs = take j xs"
  by (simp add: subslice_def)

lemma subslice_append_slice:
  assumes "i \<le> j" "j \<le> k"
  shows "subslice i j xs @ subslice j k xs = subslice i k xs"
proof -
  have "take (k - i) (drop i xs) = take (j - i) (drop i xs) @ take (k - j) (drop (j - i) (drop i xs))"
    using assms take_add [of "j - i" "k - j" "drop i xs"] by simp
  with assms show ?thesis by (simp add: subslice_def)
qed

lemma subslice_append_left: "j \<le> length xs \<Longrightarrow> subslice i j (xs @ ys) = subslice i j xs"
  by (simp add: subslice_def)

lemma subslice_append_right:
  "length xs \<le> i \<Longrightarrow> subslice i j (xs @ ys) = subslice (i - length xs) (j - length xs) ys"
  by (simp add: subslice_def)

lemma subslice_Cons:
  "\<lbrakk> i < j; j \<le> length xs \<rbrakk> \<Longrightarrow> subslice i j xs = xs ! i # subslice (Suc i) j xs"
  by (simp add: subslice_def Cons_nth_drop_Suc [symmetric] Suc_diff_Suc [symmetric])

lemma subslice_snoc:
  "\<lbrakk> i \<le> j; j < length xs \<rbrakk> \<Longrightarrow> subslice i j xs @ [xs ! j] = subslice i (Suc j) xs"
  by (simp add: subslice_def Suc_diff_le take_Suc_conv_app_nth)

text \<open>
  \<open>overwrite i ys xs\<close> is a buffer \<open>xs\<close> after \<open>ys\<close> has been copied into \<^verbatim>\<open>xs[i:i+len(ys)]\<close>.
\<close>

definition overwrite :: "nat \<Rightarrow> 'a list \<Rightarrow> 'a list \<Rightarrow> 'a list" where
  "overwrite i ys xs = take i xs @ ys @ drop (i + length ys) xs"

lemma length_overwrite [simp]:
  "i + length ys \<le> length xs \<Longrightarrow> length (overwrite i ys xs) = length xs"
  by (simp add: overwrite_def)

lemma nth_overwrite:
  assumes "i + length ys \<le> length xs" "j < length xs"
  shows "overwrite i ys xs ! j = (if i \<le> j \<and> j < i + length ys then ys ! (j - i) else xs ! j)"
  using assms by (auto simp: overwrite_def nth_append min_def)

lemma subslice_overwrite:
  "i + length ys \<le> length xs \<Longrightarrow> subslice i (i + length ys) (overwrite i ys xs) = ys"
  by (simp add: overwrite_def subslice_def)

lemma take_overwrite:
  "i + length ys \<le> length xs \<Longrightarrow> take (i + length ys) (overwrite i ys xs) = take i xs @ ys"
  by (simp add: overwrite_def)

lemma subslice_eq_map: "j \<le> length xs \<Longrightarrow> subslice i j xs = map ((!) xs) [i..<j]"
  by (auto simp: subslice_def intro: nth_equalityI)

section \<open>Errors as values\<close>

definition bindE :: "'e + 'a \<Rightarrow> ('a \<Rightarrow> 'e + 'b) \<Rightarrow> 'e + 'b" where
  "bindE m f = (case m of Inl e \<Rightarrow> Inl e | Inr x \<Rightarrow> f x)"

lemma bindE_simps [simp]: "bindE (Inl e) f = Inl e" "bindE (Inr x) f = f x"
  by (simp_all add: bindE_def)

lemma bindE_Inr: "bindE m f = Inr y \<longleftrightarrow> (\<exists>x. m = Inr x \<and> f x = Inr y)"
  by (cases m) simp_all

end
