(* ===== verification/Buzhash.thy ===== *)
theory Buzhash
  imports Prelude
begin

unbundle bit_operations_syntax

text \<open>
  The rolling hash of the chunk maker (\<^verbatim>\<open>src/src/duplicacy_chunkmaker.go\<close>): the table built from
  the chunk seed, the two rotations, the hash of a whole window (\<^verbatim>\<open>buzhashSum\<close>) and the
  one-byte shift of a window (\<^verbatim>\<open>buzhashUpdate\<close>).  The law the scanner relies on (the shifted
  hash is the hash of the shifted window) is the interface \<open>rolling_hash\<close>, interpreted here on
  the code's two functions.
\<close>

section \<open>Rotations\<close>

definition rotateLeft :: "64 word \<Rightarrow> nat \<Rightarrow> 64 word" where
  "rotateLeft value bits =
     push_bit (bits AND 0x3f) value OR drop_bit (64 - (bits AND 0x3f)) value"

definition rotateLeftByOne :: "64 word \<Rightarrow> 64 word" where
  "rotateLeftByOne value = push_bit 1 value OR drop_bit 63 value"

lemma and_63_eq_mod: "(n :: nat) AND 0x3f = n mod 64"
proof -
  have "n AND mask 6 = n mod 64" by (simp add: take_bit_eq_mask [symmetric] take_bit_eq_mod)
  then show ?thesis by (simp add: mask_eq_exp_minus_1)
qed

lemma bit_rotate:
  assumes "k < 64" "i < 64"
  shows "bit (w :: 64 word) ((i + 64 - k) mod 64) \<longleftrightarrow> k \<le> i \<and> bit w (i - k) \<or> bit w (64 + i - k)"
proof (cases "k \<le> i")
  case True
  then have "(i + 64 - k) mod 64 = i - k" using assms by (simp add: mod_if)
  moreover have "\<not> bit w (64 + i - k)" using True assms by (auto dest: bit_imp_le_length)
  ultimately show ?thesis using True by simp
next
  case False
  then have "(i + 64 - k) mod 64 = 64 + i - k" using assms by simp
  with False show ?thesis by simp
qed

lemma rotateLeft_eq_rotl: "rotateLeft w n = word_rotl n w"
  by (rule bit_word_eqI)
    (simp add: rotateLeft_def and_63_eq_mod bit_simps bit_rotate)

lemma rotateLeftByOne_eq_rotl: "rotateLeftByOne w = word_rotl 1 w"
  using rotateLeft_eq_rotl [of w 1] by (simp add: rotateLeftByOne_def rotateLeft_def)

lemma rotl_0: "word_rotl 0 (w :: 64 word) = w"
  using rotateLeft_eq_rotl [of w 0] by (simp add: rotateLeft_def)

lemma word_rotl_add: "word_rotl m (word_rotl n (w :: 64 word)) = word_rotl (m + n) w"
  by (simp add: word_rotl_rev word_rotr_word_rotr_eq ac_simps)

section \<open>Hashing a window and shifting it\<close>

type_synonym rand_table = "byte \<Rightarrow> 64 word"

fun buzhashSum :: "rand_table \<Rightarrow> 64 word \<Rightarrow> bytes \<Rightarrow> 64 word" where
  "buzhashSum table hsum [] = hsum"
| "buzhashSum table hsum (b # data) = buzhashSum table (rotateLeftByOne hsum XOR table b) data"

definition buzhashUpdate :: "rand_table \<Rightarrow> 64 word \<Rightarrow> byte \<Rightarrow> byte \<Rightarrow> nat \<Rightarrow> 64 word" where
  "buzhashUpdate table hsum out inp len =
     rotateLeftByOne hsum XOR rotateLeft (table out) len XOR table inp"

lemma buzhashSum_append: "buzhashSum t s (xs @ ys) = buzhashSum t (buzhashSum t s xs) ys"
  by (induction xs arbitrary: s) simp_all
lemma rotl_xor: "word_rotl n (x XOR y) = word_rotl n x XOR word_rotl n (y :: 64 word)"
  by (simp add: word_rot_logs)
lemma buzhashSum_rotl: "buzhashSum t s xs = word_rotl (length xs) s XOR buzhashSum t 0 xs"
proof (induction xs arbitrary: s)
  case (Cons x xs)
  have "buzhashSum t s (x # xs) = word_rotl (length xs) (word_rotl 1 s XOR t x) XOR buzhashSum t 0 xs"
    using Cons.IH [of "rotateLeftByOne s XOR t x"] by (simp add: rotateLeftByOne_eq_rotl)
  also have "\<dots> = word_rotl (length (x # xs)) s XOR (word_rotl (length xs) (t x) XOR buzhashSum t 0 xs)"
    by (simp add: rotl_xor word_rotl_add xor.assoc)
  also have "word_rotl (length xs) (t x) XOR buzhashSum t 0 xs = buzhashSum t 0 (x # xs)"
    using Cons.IH [of "t x"] by (simp add: rotateLeftByOne_eq_rotl)
  finally show ?case .
qed (simp add: rotl_0)

lemma buzhashUpdate_shift:
  "buzhashUpdate t (buzhashSum t 0 (x # xs)) x y (length (x # xs)) = buzhashSum t 0 (xs @ [y])"
proof -
  have "buzhashSum t 0 (x # xs) = word_rotl (length xs) (t x) XOR buzhashSum t 0 xs"
    using buzhashSum_rotl [of t "t x" xs] by (simp add: rotateLeftByOne_eq_rotl)
  then have "rotateLeftByOne (buzhashSum t 0 (x # xs))
      = word_rotl (length (x # xs)) (t x) XOR rotateLeftByOne (buzhashSum t 0 xs)"
    by (simp add: rotateLeftByOne_eq_rotl rotl_xor word_rotl_add)
  then show ?thesis
    by (simp add: buzhashUpdate_def buzhashSum_append rotateLeft_eq_rotl xor.assoc xor.left_commute)
qed

section \<open>The table of random words\<close>

text \<open>
  \<^verbatim>\<open>CreateFileChunkMaker\<close> fills the table from the chunk seed: 64 rounds, each taking four
  little-endian 64-bit words from the current digest and hashing the digest again.
  \<open>sha256\<close> is the standard library's digest.
\<close>

definition le_uint64 :: "bytes \<Rightarrow> 64 word" where
  "le_uint64 bs = foldr (\<lambda>b acc. ucast b OR push_bit 8 acc) bs 0"

fun random_rounds :: "(bytes \<Rightarrow> bytes) \<Rightarrow> nat \<Rightarrow> bytes \<Rightarrow> 64 word list" where
  "random_rounds sha256 0 randomData = []"
| "random_rounds sha256 (Suc n) randomData =
     map (\<lambda>j. le_uint64 (subslice (8 * j) (8 * j + 8) randomData)) [0..<4]
       @ random_rounds sha256 n (sha256 randomData)"

definition randomTable_of :: "(bytes \<Rightarrow> bytes) \<Rightarrow> bytes \<Rightarrow> rand_table" where
  "randomTable_of sha256 seed =
     (let table = random_rounds sha256 64 (sha256 seed) in (\<lambda>b. table ! unat b))"

lemma length_random_rounds: "length (random_rounds sha256 n d) = 4 * n"
  by (induction n arbitrary: d) simp_all

lemma randomTable_in_range: "unat (b :: byte) < length (random_rounds sha256 64 d)"
proof -
  have "unat b < 2 ^ LENGTH(8)" by (rule unsigned_less)
  then show ?thesis by (simp add: length_random_rounds)
qed

section \<open>The interface of the scanner\<close>

text \<open>
  What the chunk maker relies on: hashing is incremental over appended data, and \<open>upd\<close> turns
  the hash of a window into the hash of the window shifted by one element.
\<close>

locale rolling_hash =
  fixes hsum :: "'h \<Rightarrow> 'b list \<Rightarrow> 'h"
    and upd :: "'h \<Rightarrow> 'b \<Rightarrow> 'b \<Rightarrow> nat \<Rightarrow> 'h"
    and h0 :: 'h
  assumes hsum_append: "hsum h (xs @ ys) = hsum (hsum h xs) ys"
    and shift: "upd (hsum h0 (x # xs)) x y (length (x # xs)) = hsum h0 (xs @ [y])"
begin

lemma upd_window:
  assumes "0 < k" "k \<le> n" "n < length data"
  shows "upd (hsum h0 (subslice (n - k) n data)) (data ! (n - k)) (data ! n) k
    = hsum h0 (subslice (Suc n - k) (Suc n) data)"
proof -
  let ?xs = "subslice (Suc n - k) n data"
  have d: "n - k < n" "Suc (n - k) = Suc n - k" using assms by auto
  have win: "subslice (n - k) n data = data ! (n - k) # ?xs"
    using assms subslice_Cons [of "n - k" n data] by (simp add: Suc_diff_le)
  have "length (subslice (n - k) n data) = k" using assms by simp
  then have "length (data ! (n - k) # ?xs) = k" unfolding win .
  then have "upd (hsum h0 (subslice (n - k) n data)) (data ! (n - k)) (data ! n) k
      = hsum h0 (?xs @ [data ! n])"
    using shift [of "data ! (n - k)" ?xs "data ! n"] by (simp only: win)
  also have "?xs @ [data ! n] = subslice (Suc n - k) (Suc n) data"
    using assms by (simp add: subslice_snoc)
  finally show ?thesis .
qed

lemma hsum_parts: "hsum (hsum h0 xs) ys = hsum h0 (xs @ ys)"
  by (simp add: hsum_append)

end

interpretation buz: rolling_hash "buzhashSum t" "buzhashUpdate t" 0 for t
  by unfold_locales (simp_all only: buzhashSum_append buzhashUpdate_shift)

end
