(* ===== verification/Ring_Buffer.thy ===== *)
theory Ring_Buffer
  imports Prelude
begin

text \<open>
  The circular buffer of the chunk maker (\<^verbatim>\<open>src/src/duplicacy_chunkmaker.go\<close>): the fields
  \<open>buffer\<close>, \<open>bufferCapacity\<close>, \<open>bufferStart\<close> and \<open>bufferSize\<close>, the free region the next read
  goes to, the closure \<^verbatim>\<open>fill\<close> that moves bytes to the chunk, and the wrapped byte access.
  The interface \<open>byte_queue\<close> says that these operations are those of a bounded queue.
\<close>

section \<open>The buffer and its operations\<close>

record ring =
  buffer :: bytes
  bufferCapacity :: nat
  bufferStart :: nat
  bufferSize :: nat

text \<open>Where the next read of \<^verbatim>\<open>AddData\<close> stores its bytes, and how many fit there.\<close>

definition free_region :: "'a ring_scheme \<Rightarrow> nat \<times> nat" where
  "free_region m =
     (let start = bufferStart m + bufferSize m;
          count = int (bufferCapacity m) - int start
      in if start \<ge> bufferCapacity m
         then (let start' = start - bufferCapacity m in (start', bufferStart m - start'))
         else (start, nat count))"

definition store :: "bytes \<Rightarrow> 'a ring_scheme \<Rightarrow> 'a ring_scheme" where
  "store bs m =
     m\<lparr>buffer := overwrite (fst (free_region m)) bs (buffer m),
       bufferSize := bufferSize m + length bs\<rparr>"

text \<open>The closure \<^verbatim>\<open>fill\<close>: the bytes it writes to the chunk, and the buffer afterwards.\<close>

definition fill :: "nat \<Rightarrow> 'a ring_scheme \<Rightarrow> bytes \<times> 'a ring_scheme" where
  "fill count m =
     (if bufferStart m + count < bufferCapacity m
      then (subslice (bufferStart m) (bufferStart m + count) (buffer m),
            m\<lparr>bufferStart := bufferStart m + count, bufferSize := bufferSize m - count\<rparr>)
      else (drop (bufferStart m) (buffer m)
              @ take (count - (bufferCapacity m - bufferStart m)) (buffer m),
            m\<lparr>bufferStart := count - (bufferCapacity m - bufferStart m),
              bufferSize := bufferSize m - count\<rparr>))"

text \<open>The byte at a wrapped offset, as the scanning loop reads it.\<close>

definition ring_index :: "'a ring_scheme \<Rightarrow> nat \<Rightarrow> nat" where
  "ring_index m i =
     (let out = bufferStart m + i
      in if out \<ge> bufferCapacity m then out - bufferCapacity m else out)"

definition ring_byte :: "'a ring_scheme \<Rightarrow> nat \<Rightarrow> byte" where
  "ring_byte m i = buffer m ! ring_index m i"

section \<open>The queue it implements\<close>

definition contents :: "'a ring_scheme \<Rightarrow> bytes" where
  "contents m = map (ring_byte m) [0..<bufferSize m]"

definition ring_inv :: "'a ring_scheme \<Rightarrow> bool" where
  "ring_inv m \<longleftrightarrow> length (buffer m) = bufferCapacity m \<and> bufferStart m < bufferCapacity m
     \<and> bufferSize m \<le> bufferCapacity m"

lemma length_contents [simp]: "length (contents m) = bufferSize m"
  by (simp add: contents_def)

lemma nth_contents: "i < bufferSize m \<Longrightarrow> contents m ! i = ring_byte m i"
  by (simp add: contents_def)

lemma store_fields [simp]:
  "bufferCapacity (store bs m) = bufferCapacity m"
  "bufferStart (store bs m) = bufferStart m"
  "bufferSize (store bs m) = bufferSize m + length bs"
  "ring.more (store bs m) = ring.more m"
  by (simp_all add: store_def)

lemma fill_fields [simp]:
  "bufferCapacity (snd (fill n m)) = bufferCapacity m"
  "bufferSize (snd (fill n m)) = bufferSize m - n"
  "buffer (snd (fill n m)) = buffer m"
  "ring.more (snd (fill n m)) = ring.more m"
  by (simp_all add: fill_def)

lemma free_region_fits:
  assumes "ring_inv m" "bufferSize m < bufferCapacity m"
  shows "0 < snd (free_region m)"
    and "bufferSize m + snd (free_region m) \<le> bufferCapacity m"
    and "fst (free_region m) + snd (free_region m) \<le> bufferCapacity m"
  using assms by (auto simp: free_region_def ring_inv_def Let_def)

lemma store_inv:
  assumes "ring_inv m" "bufferSize m < bufferCapacity m" "length bs \<le> snd (free_region m)"
  shows "ring_inv (store bs m)"
  using assms free_region_fits [OF assms(1,2)] by (auto simp: ring_inv_def store_def)

lemma ring_byte_store:
  assumes "ring_inv m" "bufferSize m < bufferCapacity m" "length bs \<le> snd (free_region m)"
    and i: "i < bufferSize m + length bs"
  shows "ring_byte (store bs m) i
    = (if i < bufferSize m then ring_byte m i else bs ! (i - bufferSize m))"
proof -
  let ?s = "fst (free_region m)"
  have fit: "?s + length bs \<le> length (buffer m)" "bufferSize m + length bs \<le> bufferCapacity m"
    using free_region_fits [OF assms(1,2)] assms(1,3) by (auto simp: ring_inv_def)
  have idx: "ring_index (store bs m) i = ring_index m i" by (simp add: ring_index_def Let_def)
  have lt: "ring_index m i < length (buffer m)"
    using assms(1) i fit by (auto simp: ring_index_def ring_inv_def Let_def)
  have pos: "?s \<le> ring_index m i \<and> ring_index m i < ?s + length bs \<longleftrightarrow> bufferSize m \<le> i"
    using assms i fit by (auto simp: ring_index_def free_region_def ring_inv_def Let_def split: if_splits)
  have off: "ring_index m i - ?s = i - bufferSize m" if "bufferSize m \<le> i"
    using assms i fit that
    by (auto simp: ring_index_def free_region_def ring_inv_def Let_def split: if_splits)
  have "ring_byte (store bs m) i = overwrite ?s bs (buffer m) ! ring_index m i"
    unfolding ring_byte_def idx by (simp add: store_def)
  also have "\<dots> = (if bufferSize m \<le> i then bs ! (i - bufferSize m) else ring_byte m i)"
    using off by (simp add: nth_overwrite [OF fit(1) lt] pos ring_byte_def)
  finally show ?thesis by simp
qed

lemma contents_store:
  assumes "ring_inv m" "bufferSize m < bufferCapacity m" "length bs \<le> snd (free_region m)"
  shows "contents (store bs m) = contents m @ bs"
  by (rule nth_equalityI)
    (auto simp: nth_contents ring_byte_store [OF assms] nth_append)

lemma fill_inv: "ring_inv m \<Longrightarrow> n \<le> bufferSize m \<Longrightarrow> ring_inv (snd (fill n m))"
  by (auto simp: ring_inv_def fill_def)

lemma ring_byte_fill:
  assumes "ring_inv m" "n \<le> bufferSize m" "i < bufferSize m - n"
  shows "ring_byte (snd (fill n m)) i = ring_byte m (n + i)"
proof -
  have "ring_index (snd (fill n m)) i = ring_index m (n + i)"
    using assms by (auto simp: ring_index_def fill_def ring_inv_def Let_def)
  then show ?thesis by (simp add: ring_byte_def)
qed

lemma contents_fill:
  assumes "ring_inv m" "n \<le> bufferSize m"
  shows "contents (snd (fill n m)) = drop n (contents m)"
  by (rule nth_equalityI)
    (use assms in \<open>auto simp: nth_contents ring_byte_fill add.commute\<close>)

text \<open>The two segments of a wrapped read are the front of the queue.\<close>

lemma segments_contents:
  assumes "ring_inv m" "n \<le> bufferSize m"
  shows "(if bufferStart m + n < bufferCapacity m
      then subslice (bufferStart m) (bufferStart m + n) (buffer m)
      else drop (bufferStart m) (buffer m) @ take (n - (bufferCapacity m - bufferStart m)) (buffer m))
    = take n (contents m)" (is "?l = _")
proof (rule nth_equalityI)
  show len: "length ?l = length (take n (contents m))"
    using assms by (auto simp: ring_inv_def)
  fix i assume "i < length ?l"
  then have i: "i < n" using assms(2) unfolding len by simp
  have "?l ! i = buffer m ! ring_index m i"
  proof (cases "bufferStart m + n < bufferCapacity m")
    case True
    with i assms show ?thesis by (simp add: subslice_def ring_index_def ring_inv_def)
  next
    case False
    with i assms show ?thesis
      by (auto simp: nth_append ring_index_def ring_inv_def Let_def add.commute)
  qed
  then show "?l ! i = take n (contents m) ! i"
    using i assms(2) by (simp add: nth_contents ring_byte_def)
qed

lemma fill_bytes: "ring_inv m \<Longrightarrow> n \<le> bufferSize m \<Longrightarrow> fst (fill n m) = take n (contents m)"
  using segments_contents [of m n] by (simp add: fill_def split: if_splits)

section \<open>The interface\<close>

text \<open>
  A bounded queue of bytes: \<open>room\<close> is how many bytes one \<open>put\<close> may add, \<open>get n\<close> takes the
  first \<open>n\<close>.  A run of puts and gets that respects the bounds conserves the stream.
\<close>

datatype queue_op = Put bytes | Get nat

locale byte_queue =
  fixes items :: "'q \<Rightarrow> bytes" and inv :: "'q \<Rightarrow> bool" and cap :: "'q \<Rightarrow> nat"
    and room :: "'q \<Rightarrow> nat" and put :: "bytes \<Rightarrow> 'q \<Rightarrow> 'q" and get :: "nat \<Rightarrow> 'q \<Rightarrow> bytes \<times> 'q"
  assumes items_cap: "inv q \<Longrightarrow> length (items q) \<le> cap q"
    and room_pos: "inv q \<Longrightarrow> length (items q) < cap q \<Longrightarrow> 0 < room q"
    and put_items: "inv q \<Longrightarrow> length (items q) < cap q \<Longrightarrow> length bs \<le> room q
          \<Longrightarrow> items (put bs q) = items q @ bs"
    and put_inv: "inv q \<Longrightarrow> length (items q) < cap q \<Longrightarrow> length bs \<le> room q \<Longrightarrow> inv (put bs q)"
    and put_cap: "cap (put bs q) = cap q"
    and get_out: "inv q \<Longrightarrow> n \<le> length (items q) \<Longrightarrow> fst (get n q) = take n (items q)"
    and get_items: "inv q \<Longrightarrow> n \<le> length (items q) \<Longrightarrow> items (snd (get n q)) = drop n (items q)"
    and get_inv: "inv q \<Longrightarrow> n \<le> length (items q) \<Longrightarrow> inv (snd (get n q))"
    and get_cap: "cap (snd (get n q)) = cap q"
begin

fun run :: "queue_op list \<Rightarrow> 'q \<Rightarrow> (bytes \<times> 'q) option" where
  "run [] q = Some ([], q)"
| "run (Put bs # ops) q =
     (if length (items q) < cap q \<and> length bs \<le> room q then run ops (put bs q) else None)"
| "run (Get n # ops) q =
     (if n \<le> length (items q)
      then map_option (\<lambda>(out, q'). (fst (get n q) @ out, q')) (run ops (snd (get n q))) else None)"

fun added :: "queue_op list \<Rightarrow> bytes" where
  "added [] = []"
| "added (Put bs # ops) = bs @ added ops"
| "added (Get n # ops) = added ops"

lemma get_split:
  "inv q \<Longrightarrow> n \<le> length (items q) \<Longrightarrow> fst (get n q) @ items (snd (get n q)) = items q"
  by (simp add: get_out get_items)

lemma run_conserves:
  "inv q \<Longrightarrow> run ops q = Some (out, q') \<Longrightarrow> inv q' \<and> out @ items q' = items q @ added ops"
proof (induction ops arbitrary: q out)
  case (Cons a ops)
  show ?case
  proof (cases a)
    case (Put bs)
    with Cons.prems have fits: "length (items q) < cap q" "length bs \<le> room q"
      and run: "run ops (put bs q) = Some (out, q')"
      by (auto split: if_splits)
    from Cons.IH [OF put_inv [OF Cons.prems(1) fits] run] show ?thesis
      by (simp add: Put put_items [OF Cons.prems(1) fits])
  next
    case (Get n)
    with Cons.prems obtain out' where n: "n \<le> length (items q)"
      and run: "run ops (snd (get n q)) = Some (out', q')" and out: "out = fst (get n q) @ out'"
      by (auto split: if_splits)
    from Cons.IH [OF get_inv [OF Cons.prems(1) n] run]
    show ?thesis using get_split [OF Cons.prems(1) n] Get out
      by (metis added.simps(3) append.assoc)
  qed
qed simp

end

interpretation rb: byte_queue contents ring_inv bufferCapacity "\<lambda>m. snd (free_region m)" store fill
  by unfold_locales
    (auto simp: free_region_fits store_inv contents_store fill_inv contents_fill fill_bytes
      ring_inv_def [THEN iffD1])

end
