(* ===== verification/Config.thy ===== *)
theory Config
  imports Prelude
begin

text \<open>
  The storage configuration (\<^verbatim>\<open>src/src/duplicacy_config.go\<close>): the parameters every component
  reads, and the relations between two storages that the copy command decides on.
\<close>

section \<open>The configuration\<close>

text \<open>
  RSA keys are opaque: the code only compares them with nil and hands them to the library.
\<close>

record config =
  CompressionLevel :: int
  AverageChunkSize :: int
  MaximumChunkSize :: int
  MinimumChunkSize :: int
  ChunkSeed :: bytes
  FixedNesting :: bool
  HashKey :: bytes
  IDKey :: bytes
  ChunkKey :: bytes
  FileKey :: bytes
  DataShards :: int
  ParityShards :: int
  rsaPrivateKey :: "bytes option"
  rsaPublicKey :: "bytes option"
  dryRun :: bool

definition DEFAULT_KEY :: bytes where
  "DEFAULT_KEY = map (\<lambda>c. of_nat (of_char c)) ''duplicacy''"

definition CreateConfig :: config where
  "CreateConfig = \<lparr>CompressionLevel = 100, AverageChunkSize = 0, MaximumChunkSize = 0, MinimumChunkSize = 0,
     ChunkSeed = [], FixedNesting = False, HashKey = DEFAULT_KEY, IDKey = DEFAULT_KEY, ChunkKey = [], FileKey = [],
     DataShards = 0, ParityShards = 0, rsaPrivateKey = None, rsaPublicKey = None, dryRun = False\<rparr>"

definition sameChunkHash :: "config \<Rightarrow> config \<Rightarrow> bool" where
  "sameChunkHash c d \<longleftrightarrow> HashKey c = HashKey d"

definition sameChunkBoundaries :: "config \<Rightarrow> config \<Rightarrow> bool" where
  "sameChunkBoundaries c d \<longleftrightarrow>
     AverageChunkSize c = AverageChunkSize d \<and> MaximumChunkSize c = MaximumChunkSize d
       \<and> MinimumChunkSize c = MinimumChunkSize d \<and> ChunkSeed c = ChunkSeed d"

definition IsCompatibleWith :: "config \<Rightarrow> config \<Rightarrow> bool" where
  "IsCompatibleWith c d \<longleftrightarrow> sameChunkBoundaries c d \<and> sameChunkHash c d"

definition IsBitIdenticalWith :: "config \<Rightarrow> config \<Rightarrow> bool" where
  "IsBitIdenticalWith c d \<longleftrightarrow>
     CompressionLevel c = CompressionLevel d \<and> sameChunkHash c d \<and> IDKey c = IDKey d
       \<and> ChunkKey c = ChunkKey d \<and> DataShards c = DataShards d \<and> ParityShards c = ParityShards d
       \<and> rsaPublicKey c = None \<and> rsaPublicKey d = None"

end
