(* ===== verification/Go_Strings.thy ===== *)
theory Go_Strings
  imports Prelude
begin

text \<open>
  The functions of Go's packages \<^verbatim>\<open>strings\<close>, \<^verbatim>\<open>strconv\<close> and \<^verbatim>\<open>path\<close> that the program
  uses, on strings as lists of bytes, with the lemmas on splitting and cleaning paths that several
  components share.
\<close>

section \<open>Prefixes, suffixes, blanks\<close>

definition has_prefix :: "string \<Rightarrow> string \<Rightarrow> bool" where
  "has_prefix s pre \<longleftrightarrow> take (length pre) s = pre"

definition has_suffix :: "string \<Rightarrow> string \<Rightarrow> bool" where
  "has_suffix s suf \<longleftrightarrow> length suf \<le> length s \<and> drop (length s - length suf) s = suf"

text \<open>
  \<^verbatim>\<open>strings.TrimSpace\<close> on ASCII blanks, and the functions of packages \<^verbatim>\<open>path\<close> and \<^verbatim>\<open>filepath\<close>
  that resolve an included file.
\<close>

definition is_blank :: "char \<Rightarrow> bool" where
  "is_blank c \<longleftrightarrow> c \<in> {CHR '' '', CHR 0x09, CHR 0x0A, CHR 0x0B, CHR 0x0C, CHR 0x0D}"

definition TrimSpace :: "string \<Rightarrow> string" where
  "TrimSpace s = rev (dropWhile is_blank (rev (dropWhile is_blank s)))"

fun split_on :: "char \<Rightarrow> string \<Rightarrow> string list" where
  "split_on c [] = [[]]"
| "split_on c (x # xs) =
     (if x = c then [] # split_on c xs
      else (case split_on c xs of w # ws \<Rightarrow> (x # w) # ws | [] \<Rightarrow> [[x]]))"

fun join_with :: "char \<Rightarrow> string list \<Rightarrow> string" where
  "join_with c [] = []"
| "join_with c [w] = w"
| "join_with c (w # ws) = w @ c # join_with c ws"

fun clean_step :: "bool \<Rightarrow> string list \<Rightarrow> string \<Rightarrow> string list" where
  "clean_step rooted stack w =
     (if w = [] \<or> w = ''.'' then stack
      else if w = ''..''
      then (case stack of
              d # rest \<Rightarrow> if d = ''..'' then w # stack else rest
            | [] \<Rightarrow> if rooted then [] else [w])
      else w # stack)"

definition path_clean :: "string \<Rightarrow> string" where
  "path_clean p =
     (let rooted = has_prefix p ''/'';
          body = join_with (CHR ''/'') (rev (foldl (clean_step rooted) [] (split_on (CHR ''/'') p)))
      in if rooted then CHR ''/'' # body else if body = [] then ''.'' else body)"

definition path_dir :: "string \<Rightarrow> string" where
  "path_dir p = path_clean (rev (dropWhile (\<lambda>c. c \<noteq> CHR ''/'') (rev p)))"

definition joinPath :: "string \<Rightarrow> string \<Rightarrow> string" where
  "joinPath a b =
     (if a = [] \<and> b = [] then [] else if a = [] then path_clean b
      else if b = [] then path_clean a else path_clean (a @ CHR ''/'' # b))"

lemma has_suffix_append [simp]: "has_suffix (s @ suf) suf"
  by (simp add: has_suffix_def)

lemma has_suffix_iff: "has_suffix s suf \<longleftrightarrow> (\<exists>t. s = t @ suf)"
proof
  assume "has_suffix s suf"
  then show "\<exists>t. s = t @ suf" unfolding has_suffix_def
    by (metis append_take_drop_id)
qed auto

lemma has_prefix_append [simp]: "has_prefix (pre @ s) pre"
  by (simp add: has_prefix_def)

text \<open>\<^verbatim>\<open>strings.TrimSuffix\<close> and the removal of every occurrence of one byte.\<close>

definition TrimSuffix :: "string \<Rightarrow> string \<Rightarrow> string" where
  "TrimSuffix s suf = (if has_suffix s suf then take (length s - length suf) s else s)"

definition remove_char :: "char \<Rightarrow> string \<Rightarrow> string" where
  "remove_char c s = filter (\<lambda>x. x \<noteq> c) s"

lemma TrimSuffix_append [simp]: "TrimSuffix (s @ suf) suf = s"
  by (simp add: TrimSuffix_def)

lemma remove_char_append [simp]: "remove_char c (s @ t) = remove_char c s @ remove_char c t"
  by (simp add: remove_char_def)

lemma remove_char_id: "c \<notin> set s \<Longrightarrow> remove_char c s = s"
  by (auto simp: remove_char_def filter_id_conv)

section \<open>Clean paths\<close>

text \<open>A relative path whose components are all ordinary names is already clean.\<close>

definition plain_name :: "string \<Rightarrow> bool" where
  "plain_name w \<longleftrightarrow> w \<noteq> [] \<and> w \<noteq> ''.'' \<and> w \<noteq> ''..'' \<and> CHR ''/'' \<notin> set w"

definition plain_path :: "string \<Rightarrow> bool" where
  "plain_path p \<longleftrightarrow> (\<forall>w \<in> set (split_on (CHR ''/'') p). plain_name w)"

lemma split_on_nonempty [simp]: "split_on c s \<noteq> []"
  by (induction s) (auto split: list.split)

lemma join_split: "join_with c (split_on c s) = s"
proof (induction s)
  case (Cons x s)
  have "join_with c ((x # w) # ws) = x # join_with c (w # ws)" for w ws by (cases ws) simp_all
  with Cons show ?case by (cases "split_on c s") auto
qed simp

lemma split_on_no_sep: "c \<notin> set w \<Longrightarrow> split_on c w = [w]"
  by (induction w) auto

lemma split_on_append: "c \<notin> set w \<Longrightarrow> split_on c (w @ c # s) = w # split_on c s"
  by (induction w) (auto split: list.split)

lemma clean_steps_plain:
  "\<forall>w \<in> set ws. plain_name w \<Longrightarrow> foldl (clean_step r) st ws = rev ws @ st"
  by (induction ws arbitrary: st) (auto simp: plain_name_def)

lemma plain_path_nonempty:
  assumes "plain_path p"
  shows "p \<noteq> []"
proof
  assume "p = []"
  then have "[] \<in> set (split_on (CHR ''/'') p)" by simp
  then show False using assms unfolding plain_path_def plain_name_def by blast
qed

lemma path_clean_plain:
  assumes "plain_path p"
  shows "path_clean p = p"
proof -
  note ne = plain_path_nonempty [OF assms]
  have "hd p \<noteq> CHR ''/''"
  proof (cases p)
    case (Cons x q)
    show ?thesis
    proof
      assume "hd p = CHR ''/''"
      then have "[] \<in> set (split_on (CHR ''/'') p)" using Cons by simp
      then show False using assms unfolding plain_path_def plain_name_def by blast
    qed
  qed (use ne in simp)
  then have "\<not> has_prefix p ''/''" using ne by (cases p) (auto simp: has_prefix_def)
  moreover have "foldl (clean_step False) [] (split_on (CHR ''/'') p) = rev (split_on (CHR ''/'') p)"
    using clean_steps_plain [of "split_on (CHR ''/'') p" False "[]"] assms by (simp add: plain_path_def)
  ultimately show ?thesis using ne by (simp add: path_clean_def join_split)
qed

lemma split_on_sep: "split_on c (q @ c # s) = split_on c q @ split_on c s"
  by (induction q) (auto split: list.splits)

lemma plain_path_append: "plain_path (q @ CHR ''/'' # s) \<longleftrightarrow> plain_path q \<and> plain_path s"
  unfolding plain_path_def split_on_sep by auto

lemma path_dir_plain:
  assumes "plain_path (q @ CHR ''/'' # w)" and "CHR ''/'' \<notin> set w"
  shows "path_dir (q @ CHR ''/'' # w) = q"
proof -
  have q: "plain_path q" using assms(1) by (simp add: plain_path_append)
  have "dropWhile (\<lambda>c. c \<noteq> CHR ''/'') (rev w @ CHR ''/'' # rev q) = CHR ''/'' # rev q"
    using assms(2) by (subst dropWhile_append2) auto
  then have "path_dir (q @ CHR ''/'' # w) = path_clean (q @ ''/'')" by (simp add: path_dir_def)
  moreover have "path_clean (q @ ''/'') = path_clean q"
    using plain_path_nonempty [OF q] split_on_sep [of "CHR ''/''" q "[]"]
    by (cases q) (simp_all add: path_clean_def has_prefix_def)
  ultimately show ?thesis using path_clean_plain [OF q] by simp
qed

lemma join_with_append:
  "vs \<noteq> [] \<Longrightarrow> ws \<noteq> [] \<Longrightarrow> join_with c (vs @ ws) = join_with c vs @ c # join_with c ws"
proof (induction c vs rule: join_with.induct)
  case (2 c v)
  then show ?case by (cases ws) simp_all
qed simp_all

lemma plain_path_letters: "plain_path p \<Longrightarrow> remove_char (CHR ''/'') p \<noteq> []"
proof
  assume p: "plain_path p" and "remove_char (CHR ''/'') p = []"
  then have "set p \<subseteq> {CHR ''/''}" by (auto simp: remove_char_def filter_empty_conv)
  then have "hd p = CHR ''/''" using plain_path_nonempty [OF p] by (cases p) auto
  then have "[] \<in> set (split_on (CHR ''/'') p)" using plain_path_nonempty [OF p] by (cases p) auto
  then show False using p unfolding plain_path_def plain_name_def by blast
qed

section \<open>Decimal numbers\<close>

text \<open>\<^verbatim>\<open>strconv.Itoa\<close> and \<^verbatim>\<open>strconv.Atoi\<close> for the 64-bit \<^verbatim>\<open>int\<close>.\<close>

definition digit :: "nat \<Rightarrow> char" where
  "digit n = char_of (48 + n)"

definition digit_value :: "char \<Rightarrow> nat option" where
  "digit_value c = (let n = of_char c :: nat in if 48 \<le> n \<and> n \<le> 57 then Some (n - 48) else None)"

fun decimal :: "nat \<Rightarrow> string" where
  "decimal n = (if n < 10 then [digit n] else decimal (n div 10) @ [digit (n mod 10)])"

declare decimal.simps [simp del]

definition Itoa :: "int \<Rightarrow> string" where
  "Itoa i = (if i < 0 then CHR ''-'' # decimal (nat (- i)) else decimal (nat i))"

fun read_decimal :: "nat \<Rightarrow> string \<Rightarrow> nat option" where
  "read_decimal n [] = Some n"
| "read_decimal n (c # cs) =
     (case digit_value c of None \<Rightarrow> None | Some d \<Rightarrow> read_decimal (10 * n + d) cs)"

definition max_int :: int where
  "max_int = 2 ^ 63 - 1"

definition Atoi :: "string \<Rightarrow> int option" where
  "Atoi s =
     (let neg = (s \<noteq> [] \<and> hd s = CHR ''-'');
          ds = (if s \<noteq> [] \<and> (hd s = CHR ''-'' \<or> hd s = CHR ''+'') then tl s else s)
      in if ds = [] then None
         else case read_decimal 0 ds of
                None \<Rightarrow> None
              | Some n \<Rightarrow>
                  (let i = (if neg then - int n else int n)
                   in if - max_int - 1 \<le> i \<and> i \<le> max_int then Some i else None))"

lemma digit_value_digit [simp]: "d < 10 \<Longrightarrow> digit_value (digit d) = Some d"
  by (simp add: digit_value_def digit_def Let_def)

lemma read_decimal_append:
  "read_decimal n (xs @ ys) = (case read_decimal n xs of None \<Rightarrow> None | Some m \<Rightarrow> read_decimal m ys)"
  by (induction xs arbitrary: n) (auto split: option.split)

lemma read_decimal_decimal: "read_decimal 0 (decimal n) = Some n"
proof (induction n rule: decimal.induct)
  case (1 n)
  then show ?case by (subst decimal.simps) (auto simp: read_decimal_append)
qed

lemma decimal_digits: "c \<in> set (decimal n) \<Longrightarrow> \<exists>d < 10. c = digit d"
proof (induction n rule: decimal.induct)
  case (1 n)
  have "n mod 10 < 10" by simp
  with 1 show ?case by (subst (asm) (2) decimal.simps) (force split: if_splits)
qed

lemma decimal_nonempty [simp]: "decimal n \<noteq> []"
  by (subst decimal.simps) simp

lemma digit_not_sign: "d < 10 \<Longrightarrow> digit d \<notin> {CHR ''-'', CHR ''+'', CHR ''/'', CHR '':'', CHR ''.''}"
proof -
  assume "d < 10"
  then have "(of_char (digit d) :: nat) = 48 + d" by (simp add: digit_def)
  then have "digit d \<noteq> c" if "(of_char c :: nat) < 48 \<or> 57 < (of_char c :: nat)" for c
    using that \<open>d < 10\<close> by auto
  then show ?thesis by simp
qed

lemma hd_decimal: "hd (decimal n) \<notin> {CHR ''-'', CHR ''+'', CHR ''/'', CHR '':'', CHR ''.''}"
  using decimal_digits [OF hd_in_set [OF decimal_nonempty]] digit_not_sign by metis

lemma Atoi_Itoa:
  assumes "- max_int - 1 \<le> i" "i \<le> max_int"
  shows "Atoi (Itoa i) = Some i"
  using assms hd_decimal [of "nat i"]
  by (auto simp: Atoi_def Itoa_def read_decimal_decimal Let_def)

section \<open>Strings as bytes\<close>

text \<open>Go converts freely between \<^verbatim>\<open>string\<close> and \<^verbatim>\<open>[]byte\<close>; hashes are strings of arbitrary bytes.\<close>

definition bytes_of :: "string \<Rightarrow> bytes" where
  "bytes_of s = map (\<lambda>c. word_of_nat (of_char c)) s"

definition string_of :: "bytes \<Rightarrow> string" where
  "string_of b = map (\<lambda>w. char_of (unat w)) b"

lemma string_of_bytes_of [simp]: "string_of (bytes_of s) = s"
  by (induction s) (simp_all add: string_of_def bytes_of_def unat_of_nat)

lemma bytes_of_string_of [simp]: "bytes_of (string_of b) = b"
proof (induction b)
  case (Cons w b)
  have "unat w < 256" using unsigned_less [of w] by simp
  with Cons show ?case by (simp add: string_of_def bytes_of_def)
qed (simp add: string_of_def bytes_of_def)

lemma length_bytes_of [simp]: "length (bytes_of s) = length s" "length (string_of b) = length b"
  by (simp_all add: bytes_of_def string_of_def)

definition hex_digit :: "nat \<Rightarrow> char" where
  "hex_digit n = ''0123456789abcdef'' ! n"

definition hex_encode :: "string \<Rightarrow> string" where
  "hex_encode s = concat (map (\<lambda>c. [hex_digit (of_char c div 16), hex_digit (of_char c mod 16)]) s)"

text \<open>Little-endian numbers of \<open>k\<close> bytes.\<close>

definition le_bytes :: "nat \<Rightarrow> nat \<Rightarrow> bytes" where
  "le_bytes k n = map (\<lambda>i. word_of_nat (n div 256 ^ i)) [0..<k]"

fun from_le :: "bytes \<Rightarrow> nat" where
  "from_le [] = 0"
| "from_le (b # bs) = unat b + 256 * from_le bs"

lemma length_le_bytes [simp]: "length (le_bytes k n) = k"
  by (simp add: le_bytes_def)

lemma le_bytes_Suc: "le_bytes (Suc k) n = word_of_nat n # le_bytes k (n div 256)"
  by (simp add: le_bytes_def upt_conv_Cons map_Suc_upt [symmetric] comp_def div_mult2_eq [symmetric] del: upt_Suc)

lemma le_bytes_code [code]: "le_bytes 0 n = []" "le_bytes (Suc k) n = word_of_nat n # le_bytes k (n div 256)"
  by (simp add: le_bytes_def) (rule le_bytes_Suc)

lemma from_le_le_bytes: "n < 256 ^ k \<Longrightarrow> from_le (le_bytes k n) = n"
proof (induction k arbitrary: n)
  case (Suc k)
  then have "n div 256 < 256 ^ k" by (simp add: less_mult_imp_div_less)
  then show ?case using Suc.IH by (simp add: le_bytes_Suc unat_of_nat)
qed (simp add: le_bytes_def)

end
