(* ===== verification/Chunk_Maker.thy ===== *)
theory Chunk_Maker
  imports Buzhash Ring_Buffer Config Go_Strings
begin

unbundle bit_operations_syntax

text \<open>
  The chunk maker (\<^verbatim>\<open>src/src/duplicacy_chunkmaker.go\<close>): its state, its construction from the
  configuration, and \<^verbatim>\<open>AddData\<close> in its fixed-size and its variable-size form.  The chunks handed
  to \<^verbatim>\<open>sendChunk\<close> are returned in the order they are sent, each as the bytes written to it.
\<close>

section \<open>State and construction\<close>

record chunk_maker = ring +
  maximumChunkSize :: nat
  minimumChunkSize :: nat
  hashMask :: "64 word"
  randomTable :: rand_table
  minimumReached :: bool
  hashSum :: "64 word"
  chunk :: bytes

datatype create_error = InvalidChunkSize int | NegativeLength int

text \<open>The loop \<^verbatim>\<open>for size*2 <= averageChunkSize\<close>, entered with \<open>size = 1\<close>.\<close>

function grow_size :: "int \<Rightarrow> int \<Rightarrow> int" where
  "grow_size averageChunkSize sz =
     (if sz * 2 \<le> averageChunkSize \<and> 0 < sz
      then grow_size averageChunkSize (sz * 2) else sz)"
  by pat_completeness auto
termination
  by (relation "measure (\<lambda>(a, s). nat (a - s))") auto

declare grow_size.simps [simp del]

definition startNewChunk :: "chunk_maker \<Rightarrow> chunk_maker" where
  "startNewChunk m = m\<lparr>hashSum := 0, minimumReached := False, chunk := []\<rparr>"

definition CreateFileChunkMaker ::
  "(bytes \<Rightarrow> bytes) \<Rightarrow> config \<Rightarrow> create_error + chunk_maker" where
  "CreateFileChunkMaker sha256 cfg =
     (if grow_size (AverageChunkSize cfg) 1 \<noteq> AverageChunkSize cfg
      then Inl (InvalidChunkSize (AverageChunkSize cfg))
      else if MinimumChunkSize cfg < 0
      then Inl (NegativeLength (2 * MinimumChunkSize cfg))
      else Inr (startNewChunk
        \<lparr>buffer = replicate (nat (2 * MinimumChunkSize cfg)) 0,
         bufferCapacity = nat (2 * MinimumChunkSize cfg),
         bufferStart = 0, bufferSize = 0,
         maximumChunkSize = nat (MaximumChunkSize cfg),
         minimumChunkSize = nat (MinimumChunkSize cfg),
         hashMask = of_int (AverageChunkSize cfg - 1),
         randomTable = randomTable_of sha256 (ChunkSeed cfg),
         minimumReached = False, hashSum = 0, chunk = []\<rparr>))"

definition CreateMetaDataChunkMaker ::
  "(bytes \<Rightarrow> bytes) \<Rightarrow> config \<Rightarrow> int \<Rightarrow> create_error + chunk_maker" where
  "CreateMetaDataChunkMaker sha256 cfg chunkSize =
     (if grow_size chunkSize 1 \<noteq> chunkSize then Inl (InvalidChunkSize chunkSize)
      else case CreateFileChunkMaker sha256 cfg of
        Inl e \<Rightarrow> Inl e
      | Inr m \<Rightarrow> Inr (m\<lparr>hashMask := of_int (chunkSize - 1),
          maximumChunkSize := nat (chunkSize * 4),
          minimumChunkSize := nat (chunkSize div 4),
          bufferCapacity := nat (2 * (chunkSize div 4)),
          buffer := replicate (nat (2 * (chunkSize div 4))) 0\<rparr>))"

section \<open>Readers\<close>

text \<open>
  An \<^verbatim>\<open>io.Reader\<close> is the list of what its underlying source delivers: bytes, the last bytes
  together with \<^verbatim>\<open>io.EOF\<close>, or an error.  A read of at most \<open>n\<close> bytes never returns more than
  \<open>n\<close>, may return fewer (none included), and reports \<^verbatim>\<open>io.EOF\<close> for ever at the end, which is
  the contract of \<^verbatim>\<open>io.Reader\<close>.
\<close>

datatype read_event = Data bytes | LastData bytes | ReadFail string

datatype read_err = NoErr | EOF | Failed string

type_synonym reader = "read_event list"

fun reader_read :: "reader \<Rightarrow> nat \<Rightarrow> bytes \<times> read_err \<times> reader" where
  "reader_read [] n = ([], EOF, [])"
| "reader_read (Data bs # rd) n =
     (if length bs \<le> n then (bs, NoErr, rd) else (take n bs, NoErr, Data (drop n bs) # rd))"
| "reader_read (LastData bs # rd) n =
     (if length bs \<le> n then (bs, EOF, []) else (take n bs, NoErr, LastData (drop n bs) # rd))"
| "reader_read (ReadFail e # rd) n = ([], Failed e, [])"

section \<open>AddData\<close>

text \<open>
  \<^verbatim>\<open>LOG_WERROR\<close> panics unless the error is the Windows error of a cloud-only file, in which case
  \<^verbatim>\<open>AddData\<close> returns a size of -1 with the sentinel.  \<open>windows\<close> stands for the build's
  \<^verbatim>\<open>runtime.GOOS\<close>.
\<close>

datatype add_result = Returned int string string | Panicked string

definition cloudFileFailure :: string where
  "cloudFileFailure = ''CLOUD_FILE_FAILURE''"

definition isCloudFileError :: "bool \<Rightarrow> string \<Rightarrow> bool" where
  "isCloudFileError windows err \<longleftrightarrow>
     windows \<and> has_suffix err '' Access to the cloud file is denied.''"

definition read_failure :: "bool \<Rightarrow> string \<Rightarrow> add_result" where
  "read_failure windows err =
     (if isCloudFileError windows err then Returned (-1) [] cloudFileFailure else Panicked err)"

text \<open>The closure \<^verbatim>\<open>fill\<close> together with the chunk it writes to.\<close>

definition fill_chunk :: "nat \<Rightarrow> chunk_maker \<Rightarrow> chunk_maker" where
  "fill_chunk count m = (case fill count m of (bs, m') \<Rightarrow> m'\<lparr>chunk := chunk m' @ bs\<rparr>)"

text \<open>
  The read loop.  It returns the maker, the reader, whether the end was seen, the file size, the
  bytes given to the file hasher, and the error that ended it, if one did.
\<close>

partial_function (option) read_loop ::
  "chunk_maker \<Rightarrow> reader \<Rightarrow> bool \<Rightarrow> nat \<Rightarrow> bytes
    \<Rightarrow> (chunk_maker \<times> reader \<times> bool \<times> nat \<times> bytes \<times> string option) option" where
  "read_loop m rd isEOF fileSize hashed =
     (if bufferSize m < bufferCapacity m \<and> \<not> isEOF
      then (case reader_read rd (snd (free_region m)) of (bs, err, rd') \<Rightarrow>
        (case err of
           Failed e \<Rightarrow> Some (m, rd', isEOF, fileSize, hashed, Some e)
         | EOF \<Rightarrow> Some (store bs m, rd', True, fileSize + length bs, hashed @ bs, None)
         | NoErr \<Rightarrow> read_loop (store bs m) rd' isEOF (fileSize + length bs) (hashed @ bs)))
      else Some (m, rd, isEOF, fileSize, hashed, None))"

text \<open>The hash of the first \<^verbatim>\<open>minimumChunkSize\<close> bytes, over the two segments of the buffer.\<close>

definition minimum_hash :: "chunk_maker \<Rightarrow> 64 word" where
  "minimum_hash m =
     (let bytes = minimumChunkSize m in
      if bufferStart m + bytes < bufferCapacity m
      then buzhashSum (randomTable m) 0 (subslice (bufferStart m) (bufferStart m + bytes) (buffer m))
      else buzhashSum (randomTable m)
             (buzhashSum (randomTable m) 0 (drop (bufferStart m) (buffer m)))
             (take (bytes - (bufferCapacity m - bufferStart m)) (buffer m)))"

text \<open>
  The scanning loop \<^verbatim>\<open>for i := 0; i < bytes; i++\<close>: the index at which a chunk is completed, if one
  is, and the rolling hash it stops with.
\<close>

function scan :: "chunk_maker \<Rightarrow> nat \<Rightarrow> int \<Rightarrow> nat \<Rightarrow> 64 word \<Rightarrow> nat option \<times> 64 word" where
  "scan m bytes maxSize i h =
     (if i < bytes
      then (let h' = buzhashUpdate (randomTable m) h (ring_byte m i)
                       (ring_byte m (i + minimumChunkSize m)) (minimumChunkSize m)
            in if h' AND hashMask m = 0 \<or> int i = maxSize - int (minimumChunkSize m) - 1
               then (Some i, h') else scan m bytes maxSize (Suc i) h')
      else (None, h))"
  by pat_completeness auto
termination
  by (relation "measure (\<lambda>(m, bytes, maxSize, i, h). bytes - i)") auto

declare scan.simps [simp del]

text \<open>
  The body of the outer loop after the reads: the maker, the chunks sent, and whether the loop goes
  on, returns because of the end of the file, or returns because the flush is complete.
\<close>

datatype loop_exit = Continue | ReturnEOF | ReturnFlush

definition chunk_step :: "bool \<Rightarrow> bool \<Rightarrow> chunk_maker \<Rightarrow> chunk_maker \<times> bytes list \<times> loop_exit" where
  "chunk_step nilReader isEOF m =
     (if bufferSize m < minimumChunkSize m
      then (if nilReader
            then (let m' = fill_chunk (bufferSize m) m
                  in (m', if chunk m' \<noteq> [] then [chunk m'] else [], ReturnFlush))
            else if isEOF then (m, [], ReturnEOF)
            else (m, [], Continue))
      else
        (let m1 = (if minimumReached m then m else m\<lparr>hashSum := minimum_hash m\<rparr>) in
         if \<not> minimumReached m \<and> hashSum m1 AND hashMask m1 = 0
         then (let m2 = fill_chunk (minimumChunkSize m) m1
               in (startNewChunk m2, [chunk m2], Continue))
         else
           (let m2 = m1\<lparr>minimumReached := True\<rparr>;
                bytes = bufferSize m2 - minimumChunkSize m2;
                maxSize = int (maximumChunkSize m2) - int (length (chunk m2));
                (found, h) = scan m2 bytes maxSize 0 (hashSum m2);
                m3 = m2\<lparr>hashSum := h\<rparr>
            in case found of
                 Some i \<Rightarrow>
                   (let m4 = fill_chunk (i + 1 + minimumChunkSize m3) m3
                    in (startNewChunk m4, [chunk m4], if isEOF then ReturnEOF else Continue))
               | None \<Rightarrow>
                   (let m4 = fill_chunk bytes m3 in
                    if nilReader
                    then (let m5 = fill_chunk (minimumChunkSize m4) m4
                          in (startNewChunk m5, [chunk m5], ReturnFlush))
                    else (m4, [], if isEOF then ReturnEOF else Continue)))))"

partial_function (option) add_loop ::
  "bool \<Rightarrow> (bytes \<Rightarrow> string) \<Rightarrow> chunk_maker \<Rightarrow> reader option \<Rightarrow> bool \<Rightarrow> nat \<Rightarrow> bytes \<Rightarrow> bytes list
    \<Rightarrow> (chunk_maker \<times> bytes list \<times> add_result) option" where
  "add_loop windows fileHash m reader isEOF fileSize hashed sent =
     (case (case reader of
              None \<Rightarrow> Some (m, [], isEOF, fileSize, hashed, None)
            | Some rd \<Rightarrow> read_loop m rd isEOF fileSize hashed) of
        None \<Rightarrow> None
      | Some (m1, rd1, isEOF1, fileSize1, hashed1, failure) \<Rightarrow>
          (case failure of
             Some e \<Rightarrow> Some (m1, sent, read_failure windows e)
           | None \<Rightarrow>
               (case chunk_step (reader = None) isEOF1 m1 of (m2, out, exit) \<Rightarrow>
                  (case exit of
                     ReturnFlush \<Rightarrow> Some (m2, sent @ out, Returned 0 [] [])
                   | ReturnEOF \<Rightarrow>
                       Some (m2, sent @ out, Returned (int fileSize1) (fileHash hashed1) [])
                   | Continue \<Rightarrow>
                       add_loop windows fileHash m2 (map_option (\<lambda>_. rd1) reader) isEOF1
                         fileSize1 hashed1 (sent @ out)))))"

text \<open>The fixed-size form: each chunk is read into the front of the buffer.\<close>

partial_function (option) fixed_read ::
  "chunk_maker \<Rightarrow> reader \<Rightarrow> bool \<Rightarrow> (chunk_maker \<times> reader \<times> bool \<times> string option) option" where
  "fixed_read m rd isEOF =
     (if bufferStart m < minimumChunkSize m \<and> \<not> isEOF
      then (case reader_read rd (minimumChunkSize m - bufferStart m) of (bs, err, rd') \<Rightarrow>
        (let m' = m\<lparr>buffer := overwrite (bufferStart m) bs (buffer m),
                    bufferStart := bufferStart m + length bs\<rparr>
         in case err of
              Failed e \<Rightarrow> Some (m, rd', isEOF, Some e)
            | EOF \<Rightarrow> fixed_read m' rd' True
            | NoErr \<Rightarrow> fixed_read m' rd' isEOF))
      else Some (m, rd, isEOF, None))"

partial_function (option) fixed_loop ::
  "bool \<Rightarrow> (bytes \<Rightarrow> string) \<Rightarrow> chunk_maker \<Rightarrow> reader \<Rightarrow> nat \<Rightarrow> bytes \<Rightarrow> bytes list
    \<Rightarrow> (chunk_maker \<times> bytes list \<times> add_result) option" where
  "fixed_loop windows fileHash m rd fileSize hashed sent =
     (case fixed_read ((startNewChunk m)\<lparr>bufferStart := 0\<rparr>) rd False of
        None \<Rightarrow> None
      | Some (m1, rd1, isEOF, failure) \<Rightarrow>
          (case failure of
             Some e \<Rightarrow> Some (m1, sent, read_failure windows e)
           | None \<Rightarrow>
               (let bs = take (bufferStart m1) (buffer m1);
                    m2 = (if 0 < bufferStart m1 then m1\<lparr>chunk := chunk m1 @ bs\<rparr> else m1);
                    out = (if 0 < bufferStart m1 then [chunk m2] else [])
                in if isEOF
                   then Some (m2, sent @ out,
                          Returned (int (fileSize + length bs)) (fileHash (hashed @ bs)) [])
                   else fixed_loop windows fileHash m2 rd1 (fileSize + length bs) (hashed @ bs)
                          (sent @ out))))"

definition AddData ::
  "bool \<Rightarrow> (bytes \<Rightarrow> string) \<Rightarrow> chunk_maker \<Rightarrow> reader option
    \<Rightarrow> (chunk_maker \<times> bytes list \<times> add_result) option" where
  "AddData windows fileHash m reader =
     (if minimumChunkSize m = maximumChunkSize m
      then (case reader of
              None \<Rightarrow> Some (m, [], Returned 0 [] [])
            | Some rd \<Rightarrow> fixed_loop windows fileHash m rd 0 [] [])
      else add_loop windows fileHash m reader False 0 [] [])"

end
