(* ===== verification/Reference_Chunker.thy ===== *)
theory Reference_Chunker
  imports Buzhash
begin

unbundle bit_operations_syntax

text \<open>
  What content-defined chunking promises, stated on the whole byte stream without buffers or
  rolling state: the first cut at or after the minimum size is where the hash of the last
  \<open>mn\<close> bytes has the masked bits zero, or where the maximum size is reached.  The fixed-size form
  cuts every \<open>n\<close> bytes.
\<close>

section \<open>The reference chunker\<close>

definition is_cut :: "rand_table \<Rightarrow> 64 word \<Rightarrow> nat \<Rightarrow> nat \<Rightarrow> bytes \<Rightarrow> nat \<Rightarrow> bool" where
  "is_cut t msk mn mx data n \<longleftrightarrow>
     buzhashSum t 0 (subslice (n - mn) n data) AND msk = 0 \<or> mn < n \<and> n = mx"

definition spec_cut :: "rand_table \<Rightarrow> 64 word \<Rightarrow> nat \<Rightarrow> nat \<Rightarrow> bytes \<Rightarrow> nat option" where
  "spec_cut t msk mn mx data = List.find (is_cut t msk mn mx data) [mn..<Suc (length data)]"

lemma find_upt_Some:
  "List.find P [a..<b] = Some n \<longleftrightarrow> a \<le> n \<and> n < b \<and> P n \<and> (\<forall>k. a \<le> k \<and> k < n \<longrightarrow> \<not> P k)"
proof (induction "b - a" arbitrary: a)
  case 0
  then show ?case by auto
next
  case (Suc d)
  then have "a < b" and IH: "List.find P [Suc a..<b] = Some n \<longleftrightarrow> Suc a \<le> n \<and> n < b \<and> P n
      \<and> (\<forall>k. Suc a \<le> k \<and> k < n \<longrightarrow> \<not> P k)"
    by auto
  then show ?case
    by (auto simp: upt_conv_Cons Suc_le_eq) (metis le_neq_implies_less)+
qed

lemma find_upt_None: "List.find P [a..<b] = None \<longleftrightarrow> (\<forall>k. a \<le> k \<and> k < b \<longrightarrow> \<not> P k)"
  by (auto simp: find_None_iff)

lemma spec_cut_Some:
  "spec_cut t msk mn mx data = Some n \<longleftrightarrow>
     mn \<le> n \<and> n \<le> length data \<and> is_cut t msk mn mx data n
       \<and> (\<forall>k. mn \<le> k \<and> k < n \<longrightarrow> \<not> is_cut t msk mn mx data k)"
  by (auto simp: spec_cut_def find_upt_Some less_Suc_eq_le simp del: upt_Suc)

lemma spec_cut_None:
  "spec_cut t msk mn mx data = None \<longleftrightarrow>
     (\<forall>k. mn \<le> k \<and> k \<le> length data \<longrightarrow> \<not> is_cut t msk mn mx data k)"
  by (auto simp: spec_cut_def find_upt_None less_Suc_eq_le simp del: upt_Suc)

function spec_split ::
  "rand_table \<Rightarrow> 64 word \<Rightarrow> nat \<Rightarrow> nat \<Rightarrow> bytes \<Rightarrow> bytes list \<times> bytes" where
  "spec_split t msk mn mx data =
     (case spec_cut t msk mn mx data of
        None \<Rightarrow> ([], data)
      | Some n \<Rightarrow>
          if n = 0 then ([], data)
          else (case spec_split t msk mn mx (drop n data) of (cs, r) \<Rightarrow> (take n data # cs, r)))"
  by pat_completeness auto
termination
  by (relation "measure (\<lambda>(t, msk, mn, mx, data). length data)") (auto simp: spec_cut_Some)

declare spec_split.simps [simp del]

definition spec_chunks :: "rand_table \<Rightarrow> 64 word \<Rightarrow> nat \<Rightarrow> nat \<Rightarrow> bytes \<Rightarrow> bytes list" where
  "spec_chunks t msk mn mx data =
     (case spec_split t msk mn mx data of (cs, r) \<Rightarrow> cs @ (if r = [] then [] else [r]))"

lemma is_cut_append:
  "n \<le> length data \<Longrightarrow> is_cut t msk mn mx (data @ later) n = is_cut t msk mn mx data n"
  by (simp add: is_cut_def subslice_append_left)

lemma spec_cut_append:
  "spec_cut t msk mn mx data = Some n \<Longrightarrow> spec_cut t msk mn mx (data @ later) = Some n"
  by (auto simp: spec_cut_Some is_cut_append)

lemma spec_split_cut:
  "spec_cut t msk mn mx data = Some n \<Longrightarrow> 0 < n \<Longrightarrow>
     spec_split t msk mn mx data =
       (take n data # fst (spec_split t msk mn mx (drop n data)),
        snd (spec_split t msk mn mx (drop n data)))"
  by (subst spec_split.simps) (simp split: prod.split)

lemma spec_split_no_cut:
  "spec_cut t msk mn mx data = None \<Longrightarrow> spec_split t msk mn mx data = ([], data)"
  by (subst spec_split.simps) simp

text \<open>Splitting is incremental: what is split off a prefix stays split off.\<close>

lemma spec_split_append:
  "spec_split t msk mn mx data = (cs, r) \<Longrightarrow>
     spec_split t msk mn mx (data @ later) =
       (cs @ fst (spec_split t msk mn mx (r @ later)), snd (spec_split t msk mn mx (r @ later)))"
proof (induction t msk mn mx data arbitrary: cs rule: spec_split.induct)
  case (1 t msk mn mx data)
  show ?case
  proof (cases "spec_cut t msk mn mx data")
    case None
    then show ?thesis using "1.prems" by (simp add: spec_split_no_cut)
  next
    case (Some n)
    show ?thesis
    proof (cases "n = 0")
      case True
      then show ?thesis using "1.prems" Some by (simp add: spec_split.simps [of t msk mn mx data])
    next
      case False
      then have n: "0 < n" "n \<le> length data" using Some by (auto simp: spec_cut_Some)
      obtain cs' where cs': "spec_split t msk mn mx (drop n data) = (cs', r)"
        and cs: "cs = take n data # cs'"
        using "1.prems" spec_split_cut [OF Some n(1)] by (cases "spec_split t msk mn mx (drop n data)") simp
      have "spec_split t msk mn mx (drop n data @ later) =
         (cs' @ fst (spec_split t msk mn mx (r @ later)), snd (spec_split t msk mn mx (r @ later)))"
        using "1.IH" [OF Some False cs'] .
      then show ?thesis
        using spec_split_cut [OF spec_cut_append [OF Some, of later] n(1)] n(2) cs by simp
    qed
  qed
qed

lemma spec_split_concat:
  "spec_split t msk mn mx data = (cs, r) \<Longrightarrow> concat cs @ r = data"
proof (induction t msk mn mx data arbitrary: cs rule: spec_split.induct)
  case (1 t msk mn mx data)
  then show ?case
    by (subst (asm) (2) spec_split.simps)
      (auto split: option.splits if_splits prod.splits)
qed

lemma spec_chunks_concat: "concat (spec_chunks t msk mn mx data) = data"
  using spec_split_concat [of t msk mn mx data]
  by (cases "spec_split t msk mn mx data") (auto simp: spec_chunks_def)

lemma spec_cut_bounds:
  assumes "spec_cut t msk mn mx data = Some n" "mn < mx"
  shows "mn \<le> n" "n \<le> mx"
proof -
  show "mn \<le> n" using assms by (simp add: spec_cut_Some)
  show "n \<le> mx"
  proof (rule ccontr)
    assume "\<not> n \<le> mx"
    then have "\<not> is_cut t msk mn mx data mx" using assms by (auto simp: spec_cut_Some)
    then show False using assms(2) by (simp add: is_cut_def)
  qed
qed

lemma spec_cut_None_short:
  assumes "spec_cut t msk mn mx data = None" "mn < mx"
  shows "length data < mx"
proof (rule ccontr)
  assume "\<not> length data < mx"
  then have "\<not> is_cut t msk mn mx data mx" using assms by (auto simp: spec_cut_None)
  then show False using assms(2) by (simp add: is_cut_def)
qed

lemma spec_split_bounds:
  "spec_split t msk mn mx data = (cs, r) \<Longrightarrow> 0 < mn \<Longrightarrow> mn < mx \<Longrightarrow>
     (\<forall>c \<in> set cs. mn \<le> length c \<and> length c \<le> mx) \<and> length r < mx"
proof (induction t msk mn mx data arbitrary: cs rule: spec_split.induct)
  case (1 t msk mn mx data)
  show ?case
  proof (cases "spec_cut t msk mn mx data")
    case None
    then show ?thesis
      using "1.prems" spec_cut_None_short by (auto simp: spec_split_no_cut)
  next
    case (Some n)
    have n: "mn \<le> n" "n \<le> mx" "n \<le> length data"
      using spec_cut_bounds [OF Some "1.prems"(3)] Some by (auto simp: spec_cut_Some)
    then have pos: "0 < n" using "1.prems"(2) by simp
    obtain cs' where cs': "spec_split t msk mn mx (drop n data) = (cs', r)"
      and cs: "cs = take n data # cs'"
      using "1.prems"(1) spec_split_cut [OF Some pos] by (cases "spec_split t msk mn mx (drop n data)") simp
    show ?thesis
      using "1.IH" [OF Some _ cs' "1.prems"(2,3)] pos n cs by simp
  qed
qed

end
