(* ===== verification/Chunking.thy ===== *)
theory Chunking
  imports Chunk_Maker Reference_Chunker
begin

unbundle bit_operations_syntax

text \<open>
  The chunk maker refines the reference chunker.  \<open>pending\<close> is the abstraction (the bytes
  accepted and not yet sent), \<open>maker_inv\<close> the invariant, and every round of \<open>AddData\<close> takes a
  prefix of the reference cuts off the pending stream, whatever sizes the reader returns.
\<close>

section \<open>The chunk maker refines the reference chunker\<close>

definition pending :: "chunk_maker \<Rightarrow> bytes" where
  "pending m = chunk m @ contents m"

abbreviation maker_cut :: "chunk_maker \<Rightarrow> bytes \<Rightarrow> nat \<Rightarrow> bool" where
  "maker_cut m \<equiv> is_cut (randomTable m) (hashMask m) (minimumChunkSize m) (maximumChunkSize m)"

abbreviation maker_split :: "chunk_maker \<Rightarrow> bytes \<Rightarrow> bytes list \<times> bytes" where
  "maker_split m \<equiv> spec_split (randomTable m) (hashMask m) (minimumChunkSize m) (maximumChunkSize m)"

abbreviation window_hash :: "chunk_maker \<Rightarrow> nat \<Rightarrow> 64 word" where
  "window_hash m i \<equiv>
     buzhashSum (randomTable m) 0 (subslice i (i + minimumChunkSize m) (pending m))"

definition maker_inv :: "chunk_maker \<Rightarrow> bool" where
  "maker_inv m \<longleftrightarrow>
     ring_inv m \<and> bufferCapacity m = 2 * minimumChunkSize m \<and> 0 < minimumChunkSize m
     \<and> minimumChunkSize m < maximumChunkSize m
     \<and> (if minimumReached m
        then minimumChunkSize m \<le> bufferSize m
          \<and> length (chunk m) + minimumChunkSize m < maximumChunkSize m
          \<and> hashSum m = window_hash m (length (chunk m))
          \<and> (\<forall>n. minimumChunkSize m \<le> n \<and> n \<le> length (chunk m) + minimumChunkSize m
               \<longrightarrow> \<not> maker_cut m (pending m) n)
        else chunk m = [])"

definition same_params :: "chunk_maker \<Rightarrow> chunk_maker \<Rightarrow> bool" where
  "same_params m m' \<longleftrightarrow>
     minimumChunkSize m' = minimumChunkSize m \<and> maximumChunkSize m' = maximumChunkSize m
     \<and> hashMask m' = hashMask m \<and> randomTable m' = randomTable m"

lemma same_params_refl [simp]: "same_params m m"
  by (simp add: same_params_def)

lemma same_params_trans: "same_params a b \<Longrightarrow> same_params b c \<Longrightarrow> same_params a c"
  by (simp add: same_params_def)

lemma same_params_split: "same_params m m' \<Longrightarrow> maker_split m' = maker_split m"
  by (simp add: same_params_def)

text \<open>Moving bytes from the buffer to the chunk does not change the pending stream.\<close>

lemma fill_chunk_fields [simp]:
  "bufferCapacity (fill_chunk n m) = bufferCapacity m"
  "bufferSize (fill_chunk n m) = bufferSize m - n"
  "maximumChunkSize (fill_chunk n m) = maximumChunkSize m"
  "minimumChunkSize (fill_chunk n m) = minimumChunkSize m"
  "hashMask (fill_chunk n m) = hashMask m"
  "randomTable (fill_chunk n m) = randomTable m"
  "minimumReached (fill_chunk n m) = minimumReached m"
  "hashSum (fill_chunk n m) = hashSum m"
  by (simp_all add: fill_chunk_def fill_def)

lemma ring_upd [simp]:
  "ring_inv (m\<lparr>chunk := c\<rparr>) = ring_inv m" "contents (m\<lparr>chunk := c\<rparr>) = contents m"
  "ring_inv (m\<lparr>hashSum := h\<rparr>) = ring_inv m" "contents (m\<lparr>hashSum := h\<rparr>) = contents m"
  "ring_inv (m\<lparr>minimumReached := r\<rparr>) = ring_inv m"
  "contents (m\<lparr>minimumReached := r\<rparr>) = contents m"
  for m :: chunk_maker
  by (simp_all add: ring_inv_def contents_def ring_byte_def ring_index_def Let_def cong: map_cong)

lemma fill_chunk_ring:
  assumes "ring_inv m" "n \<le> bufferSize m"
  shows "ring_inv (fill_chunk n m)" "contents (fill_chunk n m) = drop n (contents m)"
    "chunk (fill_chunk n m) = chunk m @ take n (contents m)"
proof -
  obtain bs m' where f: "fill n m = (bs, m')" by (cases "fill n m")
  then have "bs = take n (contents m)" "contents m' = drop n (contents m)" "ring_inv m'"
    "chunk m' = chunk m"
    using fill_bytes [OF assms] contents_fill [OF assms] fill_inv [OF assms]
    by (auto simp: fill_def split: if_splits)
  then show "ring_inv (fill_chunk n m)" "contents (fill_chunk n m) = drop n (contents m)"
    "chunk (fill_chunk n m) = chunk m @ take n (contents m)"
    by (simp_all add: fill_chunk_def f)
qed

lemma fill_chunk_pending:
  "ring_inv m \<Longrightarrow> n \<le> bufferSize m \<Longrightarrow> pending (fill_chunk n m) = pending m"
  by (simp add: pending_def fill_chunk_ring)

lemma startNewChunk_fields [simp]:
  "ring_inv (startNewChunk m) = ring_inv m" "contents (startNewChunk m) = contents m"
  "chunk (startNewChunk m) = []" "minimumReached (startNewChunk m) = False"
  "bufferCapacity (startNewChunk m) = bufferCapacity m"
  "bufferSize (startNewChunk m) = bufferSize m" "same_params m (startNewChunk m)"
  "minimumChunkSize (startNewChunk m) = minimumChunkSize m"
  "maximumChunkSize (startNewChunk m) = maximumChunkSize m"
  "hashMask (startNewChunk m) = hashMask m" "randomTable (startNewChunk m) = randomTable m"
  by (simp_all add: startNewChunk_def same_params_def)

lemma minimum_hash_window:
  assumes "ring_inv m" "minimumChunkSize m \<le> bufferSize m"
  shows "minimum_hash m = buzhashSum (randomTable m) 0 (take (minimumChunkSize m) (contents m))"
  using segments_contents [OF assms] unfolding minimum_hash_def Let_def
  by (auto simp: buz.hsum_parts split: if_splits)

lemma length_pending: "length (pending m) = length (chunk m) + bufferSize m"
  by (simp add: pending_def)

lemma all_from_Suc:
  "(i :: nat) < n \<Longrightarrow> (\<forall>k. i \<le> k \<and> k < n \<longrightarrow> Q k) \<longleftrightarrow> Q i \<and> (\<forall>k. Suc i \<le> k \<and> k < n \<longrightarrow> Q k)"
  by (metis Suc_le_eq le_eq_less_or_eq le_refl)

lemma scan_correct:
  assumes "ring_inv m" "bytes + minimumChunkSize m = bufferSize m" "0 < minimumChunkSize m"
    and "maxSize = int (maximumChunkSize m) - int (length (chunk m))"
  shows "scan m bytes maxSize i (window_hash m (length (chunk m) + i)) = (found, h) \<Longrightarrow> i \<le> bytes
    \<Longrightarrow> (case found of
          Some j \<Rightarrow> i \<le> j \<and> j < bytes
            \<and> maker_cut m (pending m) (length (chunk m) + j + 1 + minimumChunkSize m)
            \<and> (\<forall>k. i \<le> k \<and> k < j \<longrightarrow>
                 \<not> maker_cut m (pending m) (length (chunk m) + k + 1 + minimumChunkSize m))
        | None \<Rightarrow> h = window_hash m (length (chunk m) + bytes)
            \<and> (\<forall>k. i \<le> k \<and> k < bytes \<longrightarrow>
                 \<not> maker_cut m (pending m) (length (chunk m) + k + 1 + minimumChunkSize m)))"
proof (induction "bytes - i" arbitrary: i)
  case 0
  then show ?case by (subst (asm) scan.simps) auto
next
  case (Suc d)
  let ?c = "length (chunk m)" and ?mn = "minimumChunkSize m"
  let ?h = "buzhashUpdate (randomTable m) (window_hash m (?c + i)) (ring_byte m i)
      (ring_byte m (i + ?mn)) ?mn"
  have i: "i < bytes" using Suc.hyps(2) by simp
  have "ring_byte m i = pending m ! (?c + i)" "ring_byte m (i + ?mn) = pending m ! (?c + i + ?mn)"
    using i assms(2) by (simp_all add: pending_def nth_append nth_contents)
  then have h: "?h = window_hash m (?c + Suc i)"
    using buz.upd_window [of ?mn "?c + i + ?mn" "pending m" "randomTable m"] i assms(2,3)
    by (simp add: length_pending add.assoc)
  have cut: "(?h AND hashMask m = 0 \<or> int i = maxSize - int ?mn - 1)
      \<longleftrightarrow> maker_cut m (pending m) (?c + i + 1 + ?mn)"
    unfolding is_cut_def h assms(4) by auto
  show ?case
  proof (cases "?h AND hashMask m = 0 \<or> int i = maxSize - int ?mn - 1")
    case True
    then have "scan m bytes maxSize i (window_hash m (?c + i)) = (Some i, ?h)"
      using i by (subst scan.simps) (simp add: Let_def)
    then show ?thesis using Suc.prems(1) True cut i by auto
  next
    case False
    then have "scan m bytes maxSize i (window_hash m (?c + i))
        = scan m bytes maxSize (Suc i) (window_hash m (?c + Suc i))"
      using i h by (subst scan.simps) (simp add: Let_def)
    then have "scan m bytes maxSize (Suc i) (window_hash m (?c + Suc i)) = (found, h)"
      using Suc.prems(1) by simp
    moreover have "d = bytes - Suc i" "Suc i \<le> bytes" using Suc.hyps(2) by auto
    ultimately have IH: "case found of
          Some j \<Rightarrow> Suc i \<le> j \<and> j < bytes
            \<and> maker_cut m (pending m) (?c + j + 1 + ?mn)
            \<and> (\<forall>k. Suc i \<le> k \<and> k < j \<longrightarrow> \<not> maker_cut m (pending m) (?c + k + 1 + ?mn))
        | None \<Rightarrow> h = window_hash m (?c + bytes)
            \<and> (\<forall>k. Suc i \<le> k \<and> k < bytes \<longrightarrow> \<not> maker_cut m (pending m) (?c + k + 1 + ?mn))"
      using Suc.hyps(1) [of "Suc i"] by simp
    have no_cut: "\<not> maker_cut m (pending m) (?c + i + 1 + ?mn)" using False cut by simp
    show ?thesis
    proof (cases found)
      case None
      then show ?thesis using IH Suc.hyps(2) i no_cut
        by (simp add: all_from_Suc [OF i])
    next
      case (Some j)
      then have "i < j" using IH Suc.hyps(2) i by simp
      then show ?thesis using IH Suc.hyps(2) i no_cut Some
        by (simp add: all_from_Suc [OF \<open>i < j\<close>])
    qed
  qed
qed

text \<open>The state in which the scanning loop starts.\<close>

definition scan_ready :: "chunk_maker \<Rightarrow> chunk_maker" where
  "scan_ready m =
     (if minimumReached m then m else m\<lparr>hashSum := minimum_hash m\<rparr>)\<lparr>minimumReached := True\<rparr>"

lemma scan_ready_inv:
  assumes "maker_inv m" "minimumChunkSize m \<le> bufferSize m"
    and "minimumReached m \<or> minimum_hash m AND hashMask m \<noteq> 0"
  shows "maker_inv (scan_ready m)" "minimumReached (scan_ready m)" "same_params m (scan_ready m)"
    "pending (scan_ready m) = pending m" "bufferSize (scan_ready m) = bufferSize m"
proof -
  show "minimumReached (scan_ready m)" "same_params m (scan_ready m)"
    "pending (scan_ready m) = pending m" "bufferSize (scan_ready m) = bufferSize m"
    by (simp_all add: scan_ready_def same_params_def pending_def)
  show "maker_inv (scan_ready m)"
  proof (cases "minimumReached m")
    case True
    then have "scan_ready m = m" by (simp add: scan_ready_def)
    with assms(1) show ?thesis by simp
  next
    case False
    then have pend: "pending m = contents m" and "chunk m = []"
      using assms(1) by (auto simp: maker_inv_def pending_def)
    moreover have "minimum_hash m = window_hash m 0"
      using assms(1,2) pend by (simp add: minimum_hash_window maker_inv_def subslice_0)
    moreover have "\<not> maker_cut m (pending m) (minimumChunkSize m)"
      using assms(3) False calculation(3) by (simp add: is_cut_def)
    ultimately show ?thesis
      using assms(1,2) False
      by (auto simp: maker_inv_def scan_ready_def pending_def)
  qed
qed

definition step_ok :: "chunk_maker \<Rightarrow> chunk_maker \<Rightarrow> bytes list \<Rightarrow> bool" where
  "step_ok m m' out \<longleftrightarrow> maker_inv m' \<and> same_params m m'
     \<and> (\<forall>d. maker_split m (pending m @ d) =
           (out @ fst (maker_split m (pending m' @ d)), snd (maker_split m (pending m' @ d))))"

lemma step_ok_same: "maker_inv m' \<Longrightarrow> same_params m m' \<Longrightarrow> pending m' = pending m \<Longrightarrow> step_ok m m' []"
  by (simp add: step_ok_def)

lemma step_ok_cut:
  assumes "maker_inv m'" "same_params m m'" "0 < n"
    and "spec_cut (randomTable m) (hashMask m) (minimumChunkSize m) (maximumChunkSize m) (pending m) = Some n"
    and "pending m' = drop n (pending m)"
  shows "step_ok m m' [take n (pending m)]"
proof -
  have "n \<le> length (pending m)" using assms(4) by (simp add: spec_cut_Some)
  then show ?thesis
    using assms spec_split_cut [OF spec_cut_append [OF assms(4)] assms(3)]
    by (simp add: step_ok_def)
qed

lemma step_ok_trans:
  "step_ok a b out \<Longrightarrow> step_ok b c out' \<Longrightarrow> step_ok a c (out @ out')"
  by (simp add: step_ok_def same_params_def)

text \<open>Sending a chunk of \<open>n\<close> pending bytes and starting the next one.\<close>

lemma send_chunk:
  assumes "ring_inv m" "k \<le> bufferSize m"
  shows "pending (startNewChunk (fill_chunk k m)) = drop (length (chunk m) + k) (pending m)"
    "chunk (fill_chunk k m) = take (length (chunk m) + k) (pending m)"
  using assms by (simp_all add: pending_def fill_chunk_ring)

lemma maker_inv_new:
  assumes "maker_inv m" "k \<le> bufferSize m"
  shows "maker_inv (startNewChunk (fill_chunk k m))"
  using assms fill_chunk_ring [of m k] by (simp add: maker_inv_def)

lemma same_params_fill [simp]: "same_params m (fill_chunk k m)"
  by (simp add: same_params_def)

lemma scan_from_ready:
  assumes inv: "maker_inv m" "minimumReached m"
    and sc: "scan m (bufferSize m - minimumChunkSize m)
      (int (maximumChunkSize m) - int (length (chunk m))) 0 (hashSum m) = (found, h)"
  shows "case found of
      Some j \<Rightarrow> spec_cut (randomTable m) (hashMask m) (minimumChunkSize m) (maximumChunkSize m)
          (pending m) = Some (length (chunk m) + (j + 1 + minimumChunkSize m))
        \<and> j + 1 + minimumChunkSize m \<le> bufferSize m
    | None \<Rightarrow> spec_cut (randomTable m) (hashMask m) (minimumChunkSize m) (maximumChunkSize m)
          (pending m) = None
        \<and> h = window_hash m (length (pending m) - minimumChunkSize m)"
proof -
  let ?c = "length (chunk m)" and ?mn = "minimumChunkSize m"
  let ?bytes = "bufferSize m - ?mn"
  have mn: "?mn \<le> bufferSize m" "0 < ?mn" "ring_inv m"
    and hs: "hashSum m = window_hash m (?c + 0)"
    and pre: "\<And>n. ?mn \<le> n \<Longrightarrow> n \<le> ?c + ?mn \<Longrightarrow> \<not> maker_cut m (pending m) n"
    using inv by (auto simp: maker_inv_def)
  have no_cut: "\<not> maker_cut m (pending m) n"
    if "\<And>k. k < b \<Longrightarrow> \<not> maker_cut m (pending m) (?c + k + 1 + ?mn)" "?mn \<le> n" "n < ?c + b + 1 + ?mn"
    for n b
  proof (cases "n \<le> ?c + ?mn")
    case False
    then obtain k where "n = ?c + k + 1 + ?mn" using less_imp_add_positive [of "?c + ?mn" n]
      by (metis Suc_eq_plus1 add.commute add.left_commute gr0_implies_Suc not_le)
    with that show ?thesis by simp
  qed (use pre that in blast)
  note res = scan_correct [OF mn(3) _ mn(2) refl, of ?bytes 0 found h] sc
  show ?thesis
  proof (cases found)
    case None
    then have h: "h = window_hash m (?c + ?bytes)"
      and nc: "\<And>k. k < ?bytes \<Longrightarrow> \<not> maker_cut m (pending m) (?c + k + 1 + ?mn)"
      using res mn(1) hs by auto
    have "\<forall>n. ?mn \<le> n \<and> n \<le> length (pending m) \<longrightarrow> \<not> maker_cut m (pending m) n"
      using no_cut [OF nc] mn(1) by (simp add: length_pending)
    then show ?thesis using None h mn(1)
      by (simp add: spec_cut_None length_pending)
  next
    case (Some j)
    then have j: "j < ?bytes" "maker_cut m (pending m) (?c + j + 1 + ?mn)"
      and nc: "\<And>k. k < j \<Longrightarrow> \<not> maker_cut m (pending m) (?c + k + 1 + ?mn)"
      using res mn(1) hs by auto
    then show ?thesis using Some no_cut [OF nc]
      by (simp add: spec_cut_Some length_pending add.assoc)
  qed
qed

definition after_scan ::
  "bool \<Rightarrow> bool \<Rightarrow> chunk_maker \<Rightarrow> nat option \<times> 64 word \<Rightarrow> chunk_maker \<times> bytes list \<times> loop_exit" where
  "after_scan nilReader isEOF m2 r =
     (case r of (found, h) \<Rightarrow>
       (let m3 = m2\<lparr>hashSum := h\<rparr>
        in case found of
             Some i \<Rightarrow>
               (let m4 = fill_chunk (i + 1 + minimumChunkSize m3) m3
                in (startNewChunk m4, [chunk m4], if isEOF then ReturnEOF else Continue))
           | None \<Rightarrow>
               (let m4 = fill_chunk (bufferSize m2 - minimumChunkSize m2) m3 in
                if nilReader
                then (let m5 = fill_chunk (minimumChunkSize m4) m4
                      in (startNewChunk m5, [chunk m5], ReturnFlush))
                else (m4, [], if isEOF then ReturnEOF else Continue))))"

lemma chunk_step_scan:
  assumes "\<not> bufferSize m < minimumChunkSize m"
    and "minimumReached m \<or> minimum_hash m AND hashMask m \<noteq> 0"
  shows "chunk_step nilReader isEOF m = after_scan nilReader isEOF (scan_ready m)
    (scan (scan_ready m) (bufferSize (scan_ready m) - minimumChunkSize (scan_ready m))
      (int (maximumChunkSize (scan_ready m)) - int (length (chunk (scan_ready m)))) 0
      (hashSum (scan_ready m)))"
  using assms by (auto simp: chunk_step_def scan_ready_def after_scan_def Let_def)

text \<open>What one round promises, by the way it leaves the loop.\<close>

definition round_ok ::
  "bool \<Rightarrow> chunk_maker \<Rightarrow> chunk_maker \<times> bytes list \<times> loop_exit \<Rightarrow> bool" where
  "round_ok nilReader m r =
     (case r of (m', out, exit) \<Rightarrow>
       (exit = ReturnFlush \<longrightarrow> nilReader \<and> out =
          spec_chunks (randomTable m) (hashMask m) (minimumChunkSize m) (maximumChunkSize m) (pending m))
     \<and> (exit = ReturnEOF \<longrightarrow> \<not> nilReader) \<and> (exit \<noteq> ReturnFlush \<longrightarrow> step_ok m m' out)
     \<and> (exit = Continue \<longrightarrow> bufferSize m' < bufferSize m))"

lemma after_scan_found:
  assumes inv: "maker_inv m" "minimumReached m" and nil: "nilReader \<Longrightarrow> \<not> isEOF"
    and cut: "spec_cut (randomTable m) (hashMask m) (minimumChunkSize m) (maximumChunkSize m)
          (pending m) = Some (length (chunk m) + (j + 1 + minimumChunkSize m))"
    and j: "j + 1 + minimumChunkSize m \<le> bufferSize m"
  shows "round_ok nilReader m (after_scan nilReader isEOF m (Some j, h))"
proof -
  let ?m3 = "m\<lparr>hashSum := h\<rparr>" and ?k = "j + 1 + minimumChunkSize m"
  have ring: "ring_inv ?m3" and eq: "pending ?m3 = pending m" "bufferSize ?m3 = bufferSize m"
    "chunk ?m3 = chunk m"
    using inv by (auto simp: maker_inv_def pending_def)
  have new: "maker_inv (startNewChunk (fill_chunk ?k ?m3))"
    using inv(1) j fill_chunk_ring [OF ring, of ?k] by (simp add: maker_inv_def)
  have "step_ok m (startNewChunk (fill_chunk ?k ?m3)) [take (length (chunk m) + ?k) (pending m)]"
    using send_chunk(1) [OF ring, of ?k] j eq
    by (intro step_ok_cut [OF new _ _ cut]) (auto simp: same_params_def)
  then show ?thesis
    using send_chunk(2) [OF ring, of ?k] j eq nil
    by (auto simp: round_ok_def after_scan_def Let_def)
qed

lemma after_scan_none:
  assumes inv: "maker_inv m" "minimumReached m"
    and full: "nilReader \<or> isEOF \<or> bufferSize m = bufferCapacity m" and nil: "nilReader \<Longrightarrow> \<not> isEOF"
    and none: "spec_cut (randomTable m) (hashMask m) (minimumChunkSize m) (maximumChunkSize m)
          (pending m) = None"
    and h: "h = window_hash m (length (pending m) - minimumChunkSize m)"
  shows "round_ok nilReader m (after_scan nilReader isEOF m (None, h))"
proof -
  let ?m3 = "m\<lparr>hashSum := h\<rparr>" and ?mn = "minimumChunkSize m"
  let ?b = "bufferSize m - ?mn"
  let ?m4 = "fill_chunk ?b ?m3"
  have ring: "ring_inv ?m3" and eq: "pending ?m3 = pending m" "bufferSize ?m3 = bufferSize m"
    and mn: "0 < ?mn" "?mn < maximumChunkSize m" "?mn \<le> bufferSize m" "bufferCapacity m = 2 * ?mn"
    using inv by (auto simp: maker_inv_def pending_def)
  have b: "?b \<le> bufferSize ?m3" using eq by simp
  note m4 = fill_chunk_ring [OF ring b]
  have p4: "pending ?m4 = pending m" using fill_chunk_pending [OF ring b] eq by simp
  have c4: "length (chunk ?m4) = length (pending m) - ?mn"
    using m4(3) mn(3) by (simp add: length_pending)
  have "length (pending m) < maximumChunkSize m" by (rule spec_cut_None_short [OF none mn(2)])
  moreover have "?mn \<le> length (pending m)" using mn(3) by (simp add: length_pending)
  ultimately have inv4: "maker_inv ?m4"
    using inv m4(1) c4 p4 h mn none by (simp add: maker_inv_def spec_cut_None)
  have s5: "ring_inv ?m4" "?mn \<le> bufferSize ?m4" using m4(1) mn(3) by simp_all
  have "chunk (fill_chunk ?mn ?m4) = pending m"
    using send_chunk(2) [OF s5] c4 p4 mn(3) by (simp add: length_pending)
  moreover have "pending m \<noteq> []" using mn(1,3) by (auto simp: pending_def simp flip: length_0_conv)
  moreover have "step_ok m ?m4 []" by (rule step_ok_same [OF inv4 _ p4]) (simp add: same_params_def)
  ultimately show ?thesis
    using spec_split_no_cut [OF none] full nil mn
    by (auto simp: round_ok_def after_scan_def Let_def spec_chunks_def)
qed

text \<open>
  One round of the outer loop: unless it ends a flush it keeps the invariant and splits off only
  what the reference chunker splits off, and going on it makes the buffer shorter.
\<close>

lemma chunk_step_refines:
  assumes inv: "maker_inv m"
    and full: "nilReader \<or> isEOF \<or> bufferSize m = bufferCapacity m"
    and nil: "nilReader \<Longrightarrow> \<not> isEOF"
  shows "round_ok nilReader m (chunk_step nilReader isEOF m)"
proof -
  have ring: "ring_inv m" and mn: "0 < minimumChunkSize m" "bufferCapacity m = 2 * minimumChunkSize m"
    using inv by (auto simp: maker_inv_def)
  show ?thesis
  proof (cases "bufferSize m < minimumChunkSize m")
    case True
    then have "chunk m = []" using inv by (auto simp: maker_inv_def split: if_splits)
    moreover have "maker_split m (pending m) = ([], pending m)"
      using True calculation by (intro spec_split_no_cut) (auto simp: spec_cut_None length_pending)
    ultimately show ?thesis
      using True full inv nil mn(2) fill_chunk_ring [OF ring, of "bufferSize m"]
      by (auto simp: chunk_step_def round_ok_def spec_chunks_def pending_def step_ok_same Let_def)
  next
    case long: False
    show ?thesis
    proof (cases "minimumReached m \<or> minimum_hash m AND hashMask m \<noteq> 0")
      case False
      then have nr: "\<not> minimumReached m" and hz: "minimum_hash m AND hashMask m = 0" by auto
      then have c: "chunk m = []" using inv by (auto simp: maker_inv_def)
      let ?m1 = "m\<lparr>hashSum := minimum_hash m\<rparr>" and ?mn = "minimumChunkSize m"
      have p1: "pending ?m1 = pending m" "chunk ?m1 = []" "bufferSize ?m1 = bufferSize m"
        "maker_inv ?m1" "ring_inv ?m1"
        using inv c nr by (auto simp: pending_def maker_inv_def)
      have cut: "spec_cut (randomTable m) (hashMask m) ?mn (maximumChunkSize m) (pending m) = Some ?mn"
        using minimum_hash_window [OF ring] hz long c
        by (simp add: spec_cut_Some is_cut_def pending_def subslice_0)
      have "step_ok m (startNewChunk (fill_chunk ?mn ?m1)) [take ?mn (pending m)]"
        using long p1 mn(1) cut maker_inv_new [of ?m1] send_chunk(1) [of ?m1 ?mn]
        by (intro step_ok_cut) (auto simp: same_params_def)
      then show ?thesis
        using nr hz long p1 mn(1) send_chunk(2) [of ?m1 ?mn]
        by (simp add: round_ok_def chunk_step_def Let_def)
    next
      case True
      let ?m2 = "scan_ready m"
      note ready = scan_ready_inv [OF inv leI [OF long] True]
      obtain found h where sc: "scan ?m2 (bufferSize ?m2 - minimumChunkSize ?m2)
          (int (maximumChunkSize ?m2) - int (length (chunk ?m2))) 0 (hashSum ?m2) = (found, h)"
        by fastforce
      have "bufferCapacity ?m2 = bufferCapacity m" by (simp add: scan_ready_def)
      then have "round_ok nilReader ?m2 (after_scan nilReader isEOF ?m2 (found, h))"
        using scan_from_ready [OF ready(1,2) sc] ready(5) full nil
          after_scan_found [OF ready(1,2)] after_scan_none [OF ready(1,2)]
        by (cases found) auto
      then show ?thesis
        using ready(3,4,5) sc unfolding chunk_step_scan [OF long True]
        by (auto simp: round_ok_def step_ok_def same_params_def split: prod.splits)
    qed
  qed
qed

section \<open>The read loop\<close>

text \<open>What a reader delivers before its end, whether it fails, and a bound on its reads.\<close>

fun reader_data :: "reader \<Rightarrow> bytes" where
  "reader_data [] = []"
| "reader_data (Data bs # rd) = bs @ reader_data rd"
| "reader_data (LastData bs # rd) = bs"
| "reader_data (ReadFail e # rd) = []"

fun reader_fails :: "reader \<Rightarrow> string option" where
  "reader_fails [] = None"
| "reader_fails (Data bs # rd) = reader_fails rd"
| "reader_fails (LastData bs # rd) = None"
| "reader_fails (ReadFail e # rd) = Some e"

fun reader_size :: "reader \<Rightarrow> nat" where
  "reader_size [] = 0"
| "reader_size (Data bs # rd) = Suc (length bs + reader_size rd)"
| "reader_size (LastData bs # rd) = Suc (length bs + reader_size rd)"
| "reader_size (ReadFail e # rd) = Suc (reader_size rd)"

lemma reader_read_length: "reader_read rd n = (bs, err, rd') \<Longrightarrow> length bs \<le> n"
  by (cases "(rd, n)" rule: reader_read.cases) (auto split: if_splits)

lemma reader_read_data:
  "reader_read rd n = (bs, err, rd') \<Longrightarrow> bs @ reader_data rd' = reader_data rd"
  by (cases "(rd, n)" rule: reader_read.cases) (auto split: if_splits)

lemma reader_read_EOF: "reader_read rd n = (bs, EOF, rd') \<Longrightarrow> rd' = [] \<and> reader_fails rd = None"
  by (cases "(rd, n)" rule: reader_read.cases) (auto split: if_splits)

lemma reader_read_NoErr:
  "reader_read rd n = (bs, NoErr, rd') \<Longrightarrow> reader_fails rd' = reader_fails rd"
  by (cases "(rd, n)" rule: reader_read.cases) (auto split: if_splits)

lemma reader_read_Failed:
  "reader_read rd n = (bs, Failed e, rd') \<Longrightarrow> bs = [] \<and> rd' = [] \<and> reader_fails rd = Some e"
  by (cases "(rd, n)" rule: reader_read.cases) (auto split: if_splits)

lemma reader_read_size:
  "reader_read rd n = (bs, NoErr, rd') \<Longrightarrow> 0 < n \<Longrightarrow>
     reader_size rd' + length bs \<le> reader_size rd \<and> 2 * reader_size rd' + length bs < 2 * reader_size rd"
  by (cases "(rd, n)" rule: reader_read.cases) (auto split: if_splits)

lemma reader_read_size_EOF:
  "reader_read rd n = (bs, EOF, rd') \<Longrightarrow> 2 * reader_size rd' + length bs \<le> 2 * reader_size rd"
  by (cases "(rd, n)" rule: reader_read.cases) (auto split: if_splits)

text \<open>Storing bytes only touches the buffer fields.\<close>

lemma store_maker [simp]:
  "chunk (store bs m) = chunk m" "minimumReached (store bs m) = minimumReached m"
  "hashSum (store bs m) = hashSum m" "minimumChunkSize (store bs m) = minimumChunkSize m"
  "maximumChunkSize (store bs m) = maximumChunkSize m" "hashMask (store bs m) = hashMask m"
  "randomTable (store bs m) = randomTable m"
  by (simp_all add: store_def)

lemma pending_store:
  assumes "ring_inv m" "bufferSize m < bufferCapacity m" "length bs \<le> snd (free_region m)"
  shows "pending (store bs m) = pending m @ bs"
  using assms by (simp add: pending_def rb.put_items)

lemma maker_inv_store:
  assumes "maker_inv m" "bufferSize m < bufferCapacity m" "length bs \<le> snd (free_region m)"
  shows "maker_inv (store bs m)"
proof -
  have ring: "ring_inv m" using assms(1) by (simp add: maker_inv_def)
  have "\<not> maker_cut m (pending m @ bs) n \<longleftrightarrow> \<not> maker_cut m (pending m) n"
    if "n \<le> length (chunk m) + minimumChunkSize m" "minimumChunkSize m \<le> bufferSize m" for n
    using that by (simp add: is_cut_append length_pending)
  moreover have "window_hash (store bs m) (length (chunk m)) = window_hash m (length (chunk m))"
    if "minimumChunkSize m \<le> bufferSize m"
    using that by (simp add: pending_store [OF ring assms(2,3)] subslice_append_left length_pending)
  ultimately show ?thesis
    using assms store_inv [OF ring assms(2,3)]
    by (auto simp: maker_inv_def pending_store [OF ring assms(2,3)])
qed

definition read_result_ok ::
  "chunk_maker \<Rightarrow> reader \<Rightarrow> chunk_maker \<times> reader \<times> bool \<times> bytes \<times> string option \<Rightarrow> bool" where
  "read_result_ok m rd r =
     (case r of (m', rd', eof', got, failure) \<Rightarrow>
       maker_inv m' \<and> same_params m m' \<and> pending m' = pending m @ got
     \<and> chunk m' = chunk m \<and> minimumReached m' = minimumReached m
     \<and> got @ reader_data rd' = reader_data rd
     \<and> 2 * reader_size rd' + bufferSize m' \<le> 2 * reader_size rd + bufferSize m
     \<and> failure = (if eof' \<or> failure = None then None else reader_fails rd)
     \<and> (failure \<noteq> None \<longrightarrow> rd' = [])
     \<and> (eof' \<longrightarrow> rd' = [] \<and> reader_fails rd = None)
     \<and> (\<not> eof' \<and> failure = None \<longrightarrow>
          bufferSize m' = bufferCapacity m' \<and> reader_fails rd' = reader_fails rd))"

lemma read_loop_spec:
  assumes "maker_inv m"
  shows "\<exists>m' rd' eof' got failure. read_loop m rd False sz hb =
      Some (m', rd', eof', sz + length got, hb @ got, failure)
    \<and> read_result_ok m rd (m', rd', eof', got, failure)"
  using assms
proof (induction "2 * reader_size rd + bufferCapacity m - bufferSize m" arbitrary: m rd sz hb rule: less_induct)
  case less
  then have ring: "ring_inv m" and le: "bufferSize m \<le> bufferCapacity m"
    by (auto simp: maker_inv_def ring_inv_def)
  show ?case
  proof (cases "bufferSize m < bufferCapacity m")
    case False
    then show ?thesis using less.prems le
      by (subst read_loop.simps) (auto simp: read_result_ok_def)
  next
    case True
    obtain bs err rd1 where rd: "reader_read rd (snd (free_region m)) = (bs, err, rd1)"
      by (cases "reader_read rd (snd (free_region m))") auto
    note fits = free_region_fits [OF ring True]
    have len: "length bs \<le> snd (free_region m)" by (rule reader_read_length [OF rd])
    have inv1: "maker_inv (store bs m)" by (rule maker_inv_store [OF less.prems True len])
    have p1: "pending (store bs m) = pending m @ bs" by (rule pending_store [OF ring True len])
    show ?thesis
    proof (cases err)
      case EOF
      then show ?thesis
        using True rd inv1 p1 reader_read_EOF reader_read_data [OF rd] reader_read_size_EOF
        by (subst read_loop.simps) (fastforce simp: read_result_ok_def same_params_def)
    next
      case (Failed e)
      then show ?thesis
        using True rd less.prems reader_read_Failed reader_read_data [OF rd]
        by (subst read_loop.simps) (fastforce simp: read_result_ok_def)
    next
      case NoErr
      note sz = reader_read_size [OF rd [unfolded NoErr] fits(1)]
      have "2 * reader_size rd1 + bufferCapacity (store bs m) - bufferSize (store bs m)
          < 2 * reader_size rd + bufferCapacity m - bufferSize m"
        using sz fits(2) len True by (simp; arith)
      from less.hyps [OF this inv1, of "sz + length bs" "hb @ bs"]
      obtain m' rd' eof' got failure where
        eq: "read_loop (store bs m) rd1 False (sz + length bs) (hb @ bs) =
          Some (m', rd', eof', sz + length bs + length got, (hb @ bs) @ got, failure)"
        and ok: "read_result_ok (store bs m) rd1 (m', rd', eof', got, failure)"
        by blast
      have "read_loop m rd False sz hb
          = Some (m', rd', eof', sz + length (bs @ got), hb @ (bs @ got), failure)"
        using True rd NoErr eq by (subst read_loop.simps) (simp add: add.assoc)
      moreover have "read_result_ok m rd (m', rd', eof', bs @ got, failure)"
        using ok p1 sz reader_read_data [OF rd] reader_read_NoErr [OF rd [unfolded NoErr]]
        by (auto simp: read_result_ok_def same_params_def)
      ultimately show ?thesis by blast
    qed
  qed
qed

section \<open>AddData over a file, and the flush\<close>

definition file_result ::
  "bool \<Rightarrow> (bytes \<Rightarrow> string) \<Rightarrow> nat \<Rightarrow> bytes \<Rightarrow> reader \<Rightarrow> add_result" where
  "file_result windows fileHash sz hb rd =
     (case reader_fails rd of
        None \<Rightarrow> Returned (int (sz + length (reader_data rd))) (fileHash (hb @ reader_data rd)) []
      | Some e \<Rightarrow> read_failure windows e)"

lemma read_loop_cases:
  assumes "maker_inv m" and "eof \<Longrightarrow> rd = []"
  obtains m1 rd1 eof1 got failure where
    "read_loop m rd eof sz hb = Some (m1, rd1, eof1, sz + length got, hb @ got, failure)"
    "read_result_ok m rd (m1, rd1, eof1, got, failure)"
proof (cases eof)
  case True
  then have "read_loop m rd eof sz hb = Some (m, rd, eof, sz + length [], hb @ [], None)"
    by (subst read_loop.simps) simp
  moreover have "read_result_ok m rd (m, rd, eof, [], None)"
    using assms True by (simp add: read_result_ok_def)
  ultimately show thesis by (rule that)
next
  case False
  obtain m1 rd1 eof1 got failure where
    "read_loop m rd False sz hb = Some (m1, rd1, eof1, sz + length got, hb @ got, failure)"
    "read_result_ok m rd (m1, rd1, eof1, got, failure)"
    using read_loop_spec [OF assms(1), of rd sz hb] by blast
  then show thesis using that False by simp
qed

lemma add_loop_file:
  assumes "maker_inv m" and "eof \<Longrightarrow> rd = []"
  shows "\<exists>m' out. add_loop w fh m (Some rd) eof sz hb sent =
      Some (m', sent @ out, file_result w fh sz hb rd)
    \<and> maker_inv m' \<and> same_params m m'
    \<and> (\<forall>d. maker_split m (pending m @ reader_data rd @ d) =
         (out @ fst (maker_split m (pending m' @ d)), snd (maker_split m (pending m' @ d))))"
  using assms
proof (induction "2 * reader_size rd + bufferSize m" arbitrary: m rd eof sz hb sent rule: less_induct)
  case less
  obtain m1 rd1 eof1 got failure where
    rl: "read_loop m rd eof sz hb = Some (m1, rd1, eof1, sz + length got, hb @ got, failure)"
    and ok: "read_result_ok m rd (m1, rd1, eof1, got, failure)"
    by (rule read_loop_cases [OF less.prems])
  have inv1: "maker_inv m1" and p1: "pending m1 = pending m @ got" and sp1: "same_params m m1"
    and data: "reader_data rd = got @ reader_data rd1" using ok by (auto simp: read_result_ok_def)
  show ?case
  proof (cases failure)
    case (Some e)
    then have "reader_fails rd = Some e" "reader_data rd1 = []"
      using ok by (auto simp: read_result_ok_def split: if_splits)
    then show ?thesis
      using rl Some inv1 sp1 p1 data
      by (subst add_loop.simps) (auto simp: file_result_def)
  next
    case None
    note rl = rl [unfolded None] and ok = ok [unfolded None]
    obtain m2 out exit where cs: "chunk_step False eof1 m1 = (m2, out, exit)"
      by (cases "chunk_step False eof1 m1") auto
    have "round_ok False m1 (m2, out, exit)"
      using chunk_step_refines [OF inv1, of False eof1] ok cs by (auto simp: read_result_ok_def)
    then have ne: "exit \<noteq> ReturnFlush" and so: "step_ok m1 m2 out"
      and dec: "exit = Continue \<Longrightarrow> bufferSize m2 < bufferSize m1"
      by (auto simp: round_ok_def)
    have sp2: "same_params m m2" using so sp1 by (auto simp: step_ok_def same_params_def)
    have split1: "maker_split m (pending m @ reader_data rd @ d) =
        (out @ fst (maker_split m (pending m2 @ reader_data rd1 @ d)),
         snd (maker_split m (pending m2 @ reader_data rd1 @ d)))" for d
      using so p1 sp1 data by (simp add: step_ok_def same_params_def)
    show ?thesis
    proof (cases exit)
      case ReturnEOF
      have "eof1"
        using cs ReturnEOF by (auto simp: chunk_step_def Let_def split: if_splits prod.splits option.splits)
      then have "reader_data rd1 = []" "reader_data rd = got" "reader_fails rd = None"
        using ok data by (auto simp: read_result_ok_def)
      then show ?thesis
        using rl cs ReturnEOF so sp2 split1
        by (subst add_loop.simps) (auto simp: step_ok_def file_result_def)
    next
      case Continue
      have "2 * reader_size rd1 + bufferSize m2 < 2 * reader_size rd + bufferSize m"
        using dec [OF Continue] ok by (auto simp: read_result_ok_def)
      moreover have "maker_inv m2" using so by (simp add: step_ok_def)
      moreover have eof: "eof1 \<Longrightarrow> rd1 = []" using ok by (auto simp: read_result_ok_def)
      ultimately obtain m' out' where
        eq: "add_loop w fh m2 (Some rd1) eof1 (sz + length got) (hb @ got) (sent @ out) =
          Some (m', (sent @ out) @ out', file_result w fh (sz + length got) (hb @ got) rd1)"
        and r: "maker_inv m'" "same_params m2 m'"
          "\<And>d. maker_split m2 (pending m2 @ reader_data rd1 @ d) =
           (out' @ fst (maker_split m2 (pending m' @ d)), snd (maker_split m2 (pending m' @ d)))"
        using less.hyps by blast
      have "reader_fails rd1 = reader_fails rd" using ok by (auto simp: read_result_ok_def)
      then have "file_result w fh (sz + length got) (hb @ got) rd1 = file_result w fh sz hb rd"
        by (simp add: file_result_def data add.assoc split: option.split)
      then have "add_loop w fh m (Some rd) eof sz hb sent =
          Some (m', sent @ (out @ out'), file_result w fh sz hb rd)"
        using rl cs Continue eq by (subst add_loop.simps) simp
      moreover have "same_params m m'" using sp2 r(2) by (rule same_params_trans)
      moreover have "\<forall>d. maker_split m (pending m @ reader_data rd @ d) =
          ((out @ out') @ fst (maker_split m (pending m' @ d)), snd (maker_split m (pending m' @ d)))"
        using split1 r(3) sp2 by (simp add: same_params_def)
      ultimately show ?thesis using r(1) by blast
    qed (use ne in blast)
  qed
qed

lemma add_loop_flush:
  assumes "maker_inv m"
  shows "\<exists>m'. add_loop w fh m None False sz hb sent =
      Some (m', sent @ spec_chunks (randomTable m) (hashMask m) (minimumChunkSize m)
         (maximumChunkSize m) (pending m), Returned 0 [] [])"
  using assms
proof (induction "bufferSize m" arbitrary: m sent rule: less_induct)
  case less
  obtain m2 out exit where cs: "chunk_step True False m = (m2, out, exit)"
    by (cases "chunk_step True False m") auto
  have ok: "round_ok True m (m2, out, exit)"
    using chunk_step_refines [OF less.prems, of True False] cs by simp
  show ?case
  proof (cases exit)
    case ReturnFlush
    then show ?thesis using ok cs by (subst add_loop.simps) (simp add: round_ok_def)
  next
    case Continue
    then have so: "step_ok m m2 out" and "bufferSize m2 < bufferSize m"
      using ok by (auto simp: round_ok_def)
    then obtain m' where "add_loop w fh m2 None False sz hb (sent @ out) =
      Some (m', (sent @ out) @ spec_chunks (randomTable m2) (hashMask m2) (minimumChunkSize m2)
         (maximumChunkSize m2) (pending m2), Returned 0 [] [])"
      using less.hyps [of m2 "sent @ out"] by (auto simp: step_ok_def)
    moreover have "spec_chunks (randomTable m) (hashMask m) (minimumChunkSize m)
         (maximumChunkSize m) (pending m) = out @ spec_chunks (randomTable m2) (hashMask m2)
         (minimumChunkSize m2) (maximumChunkSize m2) (pending m2)"
      using so [unfolded step_ok_def, THEN conjunct2, THEN conjunct2, THEN spec, of "[]"] so
      by (simp add: spec_chunks_def step_ok_def same_params_def split: prod.splits)
    ultimately show ?thesis using cs Continue by (subst add_loop.simps) simp
  qed (use ok in \<open>auto simp: round_ok_def\<close>)
qed

section \<open>The fixed-size form\<close>

function fixed_chunks :: "nat \<Rightarrow> bytes \<Rightarrow> bytes list" where
  "fixed_chunks n data =
     (if data = [] \<or> n = 0 then [] else take n data # fixed_chunks n (drop n data))"
  by pat_completeness auto
termination
  by (relation "measure (\<lambda>(n, data). length data)") auto

declare fixed_chunks.simps [simp del]

lemma fixed_chunks_Nil [simp]: "fixed_chunks n [] = []"
  by (simp add: fixed_chunks.simps)

lemma fixed_chunks_step:
  "0 < n \<Longrightarrow> length xs = n \<Longrightarrow> fixed_chunks n (xs @ ys) = xs # fixed_chunks n ys"
  by (subst fixed_chunks.simps) auto

lemma fixed_chunks_short: "length xs < n \<Longrightarrow> fixed_chunks n xs = (if xs = [] then [] else [xs])"
  by (subst fixed_chunks.simps) auto

text \<open>What \<open>fixed_read\<close> leaves in the front of the buffer.\<close>

abbreviation front :: "chunk_maker \<Rightarrow> bytes" where
  "front m \<equiv> take (bufferStart m) (buffer m)"

definition fixed_ok :: "chunk_maker \<Rightarrow> bool" where
  "fixed_ok m \<longleftrightarrow> 0 < minimumChunkSize m \<and> minimumChunkSize m \<le> length (buffer m)"

definition fixed_result_ok ::
  "chunk_maker \<Rightarrow> reader \<Rightarrow> chunk_maker \<times> reader \<times> bool \<times> bytes \<times> string option \<Rightarrow> bool" where
  "fixed_result_ok m rd r =
     (case r of (m', rd', eof', got, failure) \<Rightarrow>
       fixed_ok m' \<and> minimumChunkSize m' = minimumChunkSize m
     \<and> maximumChunkSize m' = maximumChunkSize m \<and> chunk m' = chunk m
     \<and> front m' = front m @ got \<and> bufferStart m' = bufferStart m + length got
     \<and> bufferStart m' \<le> minimumChunkSize m'
     \<and> got @ reader_data rd' = reader_data rd
     \<and> (eof' \<longrightarrow> rd' = [])
     \<and> (case failure of Some e \<Rightarrow> reader_fails rd = Some e
        | None \<Rightarrow> reader_fails rd' = reader_fails rd \<and> (eof' \<or> bufferStart m' = minimumChunkSize m')))"

lemma fixed_read_end:
  assumes "fixed_ok m" "bufferStart m \<le> minimumChunkSize m" "eof \<Longrightarrow> rd = []"
    "\<not> (bufferStart m < minimumChunkSize m \<and> \<not> eof)"
  shows "fixed_read m rd eof = Some (m, rd, eof, None)"
    "fixed_result_ok m rd (m, rd, eof, [], None)"
  using assms by (subst fixed_read.simps, auto simp: fixed_result_ok_def)

lemma fixed_read_spec:
  assumes "fixed_ok m" "bufferStart m \<le> minimumChunkSize m" "eof \<Longrightarrow> rd = []"
  shows "\<exists>m' rd' eof' got failure. fixed_read m rd eof = Some (m', rd', eof', failure)
    \<and> fixed_result_ok m rd (m', rd', eof', got, failure)"
  using assms
proof (induction "2 * reader_size rd + (if eof then 0 else 1) + minimumChunkSize m - bufferStart m" arbitrary: m rd eof rule: less_induct)
  case less
  let ?mn = "minimumChunkSize m"
  show ?case
  proof (cases "bufferStart m < ?mn \<and> \<not> eof")
    case False
    then show ?thesis using fixed_read_end [OF less.prems] by blast
  next
    case True
    obtain bs err rd1 where rd: "reader_read rd (?mn - bufferStart m) = (bs, err, rd1)"
      by (cases "reader_read rd (?mn - bufferStart m)") auto
    have len: "bufferStart m + length bs \<le> ?mn"
      using reader_read_length [OF rd] True by linarith
    let ?m1 = "m\<lparr>buffer := overwrite (bufferStart m) bs (buffer m),
      bufferStart := bufferStart m + length bs\<rparr>"
    have m1: "fixed_ok ?m1" "bufferStart ?m1 \<le> minimumChunkSize ?m1" "front ?m1 = front m @ bs"
      using less.prems len by (auto simp: fixed_ok_def take_overwrite)
    note data = reader_read_data [OF rd]
    show ?thesis
    proof (cases err)
      case NoErr
      note sz = reader_read_size [OF rd [unfolded NoErr]]
      have "2 * reader_size rd1 + (if eof then 0 else 1) + minimumChunkSize ?m1 - bufferStart ?m1
          < 2 * reader_size rd + (if eof then 0 else 1) + minimumChunkSize m - bufferStart m"
        using sz True len by (simp; arith)
      moreover have "\<not> eof" using True by simp
      ultimately obtain m' rd' eof' got failure where
        eq: "fixed_read ?m1 rd1 eof = Some (m', rd', eof', failure)"
        and ok: "fixed_result_ok ?m1 rd1 (m', rd', eof', got, failure)"
        using less.hyps [of rd1 eof ?m1] m1 by blast
      have "fixed_read m rd eof = Some (m', rd', eof', failure)"
        using True rd NoErr eq by (subst fixed_read.simps) simp
      moreover have "fixed_result_ok m rd (m', rd', eof', bs @ got, failure)"
        using ok m1 data reader_read_NoErr [OF rd [unfolded NoErr]]
        by (auto simp: fixed_result_ok_def split: option.splits)
      ultimately show ?thesis by blast
    next
      case EOF
      note e = reader_read_EOF [OF rd [unfolded EOF]]
      have "fixed_read m rd eof = fixed_read ?m1 rd1 True"
        using True rd EOF by (subst fixed_read.simps) simp
      then have "fixed_read m rd eof = Some (?m1, [], True, None)"
        using fixed_read_end(1) [OF m1(1,2), of True rd1] e by simp
      moreover have "fixed_result_ok m rd (?m1, [], True, bs, None)"
        using m1 e data len less.prems by (simp add: fixed_result_ok_def)
      ultimately show ?thesis by blast
    next
      case (Failed e)
      have "fixed_read m rd eof = Some (m, rd1, eof, Some e)"
        using True rd Failed by (subst fixed_read.simps) simp
      moreover have "fixed_result_ok m rd (m, rd1, eof, [], Some e)"
        using reader_read_Failed [OF rd [unfolded Failed]] data less.prems
        by (simp add: fixed_result_ok_def)
      ultimately show ?thesis by blast
    qed
  qed
qed

text \<open>The whole loop: the stream is cut every \<^verbatim>\<open>minimumChunkSize\<close> bytes.\<close>

lemma fixed_loop_spec:
  assumes "fixed_ok m"
  shows "\<exists>m' out. fixed_loop w fh m rd sz hb sent =
      Some (m', sent @ out, file_result w fh sz hb rd) \<and> fixed_ok m'
    \<and> minimumChunkSize m' = minimumChunkSize m \<and> maximumChunkSize m' = maximumChunkSize m
    \<and> (reader_fails rd = None \<longrightarrow> out = fixed_chunks (minimumChunkSize m) (reader_data rd))"
  using assms
proof (induction "length (reader_data rd)" arbitrary: m rd sz hb sent rule: less_induct)
  case less
  let ?m0 = "(startNewChunk m)\<lparr>bufferStart := 0\<rparr>" and ?mn = "minimumChunkSize m"
  have m0: "fixed_ok ?m0" "bufferStart ?m0 \<le> minimumChunkSize ?m0" "chunk ?m0 = []"
    "minimumChunkSize ?m0 = ?mn" "maximumChunkSize ?m0 = maximumChunkSize m"
    using less.prems by (simp_all add: fixed_ok_def startNewChunk_def)
  obtain m1 rd1 eof1 got failure where
    fr: "fixed_read ?m0 rd False = Some (m1, rd1, eof1, failure)"
    and ok: "fixed_result_ok ?m0 rd (m1, rd1, eof1, got, failure)"
    using fixed_read_spec [OF m0(1,2) FalseE] by blast
  have front: "front m1 = front ?m0 @ got"
    using ok unfolding fixed_result_ok_def prod.case by blast
  have m1: "fixed_ok m1" "minimumChunkSize m1 = ?mn" "maximumChunkSize m1 = maximumChunkSize m"
    "chunk m1 = []" "bufferStart m1 = length got" "length got \<le> ?mn"
    "reader_data rd = got @ reader_data rd1"
    using ok m0 by (simp_all add: fixed_result_ok_def)
  then have m1_front: "take (length got) (buffer m1) = got" using front by simp
  show ?case
  proof (cases failure)
    case (Some e)
    then have "fixed_loop w fh m rd sz hb sent = Some (m1, sent, read_failure w e)"
      using fr by (subst fixed_loop.simps) simp
    moreover have "reader_fails rd = Some e" using ok Some by (simp add: fixed_result_ok_def)
    ultimately show ?thesis using m1(1-3)
      by (intro exI [of _ m1] exI [of _ "[]"]) (simp add: file_result_def)
  next
    case None
    let ?m2 = "if got \<noteq> [] then m1\<lparr>chunk := got\<rparr> else m1"
    let ?out = "if got \<noteq> [] then [got] else []"
    have m2: "fixed_ok ?m2" "minimumChunkSize ?m2 = ?mn" "maximumChunkSize ?m2 = maximumChunkSize m"
      using m1 by (simp_all add: fixed_ok_def)
    show ?thesis
    proof (cases eof1)
      case True
      then have "reader_data rd1 = []" "reader_fails rd = None"
        using ok None by (auto simp: fixed_result_ok_def)
      moreover have "fixed_chunks ?mn got = ?out"
        using m1(6) fixed_chunks_step [of ?mn got "[]"] less.prems
        by (cases "length got = ?mn") (auto simp: fixed_chunks_short fixed_ok_def)
      moreover have "fixed_loop w fh m rd sz hb sent = Some (?m2, sent @ ?out,
          Returned (int (sz + length got)) (fh (hb @ got)) [])"
        using fr True None m1(4,5) m1_front by (subst fixed_loop.simps) (simp add: Let_def)
      ultimately show ?thesis
        using m1(7) m2 by (intro exI [of _ ?m2] exI [of _ ?out]) (simp add: file_result_def)
    next
      case False
      then have full: "length got = ?mn" and f: "reader_fails rd1 = reader_fails rd"
        using ok None m1 by (simp_all add: fixed_result_ok_def)
      then have pos: "got \<noteq> []" using less.prems by (auto simp: fixed_ok_def)
      then have "length (reader_data rd1) < length (reader_data rd)" using m1(7) by simp
      from less.hyps [OF this m2(1)] obtain m' out where
        eq: "fixed_loop w fh ?m2 rd1 (sz + length got) (hb @ got) (sent @ [got]) =
          Some (m', (sent @ [got]) @ out, file_result w fh (sz + length got) (hb @ got) rd1)"
        and r: "fixed_ok m'" "minimumChunkSize m' = ?mn" "maximumChunkSize m' = maximumChunkSize m"
          "reader_fails rd1 = None \<longrightarrow> out = fixed_chunks ?mn (reader_data rd1)"
        using m2 by metis
      have "file_result w fh (sz + length got) (hb @ got) rd1 = file_result w fh sz hb rd"
        by (simp add: file_result_def f m1(7) add.assoc split: option.split)
      then have "fixed_loop w fh m rd sz hb sent =
          Some (m', sent @ ([got] @ out), file_result w fh sz hb rd)"
        using fr None False m1(4,5) m1_front pos eq by (subst fixed_loop.simps) (simp add: Let_def)
      moreover have "fixed_chunks ?mn (reader_data rd) = [got] @ fixed_chunks ?mn (reader_data rd1)"
        using fixed_chunks_step [of ?mn got] full pos m1(7) by force
      ultimately show ?thesis using r f by (intro exI [of _ m'] exI [of _ "[got] @ out"]) simp
    qed
  qed
qed

section \<open>A sequence of files\<close>

text \<open>
  The chunker is fed one file after another and flushed at the end by a nil reader, which is how
  the packing loop of a backup and the upload of a file list use it.
\<close>

fun AddFiles ::
  "bool \<Rightarrow> (bytes \<Rightarrow> string) \<Rightarrow> chunk_maker \<Rightarrow> reader list
     \<Rightarrow> (chunk_maker \<times> bytes list \<times> add_result list) option" where
  "AddFiles w fh m [] =
     (case AddData w fh m None of
        None \<Rightarrow> None
      | Some (m1, out, r) \<Rightarrow> Some (m1, out, [r]))"
| "AddFiles w fh m (rd # rds) =
     (case AddData w fh m (Some rd) of
        None \<Rightarrow> None
      | Some (m1, out, r) \<Rightarrow>
          (case AddFiles w fh m1 rds of
             None \<Rightarrow> None
           | Some (m2, out2, rs) \<Rightarrow> Some (m2, out @ out2, r # rs)))"

abbreviation maker_chunks :: "chunk_maker \<Rightarrow> bytes \<Rightarrow> bytes list" where
  "maker_chunks m \<equiv> spec_chunks (randomTable m) (hashMask m) (minimumChunkSize m) (maximumChunkSize m)"

lemma AddData_step:
  assumes "maker_inv m"
  obtains m' out where
    "AddData w fh m (Some rd) = Some (m', out, file_result w fh 0 [] rd)"
    "maker_inv m'" "same_params m m'"
    "\<forall>d. maker_split m (pending m @ reader_data rd @ d) =
         (out @ fst (maker_split m (pending m' @ d)), snd (maker_split m (pending m' @ d)))"
  using add_loop_file [OF assms, of False rd w fh 0 "[]" "[]"] assms
  by (auto simp: AddData_def maker_inv_def)

lemma maker_chunks_split:
  assumes "maker_split m (x @ d) = (out @ fst (maker_split m (y @ d)), snd (maker_split m (y @ d)))"
  shows "maker_chunks m (x @ d) = out @ maker_chunks m (y @ d)"
  using assms by (simp add: spec_chunks_def split: prod.splits)

lemma AddFiles_chunks:
  "maker_inv m \<Longrightarrow> \<exists>m'. AddFiles w fh m rds = Some (m',
     maker_chunks m (pending m @ concat (map reader_data rds)),
     map (file_result w fh 0 []) rds @ [Returned 0 [] []])"
proof (induction rds arbitrary: m)
  case Nil
  then show ?case using add_loop_flush [OF Nil, of w fh 0 "[]" "[]"]
    by (auto simp: AddData_def maker_inv_def)
next
  case (Cons rd rds)
  obtain m1 out where
    1: "AddData w fh m (Some rd) = Some (m1, out, file_result w fh 0 [] rd)"
    "maker_inv m1" "same_params m m1"
    "\<forall>d. maker_split m (pending m @ reader_data rd @ d) =
         (out @ fst (maker_split m (pending m1 @ d)), snd (maker_split m (pending m1 @ d)))"
    by (rule AddData_step [OF Cons.prems, of w fh rd])
  have "maker_chunks m (pending m @ reader_data rd @ concat (map reader_data rds))
      = out @ maker_chunks m (pending m1 @ concat (map reader_data rds))"
    using maker_chunks_split [of m "pending m @ reader_data rd"] 1(4) by auto
  then show ?case using 1 Cons.IH [OF 1(2)] by (auto simp: same_params_def)
qed

lemma spec_chunks_nonempty:
  assumes "0 < mn" "mn < mx"
  shows "[] \<notin> set (spec_chunks t msk mn mx data)"
proof (cases "spec_split t msk mn mx data")
  case (Pair cs r)
  then have "\<forall>c \<in> set cs. mn \<le> length c" using spec_split_bounds [OF Pair assms] by blast
  then have "[] \<notin> set cs" using assms(1) by force
  then show ?thesis using Pair by (simp add: spec_chunks_def)
qed

lemma spec_chunks_bounds:
  assumes "0 < mn" "mn < mx" "c \<in> set (spec_chunks t msk mn mx data)"
  shows "length c \<le> mx" "c = last (spec_chunks t msk mn mx data) \<or> mn \<le> length c"
  using spec_split_bounds [OF _ assms(1,2), of t msk data] assms
  by (cases "spec_split t msk mn mx data", force simp: spec_chunks_def split: if_splits)+

lemma grow_size_power: "0 < s \<Longrightarrow> \<exists>k. grow_size a s = s * 2 ^ k"
proof (induction a s rule: grow_size.induct)
  case (1 a s)
  show ?case
  proof (cases "s * 2 \<le> a")
    case True
    then obtain k where "grow_size a (s * 2) = s * 2 * 2 ^ k" using 1 by auto
    then have "grow_size a s = s * 2 ^ Suc k"
      using True 1(2) by (subst grow_size.simps) simp
    then show ?thesis by blast
  qed (subst grow_size.simps, auto intro: exI [of _ 0])
qed

lemma grow_size_reaches: "0 < s \<Longrightarrow> grow_size (s * 2 ^ k) s = s * 2 ^ k"
proof (induction k arbitrary: s)
  case 0
  then show ?case by (subst grow_size.simps) simp
next
  case (Suc k)
  have "s * 2 \<le> s * 2 ^ Suc k" using Suc.prems by simp
  then show ?case using Suc.IH [of "s * 2"] Suc.prems
    by (subst grow_size.simps) (simp add: mult.assoc)
qed

lemma grow_size_iff: "grow_size a 1 = a \<longleftrightarrow> (\<exists>k. a = 2 ^ k)"
  using grow_size_power [of 1 a] grow_size_reaches [of 1] by fastforce

lemma buffered_nothing [simp]:
  "bufferSize m = 0 \<Longrightarrow> bufferStart m = 0 \<Longrightarrow> contents m = []"
  by (simp add: contents_def)

lemma CreateFileChunkMaker_ok:
  assumes "0 < MinimumChunkSize cfg" "MinimumChunkSize cfg < MaximumChunkSize cfg"
    "CreateFileChunkMaker sha cfg = Inr m"
  shows "maker_inv m" "pending m = []" "minimumChunkSize m = nat (MinimumChunkSize cfg)"
    "maximumChunkSize m = nat (MaximumChunkSize cfg)" "hashMask m = of_int (AverageChunkSize cfg - 1)"
    "randomTable m = randomTable_of sha (ChunkSeed cfg)"
  using assms
  by (auto simp: CreateFileChunkMaker_def startNewChunk_def maker_inv_def ring_inv_def pending_def
      nat_mult_distrib split: if_splits)

section \<open>Properties\<close>

text \<open>
  C4. Content-defined chunking of a backup stream.  A chunk maker created from a configuration,
  fed any sequence of readers (of any read sizes, ended by io.EOF with or without data, or failing)
  and flushed, returns, sends exactly the chunks the reference chunker cuts off the concatenation
  of what the readers delivered, and reports for every file its size and the hash of its bytes, or
  the failure.
\<close>

theorem chunk_stream_is_reference:
  assumes "CreateFileChunkMaker sha256 cfg = Inr m"
    and "0 < MinimumChunkSize cfg" and "MinimumChunkSize cfg < MaximumChunkSize cfg"
  shows "\<exists>m'. AddFiles windows fileHash m rds = Some (m',
     spec_chunks (randomTable_of sha256 (ChunkSeed cfg)) (of_int (AverageChunkSize cfg - 1))
       (nat (MinimumChunkSize cfg)) (nat (MaximumChunkSize cfg)) (concat (map reader_data rds)),
     map (file_result windows fileHash 0 []) rds @ [Returned 0 [] []])"
  using AddFiles_chunks [OF CreateFileChunkMaker_ok(1) [OF assms(2,3,1)], of windows fileHash rds]
    CreateFileChunkMaker_ok(2-) [OF assms(2,3,1)] by simp

definition sample_config :: "int \<Rightarrow> int \<Rightarrow> int \<Rightarrow> config" where
  "sample_config mn avg mx =
     \<lparr>CompressionLevel = 100, AverageChunkSize = avg, MaximumChunkSize = mx, MinimumChunkSize = mn,
      ChunkSeed = [], FixedNesting = True, HashKey = [], IDKey = [], ChunkKey = [], FileKey = [],
      DataShards = 0, ParityShards = 0, rsaPrivateKey = None, rsaPublicKey = None, dryRun = False\<rparr>"

definition sample_maker :: chunk_maker where
  "sample_maker = projr (CreateFileChunkMaker (\<lambda>bs. replicate 32 0) (sample_config 2 4 8))"

lemma sample_maker_created:
  "CreateFileChunkMaker (\<lambda>bs. replicate 32 0) (sample_config 2 4 8) = Inr sample_maker"
proof -
  have "grow_size 4 1 = 4" by (simp add: grow_size.simps)
  then show ?thesis
    by (simp add: CreateFileChunkMaker_def sample_maker_def sample_config_def)
qed

theorem chunk_stream_is_reference_witness:
  "\<exists>m'. AddFiles True (\<lambda>bs. ''h'') sample_maker [[Data [1, 2, 3], LastData [4]], [ReadFail ''e'']] = Some (m',
     spec_chunks (randomTable_of (\<lambda>bs. replicate 32 0) []) 3 2 8 [1, 2, 3, 4],
     [Returned 4 ''h'' [], Panicked ''e'', Returned 0 [] []])"
  using chunk_stream_is_reference [OF sample_maker_created, of True "\<lambda>bs. ''h''"
      "[[Data [1, 2, 3], LastData [4]], [ReadFail ''e'']]"]
  by (simp add: sample_config_def file_result_def read_failure_def isCloudFileError_def has_suffix_def)



text \<open>
  \<^verbatim>\<open>CreateFileChunkMaker\<close> accepts a configuration exactly when the average chunk size is a
  power of two (and the minimum is not negative), and what it makes satisfies the invariant of the
  chunk maker with nothing pending, whenever the sizes are those of a variable-size storage.
\<close>

theorem CreateFileChunkMaker_accepts:
  "(\<exists>m. CreateFileChunkMaker sha256 cfg = Inr m) \<longleftrightarrow>
     (\<exists>k. AverageChunkSize cfg = 2 ^ k) \<and> 0 \<le> MinimumChunkSize cfg"
  using grow_size_iff [of "AverageChunkSize cfg"] by (auto simp: CreateFileChunkMaker_def)

text \<open>
  C16. One call of \<^verbatim>\<open>AddData\<close> in its variable-size form.  From any state satisfying the invariant
  and for any reader, the call returns; the invariant holds again; no byte is lost, duplicated or
  reordered: what was pending and what the reader delivered is what was sent followed by what is
  pending now.  This includes the bytes of a file whose reading failed half-way.
\<close>

theorem AddData_conserves_bytes:
  assumes "maker_inv m"
  shows "\<exists>m' out. AddData windows fileHash m (Some rd) = Some (m', out, file_result windows fileHash 0 [] rd)
    \<and> maker_inv m' \<and> pending m @ reader_data rd = concat out @ pending m'"
proof -
  obtain m' out where r: "AddData windows fileHash m (Some rd) = Some (m', out, file_result windows fileHash 0 [] rd)"
    "maker_inv m'" "\<forall>d. maker_split m (pending m @ reader_data rd @ d) =
         (out @ fst (maker_split m (pending m' @ d)), snd (maker_split m (pending m' @ d)))"
    by (rule AddData_step [OF assms, of windows fileHash rd])
  obtain cs r' where s: "maker_split m (pending m') = (cs, r')"
    by (cases "maker_split m (pending m')")
  then have "maker_split m (pending m @ reader_data rd) = (out @ cs, r')"
    using r(3) [THEN spec, of "[]"] by simp
  then have "pending m @ reader_data rd = concat (out @ cs) @ r'"
    by (simp only: spec_split_concat)
  also have "\<dots> = concat out @ pending m'"
    using spec_split_concat [OF s] by simp
  finally show ?thesis using r by blast
qed

theorem AddData_conserves_bytes_witness:
  "\<exists>m' out. AddData True (\<lambda>bs. ''h'') sample_maker (Some [Data [7, 8, 9], ReadFail ''x'']) = Some (m', out, Panicked ''x'')
     \<and> concat out @ pending m' = [7, 8, 9]"
proof -
  have "maker_inv sample_maker" "pending sample_maker = []"
    using CreateFileChunkMaker_ok [OF _ _ sample_maker_created] by (simp_all add: sample_config_def)
  then show ?thesis
    using AddData_conserves_bytes [of sample_maker True "\<lambda>bs. ''h''" "[Data [7, 8, 9], ReadFail ''x'']"]
    by (auto simp: file_result_def read_failure_def isCloudFileError_def has_suffix_def)
qed

text \<open>
  The fixed-size form of \<^verbatim>\<open>AddData\<close> (minimum and maximum equal) cuts the data of each file
  every \<^verbatim>\<open>minimumChunkSize\<close> bytes, with only the last chunk shorter, whatever the sizes of the
  reads, and returns the size and the hash of the whole file.
\<close>

theorem AddData_fixed_size:
  assumes "fixed_ok m" and "minimumChunkSize m = maximumChunkSize m" and "reader_fails rd = None"
  shows "\<exists>m'. AddData windows fileHash m (Some rd) =
      Some (m', fixed_chunks (minimumChunkSize m) (reader_data rd),
        Returned (int (length (reader_data rd))) (fileHash (reader_data rd)) [])
    \<and> fixed_ok m'"
  using fixed_loop_spec [OF assms(1), of windows fileHash rd 0 "[]" "[]"] assms
  by (auto simp: AddData_def file_result_def)

theorem AddData_fixed_size_witness:
  "\<exists>m m'. AddData True (\<lambda>bs. ''h'') m (Some [Data [1, 2, 3], Data [4, 5]]) =
     Some (m', [[1, 2], [3, 4], [5]], Returned 5 ''h'' [])"
proof -
  define m where "m = projr (CreateFileChunkMaker (\<lambda>bs. replicate 32 0) (sample_config 2 4 2))"
  have "grow_size 4 1 = 4" by (simp add: grow_size.simps)
  then have "fixed_ok m" "minimumChunkSize m = 2" "maximumChunkSize m = 2"
    by (simp_all add: m_def CreateFileChunkMaker_def sample_config_def startNewChunk_def fixed_ok_def)
  moreover have "fixed_chunks 2 [1, 2, 3, 4, 5] = [[1, 2], [3, 4], [5 :: byte]]"
    by (simp add: fixed_chunks.simps)
  ultimately show ?thesis
    using AddData_fixed_size [of m "[Data [1, 2, 3], Data [4, 5]]" True "\<lambda>bs. ''h''"]
    by (auto intro: exI [of _ m])
qed

end
