(* ===== verification/Path_Order.thy ===== *)
theory Path_Order
  imports Prelude "HOL-Library.Char_ord" "HOL-Library.List_Lexorder"
begin

text \<open>
  The order of paths (\<^verbatim>\<open>ComparePaths\<close> in \<^verbatim>\<open>src/src/duplicacy_entry.go\<close>), which every listing,
  merge and binary search of the program relies on.  The abstract specification is \<open>path_key\<close>:
  a path is the list of its steps, compared lexicographically, where at the same depth the end of
  the path comes first, then files, then directories that end the path, then directories that the
  path continues into, each by name.
\<close>

section \<open>ComparePaths\<close>

definition code_of :: "char \<Rightarrow> int" where
  "code_of c = int (of_char c)"

definition slash :: char where
  "slash = CHR ''/''"

text \<open>The first loop: the index of the first difference.\<close>

fun diff_index :: "string \<Rightarrow> string \<Rightarrow> nat" where
  "diff_index (x # xs) (y # ys) = (if x \<noteq> y then 0 else Suc (diff_index xs ys))"
| "diff_index _ _ = 0"

text \<open>
  The loops over the rest of a component: how it ends (\<^verbatim>\<open>c3\<close>, \<^verbatim>\<open>c4\<close>) and whether it is the last
  one.
\<close>

fun component_end :: "string \<Rightarrow> int \<Rightarrow> int \<times> bool" where
  "component_end [] c = (c, True)"
| "component_end (x # xs) c = (if x = slash then (code_of x, xs = []) else component_end xs (code_of x))"

definition byte_at :: "string \<Rightarrow> nat \<Rightarrow> int" where
  "byte_at s p = (if p < length s then code_of (s ! p) else 0)"

definition ComparePaths :: "string \<Rightarrow> string \<Rightarrow> int" where
  "ComparePaths left right =
     (let p = diff_index left right;
          c1 = byte_at left p;
          c2 = byte_at right p;
          (c3, last1) = component_end (drop p left) c1;
          (c4, last2) = component_end (drop p right) c2
      in if last1 \<noteq> last2 then (if last1 then -1 else 1)
         else if c3 = code_of slash
         then (if c4 = code_of slash
               then (if c1 = code_of slash then -1
                     else if c2 = code_of slash then 1 else c1 - c2)
               else 1)
         else (if c4 = code_of slash then -1 else c1 - c2))"

section \<open>The specification\<close>

datatype path_step = File string | Dir_Last string | Dir_More string

fun step_rank :: "path_step \<Rightarrow> nat" where
  "step_rank (File n) = 0"
| "step_rank (Dir_Last n) = 1"
| "step_rank (Dir_More n) = 2"

fun step_name :: "path_step \<Rightarrow> string" where
  "step_name (File n) = n"
| "step_name (Dir_Last n) = n"
| "step_name (Dir_More n) = n"

lemma path_step_eqI: "step_rank a = step_rank b \<Longrightarrow> step_name a = step_name b \<Longrightarrow> a = b"
  by (cases a; cases b) simp_all

instantiation path_step :: linorder
begin

definition less_path_step_def:
  "a < b \<longleftrightarrow> step_rank a < step_rank b \<or> step_rank a = step_rank b \<and> step_name a < step_name b"

definition less_eq_path_step_def:
  "(a :: path_step) \<le> b \<longleftrightarrow> a = b \<or> a < b"

instance
proof
  fix a b c :: path_step
  show "a < b \<longleftrightarrow> a \<le> b \<and> \<not> b \<le> a"
    by (auto simp: less_path_step_def less_eq_path_step_def)
  show "a \<le> a" by (simp add: less_eq_path_step_def)
  show "a \<le> b \<Longrightarrow> b \<le> c \<Longrightarrow> a \<le> c"
    by (auto simp: less_path_step_def less_eq_path_step_def)
  show "a \<le> b \<Longrightarrow> b \<le> a \<Longrightarrow> a = b"
    by (auto simp: less_path_step_def less_eq_path_step_def)
  show "a \<le> b \<or> b \<le> a"
    using path_step_eqI [of a b] less_linear [of "step_name a" "step_name b"]
    by (auto simp: less_path_step_def less_eq_path_step_def)
qed

end

fun extend_name :: "char \<Rightarrow> path_step \<Rightarrow> path_step" where
  "extend_name c (File n) = File (c # n)"
| "extend_name c (Dir_Last n) = Dir_Last (c # n)"
| "extend_name c (Dir_More n) = Dir_More (c # n)"

fun path_key :: "string \<Rightarrow> path_step list" where
  "path_key [] = []"
| "path_key (c # s) =
     (if c = slash then (if s = [] then [Dir_Last []] else Dir_More [] # path_key s)
      else case path_key s of
             [] \<Rightarrow> [File [c]]
           | k # ks \<Rightarrow> extend_name c k # ks)"

definition no_nul :: "string \<Rightarrow> bool" where
  "no_nul s \<longleftrightarrow> CHR 0x00 \<notin> set s"

section \<open>ComparePaths decides the order of the keys\<close>

lemma code_of_less: "code_of x < code_of y \<longleftrightarrow> x < y"
  by (simp add: code_of_def less_char_def)

lemma code_of_eq [simp]: "code_of x = code_of y \<longleftrightarrow> x = y"
  by (simp add: code_of_def)

lemma code_of_0: "code_of x = 0 \<longleftrightarrow> x = CHR 0x00"
  using code_of_eq [of x "CHR 0x00"] by (simp add: code_of_def)

lemma code_of_pos: "x \<noteq> CHR 0x00 \<Longrightarrow> 0 < code_of x"
  using code_of_0 [of x] by (simp add: code_of_def)

lemma Nil_less [simp]: "[] < (n :: 'a :: linorder list) \<longleftrightarrow> n \<noteq> []"
  by (cases n) simp_all

lemma path_key_Nil [simp]: "path_key s = [] \<longleftrightarrow> s = []"
  by (cases s) (auto split: list.splits)

text \<open>The first step of a path, read off the scan of its first component.\<close>

definition scanned_rank :: "int \<times> bool \<Rightarrow> nat" where
  "scanned_rank r = (if \<not> snd r then 2 else if fst r = code_of slash then 1 else 0)"

lemma first_step:
  assumes "s \<noteq> []"
  obtains k ks where "path_key s = k # ks" "step_rank k = scanned_rank (component_end s c)"
    "hd s \<noteq> slash \<longrightarrow> step_name k \<noteq> [] \<and> hd (step_name k) = hd s"
    "hd s = slash \<longrightarrow> step_name k = []"
  using assms
proof (induction s arbitrary: c thesis)
  case (Cons x s)
  show ?case
  proof (cases "x = slash \<or> s = []")
    case True
    then show ?thesis
      by (cases "x = slash"; cases "s = []"; auto intro: Cons.prems(1) [of "Dir_Last []" "[]"]
          Cons.prems(1) [of "Dir_More []" "path_key s"] Cons.prems(1) [of "File [x]" "[]"]
          simp: scanned_rank_def)
  next
    case False
    then obtain k ks where k: "path_key s = k # ks" "step_rank k = scanned_rank (component_end s (code_of x))"
      using Cons.IH [of "code_of x"] by blast
    show ?thesis
      by (rule Cons.prems(1) [of "extend_name x k" ks]; use False k in \<open>cases k; simp add: scanned_rank_def\<close>)
  qed
qed simp

lemma extend_less [simp]: "extend_name c a < extend_name c b \<longleftrightarrow> a < b"
  by (cases a; cases b) (simp_all add: less_path_step_def)

lemma extend_eq [simp]: "extend_name c a = extend_name c b \<longleftrightarrow> a = b"
  by (cases a; cases b) simp_all

lemma path_key_no_empty_file: "path_key s = File n # ks \<Longrightarrow> n \<noteq> []"
  by (cases s) (auto split: if_splits list.splits elim: extend_name.elims)

lemma path_key_Cons_less: "path_key (c # l) < path_key (c # r) \<longleftrightarrow> path_key l < path_key r"
proof (cases "l = [] \<or> r = []")
  case False
  then show ?thesis by (auto simp: neq_Nil_conv split: list.splits)
next
  case True
  have "File [c] < extend_name c k" if "path_key s = k # ks" for s k ks
    using path_key_no_empty_file that by (cases k) (auto simp: less_path_step_def)
  then show ?thesis using True
    by (cases "l = []"; cases "r = []") (auto simp: less_path_step_def not_less split: list.splits dest: less_not_sym)
qed

lemma byte_at_Cons [simp]: "byte_at (c # l) 0 = code_of c" "byte_at (c # l) (Suc p) = byte_at l p"
  by (simp_all add: byte_at_def)

lemma ComparePaths_Cons: "ComparePaths (c # l) (c # r) = ComparePaths l r"
  by (simp add: ComparePaths_def Let_def split: prod.splits)

lemma component_end_slash:
  "component_end (slash # s) c = (code_of slash, s = [])"
  "component_end s c = (e, False) \<Longrightarrow> e = code_of slash"
  by simp (induction s c rule: component_end.induct, auto split: if_splits)

lemma ComparePaths_Nil:
  assumes "no_nul r" "r \<noteq> []"
  shows "ComparePaths [] r < 0" "0 < ComparePaths r []"
proof -
  have "0 < code_of (hd r)" "0 < length r" "r ! 0 = hd r" "0 < code_of slash"
    using assms code_of_pos [of "hd r"] by (cases r; auto simp: no_nul_def code_of_pos slash_def)+
  then show "ComparePaths [] r < 0" "0 < ComparePaths r []"
    by (auto simp: ComparePaths_def byte_at_def Let_def split: prod.splits)
qed

text \<open>Two paths that differ in their first byte.\<close>

lemma ComparePaths_diff:
  assumes "x \<noteq> y" "no_nul (x # l)" "no_nul (y # r)"
  shows "ComparePaths (x # l) (y # r) \<noteq> 0"
    "ComparePaths (x # l) (y # r) < 0 \<longleftrightarrow> path_key (x # l) < path_key (y # r)"
proof -
  obtain k ks where k: "path_key (x # l) = k # ks"
    "step_rank k = scanned_rank (component_end (x # l) (code_of x))"
    "x \<noteq> slash \<longrightarrow> step_name k \<noteq> [] \<and> hd (step_name k) = x" "x = slash \<longrightarrow> step_name k = []"
    by (rule first_step [of "x # l" "code_of x"]) simp_all
  obtain j js where j: "path_key (y # r) = j # js"
    "step_rank j = scanned_rank (component_end (y # r) (code_of y))"
    "y \<noteq> slash \<longrightarrow> step_name j \<noteq> [] \<and> hd (step_name j) = y" "y = slash \<longrightarrow> step_name j = []"
    by (rule first_step [of "y # r" "code_of y"]) simp_all
  have name: "step_name k < step_name j \<longleftrightarrow> x = slash \<or> y \<noteq> slash \<and> x < y" "step_name k \<noteq> step_name j"
    using k(3,4) j(3,4) assms(1) by (cases "step_name k"; cases "step_name j"; auto)+
  obtain c3 m1 c4 m2 where e: "component_end (x # l) (code_of x) = (c3, m1)"
    "component_end (y # r) (code_of y) = (c4, m2)" by fastforce
  have kj: "k \<noteq> j" "k < j \<longleftrightarrow> step_rank k < step_rank j \<or> step_rank k = step_rank j
      \<and> (x = slash \<or> y \<noteq> slash \<and> x < y)"
    using name by (auto simp: less_path_step_def)
  have cmp: "ComparePaths (x # l) (y # r) =
     (if m1 \<noteq> m2 then (if m1 then -1 else 1)
         else if c3 = code_of slash
         then (if c4 = code_of slash
               then (if x = slash then -1
                     else if y = slash then 1 else code_of x - code_of y)
               else 1)
         else (if c4 = code_of slash then -1 else code_of x - code_of y))"
    using assms(1) e by (simp add: ComparePaths_def byte_at_def del: component_end.simps)
  have neg: "code_of x - code_of y < 0 \<longleftrightarrow> x < y" "code_of x - code_of y \<noteq> 0"
    using assms(1) by (simp_all add: code_of_less)
  have s: "x = slash \<Longrightarrow> c3 = code_of slash" "y = slash \<Longrightarrow> c4 = code_of slash"
    using e by auto
  have r: "\<not> m1 \<Longrightarrow> c3 = code_of slash" "\<not> m2 \<Longrightarrow> c4 = code_of slash"
    using component_end_slash(2) [of "x # l" "code_of x" c3] component_end_slash(2) [of "y # r" "code_of y" c4] e
    by (simp_all del: component_end.simps)
  show "ComparePaths (x # l) (y # r) \<noteq> 0"
    using neg(2) by (simp add: cmp)
  show "ComparePaths (x # l) (y # r) < 0 \<longleftrightarrow> path_key (x # l) < path_key (y # r)"
    using k(2) j(2) e neg s r kj by (auto simp: cmp k(1) j(1) scanned_rank_def simp del: path_key.simps component_end.simps split: if_splits)
qed

lemma ComparePaths_same: "ComparePaths [] [] = 0"
  by (simp add: ComparePaths_def byte_at_def code_of_def slash_def)

lemma ComparePaths_key:
  assumes "no_nul l" "no_nul r"
  shows "(ComparePaths l r = 0 \<longleftrightarrow> l = r) \<and> (ComparePaths l r < 0 \<longleftrightarrow> path_key l < path_key r)"
  using assms
proof (induction l r rule: diff_index.induct, goal_cases)
  case (1 x xs y ys)
  then show ?case
    using ComparePaths_diff [of x y xs ys]
    by (cases "x = y") (simp_all add: ComparePaths_Cons path_key_Cons_less no_nul_def del: path_key.simps)
next
  case (2 r)
  then show ?case using ComparePaths_Nil [of r]
    by (cases "r = []") (auto simp: ComparePaths_same)
next
  case (3 l)
  then show ?case using ComparePaths_Nil [of l]
    by (cases "l = []") (auto simp: ComparePaths_same)
qed

text \<open>A key determines its path, so the order of the paths is the linear order of their keys.\<close>

fun step_string :: "path_step \<Rightarrow> string" where
  "step_string (File n) = n"
| "step_string (Dir_Last n) = n @ [slash]"
| "step_string (Dir_More n) = n @ [slash]"

lemma step_string_extend [simp]: "step_string (extend_name c k) = c # step_string k"
  by (cases k) simp_all

lemma path_key_string: "concat (map step_string (path_key s)) = s"
  by (induction s) (auto split: list.splits)

lemma path_key_inj: "path_key l = path_key r \<longleftrightarrow> l = r"
  by (metis path_key_string)

lemma ComparePaths_greater:
  assumes "no_nul l" "no_nul r"
  shows "0 < ComparePaths l r \<longleftrightarrow> path_key r < path_key l"
  using ComparePaths_key [OF assms] path_key_inj [of l r] by auto

section \<open>The interface of a path comparison\<close>

text \<open>
  What the merging loops of the program (a backup against the last one, a restore against the
  files on disk, a diff) rely on.  They walk two ascending sequences side by side.
\<close>

locale path_comparison =
  fixes cmp :: "'p \<Rightarrow> 'p \<Rightarrow> int" and valid :: "'p \<Rightarrow> bool"
  assumes cmp_eq: "valid x \<Longrightarrow> valid y \<Longrightarrow> cmp x y = 0 \<longleftrightarrow> x = y"
    and cmp_flip: "valid x \<Longrightarrow> valid y \<Longrightarrow> 0 < cmp x y \<longleftrightarrow> cmp y x < 0"
    and cmp_trans: "valid x \<Longrightarrow> valid y \<Longrightarrow> valid z \<Longrightarrow> cmp x y < 0 \<Longrightarrow> cmp y z < 0 \<Longrightarrow> cmp x z < 0"
begin

definition ascending :: "'p list \<Rightarrow> bool" where
  "ascending xs \<longleftrightarrow> sorted_wrt (\<lambda>x y. cmp x y < 0) xs \<and> (\<forall>x \<in> set xs. valid x)"

lemma ascending_Nil [simp]: "ascending []"
  by (simp add: ascending_def)

lemma ascending_Cons:
  "ascending (x # xs) \<longleftrightarrow> valid x \<and> (\<forall>y \<in> set xs. cmp x y < 0) \<and> ascending xs"
  by (auto simp: ascending_def)

lemma cmp_irrefl: "valid x \<Longrightarrow> \<not> cmp x x < 0"
  using cmp_eq [of x x] by simp

lemma before_head_absent:
  assumes "ascending (y # ys)" "valid x" "cmp x y < 0"
  shows "x \<notin> set (y # ys)" "z \<in> set (y # ys) \<Longrightarrow> cmp x z < 0"
proof -
  show *: "cmp x z < 0" if "z \<in> set (y # ys)" for z
    using assms that cmp_trans [of x y z] by (auto simp: ascending_def)
  show "x \<notin> set (y # ys)"
    using * [of x] cmp_irrefl assms(2) by blast
qed

lemma after_head_absent:
  assumes "ascending (x # xs)" "valid y" "0 < cmp x y"
  shows "y \<notin> set (x # xs)"
proof -
  have "valid x" using assms(1) by (simp add: ascending_Cons)
  then have "cmp y x < 0" using cmp_flip assms by blast
  then show ?thesis using before_head_absent(1) [OF assms(1,2)] by blast
qed

lemma head_absent: "ascending (x # xs) \<Longrightarrow> x \<notin> set xs"
  using cmp_irrefl [of x] by (auto simp: ascending_Cons)

lemma ascending_distinct: "ascending xs \<Longrightarrow> distinct xs"
  by (induction xs) (use head_absent ascending_Cons in auto)

lemma ascending_append:
  "ascending (xs @ ys) \<longleftrightarrow> ascending xs \<and> ascending ys \<and> (\<forall>x \<in> set xs. \<forall>y \<in> set ys. cmp x y < 0)"
  by (auto simp: ascending_def sorted_wrt_append)

lemma ascending_unique:
  assumes "ascending xs" "ascending ys" "set xs = set ys"
  shows "xs = ys"
  using assms
proof (induction xs arbitrary: ys)
  case (Cons x xs)
  then obtain y zs where ys: "ys = y # zs" by (cases ys) auto
  have v: "valid x" "valid y" using Cons.prems ys by (auto simp: ascending_Cons)
  have "x = y"
  proof (rule ccontr)
    assume "x \<noteq> y"
    then have "cmp x y < 0" "cmp y x < 0"
      using Cons.prems ys by (auto simp: ascending_Cons)
    then show False using cmp_trans [OF v(1,2,1)] cmp_irrefl [OF v(1)] by blast
  qed
  moreover have "x \<notin> set xs" "y \<notin> set zs"
    using head_absent Cons.prems(1,2) ys by blast+
  ultimately have "set xs = set zs" using Cons.prems(3) ys by auto
  then show ?case
    using Cons.IH [of zs] Cons.prems(1,2) ys \<open>x = y\<close> by (simp add: ascending_Cons)
qed simp

end

interpretation paths: path_comparison ComparePaths no_nul
proof
  fix x y z
  assume x: "no_nul x" and y: "no_nul y"
  show "ComparePaths x y = 0 \<longleftrightarrow> x = y" using ComparePaths_key [OF x y] by simp
  show "0 < ComparePaths x y \<longleftrightarrow> ComparePaths y x < 0"
    using ComparePaths_greater [OF x y] ComparePaths_key [OF y x] by simp
  assume "no_nul z" "ComparePaths x y < 0" "ComparePaths y z < 0"
  then show "ComparePaths x z < 0"
    using ComparePaths_key [OF x y] ComparePaths_key [OF y \<open>no_nul z\<close>] ComparePaths_key [OF x \<open>no_nul z\<close>]
    by (metis order.strict_trans)
qed

section \<open>Properties\<close>

text \<open>
  C13. \<^verbatim>\<open>ComparePaths\<close> is the lexicographic order of the path keys: on paths without NUL bytes its
  sign tells which key is smaller, and it is zero only on equal paths; hence the order it defines is
  a strict linear order on them, with the files of a directory before its subdirectories.
\<close>

theorem ComparePaths_is_key_order:
  assumes "no_nul l" and "no_nul r"
  shows "sgn (ComparePaths l r) = (if path_key l < path_key r then -1 else if l = r then 0 else 1)"
  using ComparePaths_key [OF assms] by (auto simp: sgn_if)

theorem ComparePaths_is_key_order_witness:
  "sgn (ComparePaths ''a/c/'' ''a/b/d'') = -1 \<and> sgn (ComparePaths ''b'' ''a/'') = -1"
  using ComparePaths_is_key_order [of "''a/c/''" "''a/b/d''"] ComparePaths_is_key_order [of "''b''" "''a/''"]
  by (simp add: no_nul_def slash_def less_path_step_def)

end
