(* ===== verification/Entry.thy ===== *)
theory Entry
  imports Path_Order
begin

unbundle bit_operations_syntax

text \<open>
  File entries (\<^verbatim>\<open>src/src/duplicacy_entry.go\<close>): the record, its construction from a file of the
  repository, the predicates on its mode, the comparison of two versions of a file, the sort
  orders, and the sanity check against the lengths of the chunks a file is stored in.  Sizes, times
  and offsets are unbounded integers; the mode keeps its 32 bits.  A Go map of attributes is an
  association list sorted by name, \<open>None\<close> for the nil map.
\<close>

section \<open>The record\<close>

record entry =
  Path :: string
  Size :: int
  Time :: int
  Mode :: "32 word"
  Link :: string
  Hash :: string
  UID :: int
  GID :: int
  StartChunk :: int
  StartOffset :: int
  EndChunk :: int
  EndOffset :: int
  Attributes :: "(string \<times> string) list option"

text \<open>Mode bits of package \<^verbatim>\<open>os\<close>.\<close>

definition ModeDir :: "32 word" where "ModeDir = 0x80000000"
definition ModeSymlink :: "32 word" where "ModeSymlink = 0x08000000"
definition ModeDevice :: "32 word" where "ModeDevice = 0x04000000"
definition ModeNamedPipe :: "32 word" where "ModeNamedPipe = 0x02000000"
definition ModeSocket :: "32 word" where "ModeSocket = 0x01000000"

definition ModeType :: "32 word" where
  "ModeType = ModeDir OR ModeSymlink OR ModeNamedPipe OR ModeSocket OR ModeDevice
     OR 0x00200000 OR 0x00080000"

definition fileModeMask :: "32 word" where
  "fileModeMask = 0x1FF OR 0x00800000 OR 0x00400000 OR 0x00100000"

lemmas mode_defs = ModeDir_def ModeSymlink_def ModeDevice_def ModeNamedPipe_def ModeSocket_def
  ModeType_def fileModeMask_def

definition IsFile :: "entry \<Rightarrow> bool" where
  "IsFile e \<longleftrightarrow> Mode e AND ModeType = 0"

definition IsDir :: "entry \<Rightarrow> bool" where
  "IsDir e \<longleftrightarrow> Mode e AND ModeDir \<noteq> 0"

definition IsLink :: "entry \<Rightarrow> bool" where
  "IsLink e \<longleftrightarrow> Mode e AND ModeSymlink \<noteq> 0"

definition IsComplete :: "entry \<Rightarrow> bool" where
  "IsComplete e \<longleftrightarrow> 0 \<le> Size e"

definition GetPermissions :: "entry \<Rightarrow> 32 word" where
  "GetPermissions e = Mode e AND fileModeMask"

definition with_slash :: "string \<Rightarrow> string" where
  "with_slash path = (if path \<noteq> [] \<and> last path \<noteq> slash then path @ [slash] else path)"

definition CreateEntry :: "string \<Rightarrow> int \<Rightarrow> int \<Rightarrow> 32 word \<Rightarrow> entry" where
  "CreateEntry path sz time mode =
     \<lparr>Path = (if path \<noteq> [] \<and> last path \<noteq> slash \<and> mode AND ModeDir \<noteq> 0 then path @ [slash] else path),
      Size = sz, Time = time, Mode = mode, Link = [], Hash = [], UID = -1, GID = -1,
      StartChunk = 0, StartOffset = 0, EndChunk = 0, EndOffset = 0, Attributes = None\<rparr>"

text \<open>
  What \<^verbatim>\<open>os.FileInfo\<close> reports.  The owner is \<open>None\<close> where the system does not provide one
  (\<^verbatim>\<open>GetOwner\<close>).  Go panics on the index -1 of an empty path; \<^verbatim>\<open>Name()\<close> is never empty.
\<close>

record file_info =
  fiName :: string
  fiSize :: int
  fiTime :: int
  fiMode :: "32 word"
  fiOwner :: "(int \<times> int) option"

definition fiIsDir :: "file_info \<Rightarrow> bool" where
  "fiIsDir f \<longleftrightarrow> fiMode f AND ModeDir \<noteq> 0"

definition GetOwner :: "entry \<Rightarrow> file_info \<Rightarrow> entry" where
  "GetOwner e f = (case fiOwner f of
      Some (uid, gid) \<Rightarrow> e\<lparr>UID := uid, GID := gid\<rparr>
    | None \<Rightarrow> e\<lparr>UID := -1, GID := -1\<rparr>)"

definition CreateEntryFromFileInfo :: "file_info \<Rightarrow> string \<Rightarrow> entry" where
  "CreateEntryFromFileInfo f directory =
     (let path = directory @ fiName f;
          mode = (if fiMode f AND ModeDir \<noteq> 0 \<and> fiMode f AND ModeSymlink \<noteq> 0
                  then fiMode f XOR ModeDir else fiMode f);
          path = (if last path \<noteq> slash \<and> mode AND ModeDir \<noteq> 0 then path @ [slash] else path)
      in GetOwner
           \<lparr>Path = path, Size = fiSize f, Time = fiTime f, Mode = mode, Link = [], Hash = [],
            UID = 0, GID = 0, StartChunk = 0, StartOffset = 0, EndChunk = 0, EndOffset = 0,
            Attributes = None\<rparr> f)"

text \<open>\<^verbatim>\<open>strings.LastIndex(path, "/")\<close> cuts the path at its last slash.\<close>

definition GetParent :: "entry \<Rightarrow> string" where
  "GetParent e =
     (let path = (if Path e \<noteq> [] \<and> last (Path e) = slash then butlast (Path e) else Path e)
      in if slash \<in> set path then butlast (rev (dropWhile (\<lambda>c. c \<noteq> slash) (rev path))) else [])"

definition IsSameAs :: "entry \<Rightarrow> entry \<Rightarrow> bool" where
  "IsSameAs e other \<longleftrightarrow>
     Size e = Size other \<and> Time e \<le> Time other + 1 \<and> Time e \<ge> Time other - 1"

definition IsSameAsFileInfo :: "entry \<Rightarrow> file_info \<Rightarrow> bool" where
  "IsSameAsFileInfo e f \<longleftrightarrow> Size e = fiSize f \<and> Time e \<le> fiTime f + 1 \<and> Time e \<ge> fiTime f - 1"

section \<open>Sort orders\<close>

definition Compare :: "entry \<Rightarrow> entry \<Rightarrow> int" where
  "Compare left right = ComparePaths (Path left) (Path right)"

definition ByName_Less :: "entry \<Rightarrow> entry \<Rightarrow> bool" where
  "ByName_Less a b \<longleftrightarrow> Compare a b < 0"

definition ByChunk_Less :: "entry \<Rightarrow> entry \<Rightarrow> bool" where
  "ByChunk_Less a b \<longleftrightarrow> StartChunk a < StartChunk b
     \<or> StartChunk a = StartChunk b \<and> StartOffset a < StartOffset b"

definition FileInfoCompare_Less :: "file_info \<Rightarrow> file_info \<Rightarrow> bool" where
  "FileInfoCompare_Less left right =
     (if fiIsDir left \<and> fiMode left AND ModeSymlink = 0
      then (if fiIsDir right \<and> fiMode right AND ModeSymlink = 0 then fiName left < fiName right else False)
      else (if fiIsDir right \<and> fiMode right AND ModeSymlink = 0 then True else fiName left < fiName right))"

section \<open>The sanity check\<close>

datatype entry_error =
    InvalidSize string int
  | BadStart string int
  | BadEnd string int nat
  | EndBeforeStart string int int
  | StartOffsetBeyond string int int int
  | EndOffsetBeyond string int int int
  | SizeMismatch string int int

text \<open>The bytes of the \<open>i\<close>th chunk that belong to the entry, as \<open>start\<close> and \<open>end\<close>.\<close>

definition chunk_start :: "entry \<Rightarrow> int \<Rightarrow> int" where
  "chunk_start e i = (if i = StartChunk e then StartOffset e else 0)"

definition chunk_end :: "entry \<Rightarrow> (int \<Rightarrow> int) \<Rightarrow> int \<Rightarrow> int" where
  "chunk_end e len i = (if i = EndChunk e then EndOffset e else len i)"

definition file_size :: "entry \<Rightarrow> (int \<Rightarrow> int) \<Rightarrow> int" where
  "file_size e len =
     foldl (\<lambda>sz i. sz + (chunk_end e len i - chunk_start e i)) 0 [StartChunk e..EndChunk e]"

text \<open>
  The checks that \<^verbatim>\<open>Entry.check\<close> and \<^verbatim>\<open>EntryList.checkEntry\<close> share, over the number of chunks and
  the length of a chunk.  An accepted index is within the list, so the lookup is defined.
\<close>

definition check_with :: "nat \<Rightarrow> (int \<Rightarrow> int) \<Rightarrow> entry \<Rightarrow> entry_error option" where
  "check_with n len e =
     (if Size e < 0 then Some (InvalidSize (Path e) (Size e))
      else if \<not> IsFile e \<or> Size e = 0 then None
      else if StartChunk e < 0 then Some (BadStart (Path e) (StartChunk e))
      else if EndChunk e \<ge> int n then Some (BadEnd (Path e) (EndChunk e) n)
      else if EndChunk e < StartChunk e
      then Some (EndBeforeStart (Path e) (StartChunk e) (EndChunk e))
      else if StartOffset e \<ge> len (StartChunk e)
      then Some (StartOffsetBeyond (Path e) (StartOffset e) (StartChunk e) (len (StartChunk e)))
      else if EndOffset e > len (EndChunk e)
      then Some (EndOffsetBeyond (Path e) (EndOffset e) (EndChunk e) (len (EndChunk e)))
      else if Size e \<noteq> file_size e len then Some (SizeMismatch (Path e) (Size e) (file_size e len))
      else None)"

definition check :: "entry \<Rightarrow> int list \<Rightarrow> entry_error option" where
  "check e chunkLengths = check_with (length chunkLengths) (\<lambda>i. chunkLengths ! nat i) e"

text \<open>The bytes an entry denotes: its slices of the contents of its chunks, in order.\<close>

definition entry_slice :: "(int \<Rightarrow> bytes) \<Rightarrow> entry \<Rightarrow> bytes" where
  "entry_slice content e =
     concat (map (\<lambda>i. subslice (nat (chunk_start e i))
                       (nat (chunk_end e (\<lambda>i. int (length (content i))) i)) (content i))
       [StartChunk e..EndChunk e])"

section \<open>Comparing two versions of a file\<close>

text \<open>
  \<^verbatim>\<open>Diff\<close>: how many bytes of the file are not shared with the other version, whose chunks are all
  given.  The two cursors advance by the chunk that is behind.
\<close>

function Diff_loop ::
  "entry \<Rightarrow> string list \<Rightarrow> int list \<Rightarrow> string list \<Rightarrow> int list
    \<Rightarrow> int \<Rightarrow> nat \<Rightarrow> int \<Rightarrow> int \<Rightarrow> int \<Rightarrow> int" where
  "Diff_loop e chunkHashes chunkLengths otherHashes otherLengths i1 i2 offset1 offset2 modified =
     (if i1 \<le> EndChunk e \<and> i2 < length otherHashes
      then (let start = chunk_start e i1;
                end = chunk_end e (\<lambda>i. chunkLengths ! nat i) i1
            in if offset1 < offset2
               then Diff_loop e chunkHashes chunkLengths otherHashes otherLengths
                      (i1 + 1) i2 (offset1 + (end - start)) offset2 (modified + (end - start))
               else if offset1 > offset2
               then Diff_loop e chunkHashes chunkLengths otherHashes otherLengths
                      i1 (Suc i2) offset1 (offset2 + otherLengths ! i2) modified
               else Diff_loop e chunkHashes chunkLengths otherHashes otherLengths
                      (i1 + 1) (Suc i2) (offset1 + (end - start)) (offset2 + otherLengths ! i2)
                      (if chunkHashes ! nat i1 = otherHashes ! i2 \<and> end - start = otherLengths ! i2
                       then modified else modified + chunkLengths ! nat i1))
      else modified)"
  by pat_completeness auto
termination
  by (relation "measure (\<lambda>(e, ch, cl, oh, ol, i1, i2, _). nat (EndChunk e + 1 - i1) + (length oh - i2))") auto

declare Diff_loop.simps [simp del]

definition Entry_Diff :: "entry \<Rightarrow> string list \<Rightarrow> int list \<Rightarrow> string list \<Rightarrow> int list \<Rightarrow> int" where
  "Entry_Diff e chunkHashes chunkLengths otherHashes otherLengths =
     Diff_loop e chunkHashes chunkLengths otherHashes otherLengths (StartChunk e) 0 0 0 0"

section \<open>What the check guarantees\<close>

lemma file_size_sum:
  "file_size e len = (\<Sum>i \<leftarrow> [StartChunk e..EndChunk e]. chunk_end e len i - chunk_start e i)"
proof -
  have "foldl (\<lambda>sz i. sz + f i) c xs = c + sum_list (map f xs)" for f :: "int \<Rightarrow> int" and c xs
    by (induction xs arbitrary: c) simp_all
  then show ?thesis by (simp add: file_size_def)
qed

text \<open>The slices are within their chunks, so that no slice expression of the code panics.\<close>

definition slices_ok :: "(int \<Rightarrow> int) \<Rightarrow> entry \<Rightarrow> bool" where
  "slices_ok len e \<longleftrightarrow> (\<forall>i \<in> set [StartChunk e..EndChunk e].
     0 \<le> chunk_start e i \<and> chunk_start e i \<le> chunk_end e len i \<and> chunk_end e len i \<le> len i)"

lemma slices_ok_size:
  assumes "slices_ok (\<lambda>i. int (length (content i))) e"
  shows "int (length (entry_slice content e)) = file_size e (\<lambda>i. int (length (content i)))"
proof -
  let ?len = "\<lambda>i. int (length (content i))"
  have "int (length (concat (map (\<lambda>i. subslice (nat (chunk_start e i)) (nat (chunk_end e ?len i)) (content i)) xs)))
      = (\<Sum>i \<leftarrow> xs. chunk_end e ?len i - chunk_start e i)"
    if "\<forall>i \<in> set xs. 0 \<le> chunk_start e i \<and> chunk_start e i \<le> chunk_end e ?len i \<and> chunk_end e ?len i \<le> ?len i"
    for xs using that by (induction xs) (auto simp: nat_le_iff)
  then show ?thesis using assms by (simp add: entry_slice_def file_size_sum slices_ok_def)
qed

lemma check_with_None:
  assumes "check_with n len e = None" "IsFile e" "Size e \<noteq> 0"
  shows "0 < Size e" "0 \<le> StartChunk e" "EndChunk e < int n" "StartChunk e \<le> EndChunk e"
    "StartOffset e < len (StartChunk e)" "EndOffset e \<le> len (EndChunk e)" "Size e = file_size e len"
  using assms by (auto simp: check_with_def split: if_splits)

lemma check_with_slices:
  assumes "check_with n len e = None" "IsFile e" "Size e \<noteq> 0"
    and "0 \<le> StartOffset e" "0 \<le> EndOffset e" "\<And>i. 0 \<le> i \<Longrightarrow> i < int n \<Longrightarrow> 0 \<le> len i"
  shows "slices_ok len e"
proof (cases "StartChunk e = EndChunk e")
  case True
  then have "file_size e len = EndOffset e - StartOffset e"
    by (simp add: file_size_def chunk_end_def chunk_start_def)
  then show ?thesis
    using check_with_None [OF assms(1-3)] assms(4,5) True
    by (simp add: slices_ok_def chunk_end_def chunk_start_def)
next
  case False
  then show ?thesis
    using check_with_None [OF assms(1-3)] assms(4-)
    by (auto simp: slices_ok_def chunk_end_def chunk_start_def)
qed

text \<open>
  The sanity check of an entry against the chunk lengths.  A file entry that passes it, with
  offsets that are not negative, has only slices within its chunks, and the bytes they denote are
  exactly as many as its size, whatever the chunks contain.
\<close>

theorem check_accepts_exact_size:
  assumes "check e chunkLengths = None" and "IsFile e" and "Size e \<noteq> 0"
    and "0 \<le> StartOffset e" and "0 \<le> EndOffset e"
    and "\<forall>i. 0 \<le> i \<and> i < int (length chunkLengths) \<longrightarrow> int (length (content i)) = chunkLengths ! nat i"
  shows "slices_ok (\<lambda>i. chunkLengths ! nat i) e \<and> int (length (entry_slice content e)) = Size e"
proof -
  let ?len = "\<lambda>i. int (length (content i))"
  note none = check_with_None [OF assms(1-3) [unfolded check_def]]
  have eq: "?len i = chunkLengths ! nat i" if "i \<in> set [StartChunk e..EndChunk e]" for i
    using that assms(6) none by auto
  have "slices_ok (\<lambda>i. chunkLengths ! nat i) e"
    using check_with_slices [OF assms(1-3) [unfolded check_def] assms(4,5)] assms(6)
    by (metis of_nat_0_le_iff)
  moreover from this have "slices_ok ?len e"
    using eq by (auto simp: slices_ok_def chunk_end_def)
  moreover have "file_size e ?len = file_size e (\<lambda>i. chunkLengths ! nat i)"
    unfolding file_size_sum using eq by (intro arg_cong [of _ _ sum_list] map_cong) (auto simp: chunk_end_def)
  ultimately show ?thesis
    using slices_ok_size [of content e] none(7) by simp
qed

definition sample_entry :: entry where
  "sample_entry = (CreateEntry ''a'' 5 0 0)\<lparr>StartChunk := 0, StartOffset := 1, EndChunk := 1, EndOffset := 3\<rparr>"

theorem check_accepts_exact_size_witness:
  "int (length (entry_slice (\<lambda>i. if i = 0 then [1, 2, 3] else [4, 5, 6, 7]) sample_entry)) = Size sample_entry"
proof -
  have u: "[0..1] = [0, 1::int]" by (simp add: upto.simps)
  have c: "check sample_entry [3, 4] = None" "IsFile sample_entry"
    by (simp_all add: check_def check_with_def IsFile_def sample_entry_def CreateEntry_def file_size_def
        chunk_end_def chunk_start_def u)
  have "int (length (if i = 0 then [1, 2, 3] else [4, 5, 6, 7 :: byte])) = [3, 4] ! nat i"
    if "0 \<le> i \<and> i < 2" for i :: int
    using that by (cases "i = 0") (auto dest!: less_2_cases_iff [THEN iffD1] simp: nth_Cons' nat_eq_iff)
  then show ?thesis
    using check_accepts_exact_size [OF c, of "\<lambda>i. if i = 0 then [1, 2, 3] else [4, 5, 6, 7]"]
    by (simp add: sample_entry_def CreateEntry_def)
qed

section \<open>What the sort orders are\<close>

definition real_dir :: "file_info \<Rightarrow> bool" where
  "real_dir f \<longleftrightarrow> fiIsDir f \<and> fiMode f AND ModeSymlink = 0"

lemma FileInfoCompare_key:
  "FileInfoCompare_Less a b \<longleftrightarrow>
     \<not> real_dir a \<and> real_dir b \<or> real_dir a = real_dir b \<and> fiName a < fiName b"
  by (auto simp: FileInfoCompare_Less_def real_dir_def)

end
