(* ===== verification/Pattern_Match.thy ===== *)
theory Pattern_Match
  imports Go_Strings
begin

text \<open>
  Include and exclude patterns (\<^verbatim>\<open>src/src/duplicacy_utils.go\<close>): the wildcard matcher, the decision
  on a path, and the classification of filter lines.  The specification of the matcher is the
  usual recursive \<open>glob\<close>.
\<close>

section \<open>The wildcard matcher\<close>

text \<open>The inner loop: the first text position from \<open>t\<close> on that can match \<^verbatim>\<open>pattern[p]\<close>.\<close>

function scan_text :: "string \<Rightarrow> char \<Rightarrow> nat \<Rightarrow> nat" where
  "scan_text text c t =
     (if t < length text \<and> text ! t \<noteq> c \<and> c \<noteq> CHR ''?'' then scan_text text c (Suc t) else t)"
  by pat_completeness auto
termination
  by (relation "measure (\<lambda>(text, c, t). length text - t)") auto

declare scan_text.simps [simp del]

definition well_placed :: "nat \<Rightarrow> nat \<Rightarrow> nat \<Rightarrow> nat \<Rightarrow> bool" where
  "well_placed t p afterLastWildcard afterLastMatched \<longleftrightarrow>
     afterLastWildcard \<le> p \<and> (0 < afterLastWildcard \<longrightarrow> afterLastMatched < t)"

lemma scan_text_ge: "t \<le> scan_text xs c t"
proof (induction xs c t rule: scan_text.induct)
  case (1 s c t)
  show ?case
  proof (cases "t < length s \<and> s ! t \<noteq> c \<and> c \<noteq> CHR ''?''")
    case True
    then have "Suc t \<le> scan_text s c (Suc t)" using 1 by blast
    then show ?thesis using True by (subst scan_text.simps) simp
  next
    case False
    then show ?thesis by (subst scan_text.simps) auto
  qed
qed

lemma scan_text_simps [simp]:
  "m < scan_text xs c (Suc m)" "t < Suc (scan_text xs c t)" "t \<le> scan_text xs c t"
  "scan_text xs c (Suc m) < n \<Longrightarrow> n - scan_text xs c (Suc m) < n - m"
  using scan_text_ge [of "Suc m" xs c] scan_text_ge [of t xs c] by simp_all

function match_loop :: "string \<Rightarrow> string \<Rightarrow> nat \<Rightarrow> nat \<Rightarrow> nat \<Rightarrow> nat \<Rightarrow> bool" where
  "match_loop text pattern t p afterLastWildcard afterLastMatched =
     (if length text \<le> t
      then (if length pattern \<le> p then True
            else if pattern ! p = CHR ''*''
            then match_loop text pattern t (Suc p) afterLastWildcard afterLastMatched
            else False)
      else
        (let w = (if p < length pattern then pattern ! p else CHR 0x00) in
         if text ! t \<noteq> w
         then (if w = CHR ''?''
               then match_loop text pattern (Suc t) (Suc p) afterLastWildcard afterLastMatched
               else if w = CHR ''*''
               then (if length pattern \<le> Suc p then True
                     else (let t' = scan_text text (pattern ! Suc p) t in
                           if length text \<le> t' then False
                           else match_loop text pattern (Suc t') (Suc (Suc p)) (Suc p) t'))
               else if 0 < afterLastWildcard
               then (let t' = scan_text text (pattern ! afterLastWildcard) (Suc afterLastMatched) in
                     if length text \<le> t' then False
                     else match_loop text pattern (Suc t') (Suc afterLastWildcard) afterLastWildcard t')
               else False)
         else match_loop text pattern (Suc t) (Suc p) afterLastWildcard afterLastMatched))"
  by pat_completeness auto
termination
proof (relation "measures
    [\<lambda>(text, pattern, t, p, w, m). if well_placed t p w m then 0 else 1,
     \<lambda>(text, pattern, t, p, w, m). Suc (length pattern) - w,
     \<lambda>(text, pattern, t, p, w, m). length text - m,
     \<lambda>(text, pattern, t, p, w, m). length text - t,
     \<lambda>(text, pattern, t, p, w, m). length pattern - p]", goal_cases)
  case 1
  then show ?case by simp
qed (auto simp: well_placed_def not_le split: if_splits)

declare match_loop.simps [simp del]

definition matchPattern :: "string \<Rightarrow> string \<Rightarrow> bool" where
  "matchPattern text pattern = match_loop text pattern 0 0 0 0"

section \<open>The specification of the matcher\<close>

fun glob :: "string \<Rightarrow> string \<Rightarrow> bool" where
  "glob [] [] = True"
| "glob (x # xs) [] = False"
| "glob [] (c # ps) = (c = CHR ''*'' \<and> glob [] ps)"
| "glob (x # xs) (c # ps) =
     (if c = CHR ''*'' then glob (x # xs) ps \<or> glob xs (c # ps)
      else (c = x \<or> c = CHR ''?'') \<and> glob xs ps)"

lemma glob_star: "glob xs (CHR ''*'' # ps) \<longleftrightarrow> (\<exists>k \<le> length xs. glob (drop k xs) ps)"
proof (induction xs)
  case (Cons x xs)
  have "(\<exists>k \<le> length (x # xs). glob (drop k (x # xs)) ps) \<longleftrightarrow>
      glob (x # xs) ps \<or> (\<exists>k \<le> length xs. glob (drop k xs) ps)"
    by (auto simp: Suc_le_eq less_Suc_eq_le intro: exI [of _ "Suc _"] exI [of _ 0] split: nat.splits)
      (metis Suc_le_mono drop0 drop_Suc_Cons not0_implies_Suc)
  then show ?case using Cons by simp
qed simp

text \<open>
  The text after the current position, with the pattern at its current position, and the
  alternatives the matcher can still fall back on.
\<close>

abbreviation glob_at :: "string \<Rightarrow> string \<Rightarrow> nat \<Rightarrow> nat \<Rightarrow> bool" where
  "glob_at xs ps t p \<equiv> glob (drop t xs) (drop p ps)"

lemma glob_at_step:
  "t < length xs \<Longrightarrow> p < length ps \<Longrightarrow> ps ! p \<noteq> CHR ''*'' \<Longrightarrow>
     glob_at xs ps t p \<longleftrightarrow> (ps ! p = xs ! t \<or> ps ! p = CHR ''?'') \<and> glob_at xs ps (Suc t) (Suc p)"
  by (simp add: Cons_nth_drop_Suc [symmetric])

lemma glob_at_end_pattern: "t < length xs \<Longrightarrow> length ps \<le> p \<Longrightarrow> \<not> glob_at xs ps t p"
  by (simp add: Cons_nth_drop_Suc [symmetric])

lemma glob_at_end_text:
  "length xs \<le> t \<Longrightarrow> p < length ps \<Longrightarrow>
     glob_at xs ps t p \<longleftrightarrow> ps ! p = CHR ''*'' \<and> glob_at xs ps t (Suc p)"
  by (simp add: Cons_nth_drop_Suc [symmetric])

lemma glob_at_star:
  "t \<le> length xs \<Longrightarrow> p < length ps \<Longrightarrow> ps ! p = CHR ''*'' \<Longrightarrow>
     glob_at xs ps t p \<longleftrightarrow> (\<exists>j. t \<le> j \<and> j \<le> length xs \<and> glob_at xs ps j (Suc p))"
proof -
  assume a: "t \<le> length xs" "p < length ps" "ps ! p = CHR ''*''"
  have "glob_at xs ps t p \<longleftrightarrow> (\<exists>k \<le> length xs - t. glob_at xs ps (k + t) (Suc p))"
    using a by (subst Cons_nth_drop_Suc [symmetric]) (auto simp: glob_star)
  also have "\<dots> \<longleftrightarrow> (\<exists>j. t \<le> j \<and> j \<le> length xs \<and> glob_at xs ps j (Suc p))"
    using a(1) by (metis add.commute le_add_diff_inverse le_add2 le_diff_conv2 nat_add_left_cancel_le add_le_cancel_right)
  finally show ?thesis .
qed

section \<open>The matcher decides glob\<close>

text \<open>
  The matcher looks for the character after a star literally, so a second star directly after it
  would be one; and it reads a NUL past the end of the pattern.
\<close>

definition single_stars :: "string \<Rightarrow> bool" where
  "single_stars ps \<longleftrightarrow> (\<forall>i. Suc i < length ps \<longrightarrow> \<not> (ps ! i = CHR ''*'' \<and> ps ! Suc i = CHR ''*''))"

definition plain_text :: "string \<Rightarrow> bool" where
  "plain_text xs \<longleftrightarrow> CHR ''*'' \<notin> set xs \<and> CHR 0x00 \<notin> set xs"

definition alternatives :: "string \<Rightarrow> string \<Rightarrow> nat \<Rightarrow> nat \<Rightarrow> bool" where
  "alternatives xs ps w m \<longleftrightarrow> 0 < w \<and> (\<exists>j. m < j \<and> j \<le> length xs \<and> glob_at xs ps j w)"

definition match_inv :: "string \<Rightarrow> string \<Rightarrow> nat \<Rightarrow> nat \<Rightarrow> nat \<Rightarrow> nat \<Rightarrow> bool" where
  "match_inv xs ps t p w m \<longleftrightarrow> t \<le> length xs \<and> p \<le> length ps
     \<and> (0 < w \<longrightarrow> w < p \<and> t + w = p + m \<and> (\<forall>i. w \<le> i \<and> i < p \<longrightarrow> ps ! i \<noteq> CHR ''*''))"

lemma glob_after_mid:
  assumes "glob_at xs ps j w" "\<forall>i. w \<le> i \<and> i < w + d \<longrightarrow> ps ! i \<noteq> CHR ''*''" "w + d \<le> length ps"
    "j \<le> length xs"
  shows "j + d \<le> length xs \<and> glob_at xs ps (j + d) (w + d)"
  using assms
proof (induction d)
  case (Suc d)
  then have "j + d \<le> length xs" "glob_at xs ps (j + d) (w + d)" by auto
  moreover have "ps ! (w + d) \<noteq> CHR ''*''" "w + d < length ps" using Suc.prems by auto
  ultimately show ?case
    using glob_at_end_text [of xs "j + d" "w + d" ps] glob_at_step [of "j + d" xs "w + d" ps]
    by (cases "j + d < length xs") auto
qed simp

lemma scan_glob:
  assumes "p < length ps" "ps ! p \<noteq> CHR ''*''" "t \<le> length xs"
  shows "(\<exists>j. t \<le> j \<and> j \<le> length xs \<and> glob_at xs ps j p) \<longleftrightarrow>
    (let t' = scan_text xs (ps ! p) t in t' < length xs
      \<and> (glob_at xs ps (Suc t') (Suc p) \<or> (\<exists>j. t' < j \<and> j \<le> length xs \<and> glob_at xs ps j p)))"
  using assms(3)
proof (induction "length xs - t" arbitrary: t)
  case 0
  then have "t = length xs" "scan_text xs (ps ! p) t = t" by (auto simp: scan_text.simps)
  then show ?case using assms glob_at_end_text [of xs t p ps] by simp
next
  case (Suc d)
  then have t: "t < length xs" by simp
  have split: "(\<exists>j. t \<le> j \<and> j \<le> length xs \<and> glob_at xs ps j p) \<longleftrightarrow>
      glob_at xs ps t p \<or> (\<exists>j. t < j \<and> j \<le> length xs \<and> glob_at xs ps j p)"
    using t by (metis le_eq_less_or_eq)
  show ?case
  proof (cases "xs ! t \<noteq> ps ! p \<and> ps ! p \<noteq> CHR ''?''")
    case True
    then have "\<not> glob_at xs ps t p" using glob_at_step [OF t assms(1,2)] by auto
    moreover have "scan_text xs (ps ! p) t = scan_text xs (ps ! p) (Suc t)"
      using t True by (subst scan_text.simps) simp
    moreover have "d = length xs - Suc t" "Suc t \<le> length xs" using Suc.hyps(2) by auto
    ultimately show ?thesis
      using Suc.hyps(1) [of "Suc t"] split by (simp add: Suc_le_eq)
  next
    case False
    then have "glob_at xs ps t p \<longleftrightarrow> glob_at xs ps (Suc t) (Suc p)"
      using glob_at_step [OF t assms(1,2)] by auto
    moreover have "scan_text xs (ps ! p) t = t" using False by (subst scan_text.simps) auto
    ultimately show ?thesis using split t by simp
  qed
qed

lemma match_loop_tail:
  assumes "length xs \<le> t"
  shows "match_loop xs ps t p w m \<longleftrightarrow> glob_at xs ps t p"
  using assms
proof (induction "length ps - p" arbitrary: p)
  case 0
  then show ?case by (subst match_loop.simps) simp
next
  case (Suc d)
  then have "p < length ps" "d = length ps - Suc p" by auto
  then show ?case
    using Suc.hyps(1) [of "Suc p"] Suc.prems glob_at_end_text [of xs t p ps]
    by (subst match_loop.simps) auto
qed

lemma plain_text_nth:
  "plain_text xs \<Longrightarrow> t < length xs \<Longrightarrow> xs ! t \<noteq> CHR ''*'' \<and> xs ! t \<noteq> CHR 0x00"
  by (auto simp: plain_text_def in_set_conv_nth)

lemma match_loop_glob:
  assumes "plain_text xs" "single_stars ps"
  shows "match_inv xs ps t p w m \<Longrightarrow>
    match_loop xs ps t p w m \<longleftrightarrow> glob_at xs ps t p \<or> alternatives xs ps w m"
  using assms
proof (induction xs ps t p w m rule: match_loop.induct)
  case (1 xs ps t p w m)
  have alt_mid: "\<exists>j. t < j \<and> j \<le> length xs \<and> glob_at xs ps j p" if a: "alternatives xs ps w m"
  proof -
    obtain j where j: "m < j" "j \<le> length xs" "glob_at xs ps j w" "0 < w"
      using a by (auto simp: alternatives_def)
    then have "j + (p - w) \<le> length xs \<and> glob_at xs ps (j + (p - w)) (w + (p - w))"
      using "1.prems"(1) by (intro glob_after_mid) (auto simp: match_inv_def)
    moreover have "w + (p - w) = p" "t < j + (p - w)" using "1.prems"(1) j by (auto simp: match_inv_def)
    ultimately show ?thesis by auto
  qed
  show ?case
  proof (cases "t < length xs")
    case False
    then have "\<not> alternatives xs ps w m" using alt_mid by (meson le_trans not_le order.strict_trans1)
    then show ?thesis using match_loop_tail False by simp
  next
    case True
    define w' where "w' = (if p < length ps then ps ! p else CHR 0x00)"
    note inv = "1.prems"(1)
    have nn: "xs ! t \<noteq> CHR ''*''" "xs ! t \<noteq> CHR 0x00"
      using plain_text_nth [OF "1.prems"(2) True] by simp_all
    consider (eq) "xs ! t = w'" | (any) "xs ! t \<noteq> w'" "w' = CHR ''?''"
      | (star) "xs ! t \<noteq> w'" "w' = CHR ''*''"
      | (retry) "xs ! t \<noteq> w'" "w' \<noteq> CHR ''?''" "w' \<noteq> CHR ''*''" by blast
    then show ?thesis
    proof cases
      case eq
      then have p: "p < length ps" "ps ! p = xs ! t" using nn w'_def by (auto split: if_splits)
      then have "match_inv xs ps (Suc t) (Suc p) w m"
        using inv True nn by (auto simp: match_inv_def less_Suc_eq)
      then show ?thesis
        using "1.IH"(5) [OF _ w'_def] True eq glob_at_step [OF True p(1)] p nn "1.prems"(2,3)
        by (subst match_loop.simps) simp
    next
      case any
      then have p: "p < length ps" "ps ! p = CHR ''?''" using w'_def by (auto split: if_splits)
      then have "match_inv xs ps (Suc t) (Suc p) w m"
        using inv True by (auto simp: match_inv_def less_Suc_eq)
      then show ?thesis
        using "1.IH"(2) [OF _ w'_def] True any glob_at_step [OF True p(1)] p "1.prems"(2,3)
        by (subst match_loop.simps) simp
    next
      case star
      then have p: "p < length ps" "ps ! p = CHR ''*''" using w'_def by (auto split: if_splits)
      note g = glob_at_star [OF less_imp_le [OF True] p]
      have alt: "alternatives xs ps w m \<Longrightarrow> glob_at xs ps t p"
      proof -
        assume "alternatives xs ps w m"
        then obtain j where j: "t < j" "j \<le> length xs" "glob_at xs ps j p" using alt_mid by blast
        then show "glob_at xs ps t p"
          using g glob_at_star [OF j(2) p] by (metis less_imp_le order_trans)
      qed
      show ?thesis
      proof (cases "length ps \<le> Suc p")
        case fin: True
        then have "glob_at xs ps t p" using g [THEN iffD2, OF exI [of _ "length xs"]] fin True by simp
        then show ?thesis using True star p fin by (subst match_loop.simps) simp
      next
        case False
        let ?t = "scan_text xs (ps ! Suc p) t"
        have q: "Suc p < length ps" "ps ! Suc p \<noteq> CHR ''*''"
          using False p "1.prems"(3) by (auto simp: single_stars_def)
        note sg = scan_glob [OF q less_imp_le [OF True], folded g]
        have inv': "?t < length xs \<Longrightarrow> match_inv xs ps (Suc ?t) (Suc (Suc p)) (Suc p) ?t"
          using q by (auto simp: match_inv_def less_Suc_eq le_less_Suc_eq)
        have loop: "match_loop xs ps t p w m \<longleftrightarrow>
            ?t < length xs \<and> match_loop xs ps (Suc ?t) (Suc (Suc p)) (Suc p) ?t"
          using True star p False by (subst match_loop.simps) (auto simp: Let_def not_le)
        have "match_loop xs ps (Suc ?t) (Suc (Suc p)) (Suc p) ?t \<longleftrightarrow>
            glob_at xs ps (Suc ?t) (Suc (Suc p)) \<or> alternatives xs ps (Suc p) ?t" if "?t < length xs"
          using "1.IH"(3) [OF _ w'_def _ _ _ _ refl] True star p False inv' [OF that] that "1.prems"(2,3)
          by simp
        then show ?thesis using loop sg alt by (auto simp: Let_def alternatives_def [of xs ps "Suc p"])
      qed
    next
      case retry
      have ng: "\<not> glob_at xs ps t p"
        using retry True w'_def glob_at_end_pattern [OF True] glob_at_step [OF True]
        by (cases "p < length ps") auto
      show ?thesis
      proof (cases "0 < w")
        case False
        then show ?thesis using retry True w'_def ng by (subst match_loop.simps) (simp add: alternatives_def)
      next
        case w: True
        let ?t = "scan_text xs (ps ! w) (Suc m)"
        have q: "w < length ps" "ps ! w \<noteq> CHR ''*''" "Suc m \<le> length xs"
          using inv w True by (auto simp: match_inv_def)
        note sg = scan_glob [OF q]
        have inv': "?t < length xs \<Longrightarrow> match_inv xs ps (Suc ?t) (Suc w) w ?t"
          using q by (auto simp: match_inv_def less_Suc_eq le_less_Suc_eq)
        show ?thesis
          using "1.IH"(4) [OF _ w'_def _ _ _ _ refl] True retry w'_def w sg ng inv' "1.prems"(2,3)
          by (subst match_loop.simps) (auto simp: Let_def alternatives_def not_le Suc_le_eq)
      qed
    qed
  qed
qed

lemma matchPattern_eq_glob:
  assumes "plain_text xs" "single_stars ps"
  shows "matchPattern xs ps = glob xs ps"
  using match_loop_glob [OF assms, of 0 0 0 0]
  by (simp add: matchPattern_def match_inv_def alternatives_def)

section \<open>The decision on a path\<close>

text \<open>
  Regular expressions are compiled by package \<^verbatim>\<open>regexp\<close>: \<open>compile\<close> tells whether an expression
  is valid and \<open>matches\<close> whether it matches a text.  \<^verbatim>\<open>RegexMap\<close> maps a key to the expression
  stored under it.  \<^verbatim>\<open>LOG_ERROR\<close> and an index out of range panic.
\<close>

type_synonym regex_map = "string \<rightharpoonup> string"

record regex_lib =
  compile :: "string \<Rightarrow> bool"
  matches :: "string \<Rightarrow> string \<Rightarrow> bool"

datatype pattern_error = InvalidRegex string | EmptyPattern | IncludeCycle string | OutOfFuel

definition regex_pattern :: "string \<Rightarrow> bool" where
  "regex_pattern pattern \<longleftrightarrow> has_prefix pattern ''i:'' \<or> has_prefix pattern ''e:''"

fun match_path_loop ::
  "regex_lib \<Rightarrow> string \<Rightarrow> regex_map \<Rightarrow> bool \<Rightarrow> string list \<Rightarrow> pattern_error + (bool \<times> regex_map)" where
  "match_path_loop lib filePath m allIncludes [] = Inr (\<not> allIncludes, m)"
| "match_path_loop lib filePath m allIncludes (pattern # patterns) =
     (if pattern = [] then Inl EmptyPattern
      else if hd pattern = CHR ''+''
      then (if matchPattern filePath (tl pattern) then Inr (True, m)
            else match_path_loop lib filePath m allIncludes patterns)
      else if hd pattern = CHR ''-''
      then (if matchPattern filePath (tl pattern) then Inr (False, m)
            else match_path_loop lib filePath m False patterns)
      else if regex_pattern pattern
      then (let found = m (drop 2 pattern) in
            if found = None \<and> \<not> compile lib pattern then Inl (InvalidRegex (drop 2 pattern))
            else
              (let m' = (if found = None then m(pattern \<mapsto> pattern) else m);
                   re = (case found of Some re \<Rightarrow> re | None \<Rightarrow> pattern)
               in if matches lib re filePath then Inr (has_prefix pattern ''i:'', m')
                  else match_path_loop lib filePath m'
                         (if has_prefix pattern ''e:'' then False else allIncludes) patterns))
      else match_path_loop lib filePath m allIncludes patterns)"

definition MatchPath ::
  "regex_lib \<Rightarrow> regex_map \<Rightarrow> string \<Rightarrow> string list \<Rightarrow> pattern_error + (bool \<times> regex_map)" where
  "MatchPath lib m filePath patterns = match_path_loop lib filePath m True patterns"

section \<open>Loading the filters\<close>

definition IsEmptyFilter :: "string \<Rightarrow> bool" where
  "IsEmptyFilter pattern \<longleftrightarrow> pattern = ''+'' \<or> pattern = ''-'' \<or> pattern = ''i:'' \<or> pattern = ''e:''"

definition IsUnspecifiedFilter :: "string \<Rightarrow> bool" where
  "IsUnspecifiedFilter pattern \<longleftrightarrow>
     hd pattern \<noteq> CHR ''+'' \<and> hd pattern \<noteq> CHR ''-'' \<and> \<not> has_prefix pattern ''i:'' \<and> \<not> has_prefix pattern ''e:''"

definition IsValidRegex :: "regex_lib \<Rightarrow> regex_map \<Rightarrow> string \<Rightarrow> bool \<times> regex_map" where
  "IsValidRegex lib m pattern =
     (if m pattern \<noteq> None then (True, m)
      else if compile lib pattern then (True, m(pattern \<mapsto> pattern)) else (False, m))"

definition AppendPattern :: "string list \<Rightarrow> string \<Rightarrow> string list" where
  "AppendPattern patterns new_pattern =
     (if new_pattern \<in> set patterns then patterns else patterns @ [new_pattern])"

definition include_path :: "string \<Rightarrow> string list \<Rightarrow> string \<Rightarrow> string" where
  "include_path cwd includedFiles file =
     (if has_prefix file ''/'' then file
      else joinPath (if includedFiles = [] then cwd else path_dir (last includedFiles)) file)"

text \<open>
  The files of the system are an association list from paths to contents.  \<^verbatim>\<open>ProcessFilterFile\<close>
  and \<^verbatim>\<open>ProcessFilterLines\<close> call each other; the fuel bounds the depth of the includes.
\<close>

fun ProcessFilterFile ::
  "nat \<Rightarrow> regex_lib \<Rightarrow> string \<Rightarrow> (string \<times> string) list \<Rightarrow> regex_map \<Rightarrow> string \<Rightarrow> string list
     \<Rightarrow> pattern_error + (string list \<times> regex_map)"
and ProcessFilterLines ::
  "nat \<Rightarrow> regex_lib \<Rightarrow> string \<Rightarrow> (string \<times> string) list \<Rightarrow> regex_map \<Rightarrow> string list \<Rightarrow> string list
     \<Rightarrow> string list \<Rightarrow> pattern_error + (string list \<times> regex_map)" where
  "ProcessFilterFile 0 lib cwd fs m patternFile includedFiles = Inl OutOfFuel"
| "ProcessFilterFile (Suc n) lib cwd fs m patternFile includedFiles =
     (if patternFile \<in> set includedFiles then Inl (IncludeCycle patternFile)
      else case map_of fs patternFile of
        None \<Rightarrow> Inr ([], m)
      | Some content \<Rightarrow>
          ProcessFilterLines n lib cwd fs m (split_on (CHR 0x0A) content) (includedFiles @ [patternFile]) [])"
| "ProcessFilterLines n lib cwd fs m [] includedFiles patterns = Inr (patterns, m)"
| "ProcessFilterLines n lib cwd fs m (line # patternLines) includedFiles patterns =
     (let pattern = TrimSpace line in
      if pattern = [] then ProcessFilterLines n lib cwd fs m patternLines includedFiles patterns
      else if has_prefix pattern ''@''
      then (let file = TrimSpace (drop 1 pattern) in
            if file = [] then ProcessFilterLines n lib cwd fs m patternLines includedFiles patterns
            else case ProcessFilterFile n lib cwd fs m (include_path cwd includedFiles file) includedFiles of
                Inl e \<Rightarrow> Inl e
              | Inr (included, m') \<Rightarrow>
                  ProcessFilterLines n lib cwd fs m' patternLines includedFiles
                    (foldl AppendPattern patterns included))
      else if hd pattern = CHR ''#''
      then ProcessFilterLines n lib cwd fs m patternLines includedFiles patterns
      else
        (let pattern = (if IsUnspecifiedFilter pattern then CHR ''+'' # pattern else pattern) in
         if IsEmptyFilter pattern
         then ProcessFilterLines n lib cwd fs m patternLines includedFiles patterns
         else if regex_pattern pattern
         then (case IsValidRegex lib m (drop 2 pattern) of (valid, m') \<Rightarrow>
                 if \<not> valid then Inl (InvalidRegex pattern)
                 else ProcessFilterLines n lib cwd fs m' patternLines includedFiles
                        (AppendPattern patterns pattern))
         else ProcessFilterLines n lib cwd fs m patternLines includedFiles
                (AppendPattern patterns pattern)))"

definition ProcessFilters ::
  "regex_lib \<Rightarrow> string \<Rightarrow> (string \<times> string) list \<Rightarrow> regex_map \<Rightarrow> string
     \<Rightarrow> pattern_error + (string list \<times> regex_map)" where
  "ProcessFilters lib cwd fs m filtersFile =
     ProcessFilterFile (length fs + 2) lib cwd fs m filtersFile []"

section \<open>What loading guarantees\<close>

text \<open>A pattern \<^verbatim>\<open>MatchPath\<close> can use: not empty, and its expression compiled.\<close>

definition usable :: "regex_map \<Rightarrow> string \<Rightarrow> bool" where
  "usable m pattern \<longleftrightarrow> pattern \<noteq> [] \<and> (regex_pattern pattern \<longrightarrow> m (drop 2 pattern) = Some (drop 2 pattern))"

lemma usable_mono: "usable m p \<Longrightarrow> m \<subseteq>\<^sub>m m' \<Longrightarrow> usable m' p"
  by (auto simp: usable_def map_le_def dom_def)

text \<open>The map stores every expression under itself.\<close>

definition self_map :: "regex_map \<Rightarrow> bool" where
  "self_map m \<longleftrightarrow> (\<forall>k v. m k = Some v \<longrightarrow> v = k)"

lemma set_AppendPattern [simp]: "set (AppendPattern ps p) = insert p (set ps)"
  by (auto simp: AppendPattern_def)

lemma distinct_AppendPattern: "distinct ps \<Longrightarrow> distinct (AppendPattern ps p)"
  by (simp add: AppendPattern_def)

lemma set_foldl_AppendPattern [simp]: "set (foldl AppendPattern ps qs) = set ps \<union> set qs"
  by (induction qs arbitrary: ps) auto

lemma distinct_foldl_AppendPattern: "distinct ps \<Longrightarrow> distinct (foldl AppendPattern ps qs)"
  by (induction qs arbitrary: ps) (simp_all add: distinct_AppendPattern)

lemma IsValidRegex_ok:
  assumes "IsValidRegex lib m r = (valid, m')" "self_map m"
  shows "m \<subseteq>\<^sub>m m'" "self_map m'" "valid \<Longrightarrow> m' r = Some r"
  using assms by (auto simp: IsValidRegex_def map_le_def self_map_def split: if_splits)

definition loaded_ok :: "regex_map \<Rightarrow> string list \<Rightarrow> pattern_error + (string list \<times> regex_map) \<Rightarrow> bool" where
  "loaded_ok m old r \<longleftrightarrow> (case r of Inl e \<Rightarrow> True
     | Inr (patterns, m') \<Rightarrow> m \<subseteq>\<^sub>m m' \<and> self_map m'
         \<and> (distinct old \<longrightarrow> distinct patterns) \<and> (\<forall>p \<in> set patterns. p \<in> set old \<or> usable m' p))"

lemma loaded_ok_trans:
  assumes "loaded_ok m' ps' r" "m \<subseteq>\<^sub>m m'" "distinct ps \<longrightarrow> distinct ps'"
    "\<forall>p \<in> set ps'. p \<in> set ps \<or> usable m' p"
  shows "loaded_ok m ps r"
  using assms usable_mono map_le_trans [OF assms(2)]
  by (fastforce simp: loaded_ok_def split: sum.splits prod.splits)

lemma load_ok:
  "self_map m \<Longrightarrow> loaded_ok m [] (ProcessFilterFile n lib cwd fs m pf inc)"
  "self_map m2 \<Longrightarrow> loaded_ok m2 ps2 (ProcessFilterLines n2 lib2 cwd2 fs2 m2 ls2 inc2 ps2)"
proof (induction n lib cwd fs m pf inc and n2 lib2 cwd2 fs2 m2 ls2 inc2 ps2
    rule: ProcessFilterFile_ProcessFilterLines.induct)
  case (1 lib cwd fs m pf inc)
  then show ?case by (simp add: loaded_ok_def)
next
  case (2 n lib cwd fs m pf inc)
  then show ?case by (auto simp: loaded_ok_def split: option.split)
next
  case (3 n lib cwd fs m inc ps)
  then show ?case by (simp add: loaded_ok_def)
next
  case (4 n lib cwd fs m line ls inc ps)
  let ?p = "TrimSpace line" let ?f = "TrimSpace (drop 1 ?p)"
  let ?q = "if IsUnspecifiedFilter ?p then CHR ''+'' # ?p else ?p"
  let ?go = "\<lambda>m ps. ProcessFilterLines n lib cwd fs m ls inc ps"
  consider (blank) "?p = []" | (noname) "?p \<noteq> []" "has_prefix ?p ''@''" "?f = []"
    | (comment) "?p \<noteq> []" "\<not> has_prefix ?p ''@''" "hd ?p = CHR ''#''"
    | (empty) "?p \<noteq> []" "\<not> has_prefix ?p ''@''" "hd ?p \<noteq> CHR ''#''" "IsEmptyFilter ?q"
    | (incl) "?p \<noteq> []" "has_prefix ?p ''@''" "?f \<noteq> []"
    | (regex) "?p \<noteq> []" "\<not> has_prefix ?p ''@''" "hd ?p \<noteq> CHR ''#''" "\<not> IsEmptyFilter ?q" "regex_pattern ?q"
    | (plain) "?p \<noteq> []" "\<not> has_prefix ?p ''@''" "hd ?p \<noteq> CHR ''#''" "\<not> IsEmptyFilter ?q" "\<not> regex_pattern ?q"
    by blast
  then show ?case
  proof cases
    case blank
    then show ?thesis using "4.IH"(1) [OF refl blank "4.prems"] by (simp add: Let_def)
  next
    case noname
    then show ?thesis using "4.IH"(2) [OF refl noname(1,2) refl noname(3) "4.prems"] by (simp add: Let_def)
  next
    case comment
    then show ?thesis using "4.IH"(5) [OF refl comment "4.prems"] by (simp add: Let_def)
  next
    case empty
    then show ?thesis using "4.IH"(6) [OF refl empty(1-3) refl empty(4) "4.prems"] by (simp add: Let_def)
  next
    case incl
    let ?r = "ProcessFilterFile n lib cwd fs m (include_path cwd inc ?f) inc"
    show ?thesis
    proof (cases ?r)
      case (Inl e)
      then show ?thesis using incl by (simp add: loaded_ok_def Let_def)
    next
      case (Inr r)
      obtain ps' m' where r: "r = (ps', m')" by (cases r)
      have ok: "loaded_ok m [] ?r" using "4.IH"(3) incl "4.prems" by simp
      then have m': "m \<subseteq>\<^sub>m m'" "self_map m'" "\<forall>p \<in> set ps'. usable m' p"
        using Inr r by (auto simp: loaded_ok_def)
      have "loaded_ok m' (foldl AppendPattern ps ps') (?go m' (foldl AppendPattern ps ps'))"
        using "4.IH"(4) [OF refl incl(1,2) refl incl(3) Inr r [symmetric] m'(2)] .
      then have "loaded_ok m ps (?go m' (foldl AppendPattern ps ps'))"
        by (rule loaded_ok_trans) (use m' distinct_foldl_AppendPattern in auto)
      then show ?thesis using incl Inr r by (simp add: Let_def)
    qed
  next
    case regex
    obtain valid m' where v: "IsValidRegex lib m (drop 2 ?q) = (valid, m')"
      by (cases "IsValidRegex lib m (drop 2 ?q)")
    note ok = IsValidRegex_ok [OF v "4.prems"]
    have eq: "ProcessFilterLines n lib cwd fs m (line # ls) inc ps =
        (if valid then ?go m' (AppendPattern ps ?q) else Inl (InvalidRegex ?q))"
      using regex v by (simp add: Let_def)
    show ?thesis
    proof (cases valid)
      case True
      have "loaded_ok m' (AppendPattern ps ?q) (?go m' (AppendPattern ps ?q))"
        using "4.IH"(7) [OF refl regex(1-3) refl regex(4,5) v [symmetric] _ ok(2)] True by simp
      then have "loaded_ok m ps (?go m' (AppendPattern ps ?q))"
        by (rule loaded_ok_trans) (use ok True regex(1) distinct_AppendPattern in \<open>auto simp: usable_def\<close>)
      then show ?thesis unfolding eq using True by simp
    next
      case False
      then show ?thesis unfolding eq by (simp add: loaded_ok_def)
    qed
  next
    case plain
    have eq: "ProcessFilterLines n lib cwd fs m (line # ls) inc ps = ?go m (AppendPattern ps ?q)"
      using plain by (simp add: Let_def)
    have "loaded_ok m (AppendPattern ps ?q) (?go m (AppendPattern ps ?q))"
      using "4.IH"(8) [OF refl plain(1-3) refl plain(4,5) "4.prems"] .
    then have "loaded_ok m ps (?go m (AppendPattern ps ?q))"
      by (rule loaded_ok_trans) (use plain distinct_AppendPattern in \<open>auto simp: usable_def\<close>)
    then show ?thesis unfolding eq .
  qed
qed

text \<open>Enough fuel: every nested include adds a file of the system to the list, or ends.\<close>

lemma fuel_enough:
  "distinct inc \<Longrightarrow> set inc \<subseteq> set (map fst fs) \<Longrightarrow> length fs < n + length inc \<Longrightarrow>
     ProcessFilterFile n lib cwd fs m pf inc \<noteq> Inl OutOfFuel"
  "distinct inc2 \<Longrightarrow> set inc2 \<subseteq> set (map fst fs2) \<Longrightarrow> length fs2 < n2 + length inc2 \<Longrightarrow>
     ProcessFilterLines n2 lib2 cwd2 fs2 m2 ls2 inc2 ps2 \<noteq> Inl OutOfFuel"
proof (induction n lib cwd fs m pf inc and n2 lib2 cwd2 fs2 m2 ls2 inc2 ps2
    rule: ProcessFilterFile_ProcessFilterLines.induct)
  case (1 lib cwd fs m pf inc)
  have "length inc \<le> card (set (map fst fs))"
    using 1 by (metis card_mono distinct_card finite_set)
  also have "\<dots> \<le> length fs" by (metis card_length length_map)
  finally show ?case using 1 by simp
next
  case (2 n lib cwd fs m pf inc)
  show ?case
  proof (cases "pf \<in> set inc \<or> map_of fs pf = None")
    case False
    then obtain c where c: "map_of fs pf = Some c" "pf \<notin> set inc" by auto
    then have "pf \<in> fst ` set fs" by (metis map_of_SomeD fst_conv image_eqI)
    then show ?thesis using 2 c by simp
  qed auto
next
  case (3 n lib cwd fs m inc ps)
  then show ?case by simp
next
  case (4 n lib cwd fs m line ls inc ps)
  note IH = 4(1-8)
  note prems = 4(9-11)
  show ?case
    using prems
    by (auto simp: Let_def prems IH split: sum.split prod.split)
qed

section \<open>Properties\<close>



text \<open>Two adjacent stars are not a glob: the second one is looked for in the text.\<close>

lemma adjacent_stars_fail: "\<not> matchPattern ''ab'' ''**b'' \<and> glob ''ab'' ''**b''"
  by (simp add: matchPattern_def match_loop.simps scan_text.simps)

text \<open>The first pattern that applies to a path.\<close>

definition applies :: "regex_lib \<Rightarrow> string \<Rightarrow> string \<Rightarrow> bool" where
  "applies lib filePath pattern \<longleftrightarrow>
     (if hd pattern = CHR ''+'' \<or> hd pattern = CHR ''-'' then matchPattern filePath (tl pattern)
      else regex_pattern pattern \<and> matches lib (drop 2 pattern) filePath)"

definition include_pattern :: "string \<Rightarrow> bool" where
  "include_pattern pattern \<longleftrightarrow> hd pattern = CHR ''+'' \<or> has_prefix pattern ''i:''"

definition exclude_pattern :: "string \<Rightarrow> bool" where
  "exclude_pattern pattern \<longleftrightarrow> hd pattern = CHR ''-'' \<or> has_prefix pattern ''e:''"

lemma has_prefix_hd: "has_prefix p (c # s) \<Longrightarrow> p \<noteq> [] \<Longrightarrow> hd p = c"
  by (cases p) (auto simp: has_prefix_def)

lemma match_path_step:
  assumes "usable m p"
  shows "match_path_loop lib filePath m a (p # ps) =
    (if applies lib filePath p then Inr (include_pattern p, m)
     else match_path_loop lib filePath m (a \<and> \<not> exclude_pattern p) ps)"
proof -
  have ne: "p \<noteq> []" and r: "regex_pattern p \<Longrightarrow> m (drop 2 p) = Some (drop 2 p)"
    using assms by (auto simp: usable_def)
  note i = has_prefix_hd [of p "CHR ''i''" "'':''", OF _ ne] has_prefix_hd [of p "CHR ''e''" "'':''", OF _ ne]
  consider (inc) "hd p = CHR ''+''" | (exc) "hd p = CHR ''-''"
    | (re) "hd p \<noteq> CHR ''+''" "hd p \<noteq> CHR ''-''" "regex_pattern p"
    | (other) "hd p \<noteq> CHR ''+''" "hd p \<noteq> CHR ''-''" "\<not> regex_pattern p" by blast
  then show ?thesis
  proof cases
    case inc
    then show ?thesis using ne i
      by (cases "has_prefix p ''e:''") (auto simp: applies_def include_pattern_def exclude_pattern_def)
  next
    case exc
    then show ?thesis using ne i
      by (cases "has_prefix p ''e:''") (auto simp: applies_def include_pattern_def exclude_pattern_def)
  next
    case re
    then show ?thesis using ne r [OF re(3)] i
      by (cases "has_prefix p ''e:''") (auto simp: applies_def include_pattern_def exclude_pattern_def Let_def)
  next
    case other
    then show ?thesis using ne
      by (simp add: applies_def include_pattern_def exclude_pattern_def regex_pattern_def)
  qed
qed

lemma match_path_loop_spec:
  assumes "\<forall>p \<in> set patterns. usable m p"
  shows "match_path_loop lib filePath m allIncludes patterns = Inr
    (case List.find (applies lib filePath) patterns of
       Some p \<Rightarrow> include_pattern p
     | None \<Rightarrow> \<not> allIncludes \<or> (\<exists>p \<in> set patterns. exclude_pattern p), m)"
  using assms
proof (induction patterns arbitrary: allIncludes)
  case (Cons p ps)
  then show ?case
    unfolding match_path_step [OF Cons.prems [THEN bspec, OF list.set_intros(1)]]
    by (auto split: option.split)
qed simp

text \<open>
  C21. The decision on a path.  With the patterns loaded from the filter files (so every regular
  expression is compiled and in the map), \<^verbatim>\<open>MatchPath\<close> does not fail and does not compile anything:
  the first pattern that applies decides, and when none does the path is included exactly when
  there is an exclude pattern.
\<close>

theorem MatchPath_first_match:
  assumes "ProcessFilters lib cwd fs (\<lambda>_. None) filtersFile = Inr (patterns, m)"
  shows "MatchPath lib m filePath patterns = Inr
    (case List.find (applies lib filePath) patterns of
       Some p \<Rightarrow> include_pattern p
     | None \<Rightarrow> \<exists>p \<in> set patterns. exclude_pattern p, m)"
proof -
  have "loaded_ok (\<lambda>_. None) [] (ProcessFilterFile (length fs + 2) lib cwd fs (\<lambda>_. None) filtersFile [])"
    by (rule load_ok) (simp add: self_map_def)
  then have "\<forall>p \<in> set patterns. usable m p"
    using assms by (simp add: ProcessFilters_def loaded_ok_def)
  then show ?thesis by (simp add: MatchPath_def match_path_loop_spec split: option.split)
qed

definition sample_regex :: regex_lib where
  "sample_regex = \<lparr>compile = (\<lambda>r. True), matches = (\<lambda>r s. has_prefix s r)\<rparr>"

theorem MatchPath_first_match_witness:
  "\<exists>patterns m. ProcessFilters sample_regex ''/'' [(''/f'', ''-b*'' @ [CHR 0x0A] @ ''a'' @ [CHR 0x0A] @ ''e:c'')] (\<lambda>_. None) ''/f'' = Inr (patterns, m)
     \<and> MatchPath sample_regex m ''a'' patterns = Inr (True, m)
     \<and> MatchPath sample_regex m ''bd'' patterns = Inr (False, m)
     \<and> MatchPath sample_regex m ''cd'' patterns = Inr (False, m)"
proof -
  define m where "m = [''c'' \<mapsto> ''c'']"
  have l: "ProcessFilters sample_regex ''/'' [(''/f'', ''-b*'' @ [CHR 0x0A] @ ''a'' @ [CHR 0x0A] @ ''e:c'')] (\<lambda>_. None) ''/f''
      = Inr ([''-b*'', ''+a'', ''e:c''], m)"
    by (simp add: ProcessFilters_def TrimSpace_def is_blank_def has_prefix_def IsUnspecifiedFilter_def
        IsEmptyFilter_def regex_pattern_def AppendPattern_def IsValidRegex_def sample_regex_def m_def)
  show ?thesis
    using MatchPath_first_match [OF l, of "''a''"] MatchPath_first_match [OF l, of "''bd''"]
      MatchPath_first_match [OF l, of "''cd''"] l
    by (simp add: applies_def include_pattern_def regex_pattern_def has_prefix_def sample_regex_def
        matchPattern_def match_loop.simps scan_text.simps)
qed

text \<open>
  C22. Loading the filter files always ends: includes are followed at most as deep as there are
  files, because a file included again on its own chain is an error, not a loop.  Every loaded
  pattern is usable and occurs once.
\<close>

theorem ProcessFilters_total:
  "ProcessFilters lib cwd fs (\<lambda>_. None) filtersFile \<noteq> Inl OutOfFuel
   \<and> (case ProcessFilters lib cwd fs (\<lambda>_. None) filtersFile of
        Inl e \<Rightarrow> True
      | Inr (patterns, m) \<Rightarrow> distinct patterns \<and> list_all (usable m) patterns)"
proof -
  have "loaded_ok (\<lambda>_. None) [] (ProcessFilterFile (length fs + 2) lib cwd fs (\<lambda>_. None) filtersFile [])"
    by (rule load_ok) (simp add: self_map_def)
  then show ?thesis
    using fuel_enough(1) [of "[]" fs "length fs + 2" lib cwd "\<lambda>_. None" filtersFile]
    by (auto simp: ProcessFilters_def loaded_ok_def list_all_iff split: sum.split)
qed

end
