(* ===== verification/File_Listing.thy ===== *)
theory File_Listing
  imports Entry Pattern_Match
begin

unbundle bit_operations_syntax

text \<open>
  Listing the repository (\<^verbatim>\<open>ListEntries\<close> in \<^verbatim>\<open>src/src/duplicacy_entry.go\<close> and \<^verbatim>\<open>ListLocalFiles\<close>
  in \<^verbatim>\<open>src/src/duplicacy_snapshot.go\<close>): the entries sent to the listing channel, in the order they
  are sent.  The merge of a backup with the last snapshot relies on that order being the one of
  \<^verbatim>\<open>ComparePaths\<close>.
\<close>

section \<open>The file system as the listing sees it\<close>

text \<open>
  Paths are relative to the top of the repository.  \<open>readDir\<close> is \<^verbatim>\<open>ioutil.ReadDir\<close> (\<open>None\<close> on
  an error), \<open>readLink\<close> the function \<^verbatim>\<open>Readlink\<close> with its flag for reparse points that are regular
  files, \<open>statFile\<close> is \<^verbatim>\<open>os.Stat\<close> and \<open>readAttributes\<close> reads the extended attributes.
\<close>

record file_system =
  readDir :: "string \<Rightarrow> file_info list option"
  readLink :: "string \<Rightarrow> (bool \<times> string) option"
  statFile :: "string \<Rightarrow> file_info option"
  readAttributes :: "string \<Rightarrow> (string \<times> string) list option"

record listing_options =
  top_dir :: string
  windows_os :: bool
  include_path_p :: "string \<Rightarrow> bool"
  nobackupFile :: string
  excludeByAttribute :: bool

text \<open>
  The filter of the listing over loaded patterns, on which \<^verbatim>\<open>MatchPath\<close> does not fail.
\<close>

definition pattern_filter :: "regex_lib \<Rightarrow> regex_map \<Rightarrow> string list \<Rightarrow> string \<Rightarrow> bool" where
  "pattern_filter lib m patterns path \<longleftrightarrow> patterns = [] \<or>
     (case MatchPath lib m path patterns of Inr (included, _) \<Rightarrow> included | Inl _ \<Rightarrow> False)"

definition DUPLICACY_DIRECTORY :: string where
  "DUPLICACY_DIRECTORY = ''.duplicacy''"

definition excludedByAttribute :: "(string \<times> string) list \<Rightarrow> bool" where
  "excludedByAttribute attributes \<longleftrightarrow> map_of attributes ''user.duplicacy_exclude'' \<noteq> None"

text \<open>\<^verbatim>\<open>sort.Sort\<close> with a comparison; the elements sorted here differ under it.\<close>

fun insert_by :: "('a \<Rightarrow> 'a \<Rightarrow> bool) \<Rightarrow> 'a \<Rightarrow> 'a list \<Rightarrow> 'a list" where
  "insert_by lt x [] = [x]"
| "insert_by lt x (y # ys) = (if lt y x then y # insert_by lt x ys else x # y # ys)"

definition sort_by :: "('a \<Rightarrow> 'a \<Rightarrow> bool) \<Rightarrow> 'a list \<Rightarrow> 'a list" where
  "sort_by lt xs = foldr (insert_by lt) xs []"

section \<open>Listing one directory\<close>

datatype listed = Ignored | Skipped string | Listed entry

text \<open>
  The body of the loop over the files of a directory, up to the decision whether the entry goes to
  the directory list or to the channel.
\<close>

definition resolve_link ::
  "file_system \<Rightarrow> listing_options \<Rightarrow> string \<Rightarrow> string \<Rightarrow> string \<Rightarrow> file_info \<Rightarrow> entry \<Rightarrow> listed" where
  "resolve_link fs opts path normalizedPath normalizedTop f e =
     (case readLink fs (Path e) of
        None \<Rightarrow> Skipped (Path e)
      | Some (isRegular, link) \<Rightarrow>
          (let e = e\<lparr>Link := link\<rparr> in
           if isRegular then Listed (e\<lparr>Mode := Mode e XOR ModeSymlink\<rparr>)
           else if path = [] \<and> (has_prefix link ''/'' \<or> has_prefix link [CHR 0x5C, CHR 0x5C])
                  \<and> \<not> has_prefix link normalizedTop
           then (case statFile fs (Path e) of
                   None \<Rightarrow> Skipped (Path e)
                 | Some st \<Rightarrow>
                     (let e' = CreateEntryFromFileInfo st [];
                          e' = (if windows_os opts
                                then e'\<lparr>Path := joinPath normalizedPath (fiName f) @ ''/''\<rparr> else e')
                      in if include_path_p opts (Path e') then Listed e' else Ignored))
           else Listed e))"

definition list_file ::
  "file_system \<Rightarrow> listing_options \<Rightarrow> string \<Rightarrow> string \<Rightarrow> string \<Rightarrow> file_info \<Rightarrow> listed" where
  "list_file fs opts path normalizedPath normalizedTop f =
     (if fiName f = DUPLICACY_DIRECTORY then Ignored
      else
        (let e = CreateEntryFromFileInfo f normalizedPath in
         if \<not> include_path_p opts (Path e) then Ignored
         else case (if IsLink e then resolve_link fs opts path normalizedPath normalizedTop f e
                    else Listed e) of
             Ignored \<Rightarrow> Ignored
           | Skipped p \<Rightarrow> Skipped p
           | Listed e \<Rightarrow>
               (let e = (case readAttributes fs (Path e) of
                           Some as \<Rightarrow> if as = [] then e else e\<lparr>Attributes := Some as\<rparr>
                         | None \<Rightarrow> e)
                in if excludeByAttribute opts \<and> Attributes e \<noteq> None
                        \<and> excludedByAttribute (the (Attributes e))
                   then Ignored
                   else if fiMode f AND (ModeNamedPipe OR ModeSocket OR ModeDevice) \<noteq> 0
                   then Skipped (Path e)
                   else Listed e)))"

fun list_files ::
  "(file_info \<Rightarrow> listed) \<Rightarrow> file_info list \<Rightarrow> entry list \<times> entry list \<times> string list" where
  "list_files listing [] = ([], [], [])"
| "list_files listing (f # fs) =
     (case list_files listing fs of (files, dirs, skipped) \<Rightarrow>
        (case listing f of
           Ignored \<Rightarrow> (files, dirs, skipped)
         | Skipped p \<Rightarrow> (files, dirs, p # skipped)
         | Listed e \<Rightarrow> if IsDir e then (files, e # dirs, skipped) else (e # files, dirs, skipped)))"

text \<open>
  The entries sent to the channel, the list of subdirectories in reverse order, and the skipped
  files; \<open>None\<close> when the directory cannot be read.  \<^verbatim>\<open>sort.Search\<close> finds the first file whose
  name is not smaller than the one of the nobackup file.
\<close>

definition ListEntries ::
  "file_system \<Rightarrow> listing_options \<Rightarrow> string \<Rightarrow> (entry list \<times> entry list \<times> string list) option" where
  "ListEntries fs opts path =
     (case readDir fs path of
        None \<Rightarrow> None
      | Some files \<Rightarrow>
          (if nobackupFile opts \<noteq> []
              \<and> (case dropWhile (\<lambda>f. fiName f < nobackupFile opts) files of
                   f # _ \<Rightarrow> fiName f = nobackupFile opts | [] \<Rightarrow> False)
           then Some ([], [], [])
           else
             (let normalizedPath = with_slash path;
                  normalizedTop = with_slash (top_dir opts);
                  files = sort_by FileInfoCompare_Less files;
                  (sent, dirs, skipped) =
                    list_files (list_file fs opts path normalizedPath normalizedTop) files;
                  dirs = (if path = [] then sort_by ByName_Less dirs else dirs)
              in Some (sent @ dirs, rev dirs, skipped))))"

section \<open>Listing the repository\<close>

datatype listing_result = ListFailure | ListDone "entry list" "string list" "string list"

text \<open>The stack of directories still to be listed; the next one is the last.\<close>

partial_function (option) list_stack ::
  "file_system \<Rightarrow> listing_options \<Rightarrow> entry list \<Rightarrow> entry list \<Rightarrow> string list \<Rightarrow> string list
    \<Rightarrow> listing_result option" where
  "list_stack fs opts directories sent skippedDirectories skippedFiles =
     (if directories = [] then Some (ListDone sent skippedDirectories skippedFiles)
      else (case ListEntries fs opts (Path (last directories)) of
              None \<Rightarrow> if Path (last directories) = [] then Some ListFailure
                      else list_stack fs opts (butlast directories) sent
                             (skippedDirectories @ [Path (last directories)]) skippedFiles
            | Some (out, subdirectories, skipped) \<Rightarrow>
                list_stack fs opts (butlast directories @ subdirectories) (sent @ out)
                  skippedDirectories (skippedFiles @ skipped)))"

definition ListLocalFiles :: "file_system \<Rightarrow> listing_options \<Rightarrow> listing_result option" where
  "ListLocalFiles fs opts = list_stack fs opts [CreateEntry [] 0 0 0] [] [] []"

section \<open>Sorting\<close>

lemma set_sort_by [simp]: "set (sort_by lt xs) = set xs"
proof -
  have "set (insert_by lt x ys) = insert x (set ys)" for x ys by (induction ys) auto
  then show ?thesis by (induction xs) (simp_all add: sort_by_def)
qed

lemma sort_by_sorted:
  assumes "\<And>x y z. P x \<Longrightarrow> P y \<Longrightarrow> P z \<Longrightarrow> lt x y \<Longrightarrow> lt y z \<Longrightarrow> lt x z"
    and "\<And>x y. P x \<Longrightarrow> P y \<Longrightarrow> x \<noteq> y \<Longrightarrow> lt x y \<or> lt y x"
    and "\<forall>x \<in> set xs. P x" and "distinct xs"
  shows "sorted_wrt lt (sort_by lt xs)"
proof -
  have set_ins: "set (insert_by lt x ys) = insert x (set ys)" for x ys by (induction ys) auto
  have ins: "sorted_wrt lt (insert_by lt x ys)"
    if "sorted_wrt lt ys" "x \<notin> set ys" "P x" "\<forall>y \<in> set ys. P y" for x ys
    using that
  proof (induction ys)
    case (Cons y ys)
    show ?case
    proof (cases "lt y x")
      case True
      then show ?thesis using Cons by (simp add: set_ins)
    next
      case False
      then have xy: "lt x y" using assms(2) [of x y] Cons.prems by auto
      have "lt x z" if z: "z \<in> set ys" for z
      proof (rule assms(1) [of x y z])
        show "P x" "P y" "P z" "lt x y" "lt y z" using Cons.prems xy z by auto
      qed
      then show ?thesis using False xy Cons.prems by simp
    qed
  qed simp
  have "set (foldr (insert_by lt) xs []) = set xs \<and> sorted_wrt lt (foldr (insert_by lt) xs [])"
    using assms(3,4) by (induction xs) (auto simp: set_ins ins)
  then show ?thesis by (simp add: sort_by_def)
qed

section \<open>Keys below a directory\<close>

fun more_steps :: "string \<Rightarrow> path_step list" where
  "more_steps [] = []"
| "more_steps (c # d) =
     (if c = slash then Dir_More [] # more_steps d
      else case more_steps d of [] \<Rightarrow> [] | k # ks \<Rightarrow> extend_name c k # ks)"

definition dir_path :: "string \<Rightarrow> bool" where
  "dir_path d \<longleftrightarrow> d = [] \<or> last d = slash"

definition good_name :: "string \<Rightarrow> bool" where
  "good_name n \<longleftrightarrow> n \<noteq> [] \<and> slash \<notin> set n \<and> no_nul n"

lemma more_steps_ne: "d \<noteq> [] \<Longrightarrow> last d = slash \<Longrightarrow> more_steps d \<noteq> []"
  by (induction d) (auto split: list.splits if_splits)

lemma path_key_below:
  "dir_path d \<Longrightarrow> s \<noteq> [] \<Longrightarrow> path_key (d @ s) = more_steps d @ path_key s"
proof (induction d)
  case (Cons c d)
  show ?case
  proof (cases "d = []")
    case True
    then show ?thesis using Cons.prems by (simp add: dir_path_def)
  next
    case False
    then have "last d = slash" using Cons.prems by (simp add: dir_path_def)
    then obtain k ks where "more_steps d = k # ks" using more_steps_ne [OF False] by (cases "more_steps d") auto
    then show ?thesis using Cons False by (auto simp: dir_path_def)
  qed
qed simp

lemma more_steps_below:
  "dir_path d \<Longrightarrow> s \<noteq> [] \<Longrightarrow> last s = slash \<Longrightarrow> more_steps (d @ s) = more_steps d @ more_steps s"
proof (induction d)
  case (Cons c d)
  show ?case
  proof (cases "d = []")
    case True
    then show ?thesis using Cons.prems by (simp add: dir_path_def)
  next
    case False
    then have "last d = slash" using Cons.prems by (simp add: dir_path_def)
    then obtain k ks where "more_steps d = k # ks" using more_steps_ne [OF False] by (cases "more_steps d") auto
    then show ?thesis using Cons False by (auto simp: dir_path_def)
  qed
qed simp

lemma name_keys:
  assumes "good_name n"
  shows "path_key n = [File n]" "path_key (n @ [slash]) = [Dir_Last n]"
    "more_steps (n @ [slash]) = [Dir_More n]"
proof -
  have "n \<noteq> [] \<Longrightarrow> slash \<notin> set n \<Longrightarrow> path_key n = [File n] \<and> path_key (n @ [slash]) = [Dir_Last n]
      \<and> more_steps (n @ [slash]) = [Dir_More n]"
  proof (induction n)
    case (Cons c n)
    then show ?case by (cases "n = []") auto
  qed simp
  then show "path_key n = [File n]" "path_key (n @ [slash]) = [Dir_Last n]"
    "more_steps (n @ [slash]) = [Dir_More n]"
    using assms by (auto simp: good_name_def)
qed

lemma append_less [simp]: "xs @ ys < xs @ zs \<longleftrightarrow> ys < (zs :: 'a :: linorder list)"
  by (induction xs) auto

text \<open>Everything below one directory comes before everything below another.\<close>

definition below :: "path_step list \<Rightarrow> path_step list \<Rightarrow> bool" where
  "below a b \<longleftrightarrow> (\<exists>P n m a' b'. a = P @ Dir_More n # a' \<and> b = P @ Dir_More m # b' \<and> n < m)"

lemma below_less: "below a b \<Longrightarrow> a @ x < b @ y"
  by (auto simp: below_def less_path_step_def)

lemma below_extend: "below a b \<Longrightarrow> below (a @ c) b"
  unfolding below_def by (metis append_Cons append_assoc)

section \<open>One directory\<close>

definition entry_below :: "string \<Rightarrow> string \<Rightarrow> entry \<Rightarrow> bool" where
  "entry_below d n e \<longleftrightarrow> Path e = d @ n @ (if IsDir e then [slash] else [])"

definition fs_ok :: "file_system \<Rightarrow> bool" where
  "fs_ok fs \<longleftrightarrow>
     (\<forall>p files. readDir fs p = Some files \<longrightarrow>
        distinct (map fiName files) \<and> (\<forall>f \<in> set files. good_name (fiName f)))
     \<and> (\<forall>p st. statFile fs p = Some st \<longrightarrow> fiName st = p)"

lemma mode_bits:
  "m AND ModeDir = 0 \<longleftrightarrow> \<not> bit m 31" "m AND ModeSymlink = 0 \<longleftrightarrow> \<not> bit m 27"
  "bit (m XOR ModeDir) i \<longleftrightarrow> bit m i \<noteq> (i = 31)" "bit (m XOR ModeSymlink) i \<longleftrightarrow> bit m i \<noteq> (i = 27)"
proof -
  have d: "ModeDir = 2 ^ 31" "ModeSymlink = 2 ^ 27" by (simp_all add: mode_defs)
  show "m AND ModeDir = 0 \<longleftrightarrow> \<not> bit m 31" "m AND ModeSymlink = 0 \<longleftrightarrow> \<not> bit m 27"
    unfolding d by (simp_all only: and_exp_eq_0_iff_not_bit)
  show "bit (m XOR ModeDir) i \<longleftrightarrow> bit m i \<noteq> (i = 31)" "bit (m XOR ModeSymlink) i \<longleftrightarrow> bit m i \<noteq> (i = 27)"
    unfolding d by (auto simp only: bit_xor_iff bit_exp_iff possible_bit_word) (auto dest: bit_imp_le_length)
qed

lemma IsDir_bit: "IsDir e \<longleftrightarrow> bit (Mode e) 31"
  and IsLink_bit: "IsLink e \<longleftrightarrow> bit (Mode e) 27"
  and real_dir_bit: "real_dir f \<longleftrightarrow> bit (fiMode f) 31 \<and> \<not> bit (fiMode f) 27"
  by (simp_all add: IsDir_def IsLink_def real_dir_def fiIsDir_def mode_bits)

lemma Create_path:
  assumes "good_name (fiName f)"
  shows "entry_below d (fiName f) (CreateEntryFromFileInfo f d)"
    "IsDir (CreateEntryFromFileInfo f d) \<longleftrightarrow> real_dir f"
    "IsLink (CreateEntryFromFileInfo f d) \<Longrightarrow> \<not> real_dir f"
proof -
  have "last (d @ fiName f) \<noteq> slash"
    using assms last_in_set [of "fiName f"] by (metis good_name_def last_appendR)
  moreover have "fiName f \<noteq> []" using assms by (simp add: good_name_def)
  ultimately show "entry_below d (fiName f) (CreateEntryFromFileInfo f d)"
    "IsDir (CreateEntryFromFileInfo f d) \<longleftrightarrow> real_dir f"
    "IsLink (CreateEntryFromFileInfo f d) \<Longrightarrow> \<not> real_dir f"
    by (auto simp: CreateEntryFromFileInfo_def GetOwner_def entry_below_def IsDir_bit IsLink_bit
        real_dir_bit mode_bits Let_def split: option.splits if_splits)
qed

lemma entry_below_upd [simp]:
  "entry_below d n (e\<lparr>Link := l\<rparr>) = entry_below d n e"
  "entry_below d n (e\<lparr>Attributes := a\<rparr>) = entry_below d n e"
  "entry_below d n (e\<lparr>Mode := Mode e XOR ModeSymlink\<rparr>) = entry_below d n e"
  "IsDir (e\<lparr>Link := l\<rparr>) = IsDir e" "IsDir (e\<lparr>Attributes := a\<rparr>) = IsDir e"
  "IsDir (e\<lparr>Mode := Mode e XOR ModeSymlink\<rparr>) = IsDir e"
  by (simp_all add: entry_below_def IsDir_bit mode_bits)

lemma resolve_link_below:
  assumes "fs_ok fs" "\<not> windows_os opts" "good_name (fiName f)" "np = with_slash path" "dir_path np"
    and e: "e = CreateEntryFromFileInfo f np" "IsLink e"
    and r: "resolve_link fs opts path np nt f e = Listed e'"
  shows "entry_below np (fiName f) e' \<and> (path \<noteq> [] \<longrightarrow> \<not> IsDir e')"
proof -
  note c = Create_path [OF assms(3), of np, folded e(1)]
  have nd: "\<not> IsDir e" using c e by simp
  show ?thesis
  proof (cases "\<exists>st. statFile fs (Path e) = Some st \<and> e' = CreateEntryFromFileInfo st [] \<and> path = []")
    case True
    then obtain st where st: "statFile fs (Path e) = Some st" "e' = CreateEntryFromFileInfo st []" "path = []"
      by blast
    then have "fiName st = fiName f"
      using assms(1,4) c(1) nd by (auto simp: fs_ok_def entry_below_def with_slash_def)
    then show ?thesis
      using Create_path(1) [of st "[]"] assms(3,4) st by (simp add: with_slash_def)
  next
    case False
    then have "e' = e\<lparr>Link := snd (the (readLink fs (Path e)))\<rparr> \<or>
        e' = e\<lparr>Link := snd (the (readLink fs (Path e))), Mode := Mode e XOR ModeSymlink\<rparr>"
      using r assms(2) by (auto simp: resolve_link_def Let_def split: option.splits prod.splits if_splits)
    then show ?thesis
      using c nd entry_below_upd(3) [of _ _ "e\<lparr>Link := snd (the (readLink fs (Path e)))\<rparr>"]
        entry_below_upd(6) [of "e\<lparr>Link := snd (the (readLink fs (Path e)))\<rparr>"]
      by auto
  qed
qed

lemma list_file_below:
  assumes "fs_ok fs" "\<not> windows_os opts" "good_name (fiName f)" "np = with_slash path"
    and "list_file fs opts path np nt f = Listed e'"
  shows "entry_below np (fiName f) e' \<and> (path \<noteq> [] \<longrightarrow> IsDir e' = real_dir f) \<and> (real_dir f \<longrightarrow> IsDir e')"
proof -
  let ?e = "CreateEntryFromFileInfo f np"
  have d: "dir_path np" using assms(4) by (simp add: dir_path_def with_slash_def)
  note c = Create_path [OF assms(3), of np]
  obtain e1 where e1: "(if IsLink ?e then resolve_link fs opts path np nt f ?e else Listed ?e) = Listed e1"
    "e' = e1 \<or> (\<exists>a. e' = e1\<lparr>Attributes := a\<rparr>)"
    using assms(5) by (auto simp: list_file_def Let_def split: if_splits listed.splits option.splits)
  have "entry_below np (fiName f) e1 \<and> (path \<noteq> [] \<longrightarrow> IsDir e1 = real_dir f) \<and> (real_dir f \<longrightarrow> IsDir e1)"
  proof (cases "IsLink ?e")
    case True
    then show ?thesis
      using resolve_link_below [OF assms(1-4) d refl True] e1(1) c by auto
  next
    case False
    then show ?thesis using e1(1) c by auto
  qed
  then show ?thesis using e1(2) by auto
qed

text \<open>The key of an entry of a directory, relative to it.\<close>

definition own_step :: "string \<Rightarrow> entry \<Rightarrow> path_step" where
  "own_step n e = (if IsDir e then Dir_Last n else File n)"

lemma entry_below_key:
  assumes "entry_below d n e" "good_name n" "dir_path d"
  shows "path_key (Path e) = more_steps d @ [own_step n e]" "no_nul d \<Longrightarrow> no_nul (Path e)"
    "IsDir e \<Longrightarrow> more_steps (Path e) = more_steps d @ [Dir_More n]"
    "IsDir e \<Longrightarrow> dir_path (Path e) \<and> Path e \<noteq> []"
  using assms name_keys [OF assms(2)]
  by (auto simp: entry_below_def own_step_def path_key_below more_steps_below good_name_def no_nul_def
      slash_def dir_path_def)

text \<open>The two lists a directory is split into.\<close>

definition as_file :: "(file_info \<Rightarrow> listed) \<Rightarrow> file_info \<Rightarrow> entry option" where
  "as_file g f = (case g f of Listed e \<Rightarrow> if IsDir e then None else Some e | _ \<Rightarrow> None)"

definition as_dir :: "(file_info \<Rightarrow> listed) \<Rightarrow> file_info \<Rightarrow> entry option" where
  "as_dir g f = (case g f of Listed e \<Rightarrow> if IsDir e then Some e else None | _ \<Rightarrow> None)"

lemma as_Some [simp]:
  "as_file g f = Some e \<longleftrightarrow> g f = Listed e \<and> \<not> IsDir e"
  "as_dir g f = Some e \<longleftrightarrow> g f = Listed e \<and> IsDir e"
  by (auto simp: as_file_def as_dir_def split: listed.splits)

lemma list_files_filter:
  "list_files g fs = (files, dirs, skipped) \<Longrightarrow>
     files = List.map_filter (as_file g) fs \<and> dirs = List.map_filter (as_dir g) fs"
  by (induction fs arbitrary: files dirs skipped)
    (auto simp: map_filter_simps as_file_def as_dir_def split: prod.splits listed.splits if_splits)

lemma set_map_filter: "set (List.map_filter h xs) = {b. \<exists>a \<in> set xs. h a = Some b}"
  by (induction xs) (auto simp: map_filter_simps split: option.split)

lemma sorted_map_filter:
  "sorted_wrt R xs \<Longrightarrow>
   (\<And>x y a b. x \<in> set xs \<Longrightarrow> y \<in> set xs \<Longrightarrow> R x y \<Longrightarrow> h x = Some a \<Longrightarrow> h y = Some b \<Longrightarrow> Q a b) \<Longrightarrow>
   sorted_wrt Q (List.map_filter h xs)"
proof (induction xs)
  case (Cons x xs)
  then have "sorted_wrt Q (List.map_filter h xs)" by auto
  moreover have "\<And>b. b \<in> set (List.map_filter h xs) \<Longrightarrow> h x = Some a \<Longrightarrow> Q a b" for a
    using Cons.prems by (force simp: set_map_filter)
  ultimately show ?case by (auto simp: map_filter_simps split: option.split)
qed (simp add: map_filter_simps)

lemma FileInfoCompare_sorted:
  assumes "distinct (map fiName fs)"
  shows "sorted_wrt FileInfoCompare_Less (sort_by FileInfoCompare_Less fs)"
  using assms
proof (intro sort_by_sorted [where P = "\<lambda>f. f \<in> set fs"])
  fix x y assume "x \<in> set fs" "y \<in> set fs" "x \<noteq> y"
  then have "fiName x \<noteq> fiName y" using assms by (auto simp: distinct_map inj_on_def)
  then show "FileInfoCompare_Less x y \<or> FileInfoCompare_Less y x"
    using less_linear [of "fiName x" "fiName y"] by (auto simp: FileInfoCompare_key)
qed (auto simp: FileInfoCompare_key distinct_map)

definition out_ok :: "string \<Rightarrow> entry list \<Rightarrow> bool" where
  "out_ok d out \<longleftrightarrow> sorted_wrt (\<lambda>a b. path_key (Path a) < path_key (Path b)) out
     \<and> (\<forall>e \<in> set out. no_nul (Path e)
          \<and> (\<exists>n. path_key (Path e) = more_steps d @ [File n] \<or> path_key (Path e) = more_steps d @ [Dir_Last n]))"

definition subs_ok :: "string \<Rightarrow> entry list \<Rightarrow> bool" where
  "subs_ok d subs \<longleftrightarrow> sorted_wrt (\<lambda>a b. below (more_steps (Path b)) (more_steps (Path a))) subs
     \<and> (\<forall>e \<in> set subs. no_nul (Path e) \<and> dir_path (Path e) \<and> Path e \<noteq> []
          \<and> (\<exists>n. more_steps (Path e) = more_steps d @ [Dir_More n]))"

lemma below_siblings: "n < m \<Longrightarrow> below (P @ [Dir_More n]) (P @ [Dir_More m])"
  by (auto simp: below_def)

lemma with_slash_Nil: "with_slash [] = []"
  by (simp add: with_slash_def)

lemma ListEntries_ok:
  assumes fs: "fs_ok fs" and w: "\<not> windows_os opts" and d: "dir_path path" "no_nul path"
    and l: "ListEntries fs opts path = Some (out, subs, skipped)"
  shows "out_ok path out" "subs_ok path subs"
proof -
  let ?np = "with_slash path" let ?g = "list_file fs opts path path (with_slash (top_dir opts))"
  have np: "?np = path" using d by (auto simp: with_slash_def dir_path_def)
  obtain files where rd: "readDir fs path = Some files" using l by (auto simp: ListEntries_def split: option.splits)
  then have names: "distinct (map fiName files)" "\<And>f. f \<in> set files \<Longrightarrow> good_name (fiName f)"
    using fs by (auto simp: fs_ok_def)
  let ?fs = "sort_by FileInfoCompare_Less files"
  note g = list_file_below [OF fs w _ np [symmetric]]
  have key: "path_key (Path e) = more_steps path @ [own_step (fiName f) e]" "no_nul (Path e)"
    "IsDir e \<Longrightarrow> more_steps (Path e) = more_steps path @ [Dir_More (fiName f)]"
    "IsDir e \<Longrightarrow> dir_path (Path e) \<and> Path e \<noteq> []" "real_dir f \<Longrightarrow> IsDir e"
    "path \<noteq> [] \<Longrightarrow> IsDir e = real_dir f"
    if "f \<in> set files" "?g f = Listed e" for f e
    using entry_below_key [of path "fiName f" e] g [OF names(2) [OF that(1)], of _ e] that(2)
      names(2) [OF that(1)] d
    by blast+
  define F where "F = List.map_filter (as_file ?g) ?fs"
  define D where "D = List.map_filter (as_dir ?g) ?fs"
  have F_in: "\<exists>f \<in> set files. ?g f = Listed e \<and> \<not> IsDir e" if "e \<in> set F" for e
    using that by (auto simp: F_def set_map_filter)
  have D_in: "\<exists>f \<in> set files. ?g f = Listed e \<and> IsDir e" if "e \<in> set D" for e
    using that by (auto simp: D_def set_map_filter)
  note srt = FileInfoCompare_sorted [OF names(1)]
  have F_sorted: "sorted_wrt (\<lambda>a b. path_key (Path a) < path_key (Path b)) F"
    unfolding F_def
  proof (rule sorted_map_filter [OF srt])
    fix x y a b assume a: "x \<in> set ?fs" "y \<in> set ?fs" "FileInfoCompare_Less x y" "as_file ?g x = Some a" "as_file ?g y = Some b"
    then have "?g x = Listed a" "?g y = Listed b" "\<not> IsDir a" "\<not> IsDir b"
      by auto
    with a show "path_key (Path a) < path_key (Path b)"
      using key(1,5) [of x a] key(1,5) [of y b]
      by (auto simp: own_step_def less_path_step_def FileInfoCompare_key)
  qed
  have D_paths: "sorted_wrt (\<lambda>a b. Path a \<noteq> Path b) D"
    unfolding D_def
  proof (rule sorted_map_filter [OF srt])
    fix x y a b assume a: "x \<in> set ?fs" "y \<in> set ?fs" "FileInfoCompare_Less x y" "as_dir ?g x = Some a" "as_dir ?g y = Some b"
    then have "?g x = Listed a" "?g y = Listed b" "IsDir a" "IsDir b"
      by auto
    moreover have "fiName x \<noteq> fiName y"
      using a names(1) by (auto simp: FileInfoCompare_key distinct_map inj_on_def)
    ultimately have "path_key (Path a) \<noteq> path_key (Path b)"
      using key(1) [of x a] key(1) [of y b] a by (auto simp: own_step_def)
    then show "Path a \<noteq> Path b" by auto
  qed
  have ord: "ByName_Less a b \<longleftrightarrow> path_key (Path a) < path_key (Path b)" if "a \<in> set D" "b \<in> set D" for a b
    using D_in [OF that(1)] D_in [OF that(2)] key(2) ComparePaths_key [of "Path a" "Path b"]
    by (auto simp: ByName_Less_def Compare_def)
  define D' where "D' = (if path = [] then sort_by ByName_Less D else D)"
  have D': "set D' = set D" by (simp add: D'_def)
  have D'_sorted: "sorted_wrt (\<lambda>a b. path_key (Path a) < path_key (Path b)) D'"
  proof (cases "path = []")
    case True
    have "distinct (map Path D)" using D_paths by (simp add: distinct_conv_nth sorted_wrt_iff_nth_less) (metis nat_neq_iff)
    then have "sorted_wrt ByName_Less (sort_by ByName_Less D)"
    proof (intro sort_by_sorted [where P = "\<lambda>e. e \<in> set D"])
      fix x y z assume "x \<in> set D" "y \<in> set D" "x \<noteq> y"
      then have "path_key (Path x) \<noteq> path_key (Path y)"
        using \<open>distinct (map Path D)\<close> by (auto simp: distinct_map inj_on_def path_key_inj)
      then show "ByName_Less x y \<or> ByName_Less y x" using ord \<open>x \<in> set D\<close> \<open>y \<in> set D\<close> by auto
    qed (auto simp: ord distinct_map)
    then show ?thesis
      using True sorted_wrt_mono_rel [of D' ByName_Less] ord by (auto simp: D'_def)
  next
    case False
    show ?thesis
      unfolding D'_def D_def if_not_P [OF False]
    proof (rule sorted_map_filter [OF srt])
      fix x y a b assume a: "x \<in> set ?fs" "y \<in> set ?fs" "FileInfoCompare_Less x y" "as_dir ?g x = Some a" "as_dir ?g y = Some b"
      then have "?g x = Listed a" "?g y = Listed b" "IsDir a" "IsDir b"
        by auto
      with a show "path_key (Path a) < path_key (Path b)"
        using key(1,6) [of x a] key(1,6) [of y b] False
        by (auto simp: own_step_def less_path_step_def FileInfoCompare_key)
    qed
  qed
  have res: "out = [] \<and> subs = [] \<or> out = F @ D' \<and> subs = rev D'"
    using l rd by (auto simp: ListEntries_def np with_slash_Nil Let_def F_def D_def D'_def
        dest!: list_files_filter split: if_splits prod.splits)
  have F_key: "no_nul (Path e) \<and> (\<exists>n. path_key (Path e) = more_steps path @ [File n])" if "e \<in> set F" for e
    using F_in [OF that] key(1,2) by (auto simp: own_step_def)
  have D_key: "no_nul (Path e) \<and> dir_path (Path e) \<and> Path e \<noteq> [] \<and> (\<exists>n. path_key (Path e) = more_steps path @ [Dir_Last n]
      \<and> more_steps (Path e) = more_steps path @ [Dir_More n])" if "e \<in> set D" for e
    using D_in [OF that] key(1-4) by (auto simp: own_step_def)
  have "path_key (Path a) < path_key (Path b)" if "a \<in> set F" "b \<in> set D" for a b
    using F_key [OF that(1)] D_key [OF that(2)] by (auto simp: less_path_step_def)
  then have "sorted_wrt (\<lambda>a b. path_key (Path a) < path_key (Path b)) (F @ D')"
    using F_sorted D'_sorted by (simp add: sorted_wrt_append D')
  moreover have "no_nul (Path e) \<and> (\<exists>n. path_key (Path e) = more_steps path @ [File n]
      \<or> path_key (Path e) = more_steps path @ [Dir_Last n])" if "e \<in> set (F @ D')" for e
    using that F_key [of e] D_key [of e] D' by (cases "e \<in> set F") auto
  ultimately have "out_ok path (F @ D')" unfolding out_ok_def by blast
  moreover have "subs_ok path (rev D')"
  proof -
    have "below (more_steps (Path a)) (more_steps (Path b))"
      if "a \<in> set D" "b \<in> set D" "path_key (Path a) < path_key (Path b)" for a b
      using D_key [OF that(1)] D_key [OF that(2)] that(3) below_siblings
      by (auto simp: less_path_step_def)
    then have "sorted_wrt (\<lambda>a b. below (more_steps (Path a)) (more_steps (Path b))) D'"
      using D' by (intro sorted_wrt_mono_rel [OF _ D'_sorted]) simp_all
    then show ?thesis
      unfolding subs_ok_def sorted_wrt_rev set_rev D' using D_key by blast
  qed
  moreover have "out_ok path []" "subs_ok path []" by (simp_all add: out_ok_def subs_ok_def)
  ultimately show "out_ok path out" "subs_ok path subs" using res by blast+
qed

section \<open>The whole repository\<close>

text \<open>
  The invariant of the stack: what has been sent is ascending and comes before everything below
  the directories still on the stack, and a directory nearer to the top comes before one below it.
\<close>

definition stack_inv :: "entry list \<Rightarrow> entry list \<Rightarrow> bool" where
  "stack_inv directories sent \<longleftrightarrow>
     (\<forall>d \<in> set directories. dir_path (Path d) \<and> no_nul (Path d))
     \<and> sorted_wrt (\<lambda>a b. below (more_steps (Path b)) (more_steps (Path a))) directories
     \<and> sorted_wrt (\<lambda>a b. path_key (Path a) < path_key (Path b)) sent
     \<and> (\<forall>s \<in> set sent. no_nul (Path s)
          \<and> (\<forall>d \<in> set directories. \<forall>k ks. path_key (Path s) < more_steps (Path d) @ k # ks))"

lemma stack_inv_step:
  assumes fs: "fs_ok fs" "\<not> windows_os opts" and inv: "stack_inv (ds @ [d]) sent"
    and l: "ListEntries fs opts (Path d) = Some (out, subs, skipped)"
  shows "stack_inv (ds @ subs) (sent @ out)"
proof -
  let ?m = "\<lambda>e. more_steps (Path e)"
  have d: "dir_path (Path d)" "no_nul (Path d)" and bd: "\<And>b. b \<in> set ds \<Longrightarrow> below (?m d) (?m b)"
    using inv by (auto simp: stack_inv_def sorted_wrt_append)
  have out: "out_ok (Path d) out" and subs: "subs_ok (Path d) subs"
    using ListEntries_ok [OF fs d l] by auto
  have key_out: "\<exists>k. path_key (Path e) = ?m d @ [k] \<and> (\<forall>n. k < Dir_More n)" if "e \<in> set out" for e
    using out that by (fastforce simp: out_ok_def less_path_step_def)
  have sub: "\<exists>n. ?m e = ?m d @ [Dir_More n]" if "e \<in> set subs" for e
    using subs that by (auto simp: subs_ok_def)
  have "sorted_wrt (\<lambda>a b. path_key (Path a) < path_key (Path b)) (sent @ out)"
    using inv out key_out by (fastforce simp: stack_inv_def out_ok_def sorted_wrt_append)
  moreover have "sorted_wrt (\<lambda>a b. below (?m b) (?m a)) (ds @ subs)"
  proof -
    have "below (?m b) (?m a)" if "a \<in> set ds" "b \<in> set subs" for a b
      using sub [OF that(2)] below_extend [OF bd [OF that(1)]] by auto
    then show ?thesis using inv subs by (auto simp: stack_inv_def subs_ok_def sorted_wrt_append)
  qed
  moreover have "\<forall>e \<in> set (ds @ subs). dir_path (Path e) \<and> no_nul (Path e)"
    using inv subs by (auto simp: stack_inv_def subs_ok_def)
  moreover have "path_key (Path s) < ?m e @ k # ks"
    if s: "s \<in> set (sent @ out)" and e: "e \<in> set (ds @ subs)" for s e k ks
  proof (cases "s \<in> set sent")
    case True
    have old: "path_key (Path s) < ?m x @ j # js" if "x \<in> set (ds @ [d])" for x j js
      using inv True that by (auto simp: stack_inv_def)
    show ?thesis
    proof (cases "e \<in> set ds")
      case False
      then obtain n where "?m e = ?m d @ [Dir_More n]" using e sub by auto
      then show ?thesis using old [of d "Dir_More n" "k # ks"] by simp
    qed (use old in auto)
  next
    case False
    then obtain j where j: "path_key (Path s) = ?m d @ [j]" "\<And>n. j < Dir_More n"
      using s key_out by auto
    show ?thesis
    proof (cases "e \<in> set ds")
      case True
      then show ?thesis using below_less [OF bd, of e] j(1) by simp
    next
      case False
      then obtain n where "?m e = ?m d @ [Dir_More n]" using e sub by auto
      then show ?thesis using j by simp
    qed
  qed
  moreover have "\<forall>s \<in> set (sent @ out). no_nul (Path s)"
    using inv out by (auto simp: stack_inv_def out_ok_def)
  ultimately show ?thesis unfolding stack_inv_def by blast
qed

lemma stack_inv_pop: "stack_inv (ds @ [d]) sent \<Longrightarrow> stack_inv ds sent"
  by (auto simp: stack_inv_def sorted_wrt_append)

lemma list_stack_sorted:
  "list_stack fs opts ds sent sd sf = Some r \<Longrightarrow> fs_ok fs \<Longrightarrow> \<not> windows_os opts \<Longrightarrow> stack_inv ds sent
    \<Longrightarrow> (case r of ListFailure \<Rightarrow> readDir fs [] = None | ListDone out _ _ \<Rightarrow> stack_inv [] out)"
proof (induction fs opts ds sent sd sf r rule: list_stack.raw_induct [rotated, consumes 1])
  case (1 ls fs opts ds sent sd sf r)
  show ?case
  proof (cases ds rule: rev_cases)
    case Nil
    then show ?thesis using 1 by auto
  next
    case (snoc ds' d)
    show ?thesis
    proof (cases "ListEntries fs opts (Path d)")
      case None
      moreover have "stack_inv ds' sent" using 1(5) snoc stack_inv_pop by blast
      moreover have "readDir fs (Path d) = None"
        using None by (auto simp: ListEntries_def Let_def split: option.splits if_splits prod.splits)
      ultimately show ?thesis
        using 1(2) 1(1) [of fs opts ds' sent "sd @ [Path d]" sf r] 1(3,4) snoc
        by (cases "Path d = []") auto
    next
      case (Some res)
      obtain out subs sk where res: "res = (out, subs, sk)" by (cases res)
      then have "stack_inv (ds' @ subs) (sent @ out)"
        using stack_inv_step [OF 1(3,4)] 1(5) Some snoc by blast
      then show ?thesis
        using 1(2) 1(1) [of fs opts "ds' @ subs" "sent @ out" sd "sf @ sk" r] 1(3,4) Some snoc res by simp
    qed
  qed
qed

text \<open>The listing ends: directories are nested at most as deep as the file system is.\<close>

definition depth_bound :: "file_system \<Rightarrow> listing_options \<Rightarrow> nat \<Rightarrow> bool" where
  "depth_bound fs opts n \<longleftrightarrow> (\<forall>p out subs sk. n \<le> length (more_steps p) \<longrightarrow>
     ListEntries fs opts p = Some (out, subs, sk) \<longrightarrow> subs = [])"

definition stack_ends :: "file_system \<Rightarrow> listing_options \<Rightarrow> entry list \<Rightarrow> bool" where
  "stack_ends fs opts ds \<longleftrightarrow> (\<forall>sent sd sf. \<exists>r. list_stack fs opts ds sent sd sf = Some r)"

lemma stack_ends_append_aux:
  "list_stack fs opts xs sent sd sf = Some r \<Longrightarrow> stack_ends fs opts ds \<Longrightarrow>
     \<exists>r. list_stack fs opts (ds @ xs) sent sd sf = Some r"
proof (induction fs opts xs sent sd sf r rule: list_stack.raw_induct [rotated, consumes 1])
  case (1 ls fs opts xs sent sd sf r)
  show ?case
  proof (cases xs rule: rev_cases)
    case Nil
    then show ?thesis using 1 by (auto simp: stack_ends_def)
  next
    case (snoc xs' d)
    have eq: "list_stack fs opts (ds @ xs) sent sd sf =
      (case ListEntries fs opts (Path d) of
              None \<Rightarrow> if Path d = [] then Some ListFailure
                      else list_stack fs opts (ds @ xs') sent (sd @ [Path d]) sf
            | Some (out, subs, sk) \<Rightarrow> list_stack fs opts (ds @ xs' @ subs) (sent @ out) sd (sf @ sk))"
      unfolding snoc by (subst list_stack.simps) (simp add: butlast_append split: option.split)
    show ?thesis
    proof (cases "ListEntries fs opts (Path d)")
      case None
      then show ?thesis
        using 1(2) 1(1) [of fs opts xs' sent "sd @ [Path d]" sf r] 1(3) snoc eq by (auto split: if_splits)
    next
      case (Some res)
      obtain out subs sk where "res = (out, subs, sk)" by (cases res)
      then show ?thesis
        using 1(2) 1(1) [of fs opts "xs' @ subs" "sent @ out" sd "sf @ sk" r] 1(3) Some snoc eq by simp
    qed
  qed
qed

lemma stack_ends_append: "stack_ends fs opts xs \<Longrightarrow> stack_ends fs opts ds \<Longrightarrow> stack_ends fs opts (ds @ xs)"
  using stack_ends_append_aux unfolding stack_ends_def by blast

lemma stack_ends_Nil: "stack_ends fs opts []"
  by (simp add: stack_ends_def list_stack.simps)

lemma stack_ends_snoc:
  assumes "stack_ends fs opts ds"
    and "\<And>out subs sk. ListEntries fs opts (Path d) = Some (out, subs, sk) \<Longrightarrow> stack_ends fs opts subs"
  shows "stack_ends fs opts (ds @ [d])"
  unfolding stack_ends_def
proof (intro allI)
  fix sent sd sf
  show "\<exists>r. list_stack fs opts (ds @ [d]) sent sd sf = Some r"
    using assms stack_ends_append [OF _ assms(1)]
    by (subst list_stack.simps) (auto simp: stack_ends_def split: option.split)
qed

lemma stack_ends_depth:
  assumes "fs_ok fs" "\<not> windows_os opts" "depth_bound fs opts n"
  shows "\<forall>d \<in> set ds. dir_path (Path d) \<and> no_nul (Path d) \<and> n \<le> length (more_steps (Path d)) + k
    \<Longrightarrow> stack_ends fs opts ds"
proof (induction k arbitrary: ds)
  case 0
  then show ?case
  proof (induction ds rule: rev_induct)
    case (snoc d ds)
    show ?case
    proof (rule stack_ends_snoc)
      show "stack_ends fs opts subs" if "ListEntries fs opts (Path d) = Some (out, subs, sk)" for out subs sk
        using that snoc.prems assms(3) stack_ends_Nil by (auto simp: depth_bound_def)
    qed (use snoc in auto)
  qed (rule stack_ends_Nil)
next
  case (Suc k)
  from Suc.prems show ?case
  proof (induction ds rule: rev_induct)
    case (snoc d ds)
    show ?case
    proof (rule stack_ends_snoc)
      show "stack_ends fs opts subs" if l: "ListEntries fs opts (Path d) = Some (out, subs, sk)" for out subs sk
      proof (rule Suc.IH)
        have "subs_ok (Path d) subs" using ListEntries_ok(2) [OF assms(1,2) _ _ l] snoc.prems by auto
        then show "\<forall>e \<in> set subs. dir_path (Path e) \<and> no_nul (Path e) \<and> n \<le> length (more_steps (Path e)) + k"
          using snoc.prems by (fastforce simp: subs_ok_def)
      qed
    qed (use snoc in auto)
  qed (rule stack_ends_Nil)
qed

text \<open>
  C12. Listing the repository.  On a file system whose directories report distinct, well-formed
  names and are nested to a bounded depth, \<^verbatim>\<open>ListLocalFiles\<close> ends, and unless the root itself cannot
  be read the entries it sends are in strictly ascending \<^verbatim>\<open>ComparePaths\<close> order, whatever is filtered,
  skipped, unreadable or resolved from a link.
\<close>

theorem ListLocalFiles_ascending:
  assumes "fs_ok fs" and "\<not> windows_os opts" and "depth_bound fs opts n"
  shows "\<exists>r. ListLocalFiles fs opts = Some r \<and>
    (case r of ListFailure \<Rightarrow> readDir fs [] = None
     | ListDone out _ _ \<Rightarrow> paths.ascending (map Path out))"
proof -
  let ?root = "CreateEntry [] 0 0 0"
  have root: "Path ?root = []" by (simp add: CreateEntry_def)
  have "stack_ends fs opts [?root]"
    by (rule stack_ends_depth [OF assms, where k = n]) (simp add: root dir_path_def no_nul_def)
  then obtain r where r: "ListLocalFiles fs opts = Some r"
    unfolding stack_ends_def ListLocalFiles_def by blast
  moreover have "stack_inv [?root] []" by (simp add: stack_inv_def root dir_path_def no_nul_def)
  ultimately have ok: "case r of ListFailure \<Rightarrow> readDir fs [] = None | ListDone out _ _ \<Rightarrow> stack_inv [] out"
    using list_stack_sorted assms(1,2) unfolding ListLocalFiles_def by blast
  have "paths.ascending (map Path out)" if "stack_inv [] out" for out
  proof -
    have nul: "\<forall>e \<in> set out. no_nul (Path e)"
      and srt: "sorted_wrt (\<lambda>a b. path_key (Path a) < path_key (Path b)) out"
      using that by (simp_all add: stack_inv_def)
    have "ComparePaths (Path a) (Path b) < 0"
      if "a \<in> set out" "b \<in> set out" "path_key (Path a) < path_key (Path b)" for a b
      using ComparePaths_key [of "Path a" "Path b"] nul that by blast
    then have "sorted_wrt (\<lambda>a b. ComparePaths (Path a) (Path b) < 0) out"
      by (rule sorted_wrt_mono_rel [OF _ srt])
    then show ?thesis
      using nul by (simp add: paths.ascending_def sorted_wrt_map)
  qed
  then show ?thesis using r ok by (auto split: listing_result.splits)
qed

definition sample_fs :: file_system where
  "sample_fs =
     \<lparr>readDir = (\<lambda>p. if p = [] then Some [\<lparr>fiName = ''a'', fiSize = 0, fiTime = 0, fiMode = ModeDir, fiOwner = None\<rparr>,
                     \<lparr>fiName = ''z'', fiSize = 1, fiTime = 0, fiMode = 0, fiOwner = None\<rparr>]
                   else if p = ''a/'' then Some [\<lparr>fiName = ''b'', fiSize = 2, fiTime = 0, fiMode = 0, fiOwner = None\<rparr>]
                   else None),
      readLink = (\<lambda>p. None), statFile = (\<lambda>p. None), readAttributes = (\<lambda>p. None)\<rparr>"

definition sample_options :: listing_options where
  "sample_options = \<lparr>top_dir = ''/r'', windows_os = False, include_path_p = (\<lambda>p. True),
     nobackupFile = [], excludeByAttribute = False\<rparr>"

theorem ListLocalFiles_ascending_witness:
  "\<exists>r. ListLocalFiles sample_fs sample_options = Some r \<and>
    (case r of ListFailure \<Rightarrow> False | ListDone out _ _ \<Rightarrow> paths.ascending (map Path out))"
proof -
  have "fs_ok sample_fs"
    by (auto simp: fs_ok_def sample_fs_def good_name_def no_nul_def slash_def)
  moreover have "depth_bound sample_fs sample_options 2"
  proof -
    have "subs = []" if "2 \<le> length (more_steps p)" "ListEntries sample_fs sample_options p = Some (out, subs, sk)"
      for p out subs sk
      using that by (auto simp: ListEntries_def sample_fs_def slash_def split: if_splits)
    then show ?thesis by (simp add: depth_bound_def)
  qed
  moreover have "readDir sample_fs [] \<noteq> None" by (simp add: sample_fs_def)
  ultimately show ?thesis
    using ListLocalFiles_ascending [of sample_fs sample_options 2]
    by (auto simp: sample_options_def split: listing_result.splits)
qed

end
