(* ===== verification/Entry_Codec.thy ===== *)
theory Entry_Codec
  imports Entry Go_Strings
begin

text \<open>
  The msgpack form of an entry (\<^verbatim>\<open>EncodeMsgpack\<close>, \<^verbatim>\<open>DecodeMsgpack\<close>, \<^verbatim>\<open>EncodeWithHash\<close> and
  \<^verbatim>\<open>DecodeEntryWithHash\<close> in \<^verbatim>\<open>src/src/duplicacy_entry.go\<close>).  The msgpack library is outside the
  repository: an encoder is the sequence of the items it was given, and a decoder gives them back
  one by one, failing on an item of another kind.
\<close>

section \<open>Items\<close>

datatype item = IStr string | IInt int | IBytes string

datatype codec_error = EndOfStream | WrongItem item | CorruptedMetadata

fun DecodeString :: "item list \<Rightarrow> codec_error + (string \<times> item list)" where
  "DecodeString (IStr s # ts) = Inr (s, ts)"
| "DecodeString (t # ts) = Inl (WrongItem t)"
| "DecodeString [] = Inl EndOfStream"

fun DecodeInt :: "item list \<Rightarrow> codec_error + (int \<times> item list)" where
  "DecodeInt (IInt n # ts) = Inr (n, ts)"
| "DecodeInt (t # ts) = Inl (WrongItem t)"
| "DecodeInt [] = Inl EndOfStream"

fun DecodeBytes :: "item list \<Rightarrow> codec_error + (string \<times> item list)" where
  "DecodeBytes (IBytes s # ts) = Inr (s, ts)"
| "DecodeBytes (t # ts) = Inl (WrongItem t)"
| "DecodeBytes [] = Inl EndOfStream"

section \<open>Encoding and decoding an entry\<close>

text \<open>A Go map updated at a key, kept sorted by key.\<close>

fun attr_put :: "string \<Rightarrow> string \<Rightarrow> (string \<times> string) list \<Rightarrow> (string \<times> string) list" where
  "attr_put k v [] = [(k, v)]"
| "attr_put k v ((k', v') # as) =
     (if k = k' then (k, v) # as
      else if k < k' then (k, v) # (k', v') # as else (k', v') # attr_put k v as)"

definition encode_attributes :: "(string \<times> string) list \<Rightarrow> item list" where
  "encode_attributes as = concat (map (\<lambda>(k, v). [IStr k, IStr v]) (sort_key fst as))"

definition EncodeMsgpack :: "entry \<Rightarrow> item list" where
  "EncodeMsgpack e =
     [IStr (Path e), IInt (Size e), IInt (Time e), IInt (uint (Mode e)), IStr (Link e), IStr (Hash e),
      IInt (StartChunk e), IInt (StartOffset e), IInt (EndChunk e), IInt (EndOffset e),
      IInt (UID e), IInt (GID e),
      IInt (case Attributes e of None \<Rightarrow> 0 | Some as \<Rightarrow> int (length as))]
     @ (case Attributes e of None \<Rightarrow> [] | Some as \<Rightarrow> encode_attributes as)"

fun decode_attributes ::
  "nat \<Rightarrow> (string \<times> string) list \<Rightarrow> item list \<Rightarrow> codec_error + ((string \<times> string) list \<times> item list)" where
  "decode_attributes 0 as ts = Inr (as, ts)"
| "decode_attributes (Suc n) as ts =
     bindE (DecodeString ts) (\<lambda>(k, ts).
     bindE (DecodeString ts) (\<lambda>(v, ts).
     decode_attributes n (attr_put k v as) ts))"

definition DecodeMsgpack :: "item list \<Rightarrow> codec_error + (entry \<times> item list)" where
  "DecodeMsgpack ts =
     bindE (DecodeString ts) (\<lambda>(path, ts).
     bindE (DecodeInt ts) (\<lambda>(sz, ts).
     bindE (DecodeInt ts) (\<lambda>(time, ts).
     bindE (DecodeInt ts) (\<lambda>(mode, ts).
     bindE (DecodeString ts) (\<lambda>(link, ts).
     bindE (DecodeString ts) (\<lambda>(hash, ts).
     bindE (DecodeInt ts) (\<lambda>(startChunk, ts).
     bindE (DecodeInt ts) (\<lambda>(startOffset, ts).
     bindE (DecodeInt ts) (\<lambda>(endChunk, ts).
     bindE (DecodeInt ts) (\<lambda>(endOffset, ts).
     bindE (DecodeInt ts) (\<lambda>(uid, ts).
     bindE (DecodeInt ts) (\<lambda>(gid, ts).
     bindE (DecodeInt ts) (\<lambda>(numberOfAttributes, ts).
     bindE (if 0 < numberOfAttributes
            then bindE (decode_attributes (nat numberOfAttributes) [] ts) (\<lambda>(as, ts). Inr (Some as, ts))
            else Inr (None, ts)) (\<lambda>(as, ts).
     Inr (\<lparr>Path = path, Size = sz, Time = time, Mode = of_int mode, Link = link, Hash = hash,
           UID = uid, GID = gid, StartChunk = startChunk, StartOffset = startOffset,
           EndChunk = endChunk, EndOffset = endOffset, Attributes = as\<rparr>, ts)))))))))))))))"

text \<open>
  The bytes of a whole msgpack value are given by \<open>marshal\<close>, and \<open>parse\<close> reads the items of such
  bytes; both belong to the library, and \<open>sha256\<close> to package \<^verbatim>\<open>crypto\<close>.
\<close>

definition EncodeWithHash :: "(item list \<Rightarrow> string) \<Rightarrow> (string \<Rightarrow> string) \<Rightarrow> entry \<Rightarrow> item list" where
  "EncodeWithHash marshal sha256 e =
     (let entryBytes = marshal (EncodeMsgpack e) in [IBytes entryBytes, IBytes (sha256 entryBytes)])"

definition DecodeEntryWithHash ::
  "(string \<Rightarrow> item list) \<Rightarrow> (string \<Rightarrow> string) \<Rightarrow> item list \<Rightarrow> codec_error + (entry \<times> item list)" where
  "DecodeEntryWithHash parse sha256 ts =
     bindE (DecodeBytes ts) (\<lambda>(entryBytes, ts).
     bindE (DecodeBytes ts) (\<lambda>(hashBytes, ts).
     if sha256 entryBytes \<noteq> hashBytes then Inl CorruptedMetadata
     else bindE (DecodeMsgpack (parse entryBytes)) (\<lambda>(e, _). Inr (e, ts))))"

section \<open>Round trip\<close>

text \<open>An entry as the program builds it: attribute names are sorted and distinct.\<close>

definition canonical :: "entry \<Rightarrow> bool" where
  "canonical e \<longleftrightarrow> (case Attributes e of None \<Rightarrow> True | Some as \<Rightarrow> sorted_wrt (<) (map fst as))"

text \<open>The encoding does not tell an empty map from a nil one.\<close>

definition normalised :: "entry \<Rightarrow> entry" where
  "normalised e = (if Attributes e = Some [] then e\<lparr>Attributes := None\<rparr> else e)"

lemma attr_put_last:
  "sorted_wrt (<) (map fst as @ [k]) \<Longrightarrow> attr_put k v as = as @ [(k, v)]"
  by (induction as) auto

lemma decode_attributes_encoded:
  "sorted_wrt (<) (map fst (old @ as)) \<Longrightarrow>
     decode_attributes (length as) old (concat (map (\<lambda>(k, v). [IStr k, IStr v]) as) @ ts) = Inr (old @ as, ts)"
proof (induction as arbitrary: old)
  case (Cons a as)
  have "attr_put (fst a) (snd a) old = old @ [a]"
    using Cons.prems by (subst attr_put_last) (auto simp: sorted_wrt_append)
  then show ?case using Cons.IH [of "old @ [a]"] Cons.prems by (simp add: split_beta)
qed simp

lemma sort_key_canonical: "sorted_wrt (<) (map fst as) \<Longrightarrow> sort_key fst as = as"
  by (intro sort_key_id_if_sorted) (auto intro: sorted_wrt_mono_rel [of _ "(<)"] simp: less_imp_le)

lemma DecodeMsgpack_encoded:
  assumes "canonical e"
  shows "DecodeMsgpack (EncodeMsgpack e @ ts) = Inr (normalised e, ts)"
proof (cases "Attributes e")
  case None
  then show ?thesis by (simp add: DecodeMsgpack_def EncodeMsgpack_def normalised_def)
next
  case (Some as)
  then have s: "sorted_wrt (<) (map fst as)" using assms by (simp add: canonical_def)
  show ?thesis
  proof (cases "as = []")
    case True
    then show ?thesis using Some
      by (simp add: DecodeMsgpack_def EncodeMsgpack_def normalised_def encode_attributes_def)
  next
    case False
    then show ?thesis
      using Some decode_attributes_encoded [of "[]" as ts] s
      by (simp add: DecodeMsgpack_def EncodeMsgpack_def normalised_def encode_attributes_def sort_key_canonical)
  qed
qed

text \<open>
  C19. The msgpack form of an entry round-trips.  Decoding what was encoded for an entry gives the
  entry back, all fields and attributes, and leaves the rest of the stream; only an empty attribute
  map comes back as none.
\<close>

theorem entry_msgpack_roundtrip:
  assumes "canonical e"
  shows "DecodeMsgpack (EncodeMsgpack e @ ts) = Inr (normalised e, ts)"
  using DecodeMsgpack_encoded [OF assms] .

theorem entry_msgpack_roundtrip_witness:
  "DecodeMsgpack (EncodeMsgpack (sample_entry\<lparr>Attributes := Some [(''a'', ''1''), (''b'', ''2'')]\<rparr>) @ [IInt 5])
     = Inr (sample_entry\<lparr>Attributes := Some [(''a'', ''1''), (''b'', ''2'')]\<rparr>, [IInt 5])"
  using entry_msgpack_roundtrip [of "sample_entry\<lparr>Attributes := Some [(''a'', ''1''), (''b'', ''2'')]\<rparr>" "[IInt 5]"]
  by (simp add: canonical_def normalised_def less_char_def)

lemma DecodeEntryWithHash_encoded:
  assumes "canonical e" "parse (marshal (EncodeMsgpack e)) = EncodeMsgpack e"
  shows "DecodeEntryWithHash parse sha256 (EncodeWithHash marshal sha256 e @ ts) = Inr (normalised e, ts)"
  using DecodeMsgpack_encoded [OF assms(1), of "[]"] assms(2)
  by (simp add: DecodeEntryWithHash_def EncodeWithHash_def Let_def)

text \<open>
  Entries on disk are protected by their hash.  Reading an entry back succeeds only if the
  stored hash is the one of the stored bytes, so bytes changed without their hash are reported as
  corrupted metadata; and what was written is read back.
\<close>

theorem entry_with_hash_guard:
  "DecodeEntryWithHash parse sha256 (IBytes b # IBytes h # ts) =
     (if h \<noteq> sha256 b then Inl CorruptedMetadata
      else bindE (DecodeMsgpack (parse b)) (\<lambda>(e, _). Inr (e, ts)))
   \<and> (DecodeEntryWithHash parse sha256 ts' = Inr (e', rest) \<longrightarrow>
       (\<exists>b. ts' = IBytes b # IBytes (sha256 b) # rest \<and> (\<exists>junk. DecodeMsgpack (parse b) = Inr (e', junk))))"
  by (auto simp: DecodeEntryWithHash_def bindE_Inr split: if_splits elim!: DecodeBytes.elims)

theorem entry_with_hash_guard_witness:
  "\<exists>b. EncodeWithHash (\<lambda>_. ''x'') (\<lambda>s. rev s) sample_entry = IBytes b # IBytes (rev b) # []"
  using entry_with_hash_guard [THEN conjunct2, of "\<lambda>_. EncodeMsgpack sample_entry" "\<lambda>s. rev s"
      "EncodeWithHash (\<lambda>_. ''x'') (\<lambda>s. rev s) sample_entry" sample_entry "[]"]
    DecodeEntryWithHash_encoded [of sample_entry "\<lambda>_. EncodeMsgpack sample_entry" "\<lambda>_. ''x''" "\<lambda>s. rev s" "[]"]
  by (simp add: canonical_def normalised_def sample_entry_def CreateEntry_def)

end
