(* ===== verification/Entry_List.thy ===== *)
theory Entry_List
  imports Entry_Codec "HOL-Library.Multiset"
begin

text \<open>
  The entry list of a backup (\<^verbatim>\<open>src/src/duplicacy_entrylist.go\<close>): entries are kept in memory or,
  beyond a limit, in a file; modified files enter with a size of -1 and are back-annotated, when the
  list is read, with the chunks they were packed into.
\<close>

section \<open>State\<close>

record modified_entry =
  mPath :: string
  mSize :: int
  mHash :: string

record entry_list =
  onDiskFile :: "item list option"
  entries :: "entry list"
  SnapshotID :: string
  Token :: string
  ModifiedEntries :: "modified_entry list"
  UploadedChunkHashes :: "string list"
  UploadedChunkLengths :: "int list"
  PreservedChunkHashes :: "string list"
  PreservedChunkLengths :: "int list"
  Checksum :: string
  maximumInMemoryEntries :: int
  NumberOfEntries :: int
  modifiedEntryIndex :: nat
  uploadedChunkIndex :: nat
  uploadedChunkOffset :: int

text \<open>What the entry list uses of its environment: the library's codec and the hash.\<close>

record codec =
  marshal :: "item list \<Rightarrow> string"
  parse :: "string \<Rightarrow> item list"
  sha256 :: "string \<Rightarrow> string"

text \<open>\<open>token\<close> is the random token; reading it cannot fail here.\<close>

definition CreateEntryList :: "string \<Rightarrow> string \<Rightarrow> int \<Rightarrow> entry_list" where
  "CreateEntryList snapshotID token maxEntries =
     \<lparr>onDiskFile = None, entries = [], SnapshotID = snapshotID, Token = token, ModifiedEntries = [],
      UploadedChunkHashes = [], UploadedChunkLengths = [], PreservedChunkHashes = [],
      PreservedChunkLengths = [], Checksum = [], maximumInMemoryEntries = maxEntries,
      NumberOfEntries = 0, modifiedEntryIndex = 0, uploadedChunkIndex = 0, uploadedChunkOffset = 0\<rparr>"

section \<open>Adding\<close>

definition createOnDiskFile :: "codec \<Rightarrow> entry_list \<Rightarrow> entry_list" where
  "createOnDiskFile c el = el\<lparr>onDiskFile := Some (IStr (Token el) #
     concat (map (EncodeWithHash (marshal c) (sha256 c)) (entries el)))\<rparr>"

definition AddEntry :: "codec \<Rightarrow> entry_list \<Rightarrow> entry \<Rightarrow> entry_list" where
  "AddEntry c el e =
     (let el = (if \<not> IsDir e \<and> \<not> IsLink e then el\<lparr>NumberOfEntries := NumberOfEntries el + 1\<rparr> else el);
          (e, el) = (if \<not> IsComplete e
                     then (if IsDir e \<or> IsLink e then (e\<lparr>Size := 0\<rparr>, el)
                           else (e, el\<lparr>ModifiedEntries := ModifiedEntries el @
                                   [\<lparr>mPath = Path e, mSize = -1, mHash = []\<rparr>]\<rparr>))
                     else (e, el))
      in case onDiskFile el of
           Some f \<Rightarrow> el\<lparr>onDiskFile := Some (f @ EncodeWithHash (marshal c) (sha256 c) e)\<rparr>
         | None \<Rightarrow>
             (let el = el\<lparr>entries := entries el @ [e]\<rparr>
              in if maximumInMemoryEntries el \<ge> 0
                      \<and> int (length (entries el)) > maximumInMemoryEntries el
                 then createOnDiskFile c el else el))"

definition AddPreservedChunk :: "entry_list \<Rightarrow> string \<Rightarrow> int \<Rightarrow> entry_list" where
  "AddPreservedChunk el chunkHash chunkSize =
     el\<lparr>PreservedChunkHashes := PreservedChunkHashes el @ [chunkHash],
        PreservedChunkLengths := PreservedChunkLengths el @ [chunkSize]\<rparr>"

text \<open>The loops \<^verbatim>\<open>for len(xs) <= index\<close> append the default.\<close>

definition pad_to :: "'a \<Rightarrow> nat \<Rightarrow> 'a list \<Rightarrow> 'a list" where
  "pad_to d index xs = xs @ replicate (Suc index - length xs) d"

definition AddUploadedChunk :: "entry_list \<Rightarrow> nat \<Rightarrow> string \<Rightarrow> int \<Rightarrow> entry_list" where
  "AddUploadedChunk el chunkIndex chunkHash chunkSize =
     el\<lparr>UploadedChunkHashes := (pad_to [] chunkIndex (UploadedChunkHashes el))[chunkIndex := chunkHash],
        UploadedChunkLengths := (pad_to 0 chunkIndex (UploadedChunkLengths el))[chunkIndex := chunkSize]\<rparr>"

section \<open>Reading\<close>

datatype list_error =
    Check entry_error
  | UnexpectedIndex nat nat
  | UnexpectedPath string string
  | NotUploaded string
  | Codec codec_error

definition getChunkLength :: "entry_list \<Rightarrow> nat \<Rightarrow> int" where
  "getChunkLength el index =
     (if index < length (PreservedChunkLengths el) then PreservedChunkLengths el ! index
      else UploadedChunkLengths el ! (index - length (PreservedChunkLengths el)))"

definition checkEntry :: "entry_list \<Rightarrow> entry \<Rightarrow> entry_error option" where
  "checkEntry el e =
     check_with (length (PreservedChunkLengths el) + length (UploadedChunkLengths el))
       (\<lambda>i. getChunkLength el (nat i)) e"

text \<open>The loop over the uploaded chunks that a file covers.\<close>

function fill_chunks :: "int list \<Rightarrow> nat \<Rightarrow> int \<Rightarrow> int \<Rightarrow> nat \<times> int \<times> int" where
  "fill_chunks lengths index endChunk endOffset =
     (if index < length lengths \<and> endOffset > lengths ! index
      then fill_chunks lengths (Suc index) (endChunk + 1) (endOffset - lengths ! index)
      else (index, endChunk, endOffset))"
  by pat_completeness auto
termination
  by (relation "measure (\<lambda>(lengths, index, _). length lengths - index)") auto

declare fill_chunks.simps [simp del]

text \<open>The result is the entry to send, or \<open>None\<close> when it is skipped.\<close>

definition fillAndSendEntry :: "entry_list \<Rightarrow> entry \<Rightarrow> list_error + (entry option \<times> entry_list)" where
  "fillAndSendEntry el e =
     (if IsComplete e
      then (case checkEntry el e of Some err \<Rightarrow> Inl (Check err) | None \<Rightarrow> Inr (Some e, el))
      else if modifiedEntryIndex el \<ge> length (ModifiedEntries el)
      then Inl (UnexpectedIndex (modifiedEntryIndex el) (length (ModifiedEntries el)))
      else
        (let m = ModifiedEntries el ! modifiedEntryIndex el;
             el = el\<lparr>modifiedEntryIndex := modifiedEntryIndex el + 1\<rparr>
         in if mPath m \<noteq> Path e then Inl (UnexpectedPath (mPath m) (Path e))
            else if mSize m \<le> 0 then Inr (None, el)
            else
              (let e = e\<lparr>Size := mSize m, Hash := mHash m,
                         StartChunk := int (uploadedChunkIndex el) + int (length (PreservedChunkHashes el)),
                         StartOffset := uploadedChunkOffset el\<rparr>;
                   (index, endChunk, endOffset) =
                     fill_chunks (UploadedChunkLengths el) (uploadedChunkIndex el) (StartChunk e)
                       (StartOffset e + Size e);
                   el = el\<lparr>uploadedChunkIndex := index\<rparr>
               in if index \<ge> length (UploadedChunkLengths el) then Inl (NotUploaded (Path e))
                  else
                    (let e = e\<lparr>EndChunk := endChunk, EndOffset := endOffset\<rparr>;
                         el = (if endOffset = UploadedChunkLengths el ! index
                               then el\<lparr>uploadedChunkIndex := index + 1, uploadedChunkOffset := 0\<rparr>
                               else el\<lparr>uploadedChunkOffset := endOffset\<rparr>)
                     in case checkEntry el e of
                          Some err \<Rightarrow> Inl (Check err)
                        | None \<Rightarrow> Inr (Some e, el)))))"

fun fill_entries :: "entry_list \<Rightarrow> entry list \<Rightarrow> entry list \<Rightarrow> list_error + entry list" where
  "fill_entries el [] out = Inr out"
| "fill_entries el (e # es) out =
     bindE (fillAndSendEntry el e) (\<lambda>(r, el). fill_entries el es (out @ (case r of Some e \<Rightarrow> [e] | None \<Rightarrow> [])))"

lemma DecodeEntryWithHash_shorter:
  "DecodeEntryWithHash par sha ts = Inr (e, ts') \<Longrightarrow> length ts' < length ts"
  by (auto simp: DecodeEntryWithHash_def bindE_Inr split: if_splits elim!: DecodeBytes.elims)

function fill_stream ::
  "codec \<Rightarrow> entry_list \<Rightarrow> item list \<Rightarrow> entry list \<Rightarrow> list_error + entry list" where
  "fill_stream c el ts out =
     (if ts = [] then Inr out
      else case DecodeEntryWithHash (parse c) (sha256 c) ts of
             Inl err \<Rightarrow> Inl (Codec err)
           | Inr (e, ts') \<Rightarrow>
               (case fillAndSendEntry el e of
                  Inl err \<Rightarrow> Inl err
                | Inr (r, el) \<Rightarrow> fill_stream c el ts' (out @ (case r of Some e \<Rightarrow> [e] | None \<Rightarrow> []))))"
  by pat_completeness auto

termination
  by (relation "measure (\<lambda>(c, el, ts, out). length ts)") (auto dest: DecodeEntryWithHash_shorter)

declare fill_stream.simps [simp del]

definition rewind :: "entry_list \<Rightarrow> entry_list" where
  "rewind el = el\<lparr>modifiedEntryIndex := 0, uploadedChunkIndex := 0, uploadedChunkOffset := 0\<rparr>"

text \<open>The entries given to \<^verbatim>\<open>entryOut\<close>, which itself does not fail here.\<close>

definition ReadEntries :: "codec \<Rightarrow> entry_list \<Rightarrow> list_error + entry list" where
  "ReadEntries c el =
     (case onDiskFile el of
        None \<Rightarrow> fill_entries (rewind el) (entries el) []
      | Some f \<Rightarrow>
          (case DecodeString f of
             Inl err \<Rightarrow> Inl (Codec err)
           | Inr (_, ts) \<Rightarrow> fill_stream c (rewind el) ts []))"

section \<open>Saving and loading an incomplete snapshot\<close>

text \<open>
  \<^verbatim>\<open>binary.LittleEndian.PutUint64\<close> of an int, and the input of the checksum's hasher.
\<close>

definition put_uint64 :: "int \<Rightarrow> string" where
  "put_uint64 n = map (\<lambda>k. char_of (nat ((n mod 2 ^ 64) div 256 ^ k) mod 256)) [0..<8]"

definition checksum_input :: "entry_list \<Rightarrow> string" where
  "checksum_input el =
     concat (UploadedChunkHashes el) @ concat (map put_uint64 (UploadedChunkLengths el))
     @ concat (PreservedChunkHashes el) @ concat (map put_uint64 (PreservedChunkLengths el))
     @ concat (map (\<lambda>m. put_uint64 (mSize m) @ mHash m) (ModifiedEntries el))"

definition CalculateChecksum :: "codec \<Rightarrow> entry_list \<Rightarrow> string" where
  "CalculateChecksum c el = hex_encode (sha256 c (checksum_input el))"

text \<open>
  The two files \<^verbatim>\<open>incomplete_snapshot\<close> and \<^verbatim>\<open>incomplete_chunks\<close>.  The second holds the exported
  fields of the list; the others have their zero values when it is loaded.  When the list was never
  moved to disk, the entries are written by \<open>createOnDiskFile\<close> and then once more.
\<close>

record saved_list =
  incomplete_snapshot :: "item list"
  incomplete_chunks :: entry_list

definition exported :: "entry_list \<Rightarrow> entry_list" where
  "exported el = el\<lparr>onDiskFile := None, entries := [], maximumInMemoryEntries := 0,
     modifiedEntryIndex := 0, uploadedChunkIndex := 0, uploadedChunkOffset := 0\<rparr>"

definition SaveIncompleteSnapshot :: "codec \<Rightarrow> entry_list \<Rightarrow> saved_list" where
  "SaveIncompleteSnapshot c el =
     (let f = (case onDiskFile el of
                 Some f \<Rightarrow> f
               | None \<Rightarrow> the (onDiskFile (createOnDiskFile c el))
                   @ concat (map (EncodeWithHash (marshal c) (sha256 c)) (entries el)))
      in \<lparr>incomplete_snapshot = f,
          incomplete_chunks = exported (el\<lparr>Checksum := CalculateChecksum c el\<rparr>)\<rparr>)"

text \<open>A chunk with an empty hash has not been uploaded: it and all later ones are dropped.\<close>

definition truncate_uploaded :: "entry_list \<Rightarrow> entry_list" where
  "truncate_uploaded el =
     (let n = length (takeWhile (\<lambda>h. h \<noteq> []) (UploadedChunkHashes el))
      in if n < length (UploadedChunkHashes el)
         then el\<lparr>UploadedChunkHashes := take n (UploadedChunkHashes el),
                 UploadedChunkLengths := take n (UploadedChunkLengths el)\<rparr>
         else el)"

definition loadIncompleteSnapshot :: "codec \<Rightarrow> saved_list option \<Rightarrow> entry_list option" where
  "loadIncompleteSnapshot c saved =
     (case saved of
        None \<Rightarrow> None
      | Some s \<Rightarrow>
          (let el = incomplete_chunks s in
           if CalculateChecksum c el \<noteq> Checksum el then None
           else case DecodeString (incomplete_snapshot s) of
                  Inl err \<Rightarrow> None
                | Inr (token, _) \<Rightarrow>
                    if token \<noteq> Token el then None
                    else Some (truncate_uploaded (el\<lparr>onDiskFile := Some (incomplete_snapshot s)\<rparr>))))"

text \<open>The chunk cache is the set of the chunk ids known to exist.\<close>

definition CheckChunks :: "(string \<Rightarrow> string) \<Rightarrow> entry_list \<Rightarrow> string set \<Rightarrow> bool" where
  "CheckChunks getChunkID el chunkCache \<longleftrightarrow>
     (\<forall>h \<in> set (UploadedChunkHashes el). getChunkID h \<in> chunkCache)
     \<and> (\<forall>h \<in> set (PreservedChunkHashes el). getChunkID h \<in> chunkCache)"

section \<open>The list is the same in memory and on disk\<close>

text \<open>What an entry is stored as, and the entries a list holds wherever they are.\<close>

definition settled :: "entry \<Rightarrow> entry" where
  "settled e = (if \<not> IsComplete e \<and> (IsDir e \<or> IsLink e) then e\<lparr>Size := 0\<rparr> else e)"

definition holds :: "codec \<Rightarrow> entry_list \<Rightarrow> entry list \<Rightarrow> bool" where
  "holds c el es \<longleftrightarrow> onDiskFile el = None \<and> entries el = es
     \<or> onDiskFile el = Some (IStr (Token el) # concat (map (EncodeWithHash (marshal c) (sha256 c)) es))"

definition storable :: "codec \<Rightarrow> entry \<Rightarrow> bool" where
  "storable c e \<longleftrightarrow> canonical e \<and> Attributes e \<noteq> Some []
     \<and> parse c (marshal c (EncodeMsgpack e)) = EncodeMsgpack e"

lemma holds_Create [simp]: "holds c (CreateEntryList sid tok n) []"
  by (simp add: holds_def CreateEntryList_def)

lemma holds_AddEntry: "holds c el es \<Longrightarrow> holds c (AddEntry c el e) (es @ [settled e])"
  by (cases "onDiskFile el")
    (simp_all add: holds_def AddEntry_def settled_def createOnDiskFile_def Let_def)

lemma holds_adding [simp]:
  "holds c (AddPreservedChunk el h n) es = holds c el es"
  "holds c (AddUploadedChunk el i h n) es = holds c el es"
  "holds c (el\<lparr>ModifiedEntries := ms\<rparr>) es = holds c el es"
  by (simp_all add: holds_def AddPreservedChunk_def AddUploadedChunk_def)

lemma fill_stream_entries:
  "\<forall>e \<in> set es. storable c e \<Longrightarrow>
     fill_stream c el (concat (map (EncodeWithHash (marshal c) (sha256 c)) es)) out = fill_entries el es out"
proof (induction es arbitrary: el out)
  case Nil
  then show ?case by (simp add: fill_stream.simps)
next
  case (Cons e es)
  then have "DecodeEntryWithHash (parse c) (sha256 c)
      (EncodeWithHash (marshal c) (sha256 c) e @ concat (map (EncodeWithHash (marshal c) (sha256 c)) es))
      = Inr (e, concat (map (EncodeWithHash (marshal c) (sha256 c)) es))"
    by (subst DecodeEntryWithHash_encoded) (auto simp: storable_def normalised_def)
  moreover have "EncodeWithHash (marshal c) (sha256 c) e \<noteq> []"
    by (simp add: EncodeWithHash_def Let_def)
  ultimately show ?case
    using Cons by (subst fill_stream.simps) (auto simp: bindE_def split: sum.splits)
qed

lemma ReadEntries_holds:
  assumes "holds c el es" "\<forall>e \<in> set es. storable c e"
  shows "ReadEntries c el = fill_entries (rewind el) es []"
  using assms fill_stream_entries [OF assms(2), of "rewind el" "[]"]
  by (auto simp: ReadEntries_def holds_def)

text \<open>The fields \<^verbatim>\<open>AddEntry\<close> keeps, and what it adds to the modified entries.\<close>

definition modified_of :: "entry \<Rightarrow> modified_entry list" where
  "modified_of e = (if \<not> IsComplete e \<and> \<not> (IsDir e \<or> IsLink e)
     then [\<lparr>mPath = Path e, mSize = -1, mHash = []\<rparr>] else [])"

lemma AddEntry_fields:
  "ModifiedEntries (AddEntry c el e) = ModifiedEntries el @ modified_of e"
  "UploadedChunkHashes (AddEntry c el e) = UploadedChunkHashes el"
  "UploadedChunkLengths (AddEntry c el e) = UploadedChunkLengths el"
  "PreservedChunkHashes (AddEntry c el e) = PreservedChunkHashes el"
  "PreservedChunkLengths (AddEntry c el e) = PreservedChunkLengths el"
  "Token (AddEntry c el e) = Token el"
  by (cases "onDiskFile el";
      simp add: AddEntry_def createOnDiskFile_def modified_of_def Let_def split: prod.split)+

lemma holds_all: "holds c el es \<Longrightarrow> holds c (foldl (AddEntry c) el xs) (es @ map settled xs)"
proof (induction xs arbitrary: el es)
  case (Cons x xs)
  then show ?case using Cons.IH [OF holds_AddEntry [OF Cons.prems], of x] by simp
qed simp


text \<open>A codec over which a given list of entries can be stored.\<close>

definition sample_codec :: codec where
  "sample_codec = \<lparr>marshal = (\<lambda>_. ''x''), parse = (\<lambda>_. EncodeMsgpack (CreateEntry ''a'' 0 0 0)), sha256 = rev\<rparr>"


section \<open>Chunks complete in any order\<close>

definition add_uploads :: "entry_list \<Rightarrow> (nat \<times> string \<times> int) list \<Rightarrow> entry_list" where
  "add_uploads el ops = foldl (\<lambda>el (i, h, n). AddUploadedChunk el i h n) el ops"

lemma pad_to_nth: "k < length (pad_to d i xs) \<Longrightarrow> pad_to d i xs ! k = (if k < length xs then xs ! k else d)"
  by (simp add: pad_to_def nth_append)

lemma length_pad_to [simp]: "length (pad_to d i xs) = max (length xs) (Suc i)"
  by (simp add: pad_to_def)

text \<open>The lists after some uploads, position by position.\<close>

definition uploads_at :: "(nat \<times> string \<times> int) list \<Rightarrow> entry_list \<Rightarrow> bool" where
  "uploads_at ops el \<longleftrightarrow>
     length (UploadedChunkHashes el) = length (UploadedChunkLengths el)
     \<and> (\<forall>k. k < length (UploadedChunkHashes el) \<longleftrightarrow> (\<exists>i \<in> fst ` set ops. k \<le> i))
     \<and> (\<forall>k < length (UploadedChunkHashes el). (UploadedChunkHashes el ! k, UploadedChunkLengths el ! k)
          = (case map_of ops k of Some r \<Rightarrow> r | None \<Rightarrow> ([], 0)))"

lemma uploads_at_add:
  assumes "uploads_at ops el" "i \<notin> fst ` set ops"
  shows "uploads_at (ops @ [(i, h, n)]) (AddUploadedChunk el i h n)"
proof -
  have len: "length (UploadedChunkHashes el) = length (UploadedChunkLengths el)"
    and mem: "\<And>k. k < length (UploadedChunkHashes el) \<longleftrightarrow> (\<exists>i \<in> fst ` set ops. k \<le> i)"
    and at: "\<And>k. k < length (UploadedChunkHashes el) \<Longrightarrow> (UploadedChunkHashes el ! k, UploadedChunkLengths el ! k)
          = (case map_of ops k of Some r \<Rightarrow> r | None \<Rightarrow> ([], 0))"
    using assms(1) by (auto simp: uploads_at_def)
  have none: "map_of ops k = None" if "\<not> k < length (UploadedChunkHashes el)" for k
    using that mem [of k] by (auto simp: map_of_eq_None_iff)
  have i: "map_of ops i = None" using assms(2) by (simp add: map_of_eq_None_iff)
  have "(UploadedChunkHashes (AddUploadedChunk el i h n) ! k, UploadedChunkLengths (AddUploadedChunk el i h n) ! k)
      = (case map_of (ops @ [(i, h, n)]) k of Some r \<Rightarrow> r | None \<Rightarrow> ([], 0))"
    if k: "k < max (length (UploadedChunkHashes el)) (Suc i)" for k
  proof (cases "k = i")
    case True
    then show ?thesis using i len by (simp add: AddUploadedChunk_def map_add_def)
  next
    case False
    then have "map_of (ops @ [(i, h, n)]) k = map_of ops k" by (simp add: map_add_def split: option.split)
    then show ?thesis
      using at [of k] none [of k] k False len
      by (auto simp: AddUploadedChunk_def pad_to_nth)
  qed
  moreover have "k < max (length (UploadedChunkHashes el)) (Suc i) \<longleftrightarrow>
      (\<exists>j \<in> fst ` set (ops @ [(i, h, n)]). k \<le> j)" for k
    using mem [of k] by (auto simp: less_max_iff_disj)
  ultimately show ?thesis
    unfolding uploads_at_def using len by (simp add: AddUploadedChunk_def)
qed

lemma uploads_at_all:
  "uploads_at old el \<Longrightarrow> distinct (map fst (old @ ops)) \<Longrightarrow> uploads_at (old @ ops) (add_uploads el ops)"
proof (induction ops arbitrary: old el)
  case (Cons op ops)
  obtain i h n where op: "op = (i, h, n)" by (cases op)
  have "i \<notin> fst ` set old" using Cons.prems(2) op by auto
  then have "uploads_at (old @ [op]) (AddUploadedChunk el i h n)"
    using uploads_at_add [OF Cons.prems(1)] op by simp
  then show ?case
    using Cons.IH [of "old @ [op]" "AddUploadedChunk el i h n"] Cons.prems(2) op
    by (simp add: add_uploads_def)
qed (simp add: add_uploads_def)

lemma add_uploads_order:
  assumes "UploadedChunkHashes el = []" and "UploadedChunkLengths el = []"
    and "mset ops = mset (zip [0..<length cs] cs)"
  shows "UploadedChunkHashes (add_uploads el ops) = map fst cs
    \<and> UploadedChunkLengths (add_uploads el ops) = map snd cs"
proof -
  have set: "set ops = set (zip [0..<length cs] cs)" by (rule mset_eq_setD [OF assms(3)])
  have ms: "mset (map fst ops) = mset [0..<length cs]"
    using assms(3) by (metis length_upt map_fst_zip minus_nat.diff_0 mset_map)
  then have d: "distinct (map fst ops)" by (metis distinct_upt mset_eq_imp_distinct_iff)
  have base: "uploads_at [] el" using assms(1,2) by (simp add: uploads_at_def)
  have at: "uploads_at ops (add_uploads el ops)"
    using uploads_at_all [OF base, of ops] d by simp
  have fst: "fst ` set ops = {0..<length cs}"
    using mset_eq_setD [OF ms] by simp
  have len: "length (UploadedChunkHashes (add_uploads el ops)) = length cs"
  proof -
    have "k < length (UploadedChunkHashes (add_uploads el ops)) \<longleftrightarrow> k < length cs" for k
      using at fst unfolding uploads_at_def by (metis atLeastLessThan_iff le0 le_less_trans order_refl)
    then show ?thesis by (metis linorder_neqE_nat less_irrefl)
  qed
  have "map_of ops k = Some (cs ! k)" if "k < length cs" for k
  proof -
    have "(k, cs ! k) \<in> set ops" using that set by (auto simp: in_set_zip intro: exI [of _ k])
    then show ?thesis using d by (simp add: map_of_eq_Some_iff)
  qed
  then have eq: "(UploadedChunkHashes (add_uploads el ops) ! k, UploadedChunkLengths (add_uploads el ops) ! k) = cs ! k"
    if "k < length cs" for k
    using at that len by (simp add: uploads_at_def)
  have lens: "length (UploadedChunkLengths (add_uploads el ops)) = length cs"
    using at len by (simp add: uploads_at_def)
  have "UploadedChunkHashes (add_uploads el ops) ! k = fst (cs ! k)"
    "UploadedChunkLengths (add_uploads el ops) ! k = snd (cs ! k)" if "k < length cs" for k
    using eq [OF that] by (simp_all add: prod_eq_iff)
  then show ?thesis using len lens by (simp add: list_eq_iff_nth_eq)
qed

text \<open>
  Uploads may complete in any order.  When chunks \<open>0\<close> to \<open>n - 1\<close> have been reported once each,
  by whichever interleaving of the upload threads, the two lists of uploaded chunks are the hashes
  and lengths in chunk order.
\<close>

theorem AddUploadedChunk_any_order:
  assumes "UploadedChunkHashes el = []" and "UploadedChunkLengths el = []"
    and "mset ops = mset (zip [0..<length cs] cs)"
  shows "UploadedChunkHashes (add_uploads el ops) = map fst cs
    \<and> UploadedChunkLengths (add_uploads el ops) = map snd cs"
  using add_uploads_order [OF assms] .

theorem AddUploadedChunk_any_order_witness:
  "UploadedChunkHashes (add_uploads (CreateEntryList [] [] 0) [(1, ''b'', 5), (0, ''a'', 7)]) = [''a'', ''b'']"
proof -
  have "mset [(1, ''b'', 5), (0, ''a'', 7 :: int)] = mset (zip [0..<length [(''a'', 7), (''b'', 5)]] [(''a'', 7), (''b'', 5)])"
    by (simp add: upt_rec)
  then show ?thesis
    using AddUploadedChunk_any_order [of "CreateEntryList [] [] 0" "[(1, ''b'', 5), (0, ''a'', 7)]" "[(''a'', 7), (''b'', 5)]"]
    by (simp add: CreateEntryList_def)
qed

section \<open>A saved list loads\<close>

lemma checksum_exported [simp]:
  "CalculateChecksum c (exported el) = CalculateChecksum c el"
  "CalculateChecksum c (el\<lparr>Checksum := s\<rparr>) = CalculateChecksum c el"
  by (simp_all add: CalculateChecksum_def checksum_input_def exported_def)

lemma truncate_uploaded_fields [simp]:
  "onDiskFile (truncate_uploaded el) = onDiskFile el" "Token (truncate_uploaded el) = Token el"
  "ModifiedEntries (truncate_uploaded el) = ModifiedEntries el"
  by (simp_all add: truncate_uploaded_def Let_def)

lemma DecodeString_holds:
  "holds c el es \<Longrightarrow> onDiskFile el = Some f \<Longrightarrow> \<exists>ts. DecodeString f = Inr (Token el, ts)"
  by (auto simp: holds_def)

text \<open>
  C18. An interrupted backup can be resumed from the saved list.  What \<^verbatim>\<open>SaveIncompleteSnapshot\<close>
  writes is accepted by \<^verbatim>\<open>loadIncompleteSnapshot\<close> (token and checksum match) and keeps the modified
  entries; reading it gives the back-annotated entries, with the uploaded chunks cut at the first
  missing one.  A list that was still in memory is written twice, so every entry is read twice.
\<close>

theorem saved_list_loads:
  assumes "holds c el es" and "\<forall>e \<in> set es. storable c e"
  shows "\<exists>el'. loadIncompleteSnapshot c (Some (SaveIncompleteSnapshot c el)) = Some el'
    \<and> ModifiedEntries el' = ModifiedEntries el
    \<and> (\<forall>h \<in> set (UploadedChunkHashes el'). h \<noteq> [])
    \<and> UploadedChunkHashes el' = takeWhile (\<lambda>h. h \<noteq> []) (UploadedChunkHashes el)
    \<and> ReadEntries c el' = fill_entries (rewind el') (if onDiskFile el = None then es @ es else es) []"
proof -
  let ?s = "SaveIncompleteSnapshot c el" and ?es = "if onDiskFile el = None then es @ es else es"
  define el1 where "el1 = (incomplete_chunks ?s)\<lparr>onDiskFile := Some (incomplete_snapshot ?s)\<rparr>"
  have f: "incomplete_snapshot ?s = IStr (Token el) #
      concat (map (EncodeWithHash (marshal c) (sha256 c)) ?es)"
    using assms(1) by (auto simp: SaveIncompleteSnapshot_def holds_def createOnDiskFile_def split: option.split)
  have chunks: "incomplete_chunks ?s = exported (el\<lparr>Checksum := CalculateChecksum c el\<rparr>)"
    by (simp add: SaveIncompleteSnapshot_def Let_def)
  then have load: "loadIncompleteSnapshot c (Some ?s) = Some (truncate_uploaded el1)"
    using f by (simp add: loadIncompleteSnapshot_def el1_def exported_def
        CalculateChecksum_def checksum_input_def Let_def)
  have "holds c (truncate_uploaded el1) ?es"
    using f chunks by (simp add: holds_def el1_def exported_def)
  moreover have "\<forall>e \<in> set ?es. storable c e" using assms(2) by simp
  ultimately have "ReadEntries c (truncate_uploaded el1) = fill_entries (rewind (truncate_uploaded el1)) ?es []"
    by (rule ReadEntries_holds)
  moreover have "UploadedChunkHashes el1 = UploadedChunkHashes el" "ModifiedEntries el1 = ModifiedEntries el"
    using chunks by (simp_all add: el1_def exported_def)
  moreover have "UploadedChunkHashes (truncate_uploaded el1) = takeWhile (\<lambda>h. h \<noteq> []) (UploadedChunkHashes el1)"
    by (auto simp: truncate_uploaded_def Let_def takeWhile_eq_take [symmetric] not_less)
      (metis takeWhile_eq_take length_takeWhile_le le_antisym take_all)
  ultimately show ?thesis using load by (auto dest: set_takeWhileD)
qed

theorem saved_list_loads_witness:
  "\<exists>el'. loadIncompleteSnapshot sample_codec (Some (SaveIncompleteSnapshot sample_codec
      (AddEntry sample_codec (CreateEntryList [] ''t'' 9) (CreateEntry ''a'' 0 0 0)))) = Some el'
    \<and> ReadEntries sample_codec el' = Inr [CreateEntry ''a'' 0 0 0, CreateEntry ''a'' 0 0 0]"
proof -
  let ?e = "CreateEntry ''a'' 0 0 0"
  let ?el = "AddEntry sample_codec (CreateEntryList [] ''t'' 9) ?e"
  have s: "settled ?e = ?e" by (simp add: settled_def IsComplete_def CreateEntry_def)
  then have h: "holds sample_codec ?el [?e]"
    using holds_AddEntry [OF holds_Create, of sample_codec "[]" "''t''" 9 ?e] by simp
  have st: "\<forall>e \<in> set [?e]. storable sample_codec e"
    by (simp add: storable_def sample_codec_def canonical_def CreateEntry_def)
  have m: "onDiskFile ?el = None"
    by (simp add: AddEntry_def CreateEntryList_def CreateEntry_def IsComplete_def Let_def)
  have "fillAndSendEntry el ?e = Inr (Some ?e, el)" for el
    by (simp add: fillAndSendEntry_def IsComplete_def CreateEntry_def checkEntry_def check_with_def)
  then show ?thesis using saved_list_loads [OF h st] m by auto
qed

end
