(* ===== verification/Back_Annotation.thy ===== *)
theory Back_Annotation
  imports Entry_List
begin

text \<open>
  Why back-annotation is right (\<^verbatim>\<open>fillAndSendEntry\<close> in \<^verbatim>\<open>src/src/duplicacy_entrylist.go\<close>).  The
  uploaded chunks are the concatenation of the packed files cut somewhere else; the cursor
  (\<^verbatim>\<open>uploadedChunkIndex\<close>, \<^verbatim>\<open>uploadedChunkOffset\<close>) walks over that stream, and each modified file is
  given the slice of it that holds its bytes.
\<close>

section \<open>The bytes between two positions\<close>

abbreviation nth_chunk :: "bytes list \<Rightarrow> int \<Rightarrow> bytes" where
  "nth_chunk xs k \<equiv> xs ! nat k"

lemma upto_int_upt: "i \<le> j \<Longrightarrow> [int i..int j] = map int [i..<Suc j]"
proof (induction "j - i" arbitrary: i)
  case 0
  then show ?case by simp
next
  case (Suc d)
  then have "i < j" by simp
  moreover have "d = j - Suc i" using Suc.hyps(2) by simp
  ultimately have "[int (Suc i)..int j] = map int [Suc i..<Suc j]" using Suc.hyps(1) [of "Suc i"] by simp
  moreover have "[int i..int j] = int i # [int i + 1..int j]" using \<open>i < j\<close> by (subst upto.simps) simp
  moreover have "[i..<Suc j] = i # [Suc i..<Suc j]" using \<open>i < j\<close> by (simp add: upt_conv_Cons del: upt_Suc)
  ultimately show ?case by (simp add: add.commute del: upt_Suc)
qed

lemma entry_slice_between:
  assumes "StartChunk e = int i" "EndChunk e = int j" "StartOffset e = int a" "EndOffset e = int b"
    and "i \<le> j" "j < length xs" "a \<le> length (xs ! i)" "b \<le> length (xs ! j)"
  shows "entry_slice (nth_chunk xs) e = drop a (concat (subslice i j xs) @ take b (xs ! j))"
proof (cases "i = j")
  case True
  then show ?thesis using assms
    by (simp add: entry_slice_def chunk_start_def chunk_end_def subslice_def drop_take)
next
  case False
  let ?f = "\<lambda>k. subslice (nat (chunk_start e (int k)))
      (nat (chunk_end e (\<lambda>i. int (length (nth_chunk xs i))) (int k))) (xs ! k)"
  have "[i..<Suc j] = i # [Suc i..<j] @ [j]" using False assms(5) by (simp add: upt_conv_Cons)
  then have "entry_slice (nth_chunk xs) e = ?f i @ concat (map ?f [Suc i..<j]) @ ?f j"
    using assms(1,2,5) by (simp add: entry_slice_def upto_int_upt comp_def del: upt_Suc)
  moreover have "?f i = drop a (xs ! i)" "?f j = take b (xs ! j)"
    using False assms by (simp_all add: chunk_start_def chunk_end_def subslice_def)
  moreover have "map ?f [Suc i..<j] = subslice (Suc i) j xs"
    using assms(1,2,6) by (subst subslice_eq_map) (auto simp: chunk_start_def chunk_end_def)
  moreover have "subslice i j xs = xs ! i # subslice (Suc i) j xs"
    using False assms(5,6) by (intro subslice_Cons) auto
  ultimately show ?thesis using assms(7) by simp
qed

section \<open>Walking over the uploaded chunks\<close>

text \<open>The stream from a position on, and the positions the cursor takes.\<close>

definition from_pos :: "bytes list \<Rightarrow> nat \<Rightarrow> nat \<Rightarrow> bytes" where
  "from_pos cs index off = drop off (concat (drop index cs))"

definition cursor_ok :: "bytes list \<Rightarrow> nat \<Rightarrow> nat \<Rightarrow> bool" where
  "cursor_ok cs index off \<longleftrightarrow> (if index < length cs then off < length (cs ! index) else index = length cs \<and> off = 0)"

abbreviation lengths_of :: "bytes list \<Rightarrow> int list" where
  "lengths_of cs \<equiv> map (\<lambda>c. int (length c)) cs"

lemma file_size_cong:
  "(\<And>k. StartChunk e \<le> k \<Longrightarrow> k \<le> EndChunk e \<Longrightarrow> len k = len' k) \<Longrightarrow> file_size e len = file_size e len'"
  unfolding file_size_sum by (intro arg_cong [of _ _ sum_list] map_cong) (auto simp: chunk_end_def)

lemma fill_chunks_spec:
  assumes "0 < tot" "tot \<le> length (concat (drop index cs))"
  shows "\<exists>j b. fill_chunks (lengths_of cs) index E (int tot) = (j, E + int (j - index), int b)
    \<and> index \<le> j \<and> j < length cs \<and> 0 < b \<and> b \<le> length (cs ! j)
    \<and> take tot (concat (drop index cs)) = concat (subslice index j cs) @ take b (cs ! j)"
  using assms
proof (induction "length cs - index" arbitrary: index tot E)
  case 0
  then show ?case by simp
next
  case (Suc d)
  then have i: "index < length cs" by simp
  then have d: "drop index cs = cs ! index # drop (Suc index) cs" by (simp add: Cons_nth_drop_Suc)
  show ?case
  proof (cases "tot \<le> length (cs ! index)")
    case True
    then have "fill_chunks (lengths_of cs) index E (int tot) = (index, E, int tot)"
      using i by (subst fill_chunks.simps) simp
    then show ?thesis using True Suc.prems i by (intro exI [of _ index] exI [of _ tot]) (simp add: d)
  next
    case False
    let ?t = "tot - length (cs ! index)"
    have "0 < ?t" "?t \<le> length (concat (drop (Suc index) cs))" "d = length cs - Suc index"
      using False Suc.prems Suc.hyps(2) by (auto simp: d)
    then obtain j b where jb:
      "fill_chunks (lengths_of cs) (Suc index) (E + 1) (int ?t) = (j, E + 1 + int (j - Suc index), int b)"
      "Suc index \<le> j" "j < length cs" "0 < b" "b \<le> length (cs ! j)"
      "take ?t (concat (drop (Suc index) cs)) = concat (subslice (Suc index) j cs) @ take b (cs ! j)"
      using Suc.hyps(1) [of "Suc index" ?t "E + 1"] by blast
    have "fill_chunks (lengths_of cs) index E (int tot)
        = fill_chunks (lengths_of cs) (Suc index) (E + 1) (int ?t)"
      using False i by (subst fill_chunks.simps) (simp add: of_nat_diff)
    then have "fill_chunks (lengths_of cs) index E (int tot) = (j, E + int (j - index), int b)"
      using jb(1,2) by (simp add: of_nat_diff)
    moreover have "take tot (concat (drop index cs)) = concat (subslice index j cs) @ take b (cs ! j)"
      using False jb(2,3,6) subslice_Cons [of index j cs] by (simp add: d)
    ultimately show ?thesis using jb by auto
  qed
qed

text \<open>What the list must look like while it is read: \<open>pre\<close> and \<open>cs\<close> are the two groups of chunks.\<close>

definition reading :: "bytes list \<Rightarrow> bytes list \<Rightarrow> entry_list \<Rightarrow> bool" where
  "reading pre cs el \<longleftrightarrow>
     PreservedChunkLengths el = lengths_of pre \<and> length (PreservedChunkHashes el) = length pre
     \<and> UploadedChunkLengths el = lengths_of cs \<and> [] \<notin> set cs
     \<and> 0 \<le> uploadedChunkOffset el
     \<and> cursor_ok cs (uploadedChunkIndex el) (nat (uploadedChunkOffset el))"

definition rest_of :: "bytes list \<Rightarrow> entry_list \<Rightarrow> bytes" where
  "rest_of cs el = from_pos cs (uploadedChunkIndex el) (nat (uploadedChunkOffset el))"

lemma getChunkLength_reading:
  "reading pre cs el \<Longrightarrow> k < length (pre @ cs) \<Longrightarrow> getChunkLength el k = int (length ((pre @ cs) ! k))"
  by (simp add: reading_def getChunkLength_def nth_append)

text \<open>One modified file takes its bytes off the stream.\<close>

lemma fill_modified:
  assumes rd: "reading pre cs el" and inc: "\<not> IsComplete e"
    and k: "modifiedEntryIndex el < length (ModifiedEntries el)"
    and m: "m = ModifiedEntries el ! modifiedEntryIndex el" "mPath m = Path e"
      "mSize m = int (length d)" "d \<noteq> []"
    and stream: "rest_of cs el = d @ later"
  shows "\<exists>e' el'. fillAndSendEntry el e = Inr (Some e', el') \<and> reading pre cs el' \<and> rest_of cs el' = later
    \<and> modifiedEntryIndex el' = Suc (modifiedEntryIndex el) \<and> ModifiedEntries el' = ModifiedEntries el
    \<and> Path e' = Path e \<and> Size e' = mSize m \<and> Hash e' = mHash m
    \<and> entry_slice (nth_chunk (pre @ cs)) e' = d"
proof -
  let ?i = "uploadedChunkIndex el" and ?P = "length pre"
  define off where "off = nat (uploadedChunkOffset el)"
  have off: "uploadedChunkOffset el = int off" using rd by (simp add: reading_def off_def)
  have cur: "cursor_ok cs ?i off" using rd by (simp add: reading_def off_def)
  have str: "drop off (concat (drop ?i cs)) = d @ later"
    using stream by (simp add: rest_of_def from_pos_def off_def)
  have "length (concat (drop ?i cs)) - off = length d + length later"
    using arg_cong [OF str, of length] by (simp only: length_drop length_append)
  moreover have "0 < length d" using m(4) by simp
  ultimately have len: "off + length d + length later = length (concat (drop ?i cs))" by linarith
  have i: "?i < length cs" "off < length (cs ! ?i)"
    using cur len m(4) by (auto simp: cursor_ok_def split: if_splits)
  define tot where "tot = off + length d"
  have tot: "0 < tot" "tot \<le> length (concat (drop ?i cs))" using m(4) len by (simp_all add: tot_def)
  obtain j b where fc: "fill_chunks (lengths_of cs) ?i (int ?i + int ?P) (int tot)
       = (j, int ?i + int ?P + int (j - ?i), int b)"
    and j: "?i \<le> j" "j < length cs" "0 < b" "b \<le> length (cs ! j)"
    and tk: "take tot (concat (drop ?i cs)) = concat (subslice ?i j cs) @ take b (cs ! j)"
    using fill_chunks_spec [OF tot, of "int ?i + int ?P"] by blast
  define e' where "e' = e\<lparr>Size := mSize m, Hash := mHash m, StartChunk := int ?i + int ?P,
      StartOffset := int off, EndChunk := int ?i + int ?P + int (j - ?i), EndOffset := int b\<rparr>"
  define el' where "el' = (if b = length (cs ! j)
      then el\<lparr>modifiedEntryIndex := modifiedEntryIndex el + 1, uploadedChunkIndex := j + 1, uploadedChunkOffset := 0\<rparr>
      else el\<lparr>modifiedEntryIndex := modifiedEntryIndex el + 1, uploadedChunkIndex := j, uploadedChunkOffset := int b\<rparr>)"
  have slice: "entry_slice (nth_chunk (pre @ cs)) e' = d"
  proof -
    have "entry_slice (nth_chunk (pre @ cs)) e'
        = drop off (concat (subslice (?P + ?i) (?P + j) (pre @ cs)) @ take b ((pre @ cs) ! (?P + j)))"
      using i j by (intro entry_slice_between) (simp_all add: e'_def of_nat_diff)
    also have "\<dots> = drop off (take tot (concat (drop ?i cs)))"
      using tk by (simp add: subslice_append_right)
    also have "\<dots> = d" using str by (simp add: tot_def drop_take)
    finally show ?thesis .
  qed
  have read': "reading pre cs el'"
    using rd j by (auto simp: reading_def el'_def cursor_ok_def in_set_conv_nth)
  have rest': "rest_of cs el' = later"
  proof -
    have "concat (drop ?i cs) = take tot (concat (drop ?i cs)) @ later"
      using str by (metis append_take_drop_id append_eq_conv_conj drop_drop add.commute tot_def)
    moreover have "concat (drop ?i cs) = concat (subslice ?i j cs) @ concat (drop j cs)"
      using j(1) by (simp add: subslice_def flip: concat_append) (metis append_take_drop_id drop_drop le_add_diff_inverse2)
    ultimately have "concat (subslice ?i j cs) @ take b (cs ! j) @ later = concat (subslice ?i j cs) @ concat (drop j cs)"
      using tk by (metis append_assoc)
    then have "take b (cs ! j) @ later = concat (drop j cs)" by (simp only: same_append_eq)
    then have "later = drop b (concat (drop j cs))"
      using j(4) by (metis append_eq_conv_conj length_take min_absorb2)
    moreover have "drop j cs = cs ! j # drop (Suc j) cs" using j(2) by (simp add: Cons_nth_drop_Suc)
    ultimately show ?thesis by (simp add: rest_of_def from_pos_def el'_def)
  qed
  have "checkEntry el2 e' = None"
    if "PreservedChunkLengths el2 = PreservedChunkLengths el" "UploadedChunkLengths el2 = UploadedChunkLengths el" for el2
  proof -
    have gl: "getChunkLength el2 k = int (length ((pre @ cs) ! k))" if "k < length (pre @ cs)" for k
      using getChunkLength_reading [OF rd that] \<open>PreservedChunkLengths el2 = _\<close> \<open>UploadedChunkLengths el2 = _\<close>
      by (simp add: getChunkLength_def split: if_splits)
    have one: "off + length d = b" if "j = ?i"
    proof -
      have "length (take tot (concat (drop ?i cs))) = tot" using tot(2) by (simp only: length_take min.absorb2)
      moreover have "length (concat (subslice ?i j cs) @ take b (cs ! j)) = b" using that j(4) by simp
      ultimately have "tot = b" using tk by metis
      then show ?thesis by (simp add: tot_def)
    qed
    have sizes: "slices_ok (\<lambda>k. int (length (nth_chunk (pre @ cs) k))) e'"
      unfolding slices_ok_def
    proof
      fix k assume "k \<in> set [StartChunk e'..EndChunk e']"
      then obtain q where q: "k = int (?P + q)" "?i \<le> q" "q \<le> j"
        using j(1) by (auto simp: e'_def of_nat_diff intro!: that [of "nat k - ?P"])
      then have "(pre @ cs) ! nat k = cs ! q" by (simp only: nat_int nth_append_length_plus)
      then show "0 \<le> chunk_start e' k \<and> chunk_start e' k \<le> chunk_end e' (\<lambda>k. int (length (nth_chunk (pre @ cs) k))) k
          \<and> chunk_end e' (\<lambda>k. int (length (nth_chunk (pre @ cs) k))) k \<le> int (length (nth_chunk (pre @ cs) k))"
        using q i j one by (auto simp: chunk_start_def chunk_end_def e'_def of_nat_diff)
    qed
    have "file_size e' (\<lambda>i. getChunkLength el2 (nat i)) = file_size e' (\<lambda>k. int (length (nth_chunk (pre @ cs) k)))"
      using j gl by (intro file_size_cong) (auto simp: e'_def of_nat_diff nat_less_iff)
    then have "file_size e' (\<lambda>i. getChunkLength el2 (nat i)) = int (length d)"
      using slices_ok_size [OF sizes] slice by simp
    moreover have "nat (StartChunk e') = ?P + ?i" "nat (EndChunk e') = ?P + j"
      using j by (simp_all add: e'_def of_nat_diff nat_add_distrib)
    moreover from this have "getChunkLength el2 (nat (StartChunk e')) = int (length (cs ! ?i))"
      "getChunkLength el2 (nat (EndChunk e')) = int (length (cs ! j))"
      using gl [of "?P + ?i"] gl [of "?P + j"] i j by simp_all
    ultimately show ?thesis
      using i j m(3) rd that
      by (simp add: checkEntry_def check_with_def e'_def of_nat_diff reading_def)
  qed
  then have check: "checkEntry el' e' = None" by (simp add: el'_def)
  have "fillAndSendEntry el e = Inr (Some e', el')"
  proof -
    have up: "UploadedChunkLengths el = lengths_of cs" and hs: "length (PreservedChunkHashes el) = ?P"
      using rd by (simp_all add: reading_def)
    have "fill_chunks (lengths_of cs) ?i (int ?i + int ?P) (int off + mSize m) = (j, int ?i + int ?P + int (j - ?i), int b)"
      using fc m(3) by (simp add: tot_def)
    moreover have "(int b = lengths_of cs ! j) = (b = length (cs ! j))" using j(2) by simp
    ultimately show ?thesis
      using inc k m check j(2) i up hs off
      by (simp add: fillAndSendEntry_def Let_def e'_def el'_def split: if_splits)
  qed
  then show ?thesis using slice read' rest'
    by (intro exI [of _ e'] exI [of _ el']) (simp add: e'_def el'_def)
qed

section \<open>Reading the whole list\<close>

text \<open>
  What reading should give: path, size, hash and bytes of every entry, the modified ones from the
  data \<open>ds\<close> that was packed for them; files that gave no data are left out.
\<close>

type_synonym file_view = "string \<times> int \<times> string \<times> bytes"

definition view :: "bytes list \<Rightarrow> entry \<Rightarrow> file_view" where
  "view chunks e = (Path e, Size e, Hash e, entry_slice (nth_chunk chunks) e)"

fun expected :: "bytes list \<Rightarrow> entry list \<Rightarrow> modified_entry list \<Rightarrow> bytes list \<Rightarrow> file_view list" where
  "expected chunks [] ms ds = []"
| "expected chunks (e # es) ms ds =
     (if IsComplete e then view chunks e # expected chunks es ms ds
      else if mSize (hd ms) \<le> 0 then expected chunks es (tl ms) (tl ds)
      else (Path e, mSize (hd ms), mHash (hd ms), hd ds) # expected chunks es (tl ms) (tl ds))"

text \<open>The modified entries record the data that was packed.\<close>

definition packed :: "modified_entry list \<Rightarrow> bytes list \<Rightarrow> bool" where
  "packed ms ds \<longleftrightarrow> list_all2 (\<lambda>m d. if mSize m \<le> 0 then d = [] else mSize m = int (length d)) ms ds"

lemma checkEntry_cong:
  assumes "PreservedChunkLengths el' = PreservedChunkLengths el"
    "UploadedChunkLengths el' = UploadedChunkLengths el"
  shows "checkEntry el' = checkEntry el"
  unfolding checkEntry_def getChunkLength_def fun_eq_iff assms by simp

lemma fill_entries_expected:
  assumes "reading pre cs el"
    and "map mPath (drop (modifiedEntryIndex el) (ModifiedEntries el)) = map Path (filter (\<lambda>e. \<not> IsComplete e) es)"
    and "packed (drop (modifiedEntryIndex el) (ModifiedEntries el)) ds"
    and "rest_of cs el = concat ds @ later"
    and "\<forall>e \<in> set es. IsComplete e \<longrightarrow> checkEntry el e = None"
  shows "\<exists>res. fill_entries el es out = Inr (out @ res) \<and>
    map (view (pre @ cs)) res = expected (pre @ cs) es (drop (modifiedEntryIndex el) (ModifiedEntries el)) ds"
  using assms
proof (induction es arbitrary: el ds out)
  case (Cons e es)
  let ?k = "modifiedEntryIndex el"
  have chk: "checkEntry el' = checkEntry el" if "reading pre cs el'" for el'
    using that Cons.prems(1) by (intro checkEntry_cong) (simp_all add: reading_def)
  show ?case
  proof (cases "IsComplete e")
    case True
    then have "fillAndSendEntry el e = Inr (Some e, el)"
      using Cons.prems(5) by (simp add: fillAndSendEntry_def)
    moreover obtain res where "fill_entries el es (out @ [e]) = Inr ((out @ [e]) @ res)"
      "map (view (pre @ cs)) res = expected (pre @ cs) es (drop ?k (ModifiedEntries el)) ds"
      using Cons.IH [of el ds "out @ [e]"] Cons.prems True by auto
    ultimately show ?thesis using True by (intro exI [of _ "e # res"]) simp
  next
    case False
    then obtain m ms where ms: "drop ?k (ModifiedEntries el) = m # ms" "mPath m = Path e"
        "map mPath ms = map Path (filter (\<lambda>e. \<not> IsComplete e) es)"
      using Cons.prems(2) by (cases "drop ?k (ModifiedEntries el)") auto
    obtain d ds' where ds: "ds = d # ds'" and pk: "if mSize m \<le> 0 then d = [] else mSize m = int (length d)"
      "packed ms ds'"
      using Cons.prems(3) ms(1) by (cases ds) (auto simp: packed_def)
    have k: "?k < length (ModifiedEntries el)" "ModifiedEntries el ! ?k = m" "drop (Suc ?k) (ModifiedEntries el) = ms"
      using ms(1) by (metis drop_all list.distinct(1) not_less)
        (metis ms(1) nth_via_drop, metis ms(1) drop_Suc list.sel(3) tl_drop)
    show ?thesis
    proof (cases "mSize m \<le> 0")
      case True
      let ?el = "el\<lparr>modifiedEntryIndex := ?k + 1\<rparr>"
      have "fillAndSendEntry el e = Inr (None, ?el)"
        using False True k(1,2) ms(2) by (simp add: fillAndSendEntry_def Let_def)
      moreover have "reading pre cs ?el" "rest_of cs ?el = concat ds' @ later"
        using Cons.prems(1,4) ds pk True by (simp_all add: reading_def rest_of_def)
      moreover from this obtain res where "fill_entries ?el es out = Inr (out @ res)"
        "map (view (pre @ cs)) res = expected (pre @ cs) es ms ds'"
        using Cons.IH [of ?el ds' out] Cons.prems(5) chk ms(3) k(3) pk(2) by auto
      ultimately show ?thesis using False True ms(1) ds by auto
    next
      case pos: False
      then have d: "mSize m = int (length d)" "d \<noteq> []" using pk(1) by auto
      have "rest_of cs el = d @ concat ds' @ later" using Cons.prems(4) ds by simp
      from fill_modified [OF Cons.prems(1) False k(1) k(2) [symmetric] ms(2) d this]
      obtain e' el' where f: "fillAndSendEntry el e = Inr (Some e', el')"
        and r: "reading pre cs el'" "rest_of cs el' = concat ds' @ later"
        and i: "modifiedEntryIndex el' = Suc ?k" "ModifiedEntries el' = ModifiedEntries el"
        and v: "view (pre @ cs) e' = (Path e, mSize m, mHash m, d)"
        by (auto simp: view_def)
      from Cons.IH [of el' ds' "out @ [e']"]
      obtain res where "fill_entries el' es (out @ [e']) = Inr ((out @ [e']) @ res)"
        "map (view (pre @ cs)) res = expected (pre @ cs) es ms ds'"
        using r i k(3) ms(3) pk(2) Cons.prems(5) chk [OF r(1)] by auto
      then show ?thesis using f v False pos ms(1) ds by (intro exI [of _ "e' # res"]) simp
    qed
  qed
qed simp

lemma ReadEntries_prefix:
  assumes "holds c el es" and "\<forall>e \<in> set es. storable c e"
    and "PreservedChunkLengths el = lengths_of pre" and "length (PreservedChunkHashes el) = length pre"
    and "UploadedChunkLengths el = lengths_of cs" and "[] \<notin> set cs"
    and "map mPath (ModifiedEntries el) = map Path (filter (\<lambda>e. \<not> IsComplete e) es)"
    and "packed (ModifiedEntries el) ds" and "concat cs = concat ds @ later"
    and "\<forall>e \<in> set es. IsComplete e \<longrightarrow> checkEntry el e = None"
  shows "\<exists>out. ReadEntries c el = Inr out \<and>
    map (view (pre @ cs)) out = expected (pre @ cs) es (ModifiedEntries el) ds"
proof -
  let ?el = "rewind el"
  have "cursor_ok cs 0 0" using assms(6) by (cases cs) (auto simp: cursor_ok_def)
  then have rd: "reading pre cs ?el" using assms(3-6) by (simp add: reading_def rewind_def)
  moreover have "rest_of cs ?el = concat ds @ later" using assms(9) by (simp add: rest_of_def from_pos_def rewind_def)
  moreover have "checkEntry ?el = checkEntry el"
    by (intro checkEntry_cong) (simp_all add: rewind_def)
  ultimately obtain res where "fill_entries ?el es [] = Inr ([] @ res)"
    "map (view (pre @ cs)) res = expected (pre @ cs) es (ModifiedEntries el) ds"
    using fill_entries_expected [of pre cs ?el es ds later "[]"] assms(7,8,10) by (auto simp: rewind_def)
  then show ?thesis using ReadEntries_holds [OF assms(1,2)] by simp
qed

text \<open>
  C11. Back-annotation gives every file its bytes.  When the uploaded chunks are non-empty and
  concatenate to the data of the modified files in list order, reading the list succeeds, and each
  modified file comes out with its size and hash and with chunk indices and offsets whose slices of
  the chunks are exactly its data; files without data are left out; unmodified files come out as
  they are.
\<close>

theorem ReadEntries_back_annotates:
  assumes "holds c el es" and "\<forall>e \<in> set es. storable c e"
    and "PreservedChunkLengths el = lengths_of pre" and "length (PreservedChunkHashes el) = length pre"
    and "UploadedChunkLengths el = lengths_of cs" and "[] \<notin> set cs"
    and "map mPath (ModifiedEntries el) = map Path (filter (\<lambda>e. \<not> IsComplete e) es)"
    and "packed (ModifiedEntries el) ds" and "concat cs = concat ds"
    and "\<forall>e \<in> set es. IsComplete e \<longrightarrow> checkEntry el e = None"
  shows "\<exists>out. ReadEntries c el = Inr out \<and>
    map (view (pre @ cs)) out = expected (pre @ cs) es (ModifiedEntries el) ds"
  using ReadEntries_prefix [OF assms(1-8) _ assms(10), of "[]"] assms(9) by simp

text \<open>
  One file of three bytes followed by one of four, packed into chunks of five and two bytes.
\<close>

definition sample_list :: entry_list where
  "sample_list = (CreateEntryList [] [] (-1))\<lparr>
     entries := [CreateEntry ''a'' (-1) 0 0, CreateEntry ''b'' (-1) 0 0],
     ModifiedEntries := [\<lparr>mPath = ''a'', mSize = 3, mHash = ''h''\<rparr>, \<lparr>mPath = ''b'', mSize = 4, mHash = ''k''\<rparr>],
     UploadedChunkLengths := [5, 2]\<rparr>"

definition pair_codec :: codec where
  "pair_codec = \<lparr>marshal = (\<lambda>ts. if ts = EncodeMsgpack (CreateEntry ''a'' (-1) 0 0) then ''a'' else ''b''),
     parse = (\<lambda>s. EncodeMsgpack (CreateEntry s (-1) 0 0)), sha256 = rev\<rparr>"

theorem ReadEntries_back_annotates_witness:
  "\<exists>out. ReadEntries pair_codec sample_list = Inr out \<and>
     map (view [[1, 2, 3, 4, 5], [6, 7]]) out = [(''a'', 3, ''h'', [1, 2, 3]), (''b'', 4, ''k'', [4, 5, 6, 7])]"
proof -
  let ?es = "[CreateEntry ''a'' (-1) 0 0, CreateEntry ''b'' (-1) 0 0]"
  have "holds pair_codec sample_list ?es" by (simp add: holds_def sample_list_def CreateEntryList_def)
  moreover have "\<forall>e \<in> set ?es. storable pair_codec e"
    by (simp add: storable_def pair_codec_def canonical_def CreateEntry_def EncodeMsgpack_def)
  ultimately show ?thesis
    using ReadEntries_back_annotates [of pair_codec sample_list ?es "[]" "[[1, 2, 3, 4, 5], [6, 7]]"
        "[[1, 2, 3], [4, 5, 6, 7]]"]
    by (simp add: sample_list_def CreateEntryList_def packed_def CreateEntry_def IsComplete_def)
qed

end
