(* ===== verification/Backup.thy ===== *)
theory Backup
  imports Back_Annotation Chunking
begin

text \<open>
  The core of a backup (\<^verbatim>\<open>Backup\<close> in \<^verbatim>\<open>src/src/duplicacy_backupmanager.go\<close>): the comparison of
  the listed files with the entries of the last snapshot, which preserves the chunks of unmodified
  files; the packing of the modified files; and the upload decision for each chunk.
\<close>

section \<open>Comparing with the last snapshot\<close>

text \<open>
  The inner loop.  \<open>remote\<close> is the entry held back from the last comparison and \<open>rs\<close> what the
  remote listing still delivers.
\<close>

function advance_remote :: "entry \<Rightarrow> entry option \<Rightarrow> entry list \<Rightarrow> int \<times> entry option \<times> entry list" where
  "advance_remote l (Some r) rs =
     (if Compare l r \<le> 0 then (Compare l r, Some r, rs) else advance_remote l None rs)"
| "advance_remote l None (r # rs) =
     (if Compare l r \<le> 0 then (Compare l r, Some r, rs) else advance_remote l None rs)"
| "advance_remote l None [] = (-1, None, [])"
  by pat_completeness auto
termination
  by (relation "measure (\<lambda>(l, r, rs). 2 * length rs + (case r of None \<Rightarrow> 0 | Some _ \<Rightarrow> 1))") auto

text \<open>The chunks of the last snapshot, as far as the comparison uses them.\<close>

record remote_chunks =
  rcHashes :: "string list"
  rcLengths :: "int list"

record compare_state =
  localEntryList :: entry_list
  lastPreservedChunk :: int
  preservedFileSize :: int
  totalModifiedFileSize :: int

definition preserve_chunk :: "remote_chunks \<Rightarrow> compare_state \<Rightarrow> int \<Rightarrow> compare_state" where
  "preserve_chunk rc st i = st\<lparr>lastPreservedChunk := i,
     localEntryList := AddPreservedChunk (localEntryList st) (rcHashes rc ! nat i) (rcLengths rc ! nat i)\<rparr>"

definition preserve_entry :: "remote_chunks \<Rightarrow> compare_state \<Rightarrow> entry \<Rightarrow> entry \<Rightarrow> entry \<times> compare_state" where
  "preserve_entry rc st l r =
     (let delta = StartChunk r - int (length (PreservedChunkHashes (localEntryList st)));
          (st, delta) = (if lastPreservedChunk st \<noteq> StartChunk r
                         then (preserve_chunk rc st (StartChunk r), delta) else (st, delta + 1));
          st = foldl (preserve_chunk rc) st [StartChunk r + 1..EndChunk r]
      in (l\<lparr>Hash := Hash r, StartOffset := StartOffset r, EndOffset := EndOffset r,
            StartChunk := StartChunk r - delta, EndChunk := EndChunk r - delta\<rparr>,
          st\<lparr>preservedFileSize := preservedFileSize st + Size l\<rparr>))"

text \<open>A new or modified file is to be uploaded, which a size of -1 says.\<close>

definition mark_modified :: "compare_state \<Rightarrow> entry \<Rightarrow> entry \<times> compare_state" where
  "mark_modified st l =
     (if 0 < Size l then l\<lparr>Size := -1\<rparr> else l,
      st\<lparr>totalModifiedFileSize := totalModifiedFileSize st + Size l\<rparr>)"

definition compare_entry :: "remote_chunks \<Rightarrow> compare_state \<Rightarrow> entry \<Rightarrow> entry option \<Rightarrow> entry \<times> compare_state" where
  "compare_entry rc st l matched =
     (case matched of
        Some r \<Rightarrow>
          if IsSameAs l r \<and> IsFile l
          then (if 0 < Size l then preserve_entry rc st l r else (l, st))
          else mark_modified st l
      | None \<Rightarrow> mark_modified st l)"

fun compare_loop ::
  "codec \<Rightarrow> remote_chunks \<Rightarrow> compare_state \<Rightarrow> entry list \<Rightarrow> entry option \<Rightarrow> entry list \<Rightarrow> compare_state" where
  "compare_loop c rc st [] remote rs = st"
| "compare_loop c rc st (l # ls) remote rs =
     (case advance_remote l remote rs of (result, remote, rs) \<Rightarrow>
        (case compare_entry rc st l (if result = 0 then remote else None) of (l, st) \<Rightarrow>
           compare_loop c rc (st\<lparr>localEntryList := AddEntry c (localEntryList st) l\<rparr>) ls
             (if result = 0 then None else remote) rs))"

definition compare_files ::
  "codec \<Rightarrow> remote_chunks \<Rightarrow> entry_list \<Rightarrow> entry list \<Rightarrow> entry list \<Rightarrow> compare_state" where
  "compare_files c rc el ls rs =
     compare_loop c rc
       \<lparr>localEntryList = el, lastPreservedChunk = -1, preservedFileSize = 0, totalModifiedFileSize = 0\<rparr> ls None rs"

section \<open>Packing\<close>

datatype pack_result =
    PackPanic string
  | Packed chunk_maker "bytes list" "modified_entry list" "string list"

text \<open>
  The loop over the modified entries.  \<open>openFile\<close> gives the reader of a file, or \<open>None\<close> when it
  cannot be opened.
\<close>

fun pack_files ::
  "bool \<Rightarrow> (bytes \<Rightarrow> string) \<Rightarrow> (string \<Rightarrow> reader option) \<Rightarrow> chunk_maker \<Rightarrow> modified_entry list
     \<Rightarrow> pack_result option" where
  "pack_files w fh openFile m [] = Some (Packed m [] [] [])"
| "pack_files w fh openFile m (me # mes) =
     (case openFile (mPath me) of
        None \<Rightarrow>
          (case pack_files w fh openFile m mes of
             Some (Packed m' out ms skipped) \<Rightarrow> Some (Packed m' out (me # ms) (mPath me # skipped))
           | r \<Rightarrow> r)
      | Some rd \<Rightarrow>
          (case AddData w fh m (Some rd) of
             None \<Rightarrow> None
           | Some (m1, out1, Panicked e) \<Rightarrow> Some (PackPanic e)
           | Some (m1, out1, Returned sz h err) \<Rightarrow>
               (case pack_files w fh openFile m1 mes of
                  Some (Packed m' out ms skipped) \<Rightarrow>
                    Some (Packed m' (out1 @ out) (me\<lparr>mSize := sz, mHash := h\<rparr> # ms)
                            (if err = cloudFileFailure then mPath me # skipped else skipped))
                | r \<Rightarrow> r)))"

text \<open>All chunks, the flush included.\<close>

definition pack_all ::
  "bool \<Rightarrow> (bytes \<Rightarrow> string) \<Rightarrow> (string \<Rightarrow> reader option) \<Rightarrow> chunk_maker \<Rightarrow> modified_entry list
     \<Rightarrow> pack_result option" where
  "pack_all w fh openFile m mes =
     (case pack_files w fh openFile m mes of
        Some (Packed m1 out ms skipped) \<Rightarrow>
          (case AddData w fh m1 None of
             Some (m2, out2, _) \<Rightarrow> Some (Packed m2 (out @ out2) ms skipped)
           | None \<Rightarrow> None)
      | r \<Rightarrow> r)"

section \<open>Uploading\<close>

text \<open>
  The upload decision: a chunk whose id is in the cache is not uploaded, unless nothing has been
  uploaded for so long that the connection must be kept alive (\<open>keepAlive\<close> of the chunk index).
  The result is the cache and, per chunk, its index and whether it is given to the operator.
\<close>

fun upload_chunks ::
  "('b \<Rightarrow> string) \<Rightarrow> (nat \<Rightarrow> bool) \<Rightarrow> nat \<Rightarrow> string set \<Rightarrow> 'b list \<Rightarrow> string set \<times> (nat \<times> 'b \<times> bool) list" where
  "upload_chunks getID keepAlive index cache [] = (cache, [])"
| "upload_chunks getID keepAlive index cache (ck # cks) =
     (let found = getID ck \<in> cache \<and> \<not> keepAlive index;
          (cache', ops) = upload_chunks getID keepAlive (Suc index)
                            (if found then cache else insert (getID ck) cache) cks
      in (cache', (index, ck, \<not> found) # ops))"

section \<open>The merge pairs every file with its last version\<close>

definition held :: "entry option \<Rightarrow> entry list" where
  "held r = (case r of None \<Rightarrow> [] | Some r \<Rightarrow> [r])"

lemma held_simps [simp]: "held None = []" "held (Some r) = [r]"
  by (simp_all add: held_def)

lemma advance_remote_spec:
  "advance_remote l remote rs = (result, remote', rs') \<Longrightarrow>
     \<exists>D. held remote @ rs = D @ held remote' @ rs' \<and> (\<forall>d \<in> set D. 0 < Compare l d)
       \<and> result \<le> 0
       \<and> (result = 0 \<longrightarrow> (\<exists>r. remote' = Some r \<and> Compare l r = 0))
       \<and> (result \<noteq> 0 \<longrightarrow> held remote' @ rs' = [] \<or> Compare l (hd (held remote' @ rs')) < 0)"
proof (induction l remote rs rule: advance_remote.induct)
  case (1 l r rs)
  then show ?case
    by (cases "Compare l r \<le> 0") (force intro: exI [of _ "[]"], force intro: exI [of _ "r # _"])
next
  case (2 l r rs)
  then show ?case
    by (cases "Compare l r \<le> 0") (force intro: exI [of _ "[]"], force intro: exI [of _ "r # _"])
qed auto

text \<open>The reference: the entry of the last snapshot with the same path, if there is one.\<close>

definition last_version :: "entry list \<Rightarrow> entry \<Rightarrow> entry option" where
  "last_version rs l = List.find (\<lambda>r. Path r = Path l) rs"

definition compare_step :: "codec \<Rightarrow> remote_chunks \<Rightarrow> entry list \<Rightarrow> compare_state \<Rightarrow> entry \<Rightarrow> compare_state" where
  "compare_step c rc rs st l =
     (case compare_entry rc st l (last_version rs l) of
        (l, st) \<Rightarrow> st\<lparr>localEntryList := AddEntry c (localEntryList st) l\<rparr>)"

lemma find_append: "List.find P (xs @ ys) = (case List.find P xs of Some x \<Rightarrow> Some x | None \<Rightarrow> List.find P ys)"
  by (induction xs) auto

lemma last_version_skip:
  "\<forall>d \<in> set D. Path d \<noteq> Path l \<Longrightarrow> last_version (D @ rs) l = last_version rs l"
  by (induction D) (auto simp: last_version_def)

lemma compare_loop_merge:
  assumes "paths.ascending (map Path ls)" "paths.ascending (map Path R)" "R = D @ held remote @ rs"
    "\<forall>d \<in> set D. \<forall>l \<in> set ls. Path d \<noteq> Path l"
  shows "compare_loop c rc st ls remote rs = foldl (compare_step c rc R) st ls"
  using assms(1,3,4)
proof (induction ls arbitrary: st remote rs D)
  case (Cons l ls)
  obtain result remote' rs' where a: "advance_remote l remote rs = (result, remote', rs')"
    by (cases "advance_remote l remote rs")
  obtain D' where D': "held remote @ rs = D' @ held remote' @ rs'" "\<forall>d \<in> set D'. 0 < Compare l d" "result \<le> 0"
    "result = 0 \<longrightarrow> (\<exists>r. remote' = Some r \<and> Compare l r = 0)"
    "result \<noteq> 0 \<longrightarrow> held remote' @ rs' = [] \<or> Compare l (hd (held remote' @ rs')) < 0"
    using advance_remote_spec [OF a] by blast
  have R: "R = D @ D' @ held remote' @ rs'" using Cons.prems(2) D'(1) by simp
  have nul_R: "no_nul (Path r)" if "r \<in> set R" for r
    using assms(2) that by (auto simp: paths.ascending_def)
  have nul_l: "no_nul (Path l)" and later: "ComparePaths (Path l) (Path l') < 0" "no_nul (Path l')"
    if "l' \<in> set ls" for l'
    using Cons.prems(1) that by (auto simp: paths.ascending_def)
  have nul: "no_nul (Path l)" using Cons.prems(1) by (simp add: paths.ascending_def)
  have D'_lt: "ComparePaths (Path d) (Path l) < 0" if "d \<in> set D'" for d
    using D'(2) that paths.cmp_flip [OF nul nul_R [of d]] R by (simp add: Compare_def)
  have skip: "last_version R l = last_version (held remote' @ rs') l"
  proof -
    have "Path d \<noteq> Path l" if "d \<in> set D'" for d
      using D'_lt [OF that] paths.cmp_irrefl [OF nul] by auto
    then have "\<forall>d \<in> set (D @ D'). Path d \<noteq> Path l" using Cons.prems(3) by auto
    then show ?thesis using last_version_skip [of "D @ D'" l "held remote' @ rs'"] R by simp
  qed
  have matched: "last_version R l = (if result = 0 then remote' else None)"
  proof (cases "result = 0")
    case True
    then obtain r where r: "remote' = Some r" "Compare l r = 0" using D'(4) by blast
    then have "Path r = Path l"
      using paths.cmp_eq [OF nul nul_R [of r]] R by (simp add: Compare_def)
    then show ?thesis using True r skip by (simp add: last_version_def)
  next
    case False
    have "last_version (held remote' @ rs') l = None"
    proof (cases "held remote' @ rs'")
      case (Cons y ys)
      then have "ComparePaths (Path l) (Path y) < 0" using D'(5) False by (simp add: Compare_def)
      moreover have "paths.ascending (map Path (y # ys))"
        using assms(2) R Cons by (simp add: paths.ascending_append)
      ultimately have "Path l \<notin> set (map Path (y # ys))"
        using paths.before_head_absent(1) [of "Path y" "map Path ys" "Path l"] nul by simp
      then show ?thesis unfolding Cons last_version_def find_None_iff by (metis image_eqI set_map)
    qed (simp add: last_version_def)
    then show ?thesis using skip False by simp
  qed
  define gone where "gone = D @ D' @ (if result = 0 then held remote' else [])"
  define left where "left = (if result = 0 then None else remote')"
  have "R = gone @ held left @ rs'" by (simp add: R gone_def left_def)
  moreover have "\<forall>d \<in> set gone. \<forall>l' \<in> set ls. Path d \<noteq> Path l'"
  proof (intro ballI)
    fix d l' assume d: "d \<in> set gone" and l': "l' \<in> set ls"
    consider "d \<in> set D" | "d \<in> set D'" | "result = 0" "remote' = Some d"
      using d D'(4) by (auto simp: gone_def split: if_splits)
    then show "Path d \<noteq> Path l'"
    proof cases
      case 1
      then show ?thesis using Cons.prems(3) l' by simp
    next
      case 2
      then have "ComparePaths (Path d) (Path l') < 0"
        using paths.cmp_trans [OF nul_R [of d] nul later(2) [OF l'] D'_lt [OF 2] later(1) [OF l']] R by simp
      then show ?thesis using paths.cmp_irrefl [OF later(2) [OF l']] by auto
    next
      case 3
      then have "Path d = Path l" using matched by (auto simp: last_version_def find_Some_iff)
      then show ?thesis using later(1) [OF l'] paths.cmp_irrefl [OF nul] by auto
    qed
  qed
  moreover have "paths.ascending (map Path ls)" using Cons.prems(1) by (simp add: paths.ascending_Cons)
  ultimately have IH: "compare_loop c rc st' ls left rs' = foldl (compare_step c rc R) st' ls" for st'
    using Cons.IH by blast
  show ?case
    using a matched IH by (simp add: compare_step_def [of c rc R st l] left_def split: prod.split)
qed simp

text \<open>
  C5. The comparison loop is a join on the path.  With both listings in ascending order, each listed
  file is compared with the entry of the last snapshot that has its path, and treated as new exactly
  when there is none; no file is missed or paired twice however the two listings interleave.
\<close>

theorem compare_files_pairs_by_path:
  assumes "paths.ascending (map Path ls)" and "paths.ascending (map Path rs)"
  shows "compare_files c rc el ls rs = foldl (compare_step c rc rs)
    \<lparr>localEntryList = el, lastPreservedChunk = -1, preservedFileSize = 0, totalModifiedFileSize = 0\<rparr> ls"
  using compare_loop_merge [OF assms, of "[]" None rs] by (simp add: compare_files_def)

theorem compare_files_pairs_by_path_witness:
  "localEntryList (compare_files sample_codec \<lparr>rcHashes = [''h''], rcLengths = [5]\<rparr> (CreateEntryList [] [] (-1))
     [CreateEntry ''b'' 5 0 0, CreateEntry ''a/'' 0 0 ModeDir]
     [CreateEntry ''a'' 3 0 0, (CreateEntry ''b'' 5 1 0)\<lparr>EndOffset := 5\<rparr>])
   = (CreateEntryList [] [] (-1))\<lparr>entries := [(CreateEntry ''b'' 5 0 0)\<lparr>EndOffset := 5\<rparr>, CreateEntry ''a/'' 0 0 ModeDir],
       NumberOfEntries := 1, PreservedChunkHashes := [''h''], PreservedChunkLengths := [5]\<rparr>"
proof -
  have k: "path_key ''a'' < path_key ''b''" "path_key ''b'' < path_key ''a/''"
    by (simp_all add: slash_def less_path_step_def)
  have "paths.ascending (map Path [CreateEntry ''b'' 5 0 0, CreateEntry ''a/'' 0 0 ModeDir])"
    using ComparePaths_key [of "''b''" "''a/''"] k
    by (simp add: paths.ascending_def CreateEntry_def no_nul_def slash_def)
  moreover have "paths.ascending (map Path [CreateEntry ''a'' 3 0 0, (CreateEntry ''b'' 5 1 0)\<lparr>EndOffset := 5\<rparr>])"
    using ComparePaths_key [of "''a''" "''b''"] k
    by (simp add: paths.ascending_def CreateEntry_def no_nul_def slash_def)
  ultimately show ?thesis
    by (subst compare_files_pairs_by_path)
      (simp_all add: compare_step_def last_version_def compare_entry_def CreateEntry_def IsSameAs_def IsFile_def
        preserve_entry_def preserve_chunk_def mark_modified_def AddEntry_def AddPreservedChunk_def CreateEntryList_def
        IsDir_def IsLink_def IsComplete_def mode_defs slash_def Let_def)
qed

section \<open>Preserved entries keep their bytes\<close>

text \<open>
  The chunk added last is the one \<open>lastPreservedChunk\<close> names, which is why an entry that starts in
  the chunk its predecessor ended in can share it.
\<close>

definition preserve_inv :: "remote_chunks \<Rightarrow> compare_state \<Rightarrow> bool" where
  "preserve_inv rc st \<longleftrightarrow>
     length (PreservedChunkHashes (localEntryList st)) = length (PreservedChunkLengths (localEntryList st))
     \<and> (0 \<le> lastPreservedChunk st \<longrightarrow>
          PreservedChunkHashes (localEntryList st) \<noteq> []
          \<and> last (PreservedChunkHashes (localEntryList st)) = rcHashes rc ! nat (lastPreservedChunk st)
          \<and> last (PreservedChunkLengths (localEntryList st)) = rcLengths rc ! nat (lastPreservedChunk st))"

lemma preserve_chunk_inv:
  "preserve_inv rc st \<Longrightarrow> preserve_inv rc (preserve_chunk rc st i)"
  by (simp add: preserve_inv_def preserve_chunk_def AddPreservedChunk_def)

lemma preserve_chunks_fold:
  "preserve_inv rc st \<Longrightarrow> preserve_inv rc (foldl (preserve_chunk rc) st is)
   \<and> PreservedChunkHashes (localEntryList (foldl (preserve_chunk rc) st is))
       = PreservedChunkHashes (localEntryList st) @ map (\<lambda>i. rcHashes rc ! nat i) is
   \<and> PreservedChunkLengths (localEntryList (foldl (preserve_chunk rc) st is))
       = PreservedChunkLengths (localEntryList st) @ map (\<lambda>i. rcLengths rc ! nat i) is"
proof (induction "is" arbitrary: st)
  case (Cons i "is")
  then show ?case using Cons.IH [OF preserve_chunk_inv [OF Cons.prems], of i]
    by (simp add: preserve_chunk_def AddPreservedChunk_def)
qed simp

lemma preserve_entry_chunks:
  assumes "preserve_inv rc st" and "0 \<le> StartChunk r" and "StartChunk r \<le> EndChunk r"
    and "preserve_entry rc st l r = (l', st')"
  shows "\<exists>n. n \<le> length (PreservedChunkHashes (localEntryList st)) \<and> n \<le> length (PreservedChunkLengths (localEntryList st))
    \<and> PreservedChunkHashes (localEntryList st') = take n (PreservedChunkHashes (localEntryList st))
        @ map (\<lambda>i. rcHashes rc ! nat i) [StartChunk r..EndChunk r]
    \<and> PreservedChunkLengths (localEntryList st') = take n (PreservedChunkLengths (localEntryList st))
        @ map (\<lambda>i. rcLengths rc ! nat i) [StartChunk r..EndChunk r]
    \<and> (\<exists>hs ls. PreservedChunkHashes (localEntryList st') = PreservedChunkHashes (localEntryList st) @ hs
         \<and> PreservedChunkLengths (localEntryList st') = PreservedChunkLengths (localEntryList st) @ ls)
    \<and> preserve_inv rc st' \<and> StartChunk l' = int n \<and> EndChunk l' = int n + (EndChunk r - StartChunk r)
    \<and> Hash l' = Hash r \<and> StartOffset l' = StartOffset r \<and> EndOffset l' = EndOffset r"
proof -
  let ?H = "PreservedChunkHashes (localEntryList st)" and ?L = "PreservedChunkLengths (localEntryList st)"
  let ?h = "\<lambda>i. rcHashes rc ! nat i" and ?l = "\<lambda>i. rcLengths rc ! nat i"
  let ?S = "StartChunk r" and ?E = "EndChunk r"
  define st1 where "st1 = (if lastPreservedChunk st \<noteq> ?S then preserve_chunk rc st ?S else st)"
  define n where "n = (if lastPreservedChunk st \<noteq> ?S then length ?H else length ?H - 1)"
  have inv1: "preserve_inv rc st1" using assms(1) by (simp add: st1_def preserve_chunk_inv)
  have shared: "lastPreservedChunk st = ?S \<Longrightarrow> ?H \<noteq> [] \<and> last ?H = ?h ?S \<and> last ?L = ?l ?S" "length ?H = length ?L"
    using assms(1,2) by (auto simp: preserve_inv_def)
  have u: "[?S..?E] = ?S # [?S + 1..?E]" using assms(3) by (simp add: upto.simps)
  have st': "PreservedChunkHashes (localEntryList st') = PreservedChunkHashes (localEntryList st1) @ map ?h [?S + 1..?E]"
    "PreservedChunkLengths (localEntryList st') = PreservedChunkLengths (localEntryList st1) @ map ?l [?S + 1..?E]"
    "preserve_inv rc st'"
    using preserve_chunks_fold [OF inv1, of "[?S + 1..?E]"] assms(4)
    by (auto simp: preserve_entry_def st1_def preserve_inv_def Let_def split: if_splits)
  have H1: "PreservedChunkHashes (localEntryList st1) = take n ?H @ [?h ?S]"
    "PreservedChunkLengths (localEntryList st1) = take n ?L @ [?l ?S]"
  proof -
    have "take n ?H @ [?h ?S] = ?H \<and> take n ?L @ [?l ?S] = ?L" if "lastPreservedChunk st = ?S"
    proof -
      have "?L \<noteq> []" using shared(1) [OF that] shared(2) by auto
      then show ?thesis using shared(1) [OF that] shared(2) that
        by (metis append_butlast_last_id butlast_conv_take n_def)
    qed
    then show "PreservedChunkHashes (localEntryList st1) = take n ?H @ [?h ?S]"
      "PreservedChunkLengths (localEntryList st1) = take n ?L @ [?l ?S]"
      using shared(2) by (auto simp: st1_def n_def preserve_chunk_def AddPreservedChunk_def)
  qed
  have all: "PreservedChunkHashes (localEntryList st') = take n ?H @ map ?h [?S..?E]"
    "PreservedChunkLengths (localEntryList st') = take n ?L @ map ?l [?S..?E]"
    using st' H1 u by simp_all
  have n: "n \<le> length ?H" "n \<le> length ?L" using shared(2) by (simp_all add: n_def)
  have n_int: "int n = (if lastPreservedChunk st \<noteq> ?S then int (length ?H) else int (length ?H) - 1)"
    using shared(1) by (auto simp: n_def of_nat_diff Suc_le_eq)
  have l': "StartChunk l' = int n" "EndChunk l' = int n + (?E - ?S)"
    "Hash l' = Hash r" "StartOffset l' = StartOffset r" "EndOffset l' = EndOffset r"
    using assms(4) n_int by (auto simp: preserve_entry_def Let_def split: if_splits)
  have "\<exists>hs ls. PreservedChunkHashes (localEntryList st') = ?H @ hs \<and> PreservedChunkLengths (localEntryList st') = ?L @ ls"
    using st'(1,2) by (auto simp: st1_def preserve_chunk_def AddPreservedChunk_def)
  then show ?thesis using n all st'(3) l' by (intro exI [of _ n] conjI) simp_all
qed

text \<open>
  C10. An unmodified file keeps its bytes.  A preserved entry gets the hash and the offsets of its
  last version, and its chunk range in the new list names the same chunks, one by one, in hash and
  length, as the old range did in the last snapshot, whether or not it shares its first chunk with
  the file before it; earlier entries are not disturbed, and the invariant behind the sharing holds
  again.
\<close>

theorem preserve_entry_same_chunks:
  assumes "preserve_inv rc st" and "0 \<le> StartChunk r" and "StartChunk r \<le> EndChunk r"
    and "preserve_entry rc st l r = (l', st')"
  shows "preserve_inv rc st' \<and> Hash l' = Hash r \<and> StartOffset l' = StartOffset r \<and> EndOffset l' = EndOffset r
    \<and> 0 \<le> StartChunk l' \<and> EndChunk l' - StartChunk l' = EndChunk r - StartChunk r
    \<and> EndChunk l' < int (length (PreservedChunkHashes (localEntryList st')))
    \<and> (\<exists>hs ls. PreservedChunkHashes (localEntryList st') = PreservedChunkHashes (localEntryList st) @ hs
         \<and> PreservedChunkLengths (localEntryList st') = PreservedChunkLengths (localEntryList st) @ ls)
    \<and> (\<forall>k. 0 \<le> k \<and> k \<le> EndChunk r - StartChunk r \<longrightarrow>
         PreservedChunkHashes (localEntryList st') ! nat (StartChunk l' + k) = rcHashes rc ! nat (StartChunk r + k)
         \<and> PreservedChunkLengths (localEntryList st') ! nat (StartChunk l' + k) = rcLengths rc ! nat (StartChunk r + k))"
proof -
  let ?H = "PreservedChunkHashes (localEntryList st)" and ?L = "PreservedChunkLengths (localEntryList st)"
  let ?h = "\<lambda>i. rcHashes rc ! nat i" and ?l = "\<lambda>i. rcLengths rc ! nat i"
  let ?S = "StartChunk r" and ?E = "EndChunk r"
  obtain n hs ls where n: "n \<le> length ?H" "n \<le> length ?L"
    and all: "PreservedChunkHashes (localEntryList st') = take n ?H @ map ?h [?S..?E]"
      "PreservedChunkLengths (localEntryList st') = take n ?L @ map ?l [?S..?E]"
    and ext: "PreservedChunkHashes (localEntryList st') = ?H @ hs" "PreservedChunkLengths (localEntryList st') = ?L @ ls"
    and inv: "preserve_inv rc st'" and l': "StartChunk l' = int n" "EndChunk l' = int n + (?E - ?S)"
      "Hash l' = Hash r" "StartOffset l' = StartOffset r" "EndOffset l' = EndOffset r"
    using preserve_entry_chunks [OF assms] by (elim exE conjE) rule
  have "PreservedChunkHashes (localEntryList st') ! nat (StartChunk l' + k) = ?h (?S + k)
      \<and> PreservedChunkLengths (localEntryList st') ! nat (StartChunk l' + k) = ?l (?S + k)"
    if k: "0 \<le> k" "k \<le> ?E - ?S" for k
  proof -
    obtain q where q: "k = int q" using k(1) by (metis nonneg_int_cases)
    have "nat (StartChunk l' + k) = n + q" by (simp add: l'(1) q)
    moreover have "q < length [?S..?E]" using k(2) q by simp
    moreover have "[?S..?E] ! q = ?S + k" using k(2) q by (simp add: nth_upto)
    ultimately show ?thesis using n by (simp add: all nth_append)
  qed
  moreover have "EndChunk l' < int (length (PreservedChunkHashes (localEntryList st')))"
    using n assms(3) by (simp add: all(1) l'(2))
  moreover have "\<exists>hs ls. PreservedChunkHashes (localEntryList st') = ?H @ hs \<and> PreservedChunkLengths (localEntryList st') = ?L @ ls"
    using ext by blast
  ultimately show ?thesis using inv l' by simp
qed

theorem preserve_entry_same_chunks_witness:
  "\<exists>l' st'. preserve_entry \<lparr>rcHashes = [''x'', ''y''], rcLengths = [4, 6]\<rparr>
      \<lparr>localEntryList = CreateEntryList [] [] (-1), lastPreservedChunk = -1, preservedFileSize = 0,
       totalModifiedFileSize = 0\<rparr>
      (CreateEntry ''f'' 3 0 0) ((CreateEntry ''f'' 3 0 0)\<lparr>StartChunk := 1, EndChunk := 1\<rparr>) = (l', st')
    \<and> PreservedChunkHashes (localEntryList st') ! nat (StartChunk l') = ''y''"
proof -
  let ?rc = "\<lparr>rcHashes = [''x'', ''y''], rcLengths = [4, 6]\<rparr>" and ?r = "(CreateEntry ''f'' 3 0 0)\<lparr>StartChunk := 1, EndChunk := 1\<rparr>"
  let ?st = "\<lparr>localEntryList = CreateEntryList [] [] (-1), lastPreservedChunk = -1, preservedFileSize = 0,
       totalModifiedFileSize = 0\<rparr>"
  obtain l' st' where p: "preserve_entry ?rc ?st (CreateEntry ''f'' 3 0 0) ?r = (l', st')"
    by (cases "preserve_entry ?rc ?st (CreateEntry ''f'' 3 0 0) ?r")
  have "preserve_inv ?rc ?st" by (simp add: preserve_inv_def CreateEntryList_def)
  from preserve_entry_same_chunks [OF this _ _ p]
  have "\<forall>k. 0 \<le> k \<and> k \<le> (0::int) \<longrightarrow> PreservedChunkHashes (localEntryList st') ! nat (StartChunk l' + k)
      = rcHashes ?rc ! nat (StartChunk ?r + k)"
    by (simp add: CreateEntry_def)
  from this [THEN spec, of 0] have "PreservedChunkHashes (localEntryList st') ! nat (StartChunk l') = ''y''"
    by simp
  then show ?thesis using p by auto
qed

section \<open>Packing and annotating\<close>

text \<open>The data a modified file contributes to the stream, and what its entry becomes.\<close>

definition file_data :: "(string \<Rightarrow> reader option) \<Rightarrow> modified_entry \<Rightarrow> bytes" where
  "file_data openFile me = (case openFile (mPath me) of None \<Rightarrow> [] | Some rd \<Rightarrow> reader_data rd)"

definition packed_entry ::
  "(bytes \<Rightarrow> string) \<Rightarrow> (string \<Rightarrow> reader option) \<Rightarrow> modified_entry \<Rightarrow> modified_entry" where
  "packed_entry fh openFile me =
     (case openFile (mPath me) of
        None \<Rightarrow> me
      | Some rd \<Rightarrow>
          (case reader_fails rd of
             None \<Rightarrow> me\<lparr>mSize := int (length (reader_data rd)), mHash := fh (reader_data rd)\<rparr>
           | Some e \<Rightarrow> me\<lparr>mSize := -1, mHash := []\<rparr>))"

text \<open>No file fails but with the error of a cloud-only file, which is not fatal.\<close>

definition no_panic :: "bool \<Rightarrow> (string \<Rightarrow> reader option) \<Rightarrow> modified_entry list \<Rightarrow> bool" where
  "no_panic w openFile mes \<longleftrightarrow> (\<forall>me \<in> set mes. \<forall>rd e. openFile (mPath me) = Some rd \<longrightarrow>
     reader_fails rd = Some e \<longrightarrow> isCloudFileError w e)"

lemma file_result_packed:
  assumes "openFile (mPath me) = Some rd" "\<And>e. reader_fails rd = Some e \<Longrightarrow> isCloudFileError w e"
  shows "\<exists>sz h err. file_result w fh 0 [] rd = Returned sz h err
    \<and> me\<lparr>mSize := sz, mHash := h\<rparr> = packed_entry fh openFile me"
  using assms by (auto simp: file_result_def packed_entry_def read_failure_def split: option.split)

lemma pack_files_spec:
  "maker_inv m \<Longrightarrow> no_panic w openFile mes \<Longrightarrow>
   \<exists>m' out sk. pack_files w fh openFile m mes = Some (Packed m' out (map (packed_entry fh openFile) mes) sk)
     \<and> maker_inv m' \<and> same_params m m'
     \<and> (\<forall>d. maker_split m (pending m @ concat (map (file_data openFile) mes) @ d) =
         (out @ fst (maker_split m (pending m' @ d)), snd (maker_split m (pending m' @ d))))"
proof (induction mes arbitrary: m)
  case (Cons me mes)
  have np: "no_panic w openFile mes" using Cons.prems(2) by (simp add: no_panic_def)
  show ?case
  proof (cases "openFile (mPath me)")
    case None
    then show ?thesis using Cons.IH [OF Cons.prems(1) np] by (auto simp: packed_entry_def file_data_def)
  next
    case (Some rd)
    obtain m1 out1 where 1: "AddData w fh m (Some rd) = Some (m1, out1, file_result w fh 0 [] rd)"
      "maker_inv m1" "same_params m m1"
      "\<forall>d. maker_split m (pending m @ reader_data rd @ d) =
         (out1 @ fst (maker_split m (pending m1 @ d)), snd (maker_split m (pending m1 @ d)))"
      by (rule AddData_step [OF Cons.prems(1), of w fh rd])
    obtain sz h err where 2: "file_result w fh 0 [] rd = Returned sz h err"
      "me\<lparr>mSize := sz, mHash := h\<rparr> = packed_entry fh openFile me"
      using file_result_packed [of openFile me rd w fh] Some Cons.prems(2) by (auto simp: no_panic_def)
    obtain m2 out2 sk where 3:
      "pack_files w fh openFile m1 mes = Some (Packed m2 out2 (map (packed_entry fh openFile) mes) sk)"
      "maker_inv m2" "same_params m1 m2"
      "\<forall>d. maker_split m1 (pending m1 @ concat (map (file_data openFile) mes) @ d) =
         (out2 @ fst (maker_split m1 (pending m2 @ d)), snd (maker_split m1 (pending m2 @ d)))"
      using Cons.IH [OF 1(2) np] by blast
    have "\<exists>sk'. pack_files w fh openFile m (me # mes) =
        Some (Packed m2 (out1 @ out2) (map (packed_entry fh openFile) (me # mes)) sk')"
      using Some 1(1) 2 3(1) by auto
    moreover have "maker_split m (pending m @ concat (map (file_data openFile) (me # mes)) @ d) =
         ((out1 @ out2) @ fst (maker_split m (pending m2 @ d)), snd (maker_split m (pending m2 @ d)))" for d
      using 1(4) [THEN spec, of "concat (map (file_data openFile) mes) @ d"] 3(4) Some same_params_split [OF 1(3)]
      by (simp add: file_data_def)
    moreover have "same_params m m2" by (rule same_params_trans [OF 1(3) 3(3)])
    ultimately show ?thesis using 3(2) by blast
  qed
qed simp

lemma pack_all_spec:
  assumes "maker_inv m" "no_panic w openFile mes"
  shows "\<exists>m' sk. pack_all w fh openFile m mes = Some (Packed m'
    (maker_chunks m (pending m @ concat (map (file_data openFile) mes))) (map (packed_entry fh openFile) mes) sk)"
proof -
  obtain m1 out sk where 1:
    "pack_files w fh openFile m mes = Some (Packed m1 out (map (packed_entry fh openFile) mes) sk)"
    "maker_inv m1" "same_params m m1"
    "\<forall>d. maker_split m (pending m @ concat (map (file_data openFile) mes) @ d) =
         (out @ fst (maker_split m (pending m1 @ d)), snd (maker_split m (pending m1 @ d)))"
    using pack_files_spec [OF assms] by blast
  obtain m2 where "AddData w fh m1 None = Some (m2, maker_chunks m1 (pending m1), Returned 0 [] [])"
    using add_loop_flush [OF 1(2), of w fh 0 "[]" "[]"] 1(2) by (auto simp: AddData_def maker_inv_def)
  moreover have "maker_chunks m (pending m @ concat (map (file_data openFile) mes)) = out @ maker_chunks m (pending m1)"
    using maker_chunks_split [of m "pending m @ concat (map (file_data openFile) mes)" "[]" out "pending m1"]
      1(4) [THEN spec, of "[]"] by simp
  ultimately show ?thesis using 1(1,3) by (auto simp: pack_all_def same_params_def)
qed

text \<open>The list after packing and after all chunks have been reported.\<close>

definition finish_list ::
  "entry_list \<Rightarrow> modified_entry list \<Rightarrow> (nat \<times> string \<times> int) list \<Rightarrow> entry_list" where
  "finish_list el ms ops = add_uploads (el\<lparr>ModifiedEntries := ms\<rparr>) ops"

definition chunk_reports :: "(bytes \<Rightarrow> string) \<Rightarrow> bytes list \<Rightarrow> (nat \<times> string \<times> int) list" where
  "chunk_reports hash cs = zip [0..<length cs] (map (\<lambda>ck. (hash ck, int (length ck))) cs)"

lemma add_uploads_fields [simp]:
  "ModifiedEntries (add_uploads el ops) = ModifiedEntries el"
  "PreservedChunkHashes (add_uploads el ops) = PreservedChunkHashes el"
  "PreservedChunkLengths (add_uploads el ops) = PreservedChunkLengths el"
  "holds c (add_uploads el ops) es = holds c el es"
  unfolding add_uploads_def by (induction ops arbitrary: el) (auto simp: AddUploadedChunk_def holds_def)

lemma chunk_reports_any_order:
  assumes "UploadedChunkHashes el = []" "UploadedChunkLengths el = []"
    "mset ops = mset (chunk_reports hash cs)"
  shows "UploadedChunkHashes (add_uploads el ops) = map hash cs"
    "UploadedChunkLengths (add_uploads el ops) = lengths_of cs"
  using add_uploads_order [OF assms(1,2), of ops "map (\<lambda>ck. (hash ck, int (length ck))) cs"] assms(3)
  by (simp_all add: chunk_reports_def comp_def)

lemma packed_entries:
  assumes "\<forall>me \<in> set mes. mSize me = -1" "\<forall>me \<in> set mes. \<forall>rd. openFile (mPath me) = Some rd \<longrightarrow> reader_fails rd = None"
  shows "packed (map (packed_entry fh openFile) mes) (map (file_data openFile) mes)"
  using assms by (induction mes) (auto simp: packed_def packed_entry_def file_data_def split: option.splits)

lemma packed_entry_path [simp]: "mPath (packed_entry fh openFile me) = mPath me"
  by (simp add: packed_entry_def split: option.split)

lemma check_with_mono:
  assumes "check_with n len e = None" "n \<le> n'" "\<And>i. 0 \<le> i \<Longrightarrow> i < int n \<Longrightarrow> len' i = len i"
  shows "check_with n' len' e = None"
proof (cases "IsFile e \<and> Size e \<noteq> 0")
  case True
  note c = check_with_None [OF assms(1), OF conjunct1 [OF True] conjunct2 [OF True]]
  have "file_size e len' = file_size e len"
    using c(2,3) assms(3) by (intro file_size_cong) auto
  moreover have "len' (StartChunk e) = len (StartChunk e)" "len' (EndChunk e) = len (EndChunk e)"
    using c(2-4) assms(3) by auto
  ultimately show ?thesis using c assms(2) by (simp add: check_with_def)
next
  case False
  then show ?thesis using assms(1) by (auto simp: check_with_def split: if_splits)
qed

lemma packed_list_reads:
  assumes "CreateFileChunkMaker sha cfg = Inr m"
    and "0 < MinimumChunkSize cfg" and "MinimumChunkSize cfg < MaximumChunkSize cfg"
    and "holds c el es" and "\<forall>e \<in> set es. storable c e"
    and "UploadedChunkHashes el = []" and "UploadedChunkLengths el = []"
    and "PreservedChunkLengths el = lengths_of pre" and "length (PreservedChunkHashes el) = length pre"
    and "map mPath (ModifiedEntries el) = map Path (filter (\<lambda>e. \<not> IsComplete e) es)"
    and "\<forall>me \<in> set (ModifiedEntries el). mSize me = -1"
    and "\<forall>me \<in> set (ModifiedEntries el). \<forall>rd. openFile (mPath me) = Some rd \<longrightarrow> reader_fails rd = None"
    and "\<forall>e \<in> set es. IsComplete e \<longrightarrow> check_with (length pre) (\<lambda>i. int (length (pre ! nat i))) e = None"
  obtains m' cs skipped where "pack_all w fh openFile m (ModifiedEntries el)
        = Some (Packed m' cs (map (packed_entry fh openFile) (ModifiedEntries el)) skipped)"
    and "[] \<notin> set cs"
    and "\<And>ops. mset ops = mset (chunk_reports hash cs) \<Longrightarrow>
        UploadedChunkHashes (finish_list el (map (packed_entry fh openFile) (ModifiedEntries el)) ops) = map hash cs
        \<and> UploadedChunkLengths (finish_list el (map (packed_entry fh openFile) (ModifiedEntries el)) ops) = lengths_of cs
        \<and> (\<exists>out. ReadEntries c (finish_list el (map (packed_entry fh openFile) (ModifiedEntries el)) ops) = Inr out
          \<and> map (view (pre @ cs)) out = expected (pre @ cs) es
              (map (packed_entry fh openFile) (ModifiedEntries el)) (map (file_data openFile) (ModifiedEntries el)))"
proof -
  let ?ms = "map (packed_entry fh openFile) (ModifiedEntries el)"
  note m = CreateFileChunkMaker_ok [OF assms(2,3,1)]
  have np: "no_panic w openFile (ModifiedEntries el)" using assms(12) by (auto simp: no_panic_def)
  obtain cs m' sk where p: "pack_all w fh openFile m (ModifiedEntries el) = Some (Packed m' cs ?ms sk)"
    and cs: "cs = maker_chunks m (concat (map (file_data openFile) (ModifiedEntries el)))"
    using pack_all_spec [OF m(1) np, of fh] m(2) by auto
  have ne: "[] \<notin> set cs" unfolding cs by (rule spec_chunks_nonempty) (use m assms(2,3) in auto)
  have concat: "concat cs = concat (map (file_data openFile) (ModifiedEntries el))"
    unfolding cs by (rule spec_chunks_concat)
  have "UploadedChunkHashes (finish_list el ?ms ops) = map hash cs \<and> UploadedChunkLengths (finish_list el ?ms ops) = lengths_of cs
      \<and> (\<exists>out. ReadEntries c (finish_list el ?ms ops) = Inr out \<and> map (view (pre @ cs)) out
        = expected (pre @ cs) es ?ms (map (file_data openFile) (ModifiedEntries el)))"
    if ops: "mset ops = mset (chunk_reports hash cs)" for ops
  proof -
    let ?el = "finish_list el ?ms ops"
    have up: "UploadedChunkHashes ?el = map hash cs" "UploadedChunkLengths ?el = lengths_of cs"
      unfolding finish_list_def by (rule chunk_reports_any_order [OF _ _ ops]; use assms(6,7) in simp)+
    have "checkEntry ?el e = None" if "e \<in> set es" "IsComplete e" for e
      unfolding checkEntry_def
    proof (rule check_with_mono)
      show "check_with (length pre) (\<lambda>i. int (length (pre ! nat i))) e = None" using assms(13) that by blast
    qed (use assms(8) in \<open>simp_all add: finish_list_def getChunkLength_def nat_less_iff\<close>)
    then show ?thesis
      using ReadEntries_prefix [of c ?el es pre cs "map (file_data openFile) (ModifiedEntries el)" "[]"]
        assms(4,5,8-12) up(2) ne concat packed_entries [OF assms(11,12), of fh]
      by (simp add: finish_list_def comp_def up [unfolded finish_list_def])
  qed
  then show thesis using p ne that by blast
qed

text \<open>
  C3. End to end: pack, upload, annotate.  Take a chunk maker of a variable-size storage, the
  modified files in list order, each opened (or not) to a reader that delivers its data in any
  pieces; pack them, flush, report the chunks in any order, and read the list back.  The run
  completes, and every file comes out with its size, the hash of its data, and chunk positions whose
  slices are its data.
\<close>

theorem backup_gives_files_their_bytes:
  assumes "CreateFileChunkMaker sha cfg = Inr m"
    and "0 < MinimumChunkSize cfg" and "MinimumChunkSize cfg < MaximumChunkSize cfg"
    and "holds c el es" and "\<forall>e \<in> set es. storable c e"
    and "UploadedChunkHashes el = []" and "UploadedChunkLengths el = []"
    and "PreservedChunkLengths el = lengths_of pre" and "length (PreservedChunkHashes el) = length pre"
    and "map mPath (ModifiedEntries el) = map Path (filter (\<lambda>e. \<not> IsComplete e) es)"
    and "\<forall>me \<in> set (ModifiedEntries el). mSize me = -1"
    and "\<forall>me \<in> set (ModifiedEntries el). \<forall>rd. openFile (mPath me) = Some rd \<longrightarrow> reader_fails rd = None"
    and "\<forall>e \<in> set es. IsComplete e \<longrightarrow> check_with (length pre) (\<lambda>i. int (length (pre ! nat i))) e = None"
  shows "\<exists>m' cs skipped. pack_all w fh openFile m (ModifiedEntries el)
        = Some (Packed m' cs (map (packed_entry fh openFile) (ModifiedEntries el)) skipped)
    \<and> (\<forall>ops. mset ops = mset (chunk_reports hash cs) \<longrightarrow>
        (\<exists>out. ReadEntries c (finish_list el (map (packed_entry fh openFile) (ModifiedEntries el)) ops) = Inr out
          \<and> map (view (pre @ cs)) out = expected (pre @ cs) es
              (map (packed_entry fh openFile) (ModifiedEntries el)) (map (file_data openFile) (ModifiedEntries el))))"
proof -
  show ?thesis by (rule packed_list_reads [OF assms, of w fh hash]) blast
qed

theorem backup_gives_files_their_bytes_witness:
  "\<exists>m' cs skipped el out. pack_all True (\<lambda>bs. ''h'') (\<lambda>p. if p = ''a'' then Some [Data [1, 2], Data [3]] else Some [LastData [4, 5, 6, 7]])
        sample_maker [\<lparr>mPath = ''a'', mSize = -1, mHash = []\<rparr>, \<lparr>mPath = ''b'', mSize = -1, mHash = []\<rparr>]
        = Some (Packed m' cs (ModifiedEntries el) skipped)
    \<and> ReadEntries pair_codec el = Inr out
    \<and> map (view cs) out = [(''a'', 3, ''h'', [1, 2, 3]), (''b'', 4, ''h'', [4, 5, 6, 7])]"
proof -
  let ?es = "[CreateEntry ''a'' (-1) 0 0, CreateEntry ''b'' (-1) 0 0]"
  let ?open = "\<lambda>p. if p = ''a'' then Some [Data [1, 2], Data [3]] else Some [LastData [4, 5, 6, 7 :: byte]]"
  let ?el = "sample_list\<lparr>ModifiedEntries := [\<lparr>mPath = ''a'', mSize = -1, mHash = []\<rparr>, \<lparr>mPath = ''b'', mSize = -1, mHash = []\<rparr>],
     UploadedChunkLengths := []\<rparr>"
  have h: "holds pair_codec ?el ?es" by (simp add: holds_def sample_list_def CreateEntryList_def)
  have st: "\<forall>e \<in> set ?es. storable pair_codec e"
    by (simp add: storable_def pair_codec_def canonical_def CreateEntry_def EncodeMsgpack_def)
  have b: "0 < MinimumChunkSize (sample_config 2 4 8)"
    "MinimumChunkSize (sample_config 2 4 8) < MaximumChunkSize (sample_config 2 4 8)"
    by (simp_all add: sample_config_def)
  obtain m' cs skipped where p: "pack_all True (\<lambda>bs. ''h'') ?open sample_maker (ModifiedEntries ?el)
      = Some (Packed m' cs (map (packed_entry (\<lambda>bs. ''h'') ?open) (ModifiedEntries ?el)) skipped)"
    and r: "\<forall>ops. mset ops = mset (chunk_reports (\<lambda>bs. ''c'') cs) \<longrightarrow>
        (\<exists>out. ReadEntries pair_codec (finish_list ?el (map (packed_entry (\<lambda>bs. ''h'') ?open) (ModifiedEntries ?el)) ops) = Inr out
          \<and> map (view ([] @ cs)) out = expected ([] @ cs) ?es
              (map (packed_entry (\<lambda>bs. ''h'') ?open) (ModifiedEntries ?el)) (map (file_data ?open) (ModifiedEntries ?el)))"
    using backup_gives_files_their_bytes [OF sample_maker_created b h st, of "[]" ?open True "\<lambda>bs. ''h''" "\<lambda>bs. ''c''"]
    by (auto simp: sample_list_def CreateEntryList_def CreateEntry_def IsComplete_def)
  obtain out where out: "ReadEntries pair_codec (finish_list ?el (map (packed_entry (\<lambda>bs. ''h'') ?open) (ModifiedEntries ?el))
      (chunk_reports (\<lambda>bs. ''c'') cs)) = Inr out"
    "map (view cs) out = expected cs ?es (map (packed_entry (\<lambda>bs. ''h'') ?open) (ModifiedEntries ?el))
       (map (file_data ?open) (ModifiedEntries ?el))"
    using r by auto
  show ?thesis
    using p out
    by (intro exI [of _ m'] exI [of _ cs] exI [of _ skipped] exI [of _ out]
        exI [of _ "finish_list ?el (map (packed_entry (\<lambda>bs. ''h'') ?open) (ModifiedEntries ?el)) (chunk_reports (\<lambda>bs. ''c'') cs)"])
      (simp add: finish_list_def sample_list_def CreateEntry_def IsComplete_def packed_entry_def file_data_def)
qed

section \<open>A file that fails half-way shifts the next one\<close>

text \<open>
  C23. A cloud-only file that fails after some of it was read.  \<^verbatim>\<open>AddData\<close> reports the failure and
  the entry is skipped, but the bytes already read stay in the stream, and back-annotation does not
  advance over them: the file packed after it comes out with its own size and hash and with the
  slice that starts at the failed file's bytes, \<open>take (length d) (p @ d)\<close> instead of \<open>d\<close>.
\<close>

theorem cloud_failure_shifts_next_file:
  assumes "CreateFileChunkMaker sha cfg = Inr m"
    and "0 < MinimumChunkSize cfg" and "MinimumChunkSize cfg < MaximumChunkSize cfg"
    and "holds c el [ea, eb]" and "storable c ea" and "storable c eb"
    and "\<not> IsComplete ea" and "\<not> IsComplete eb"
    and "UploadedChunkHashes el = []" and "UploadedChunkLengths el = []"
    and "PreservedChunkLengths el = []" and "PreservedChunkHashes el = []"
    and "ModifiedEntries el = [\<lparr>mPath = Path ea, mSize = -1, mHash = []\<rparr>, \<lparr>mPath = Path eb, mSize = -1, mHash = []\<rparr>]"
    and "openFile (Path ea) = Some ra" and "reader_fails ra = Some err" and "isCloudFileError w err"
    and "openFile (Path eb) = Some rb" and "reader_fails rb = None" and "reader_data rb \<noteq> []"
  shows "\<exists>m' cs ms skipped out. pack_all w fh openFile m (ModifiedEntries el) = Some (Packed m' cs ms skipped)
    \<and> ReadEntries c (finish_list el ms (chunk_reports hash cs)) = Inr out
    \<and> map (view cs) out = [(Path eb, int (length (reader_data rb)), fh (reader_data rb),
         take (length (reader_data rb)) (reader_data ra @ reader_data rb))]"
proof -
  let ?d = "reader_data rb" and ?p = "reader_data ra"
  let ?ms = "map (packed_entry fh openFile) (ModifiedEntries el)"
  note m = CreateFileChunkMaker_ok [OF assms(2,3,1)]
  have ne: "Path ea \<noteq> Path eb" using assms(14,15,17,18) by auto
  have np: "no_panic w openFile (ModifiedEntries el)"
    using assms(13-18) ne by (auto simp: no_panic_def)
  obtain cs m' sk where p: "pack_all w fh openFile m (ModifiedEntries el) = Some (Packed m' cs ?ms sk)"
    and cs: "cs = maker_chunks m (concat (map (file_data openFile) (ModifiedEntries el)))"
    using pack_all_spec [OF m(1) np, of fh] m(2) by auto
  have ne_cs: "[] \<notin> set cs" unfolding cs by (rule spec_chunks_nonempty) (use m assms(2,3) in auto)
  have "concat cs = ?p @ ?d"
    unfolding cs using assms(13,14,17) by (simp add: spec_chunks_concat file_data_def)
  then have concat: "concat cs = concat [[], take (length ?d) (?p @ ?d)] @ drop (length ?d) (?p @ ?d)"
    by (simp only: concat.simps append_Nil append_Nil2 append_take_drop_id)
  have ms: "?ms = [\<lparr>mPath = Path ea, mSize = -1, mHash = []\<rparr>,
      \<lparr>mPath = Path eb, mSize = int (length ?d), mHash = fh ?d\<rparr>]"
    using assms(13-18) by (simp add: packed_entry_def)
  let ?E = "finish_list el ?ms (chunk_reports hash cs)"
  have up: "UploadedChunkLengths ?E = lengths_of cs"
    unfolding finish_list_def by (rule chunk_reports_any_order(2)) (use assms(9,10) in simp_all)
  have fields: "ModifiedEntries ?E = ?ms" "PreservedChunkLengths ?E = lengths_of []"
    "length (PreservedChunkHashes ?E) = length ([] :: bytes list)" "holds c ?E [ea, eb]"
    using assms(4,11,12) by (simp_all add: finish_list_def)
  have st: "\<forall>e \<in> set [ea, eb]. storable c e" using assms(5,6) by simp
  have paths: "map mPath (ModifiedEntries ?E) = map Path (filter (\<lambda>e. \<not> IsComplete e) [ea, eb])"
    using assms(7,8) by (subst fields(1), subst ms) simp
  have pk: "packed (ModifiedEntries ?E) [[], take (length ?d) (?p @ ?d)]"
    using assms(19) by (subst fields(1), subst ms) (simp add: packed_def)
  have cc: "\<forall>e \<in> set [ea, eb]. IsComplete e \<longrightarrow> checkEntry ?E e = None" using assms(7,8) by simp
  obtain out where "ReadEntries c ?E = Inr out"
    "map (view ([] @ cs)) out = expected ([] @ cs) [ea, eb] ?ms [[], take (length ?d) (?p @ ?d)]"
    using ReadEntries_prefix [OF fields(4) st fields(2,3) up ne_cs paths pk concat cc] fields(1) by metis
  then show ?thesis using p ms assms(7,8,19) by auto
qed

lemma cloud_error_sample: "isCloudFileError True '' Access to the cloud file is denied.''"
  unfolding isCloudFileError_def has_suffix_def by (simp only: simp_thms diff_self_eq_0 drop_0 order_refl)

theorem cloud_failure_shifts_next_file_witness:
  "\<exists>m' cs ms skipped el out. pack_all True (\<lambda>bs. ''h'')
       (\<lambda>p. if p = ''a'' then Some [Data [1, 2], ReadFail '' Access to the cloud file is denied.''] else Some [Data [3, 4, 5]])
       sample_maker [\<lparr>mPath = ''a'', mSize = -1, mHash = []\<rparr>, \<lparr>mPath = ''b'', mSize = -1, mHash = []\<rparr>]
       = Some (Packed m' cs ms skipped)
    \<and> ReadEntries pair_codec el = Inr out \<and> map (view cs) out = [(''b'', 3, ''h'', [1, 2, 3])]"
proof -
  let ?ea = "CreateEntry ''a'' (-1) 0 0" and ?eb = "CreateEntry ''b'' (-1) 0 0"
  let ?el = "sample_list\<lparr>ModifiedEntries := [\<lparr>mPath = ''a'', mSize = -1, mHash = []\<rparr>, \<lparr>mPath = ''b'', mSize = -1, mHash = []\<rparr>],
     UploadedChunkLengths := []\<rparr>"
  let ?open = "\<lambda>p. if p = ''a'' then Some [Data [1, 2], ReadFail '' Access to the cloud file is denied.''] else Some [Data [3, 4, 5 :: byte]]"
  have h: "holds pair_codec ?el [?ea, ?eb]" by (simp add: holds_def sample_list_def CreateEntryList_def)
  have st: "storable pair_codec ?ea" "storable pair_codec ?eb"
    by (simp_all add: storable_def pair_codec_def canonical_def CreateEntry_def EncodeMsgpack_def)
  have b: "0 < MinimumChunkSize (sample_config 2 4 8)"
    "MinimumChunkSize (sample_config 2 4 8) < MaximumChunkSize (sample_config 2 4 8)"
    by (simp_all add: sample_config_def)
  have "\<exists>m' cs ms skipped out. pack_all True (\<lambda>bs. ''h'') ?open sample_maker (ModifiedEntries ?el) = Some (Packed m' cs ms skipped)
    \<and> ReadEntries pair_codec (finish_list ?el ms (chunk_reports (\<lambda>bs. ''c'') cs)) = Inr out
    \<and> map (view cs) out = [(Path ?eb, int (length (reader_data [Data [3, 4, 5]])), ''h'',
         take (length (reader_data [Data [3, 4, 5]]))
           (reader_data [Data [1, 2], ReadFail '' Access to the cloud file is denied.''] @ reader_data [Data [3, 4, 5]]))]"
    by (rule cloud_failure_shifts_next_file [OF sample_maker_created b h st])
      (rule cloud_error_sample | simp add: sample_list_def CreateEntryList_def CreateEntry_def IsComplete_def)+
  then obtain m' cs ms skipped out where
    "pack_all True (\<lambda>bs. ''h'') ?open sample_maker (ModifiedEntries ?el) = Some (Packed m' cs ms skipped)"
    "ReadEntries pair_codec (finish_list ?el ms (chunk_reports (\<lambda>bs. ''c'') cs)) = Inr out"
    "map (view cs) out = [(Path ?eb, int (length (reader_data [Data [3, 4, 5]])), ''h'',
         take (length (reader_data [Data [3, 4, 5]]))
           (reader_data [Data [1, 2], ReadFail '' Access to the cloud file is denied.''] @ reader_data [Data [3, 4, 5]]))]"
    by (elim exE conjE)
  then show ?thesis
    by (intro exI [of _ m'] exI [of _ cs] exI [of _ ms] exI [of _ skipped] exI [of _ out]
        exI [of _ "finish_list ?el ms (chunk_reports (\<lambda>bs. ''c'') cs)"]) (simp add: CreateEntry_def)
qed

section \<open>The upload decision\<close>

lemma upload_chunks_Cons:
  assumes "upload_chunks getID keepAlive i cache (ck # cks) = (cache', ops)"
  obtains found ops1 where "found \<longleftrightarrow> getID ck \<in> cache \<and> \<not> keepAlive i"
    and "upload_chunks getID keepAlive (Suc i) (if found then cache else insert (getID ck) cache) cks = (cache', ops1)"
    and "ops = (i, ck, \<not> found) # ops1"
  using assms by (auto simp: Let_def split: prod.splits)

lemma upload_chunks_order:
  "upload_chunks getID keepAlive i cache cks = (cache', ops)
    \<Longrightarrow> map fst ops = [i..<i + length cks] \<and> map (\<lambda>op. fst (snd op)) ops = cks"
proof (induction cks arbitrary: i cache cache' ops)
  case (Cons ck cks)
  have "[i..<i + length (ck # cks)] = i # [Suc i..<Suc i + length cks]"
    by (simp add: upt_conv_Cons del: upt_Suc)
  then show ?case using Cons by (elim upload_chunks_Cons) (simp del: upt_Suc upload_chunks.simps)
qed simp

lemma upload_chunks_kept:
  "upload_chunks getID keepAlive i cache cks = (cache', ops) \<Longrightarrow> x \<in> set cks
    \<Longrightarrow> getID x \<in> cache \<or> (\<exists>k ck'. (k, ck', True) \<in> set ops \<and> getID ck' = getID x)"
proof (induction cks arbitrary: i cache cache' ops)
  case (Cons ck cks)
  obtain found ops1 where f: "found \<longleftrightarrow> getID ck \<in> cache \<and> \<not> keepAlive i"
    and r: "upload_chunks getID keepAlive (Suc i) (if found then cache else insert (getID ck) cache) cks = (cache', ops1)"
    and ops: "ops = (i, ck, \<not> found) # ops1"
    using Cons.prems(1) by (rule upload_chunks_Cons)
  show ?case
  proof (cases "getID x \<in> cache \<or> getID x = getID ck")
    case True
    moreover have "\<not> found \<Longrightarrow> (i, ck, True) \<in> set ops" using ops by simp
    ultimately show ?thesis using f by metis
  next
    case False
    then have "x \<in> set cks" "getID x \<notin> (if found then cache else insert (getID ck) cache)"
      using Cons.prems(2) by auto
    then show ?thesis using Cons.IH [OF r] ops by auto
  qed
qed simp

lemma upload_chunks_needed:
  "upload_chunks getID keepAlive i cache cks = (cache', ops) \<Longrightarrow> (k, x, True) \<in> set ops
    \<Longrightarrow> keepAlive k \<or> getID x \<notin> cache"
proof (induction cks arbitrary: i cache cache' ops)
  case (Cons ck cks)
  obtain found ops1 where f: "found \<longleftrightarrow> getID ck \<in> cache \<and> \<not> keepAlive i"
    and r: "upload_chunks getID keepAlive (Suc i) (if found then cache else insert (getID ck) cache) cks = (cache', ops1)"
    and ops: "ops = (i, ck, \<not> found) # ops1"
    using Cons.prems(1) by (rule upload_chunks_Cons)
  show ?case
  proof (cases "(k, x, True) \<in> set ops1")
    case True
    then show ?thesis using Cons.IH [OF r] by (auto split: if_splits)
  next
    case False
    then show ?thesis using Cons.prems(2) ops f by auto
  qed
qed simp

lemma upload_chunks_once:
  "upload_chunks getID keepAlive i cache cks = (cache', ops) \<Longrightarrow> \<forall>k. \<not> keepAlive k
    \<Longrightarrow> distinct (map (\<lambda>op. getID (fst (snd op))) (filter (\<lambda>op. snd (snd op)) ops))"
proof (induction cks arbitrary: i cache cache' ops)
  case (Cons ck cks)
  obtain found ops1 where f: "found \<longleftrightarrow> getID ck \<in> cache \<and> \<not> keepAlive i"
    and r: "upload_chunks getID keepAlive (Suc i) (if found then cache else insert (getID ck) cache) cks = (cache', ops1)"
    and ops: "ops = (i, ck, \<not> found) # ops1"
    using Cons.prems(1) by (rule upload_chunks_Cons)
  have "\<not> found \<Longrightarrow> getID ck \<notin> (\<lambda>op. getID (fst (snd op))) ` {op \<in> set ops1. snd (snd op)}"
    using upload_chunks_needed [OF r] Cons.prems(2) by fastforce
  then show ?case using Cons.IH [OF r Cons.prems(2)] ops by simp
qed simp

text \<open>
  C14. No chunk is left behind and none is sent for nothing.  The chunks are numbered from 0 in the
  order they are made; a chunk that is not given to the operator has its id in the initial cache or
  was given to it earlier in the run; and unless the connection had to be kept alive, what is given
  to the operator was not in the cache and is given once.
\<close>

theorem upload_chunks_complete:
  assumes "upload_chunks getID keepAlive i cache cks = (cache', ops)"
  shows "map fst ops = [i..<i + length cks] \<and> map (\<lambda>op. fst (snd op)) ops = cks
    \<and> (\<forall>ck \<in> set cks. getID ck \<in> cache \<or> (\<exists>k ck'. (k, ck', True) \<in> set ops \<and> getID ck' = getID ck))
    \<and> (\<forall>k ck. (k, ck, True) \<in> set ops \<longrightarrow> keepAlive k \<or> getID ck \<notin> cache)
    \<and> ((\<forall>k. \<not> keepAlive k) \<longrightarrow>
         distinct (map (\<lambda>op. getID (fst (snd op))) (filter (\<lambda>op. snd (snd op)) ops)))"
  using upload_chunks_order [OF assms] upload_chunks_kept [OF assms] upload_chunks_needed [OF assms]
    upload_chunks_once [OF assms] by blast

theorem upload_chunks_complete_witness:
  "\<exists>cache' ops. upload_chunks (\<lambda>s. s) (\<lambda>_. False) 0 {''x''} [''x'', ''y'', ''y''] = (cache', ops)
     \<and> map fst ops = [0, 1, 2] \<and> distinct (map (\<lambda>op. fst (snd op)) (filter (\<lambda>op. snd (snd op)) ops))"
proof -
  obtain cache' ops where r: "upload_chunks (\<lambda>s. s) (\<lambda>_. False) 0 {''x''} [''x'', ''y'', ''y''] = (cache', ops)"
    by (cases "upload_chunks (\<lambda>s. s) (\<lambda>_. False) 0 {''x''} [''x'', ''y'', ''y'']")
  have "map fst ops = [0, 1, 2]" "distinct (map (\<lambda>op. fst (snd op)) (filter (\<lambda>op. snd (snd op)) ops))"
    using upload_chunks_complete [OF r] by (simp_all add: upt_rec)
  then show ?thesis using r by (intro exI [of _ cache'] exI [of _ ops] conjI)
qed

end
