(* ===== verification/Chunk.thy ===== *)
theory Chunk
  imports Config Go_Strings "HOL-Library.Signed_Division"
begin

unbundle bit_operations_syntax

text \<open>
  Chunks and their stored form (\<^verbatim>\<open>src/src/duplicacy_chunk.go\<close>): the chunk object with its hash, id
  and checksum; \<^verbatim>\<open>Encrypt\<close>, which compresses, pads, seals and erasure-codes; and \<^verbatim>\<open>Decrypt\<close>, which
  undoes it, recovers damaged shards and says whether the chunk should be written again.
\<close>

section \<open>The packages used\<close>

text \<open>
  Hashes, compression, authenticated encryption, RSA and Reed-Solomon coding are libraries: a
  record of functions.  Errors are messages.  Random bytes are arguments of the operations.
\<close>

record chunk_lib =
  blake2 :: "bytes \<Rightarrow> bytes \<Rightarrow> bytes"
  hmac_sha256 :: "bytes \<Rightarrow> bytes \<Rightarrow> bytes"
  sum64 :: "bytes \<Rightarrow> 64 word"
  highway :: "bytes \<Rightarrow> bytes"
  wrong_highway :: "bytes \<Rightarrow> bytes"
  deflate :: "int \<Rightarrow> bytes \<Rightarrow> bytes"
  inflate :: "bytes \<Rightarrow> string + bytes"
  zstd_encode :: "int \<Rightarrow> bytes \<Rightarrow> string + bytes"
  zstd_decode :: "bytes \<Rightarrow> string + bytes"
  lz4_encode :: "bytes \<Rightarrow> string + bytes"
  lz4_decode :: "bytes \<Rightarrow> string + bytes"
  aes_error :: "bytes \<Rightarrow> string option"
  gcm_seal :: "bytes \<Rightarrow> bytes \<Rightarrow> bytes \<Rightarrow> bytes"
  gcm_open :: "bytes \<Rightarrow> bytes \<Rightarrow> bytes \<Rightarrow> string + bytes"
  rsa_encrypt :: "bytes \<Rightarrow> bytes \<Rightarrow> string + bytes"
  rsa_decrypt :: "bytes \<Rightarrow> bytes \<Rightarrow> string + bytes"
  rs_new :: "int \<Rightarrow> int \<Rightarrow> string option"
  rs_parity :: "nat \<Rightarrow> nat \<Rightarrow> bytes list \<Rightarrow> bytes list"
  rs_reconstruct :: "nat \<Rightarrow> nat \<Rightarrow> bytes list \<Rightarrow> string + bytes list"

text \<open>A hasher is created, written to and summed: the keyed hash of what was written.\<close>

definition NewKeyedHasher :: "chunk_lib \<Rightarrow> config \<Rightarrow> bytes \<Rightarrow> bytes \<Rightarrow> bytes" where
  "NewKeyedHasher lib cfg key = (if 100 \<le> CompressionLevel cfg then blake2 lib key else hmac_sha256 lib key)"

definition GetChunkIDFromHash :: "chunk_lib \<Rightarrow> config \<Rightarrow> string \<Rightarrow> string" where
  "GetChunkIDFromHash lib cfg h = hex_encode (string_of (NewKeyedHasher lib cfg (IDKey cfg) (bytes_of h)))"

section \<open>The chunk object\<close>

text \<open>
  \<open>cHasher\<close> and \<open>cChecksum\<close> hold what has been written to the hasher and to the checksum, \<open>None\<close> for
  a nil pointer; a chunk without buffer only counts and hashes.
\<close>

record chunk_obj =
  cBuffer :: "bytes option"
  cSize :: nat
  cHasher :: "bytes option"
  cChecksum :: "bytes option"
  cHash :: string
  cId :: string
  isMetadata :: bool
  isBroken :: bool
  isRawData :: bool

definition CreateChunk :: "bool \<Rightarrow> chunk_obj" where
  "CreateChunk bufferNeeded = \<lparr>cBuffer = (if bufferNeeded then Some [] else None), cSize = 0, cHasher = None,
     cChecksum = None, cHash = [], cId = [], isMetadata = False, isBroken = False, isRawData = False\<rparr>"

definition GetLength :: "chunk_obj \<Rightarrow> nat" where
  "GetLength c = (case cBuffer c of Some b \<Rightarrow> length b | None \<Rightarrow> cSize c)"

definition GetBytes :: "chunk_obj \<Rightarrow> bytes" where
  "GetBytes c = (case cBuffer c of Some b \<Rightarrow> b | None \<Rightarrow> [])"

definition Reset :: "bool \<Rightarrow> chunk_obj \<Rightarrow> chunk_obj" where
  "Reset hashNeeded c = c\<lparr>
     cBuffer := map_option (\<lambda>_. []) (cBuffer c), cSize := 0,
     cHasher := (if hashNeeded then Some [] else None),
     cChecksum := (if hashNeeded \<and> cBuffer c \<noteq> None then Some [] else None),
     cHash := [], cId := [], isMetadata := False, isBroken := False, isRawData := False\<rparr>"

definition Write :: "bytes \<Rightarrow> chunk_obj \<Rightarrow> chunk_obj" where
  "Write p c = c\<lparr>
     cBuffer := map_option (\<lambda>b. b @ p) (cBuffer c),
     cSize := (if cBuffer c = None then cSize c + length p else cSize c),
     cHasher := map_option (\<lambda>h. h @ p) (cHasher c),
     cChecksum := map_option (\<lambda>h. h @ p) (cChecksum c)\<rparr>"

text \<open>The hash and the id are computed once; with no hasher that is a nil dereference.\<close>

definition GetHash :: "chunk_lib \<Rightarrow> config \<Rightarrow> chunk_obj \<Rightarrow> (string \<times> chunk_obj) option" where
  "GetHash lib cfg c =
     (if cHash c \<noteq> [] then Some (cHash c, c)
      else case cHasher c of
             None \<Rightarrow> None
           | Some d \<Rightarrow> (let h = string_of (NewKeyedHasher lib cfg (HashKey cfg) d) in Some (h, c\<lparr>cHash := h\<rparr>)))"

definition GetID :: "chunk_lib \<Rightarrow> config \<Rightarrow> chunk_obj \<Rightarrow> (string \<times> chunk_obj) option" where
  "GetID lib cfg c =
     (if cId c \<noteq> [] then Some (cId c, c)
      else case GetHash lib cfg c of
             None \<Rightarrow> None
           | Some (h, c') \<Rightarrow> (let i = GetChunkIDFromHash lib cfg h in Some (i, c'\<lparr>cId := i\<rparr>)))"

definition SetStoredHash :: "chunk_lib \<Rightarrow> config \<Rightarrow> string \<Rightarrow> chunk_obj \<Rightarrow> chunk_obj" where
  "SetStoredHash lib cfg h c = c\<lparr>cHash := h, cId := GetChunkIDFromHash lib cfg h\<rparr>"

definition WriteRawData :: "chunk_lib \<Rightarrow> config \<Rightarrow> bytes \<Rightarrow> string \<Rightarrow> chunk_obj \<Rightarrow> chunk_obj" where
  "WriteRawData lib cfg d h c =
     (let c = Reset False c;
          c = (if cBuffer c \<noteq> None then c\<lparr>cChecksum := Some []\<rparr> else c)
      in (SetStoredHash lib cfg h (Write d c))\<lparr>isRawData := True\<rparr>)"

text \<open>\<^verbatim>\<open>VerifyChecksum\<close> panics when it answers \<open>False\<close>.\<close>

definition VerifyChecksum :: "chunk_lib \<Rightarrow> chunk_obj \<Rightarrow> bool" where
  "VerifyChecksum lib c = (case cChecksum c of None \<Rightarrow> True | Some d \<Rightarrow> sum64 lib (GetBytes c) = sum64 lib d)"

section \<open>Encrypt\<close>

definition ENCRYPTION_BANNER :: bytes where
  "ENCRYPTION_BANNER = bytes_of ''duplicacy'' @ [0]"

definition ENCRYPTION_VERSION_RSA :: byte where
  "ENCRYPTION_VERSION_RSA = 2"

definition ERASURE_CODING_BANNER :: bytes where
  "ERASURE_CODING_BANNER = bytes_of ''duplicacy'' @ [3]"

datatype coding_error = CodingError string | CodingPanic string

definition lift_error :: "string + 'a \<Rightarrow> coding_error + 'a" where
  "lift_error r = (case r of Inl e \<Rightarrow> Inl (CodingError e) | Inr x \<Rightarrow> Inr x)"

text \<open>The key, and what is written before the compressed data: banner, encrypted key, nonce.\<close>

definition encryption_header ::
  "chunk_lib \<Rightarrow> config \<Rightarrow> bytes \<Rightarrow> bytes \<Rightarrow> bytes \<Rightarrow> string \<Rightarrow> bool \<Rightarrow> coding_error + (bytes \<times> bytes)" where
  "encryption_header lib cfg randomKey nonce encryptionKey derivationKey metadata =
     (let usingRSA = (rsaPublicKey cfg \<noteq> None \<and> \<not> metadata);
          key = (if usingRSA then randomKey
                 else if derivationKey \<noteq> [] then NewKeyedHasher lib cfg (bytes_of derivationKey) encryptionKey
                 else encryptionKey)
      in case aes_error lib key of
           Some e \<Rightarrow> Inl (CodingError e)
         | None \<Rightarrow>
             if usingRSA
             then bindE (lift_error (rsa_encrypt lib (the (rsaPublicKey cfg)) key)) (\<lambda>encryptedKey.
               Inr (butlast ENCRYPTION_BANNER @ [ENCRYPTION_VERSION_RSA] @ le_bytes 2 (length encryptedKey)
                      @ encryptedKey @ nonce, key))
             else Inr (ENCRYPTION_BANNER @ nonce, key))"

definition compress_data :: "chunk_lib \<Rightarrow> int \<Rightarrow> bytes \<Rightarrow> coding_error + bytes" where
  "compress_data lib level d =
     (if -1 \<le> level \<and> level \<le> 9 then Inr (deflate lib level d)
      else if 200 \<le> level \<and> level \<le> 203
      then bindE (lift_error (zstd_encode lib level d)) (\<lambda>z. Inr (bytes_of ''ZSTD'' @ z))
      else if level = 100
      then bindE (lift_error (lz4_encode lib d)) (\<lambda>z. Inr (bytes_of ''LZ4 '' @ z))
      else Inl (CodingError ''Invalid compression level''))"

text \<open>The padding is as long as it may be: between 1 and 256 bytes, each holding its length.\<close>

definition pad_data :: "bytes \<Rightarrow> bytes" where
  "pad_data d = (let paddingLength = 256 - length d mod 256 in d @ replicate paddingLength (word_of_nat paddingLength))"

definition checksum_bytes :: "bytes \<Rightarrow> bytes" where
  "checksum_bytes h =
     [h ! 0 XOR h ! 2 XOR h ! 4 XOR h ! 6 XOR h ! 8 XOR h ! 10,
      h ! 1 XOR h ! 3 XOR h ! 5 XOR h ! 7 XOR h ! 9 XOR h ! 11]"

definition erasure_header :: "nat \<Rightarrow> nat \<Rightarrow> nat \<Rightarrow> bytes" where
  "erasure_header chunkSize dataShards parityShards =
     (let h = le_bytes 8 chunkSize @ le_bytes 2 dataShards @ le_bytes 2 parityShards in h @ checksum_bytes h)"

definition shard_size :: "nat \<Rightarrow> nat \<Rightarrow> nat" where
  "shard_size chunkSize dataShards = (chunkSize + dataShards - 1) div dataShards"

definition data_shards :: "nat \<Rightarrow> bytes \<Rightarrow> bytes list" where
  "data_shards D b =
     (let S = shard_size (length b) D; padded = b @ replicate (S * D - length b) 0
      in map (\<lambda>i. subslice (i * S) ((i + 1) * S) padded) [0..<D])"

definition erasure_file :: "nat \<Rightarrow> nat \<Rightarrow> nat \<Rightarrow> bytes list \<Rightarrow> bytes list \<Rightarrow> bytes" where
  "erasure_file chunkSize D P hashes shards =
     ERASURE_CODING_BANNER @ erasure_header chunkSize D P @ concat hashes @ concat shards @ erasure_header chunkSize D P"

definition erasure_encode :: "chunk_lib \<Rightarrow> config \<Rightarrow> bytes \<Rightarrow> coding_error + bytes" where
  "erasure_encode lib cfg b =
     (if DataShards cfg = 0 \<or> ParityShards cfg = 0 then Inr b
      else case rs_new lib (DataShards cfg) (ParityShards cfg) of
             Some e \<Rightarrow> Inl (CodingError e)
           | None \<Rightarrow>
               (let D = nat (DataShards cfg); P = nat (ParityShards cfg);
                    ds = data_shards D b;
                    shards = ds @ rs_parity lib D P ds
                in Inr (erasure_file (length b) D P (map (highway lib) shards) shards)))"

definition encode_chunk ::
  "chunk_lib \<Rightarrow> config \<Rightarrow> bytes \<Rightarrow> bytes \<Rightarrow> bytes \<Rightarrow> string \<Rightarrow> bool \<Rightarrow> bytes \<Rightarrow> coding_error + bytes" where
  "encode_chunk lib cfg randomKey nonce encryptionKey derivationKey metadata d =
     bindE (if encryptionKey = [] then Inr ([], [])
            else encryption_header lib cfg randomKey nonce encryptionKey derivationKey metadata) (\<lambda>(header, key).
     bindE (compress_data lib (CompressionLevel cfg) d) (\<lambda>z.
       erasure_encode lib cfg
         (if encryptionKey = [] then z else header @ gcm_seal lib key nonce (pad_data z))))"

text \<open>The checksum is dropped on every return, because it no longer describes the buffer.\<close>

definition Encrypt ::
  "chunk_lib \<Rightarrow> config \<Rightarrow> bytes \<Rightarrow> bytes \<Rightarrow> bytes \<Rightarrow> string \<Rightarrow> bool \<Rightarrow> chunk_obj
     \<Rightarrow> (coding_error option \<times> chunk_obj)" where
  "Encrypt lib cfg randomKey nonce encryptionKey derivationKey isMeta c =
     (if \<not> VerifyChecksum lib c then (Some (CodingPanic ''CHUNK_ID''), c)
      else case encode_chunk lib cfg randomKey nonce encryptionKey derivationKey (isMeta \<or> isMetadata c) (GetBytes c) of
             Inl e \<Rightarrow> (Some e, c\<lparr>cChecksum := None\<rparr>)
           | Inr b \<Rightarrow> (None, c\<lparr>cBuffer := Some b, cChecksum := None\<rparr>))"

section \<open>Decrypt\<close>

text \<open>Slicing out of range panics.\<close>

definition slice_bytes :: "int \<Rightarrow> int \<Rightarrow> bytes \<Rightarrow> coding_error + bytes" where
  "slice_bytes i j b =
     (if 0 \<le> i \<and> i \<le> j \<and> j \<le> int (length b) then Inr (subslice (nat i) (nat j) b)
      else Inl (CodingPanic ''slice bounds out of range''))"

definition to_int64 :: "nat \<Rightarrow> int" where
  "to_int64 n = (if n < 2 ^ 63 then int n else int n - 2 ^ 64)"

text \<open>The state of the loop over the shards; a shard that is not available is empty.\<close>

record shard_state =
  shardData :: "bytes list"
  recoveryNeeded :: bool
  rewriteNeeded :: bool
  availableShards :: nat
  wrongHashDetected :: bool

definition keep_shard :: "shard_state \<Rightarrow> nat \<Rightarrow> bytes \<Rightarrow> shard_state" where
  "keep_shard ss i part = ss\<lparr>shardData := (shardData ss)[i := part], availableShards := availableShards ss + 1\<rparr>"

fun shard_loop ::
  "chunk_lib \<Rightarrow> bool \<Rightarrow> bytes \<Rightarrow> int \<Rightarrow> int \<Rightarrow> int \<Rightarrow> nat \<Rightarrow> nat list \<Rightarrow> shard_state \<Rightarrow> coding_error + shard_state" where
  "shard_loop lib arm64 b hashOffset dataOffset shardSize D [] ss = Inr ss"
| "shard_loop lib arm64 b hashOffset dataOffset shardSize D (i # is) ss =
     (let start = dataOffset + int i * shardSize in
      if int (length b) < start + shardSize then Inr ss
      else bindE (slice_bytes start (start + shardSize) b) (\<lambda>part.
           bindE (slice_bytes (hashOffset + int i * 32) (hashOffset + (int i + 1) * 32) b) (\<lambda>h.
             let wrong = (highway lib part \<noteq> h \<and> arm64 \<and> wrong_highway lib part = h);
                 ss = (if wrong \<and> \<not> wrongHashDetected ss
                       then ss\<lparr>wrongHashDetected := True, rewriteNeeded := True\<rparr> else ss)
             in if highway lib part = h \<or> wrong
                then (if D \<le> availableShards (keep_shard ss i part) then Inr (keep_shard ss i part)
                      else shard_loop lib arm64 b hashOffset dataOffset shardSize D is (keep_shard ss i part))
                else shard_loop lib arm64 b hashOffset dataOffset shardSize D is
                       (if i < D then ss\<lparr>recoveryNeeded := True, rewriteNeeded := True\<rparr> else ss))))"

text \<open>
  The content of an erasure-coded file, given its header fields, and whether it is to be rewritten.
  The shard size is computed with the number of data shards of the configuration, which must not be
  zero.
\<close>

definition erasure_content ::
  "chunk_lib \<Rightarrow> bool \<Rightarrow> int \<Rightarrow> nat \<Rightarrow> nat \<Rightarrow> int \<Rightarrow> bytes \<Rightarrow> coding_error + (bytes \<times> bool)" where
  "erasure_content lib arm64 chunkSize D P shardSize b =
     (let hashOffset = 10 + 14; dataOffset = hashOffset + int (D + P) * 32 in
      bindE (shard_loop lib arm64 b hashOffset dataOffset shardSize D [0..<D + P]
        \<lparr>shardData = replicate (D + P) [], recoveryNeeded = False, rewriteNeeded = False,
         availableShards = 0, wrongHashDetected = False\<rparr>) (\<lambda>ss.
        if \<not> recoveryNeeded ss
        then bindE (slice_bytes dataOffset (dataOffset + chunkSize) b) (\<lambda>c. Inr (c, rewriteNeeded ss))
        else if availableShards ss < D then Inl (CodingError ''Not enough chunk data for recover'')
        else case rs_new lib (int D) (int P) of
               Some e \<Rightarrow> Inl (CodingError e)
             | None \<Rightarrow>
                 bindE (lift_error (rs_reconstruct lib D P (shardData ss))) (\<lambda>shards.
                 bindE (slice_bytes 0 chunkSize (concat (take D shards))) (\<lambda>c. Inr (c, rewriteNeeded ss)))))"

definition erasure_decode :: "chunk_lib \<Rightarrow> config \<Rightarrow> bool \<Rightarrow> bytes \<Rightarrow> coding_error + (bytes \<times> bool)" where
  "erasure_decode lib cfg arm64 b =
     (if \<not> (10 < length b \<and> take 10 b = ERASURE_CODING_BANNER) then Inr (b, False)
      else if length b < 10 + 14 then Inl (CodingError ''Erasure coding header truncated'')
      else
        (let header = subslice 10 24 b in
         if drop 12 header \<noteq> checksum_bytes header then Inl (CodingError ''Erasure coding header corrupted'')
         else
           (let chunkSize = to_int64 (from_le (take 8 header));
                D = from_le (subslice 8 10 header); P = from_le (subslice 10 12 header)
            in if DataShards cfg = 0 then Inl (CodingPanic ''integer divide by zero'')
               else
                 (let shardSize = (chunkSize + DataShards cfg - 1) sdiv DataShards cfg;
                      expectedLength = 10 + 2 * 14 + int (D + P) * (shardSize + 32);
                      minimumLength = 10 + 14 + int (D + P) * 32 + int D * shardSize
                  in if int (length b) \<ge> expectedLength \<or> int (length b) > minimumLength
                     then erasure_content lib arm64 chunkSize D P shardSize b
                     else Inl (CodingError ''Not enough chunk data for recovery'')))))"

definition unpad_data :: "nat \<Rightarrow> bytes \<Rightarrow> coding_error + bytes" where
  "unpad_data offset decrypted =
     (let v = unat (last decrypted); paddingLength = (if v = 0 then 256 else v) in
      if length decrypted \<le> paddingLength then Inl (CodingError ''Incorrect padding length'')
      else if \<exists>x \<in> set (drop (length decrypted - paddingLength) decrypted). x \<noteq> word_of_nat paddingLength
      then Inl (CodingError ''Incorrect padding'')
      else Inr (drop offset (take (length decrypted - paddingLength) decrypted)))"

definition open_chunk ::
  "chunk_lib \<Rightarrow> config \<Rightarrow> bool \<Rightarrow> bytes \<Rightarrow> string \<Rightarrow> bytes \<Rightarrow> coding_error + bytes" where
  "open_chunk lib cfg decryptWithHMACSHA256 encryptionKey derivationKey b =
     (if encryptionKey = [] then Inr b
      else if length b < 10 + 12 then Inl (CodingError ''No enough encrypted data'')
      else if take 9 b \<noteq> butlast ENCRYPTION_BANNER then Inl (CodingError ''The storage does not seem to be encrypted'')
      else if b ! 9 \<noteq> 0 \<and> b ! 9 \<noteq> ENCRYPTION_VERSION_RSA then Inl (CodingError ''Unsupported encryption version'')
      else
        bindE (if b ! 9 = ENCRYPTION_VERSION_RSA
               then (case rsaPrivateKey cfg of
                       None \<Rightarrow> Inl (CodingPanic ''CHUNK_DECRYPT'')
                     | Some priv \<Rightarrow>
                         (let n = from_le (subslice 10 12 b) in
                          if length b < 10 + 14 + n then Inl (CodingError ''No enough encrypted data'')
                          else bindE (lift_error (rsa_decrypt lib priv (subslice 12 (12 + n) b))) (\<lambda>key.
                                 Inr (12 + n, key))))
               else Inr (10, if derivationKey = [] then encryptionKey
                             else if decryptWithHMACSHA256 then hmac_sha256 lib (bytes_of derivationKey) encryptionKey
                             else NewKeyedHasher lib cfg (bytes_of derivationKey) encryptionKey)) (\<lambda>(bannerLength, key).
        case aes_error lib key of
          Some e \<Rightarrow> Inl (CodingError e)
        | None \<Rightarrow>
            (let offset = bannerLength + 12; nonce = subslice bannerLength offset b in
             bindE (lift_error (gcm_open lib key nonce (drop offset b))) (\<lambda>plain.
               unpad_data offset (take offset b @ plain)))))"

definition decompress_data :: "chunk_lib \<Rightarrow> bytes \<Rightarrow> coding_error + bytes" where
  "decompress_data lib z =
     (if 4 < length z \<and> take 4 z = bytes_of ''LZ4 '' then lift_error (lz4_decode lib (drop 4 z))
      else if 4 < length z \<and> take 4 z = bytes_of ''ZSTD'' then lift_error (zstd_decode lib (drop 4 z))
      else lift_error (inflate lib z))"

text \<open>The stored form without erasure coding and encryption, and then the data.\<close>

definition stored_payload ::
  "chunk_lib \<Rightarrow> config \<Rightarrow> bool \<Rightarrow> bool \<Rightarrow> bytes \<Rightarrow> string \<Rightarrow> bytes \<Rightarrow> coding_error + (bytes \<times> bool)" where
  "stored_payload lib cfg arm64 hmac256 encryptionKey derivationKey b =
     bindE (erasure_decode lib cfg arm64 b) (\<lambda>(c, rewrite).
     bindE (open_chunk lib cfg hmac256 encryptionKey derivationKey c) (\<lambda>z. Inr (z, rewrite)))"

definition decode_chunk ::
  "chunk_lib \<Rightarrow> config \<Rightarrow> bool \<Rightarrow> bool \<Rightarrow> bytes \<Rightarrow> string \<Rightarrow> bytes \<Rightarrow> coding_error + (bytes \<times> bool)" where
  "decode_chunk lib cfg arm64 hmac256 encryptionKey derivationKey b =
     bindE (stored_payload lib cfg arm64 hmac256 encryptionKey derivationKey b) (\<lambda>(z, rewrite).
     bindE (decompress_data lib z) (\<lambda>d. Inr (d, rewrite)))"

text \<open>
  After a success the buffer holds the data and the hasher has been given it; a checksum, if there
  is one, is only updated by the decompressors that write to the chunk.
\<close>

definition Decrypt ::
  "chunk_lib \<Rightarrow> config \<Rightarrow> bool \<Rightarrow> bool \<Rightarrow> bytes \<Rightarrow> string \<Rightarrow> chunk_obj \<Rightarrow> coding_error + (bool \<times> chunk_obj)" where
  "Decrypt lib cfg arm64 hmac256 encryptionKey derivationKey c =
     bindE (stored_payload lib cfg arm64 hmac256 encryptionKey derivationKey (GetBytes c)) (\<lambda>(z, rewrite).
     bindE (decompress_data lib z) (\<lambda>d.
       Inr (rewrite, c\<lparr>cBuffer := Some d, cHasher := Some d, cHash := [],
         cChecksum := (if 4 < length z \<and> take 4 z = bytes_of ''LZ4 '' then cChecksum c
                       else map_option (\<lambda>h. h @ d) (cChecksum c))\<rparr>)))"

section \<open>What the packages promise\<close>

definition packages_ok :: "chunk_lib \<Rightarrow> bool" where
  "packages_ok lib \<longleftrightarrow>
     (\<forall>l d. -1 \<le> l \<and> l \<le> 9 \<longrightarrow> inflate lib (deflate lib l d) = Inr d \<and> (\<exists>t. deflate lib l d = 0x78 # t))
   \<and> (\<forall>l d z. zstd_encode lib l d = Inr z \<longrightarrow> zstd_decode lib z = Inr d \<and> z \<noteq> [])
   \<and> (\<forall>d z. lz4_encode lib d = Inr z \<longrightarrow> lz4_decode lib z = Inr d \<and> z \<noteq> [])
   \<and> (\<forall>k n p. aes_error lib k = None \<longrightarrow> gcm_open lib k n (gcm_seal lib k n p) = Inr p)"

definition shards_ok :: "chunk_lib \<Rightarrow> nat \<Rightarrow> nat \<Rightarrow> bool" where
  "shards_ok lib D P \<longleftrightarrow> (\<forall>b. length (highway lib b) = 32)
   \<and> (\<forall>ds S. length ds = D \<and> (\<forall>x \<in> set ds. length x = S) \<longrightarrow>
        length (rs_parity lib D P ds) = P \<and> (\<forall>x \<in> set (rs_parity lib D P ds). length x = S)
      \<and> (\<forall>known. length known = D + P
           \<and> (\<forall>i < D + P. known ! i = [] \<or> known ! i = (ds @ rs_parity lib D P ds) ! i)
           \<and> D \<le> length (filter (\<lambda>x. x \<noteq> []) known)
           \<longrightarrow> (\<exists>all. rs_reconstruct lib D P known = Inr all \<and> take D all = ds)))"

lemma packages_okD:
  assumes "packages_ok lib"
  shows "-1 \<le> l \<Longrightarrow> l \<le> 9 \<Longrightarrow> inflate lib (deflate lib l d) = Inr d"
    and "-1 \<le> l \<Longrightarrow> l \<le> 9 \<Longrightarrow> \<exists>t. deflate lib l d = 0x78 # t"
    and "zstd_encode lib l d = Inr z \<Longrightarrow> zstd_decode lib z = Inr d \<and> z \<noteq> []"
    and "lz4_encode lib d = Inr z \<Longrightarrow> lz4_decode lib z = Inr d \<and> z \<noteq> []"
    and "aes_error lib k = None \<Longrightarrow> gcm_open lib k n (gcm_seal lib k n x) = Inr x"
  using assms unfolding packages_ok_def by blast+

lemma decompress_compressed:
  assumes "packages_ok lib" and "compress_data lib level d = Inr z"
  shows "decompress_data lib z = Inr d \<and> z \<noteq> []"
proof -
  consider "-1 \<le> level" "level \<le> 9" | "200 \<le> level" "level \<le> 203" | "level = 100"
    using assms(2) by (auto simp: compress_data_def split: if_splits)
  then show ?thesis
  proof cases
    case 1
    have z: "z = deflate lib level d" using assms(2) 1 by (simp add: compress_data_def)
    obtain t where "z = 0x78 # t" using packages_okD(2) [OF assms(1) 1] z by blast
    moreover have "inflate lib z = Inr d" using packages_okD(1) [OF assms(1) 1] z by simp
    ultimately show ?thesis by (simp add: decompress_data_def bytes_of_def lift_error_def)
  next
    case 2
    then obtain y where "zstd_encode lib level d = Inr y" "z = bytes_of ''ZSTD'' @ y"
      using assms(2) by (auto simp: compress_data_def lift_error_def bindE_Inr split: if_splits sum.splits)
    moreover from this(1) have "zstd_decode lib y = Inr d" "y \<noteq> []"
      using packages_okD(3) [OF assms(1)] by blast+
    ultimately show ?thesis by (cases y) (simp_all add: decompress_data_def lift_error_def bytes_of_def)
  next
    case 3
    then obtain y where "lz4_encode lib d = Inr y" "z = bytes_of ''LZ4 '' @ y"
      using assms(2) by (auto simp: compress_data_def lift_error_def bindE_Inr split: if_splits sum.splits)
    moreover from this(1) have "lz4_decode lib y = Inr d" "y \<noteq> []"
      using packages_okD(4) [OF assms(1)] by blast+
    ultimately show ?thesis by (cases y) (simp_all add: decompress_data_def lift_error_def bytes_of_def)
  qed
qed

lemma unpad_padded:
  assumes len: "length pre = offset" and pos: "0 < offset"
  shows "unpad_data offset (pre @ pad_data z) = Inr z"
proof -
  define n where "n = 256 - length z mod 256"
  have n: "0 < n" "n \<le> 256" by (simp_all add: n_def)
  have pad: "pad_data z = z @ replicate n (word_of_nat n)" by (simp add: pad_data_def n_def Let_def)
  have "last (pre @ pad_data z) = word_of_nat n" using n by (simp add: pad)
  moreover have "unat (word_of_nat n :: byte) = (if n = 256 then 0 else n)" using n by (auto simp: unat_of_nat)
  ultimately have v: "(if unat (last (pre @ pad_data z)) = 0 then 256 else unat (last (pre @ pad_data z))) = n"
    using n by auto
  have "\<not> length (pre @ pad_data z) \<le> n" using pos len by (simp add: pad)
  moreover have "length (pre @ pad_data z) - n = length pre + length z" by (simp add: pad)
  ultimately show ?thesis
    using len unfolding unpad_data_def Let_def v by (simp add: pad)
qed

lemma banner_facts [simp]:
  "length ENCRYPTION_BANNER = 10" "length ERASURE_CODING_BANNER = 10" "length (butlast ENCRYPTION_BANNER) = 9"
  by (simp_all add: ENCRYPTION_BANNER_def ERASURE_CODING_BANNER_def)

definition rsa_pair_ok :: "chunk_lib \<Rightarrow> config \<Rightarrow> bool" where
  "rsa_pair_ok lib cfg \<longleftrightarrow> (\<exists>priv. rsaPrivateKey cfg = Some priv
     \<and> (\<forall>k c. rsa_encrypt lib (the (rsaPublicKey cfg)) k = Inr c \<longrightarrow> rsa_decrypt lib priv c = Inr k \<and> length c < 2 ^ 16))"

lemma header_shape:
  assumes "encryption_header lib cfg rk nonce ek dk metadata = Inr (header, key)"
  shows "aes_error lib key = None \<and>
    (if rsaPublicKey cfg \<noteq> None \<and> \<not> metadata
     then \<exists>c. rsa_encrypt lib (the (rsaPublicKey cfg)) key = Inr c
       \<and> header = butlast ENCRYPTION_BANNER @ [ENCRYPTION_VERSION_RSA] @ le_bytes 2 (length c) @ c @ nonce
     else header = ENCRYPTION_BANNER @ nonce
       \<and> key = (if dk \<noteq> [] then NewKeyedHasher lib cfg (bytes_of dk) ek else ek))"
  using assms
  by (auto simp: encryption_header_def Let_def lift_error_def bindE_def split: if_splits option.splits sum.splits)

lemma open_chunk_steps:
  assumes "ek \<noteq> []" and "22 \<le> length b" and "take 9 b = butlast ENCRYPTION_BANNER"
    and "b ! 9 = 0 \<and> start = 10 \<and> key = (if dk \<noteq> [] then NewKeyedHasher lib cfg (bytes_of dk) ek else ek)
       \<or> b ! 9 = 2 \<and> rsaPrivateKey cfg = Some priv \<and> n = from_le (subslice 10 12 b) \<and> 24 + n \<le> length b
         \<and> rsa_decrypt lib priv (subslice 12 (12 + n) b) = Inr key \<and> start = 12 + n"
    and "aes_error lib key = None" and "gcm_open lib key (subslice start (start + 12) b) (drop (start + 12) b) = Inr plain"
  shows "open_chunk lib cfg False ek dk b = unpad_data (start + 12) (take (start + 12) b @ plain)"
  using assms by (auto simp: open_chunk_def ENCRYPTION_VERSION_RSA_def lift_error_def Let_def)

lemma open_sealed_plain:
  assumes "packages_ok lib" and "ek \<noteq> []" and "length nonce = 12" and "aes_error lib key = None"
    and "key = (if dk \<noteq> [] then NewKeyedHasher lib cfg (bytes_of dk) ek else ek)"
  shows "open_chunk lib cfg False ek dk ((ENCRYPTION_BANNER @ nonce) @ gcm_seal lib key nonce (pad_data z)) = Inr z"
proof -
  let ?g = "gcm_seal lib key nonce (pad_data z)"
  let ?b = "(ENCRYPTION_BANNER @ nonce) @ ?g"
  have s: "subslice 10 (10 + 12) ?b = nonce" "drop (10 + 12) ?b = ?g" "take (10 + 12) ?b = ENCRYPTION_BANNER @ nonce"
    using assms(3) by (simp_all add: subslice_def)
  have g: "gcm_open lib key (subslice 10 (10 + 12) ?b) (drop (10 + 12) ?b) = Inr (pad_data z)"
    unfolding s by (rule packages_okD(5) [OF assms(1,4)])
  have b: "take 9 ?b = butlast ENCRYPTION_BANNER" "?b ! 9 = 0" "22 \<le> length ?b"
    using assms(3) by (simp_all add: ENCRYPTION_BANNER_def nth_append butlast_append)
  have "open_chunk lib cfg False ek dk ?b = unpad_data (10 + 12) (take (10 + 12) ?b @ pad_data z)"
    by (rule open_chunk_steps [OF assms(2) b(3,1) _ assms(4) g]) (use b(2) assms(5) in blast)
  then show ?thesis using unpad_padded [of "ENCRYPTION_BANNER @ nonce" 22 z] assms(3) by (simp only: s) simp
qed

lemma open_sealed_rsa:
  assumes "packages_ok lib" and "ek \<noteq> []" and "length nonce = 12" and "aes_error lib key = None"
    and "rsaPrivateKey cfg = Some priv" and "rsa_decrypt lib priv c = Inr key" and "length c < 2 ^ 16"
  defines "header \<equiv> butlast ENCRYPTION_BANNER @ [ENCRYPTION_VERSION_RSA] @ le_bytes 2 (length c) @ c @ nonce"
  shows "open_chunk lib cfg False ek dk (header @ gcm_seal lib key nonce (pad_data z)) = Inr z"
proof -
  let ?g = "gcm_seal lib key nonce (pad_data z)"
  let ?b = "header @ ?g" and ?o = "12 + length c + 12"
  have l: "length header = ?o" using assms(3) by (simp add: header_def)
  have s: "subslice (12 + length c) (12 + length c + 12) ?b = nonce" "drop ?o ?b = ?g" "take ?o ?b = header"
    using assms(3) l by (simp_all add: header_def subslice_def take_Cons' drop_Cons')
  have g: "gcm_open lib key (subslice (12 + length c) (12 + length c + 12) ?b) (drop ?o ?b) = Inr (pad_data z)"
    unfolding s by (rule packages_okD(5) [OF assms(1,4)])
  have b: "take 9 ?b = butlast ENCRYPTION_BANNER" "?b ! 9 = 2" "22 \<le> length ?b" "24 + length c \<le> length ?b"
    using l by (simp_all add: header_def nth_append ENCRYPTION_VERSION_RSA_def)
  have c: "length c = from_le (subslice 10 12 ?b)" "subslice 12 (12 + length c) ?b = c"
    using from_le_le_bytes [of "length c" 2] assms(7) by (simp_all add: header_def subslice_def)
  have d: "rsa_decrypt lib priv (subslice 12 (12 + length c) ?b) = Inr key" unfolding c(2) by (rule assms(6))
  have "open_chunk lib cfg False ek dk ?b = unpad_data ?o (take ?o ?b @ pad_data z)"
    by (rule open_chunk_steps [OF assms(2) b(3,1) _ assms(4) g, where n = "length c" and priv = priv],
        rule disjI2) (intro conjI b(2) assms(5) c(1) b(4) d refl)
  then show ?thesis using unpad_padded [of header ?o z] l by (simp only: s)
qed

lemma open_sealed:
  assumes "packages_ok lib" and "ek \<noteq> []" and "length nonce = 12"
    and "encryption_header lib cfg rk nonce ek dk metadata = Inr (header, key)"
    and "rsaPublicKey cfg \<noteq> None \<and> \<not> metadata \<Longrightarrow> rsa_pair_ok lib cfg"
  shows "open_chunk lib cfg False ek dk (header @ gcm_seal lib key nonce (pad_data z)) = Inr z"
proof (cases "rsaPublicKey cfg \<noteq> None \<and> \<not> metadata")
  case True
  then obtain c where c: "rsa_encrypt lib (the (rsaPublicKey cfg)) key = Inr c" "aes_error lib key = None"
    and h: "header = butlast ENCRYPTION_BANNER @ [ENCRYPTION_VERSION_RSA] @ le_bytes 2 (length c) @ c @ nonce"
    using header_shape [OF assms(4)] by auto
  obtain priv where "rsaPrivateKey cfg = Some priv" "rsa_decrypt lib priv c = Inr key" "length c < 2 ^ 16"
    using assms(5) [OF True] c(1) unfolding rsa_pair_ok_def by blast
  then show ?thesis unfolding h using assms(1-3) c(2) by (intro open_sealed_rsa)
next
  case False
  then show ?thesis
    using header_shape [OF assms(4)] open_sealed_plain [OF assms(1-3), of key dk cfg z] by auto
qed

section \<open>Erasure coding\<close>

lemma erasure_header_fields:
  assumes "n < 2 ^ 63" "D < 2 ^ 16" "P < 2 ^ 16"
  defines "h \<equiv> erasure_header n D P"
  shows "length h = 14" "drop 12 h = checksum_bytes h" "to_int64 (from_le (take 8 h)) = int n"
    "from_le (subslice 8 10 h) = D" "from_le (subslice 10 12 h) = P"
proof -
  let ?f = "le_bytes 8 n @ le_bytes 2 D @ le_bytes 2 P"
  have h: "h = ?f @ checksum_bytes ?f" by (simp add: h_def erasure_header_def Let_def)
  have "checksum_bytes (?f @ c) = checksum_bytes ?f" for c
    by (simp add: checksum_bytes_def nth_append)
  then show "drop 12 h = checksum_bytes h" by (simp add: h)
  show "length h = 14" by (simp add: h checksum_bytes_def)
  show "to_int64 (from_le (take 8 h)) = int n"
    using assms(1) from_le_le_bytes [of n 8] by (simp add: h to_int64_def)
  show "from_le (subslice 8 10 h) = D" "from_le (subslice 10 12 h) = P"
    using assms(2,3) from_le_le_bytes [of D 2] from_le_le_bytes [of P 2] by (simp_all add: h subslice_def)
qed

lemma subslice_shift: "length pre = m \<Longrightarrow> subslice (m + i) (m + j) (pre @ xs) = subslice i j xs"
  by (simp add: subslice_def)

lemma length_concat_uniform: "\<forall>x \<in> set xs. length x = k \<Longrightarrow> length (concat xs) = length xs * k"
  by (induction xs) simp_all

lemma subslice_concat_uniform:
  "\<forall>x \<in> set xs. length x = k \<Longrightarrow> i < length xs \<Longrightarrow> subslice (i * k) (i * k + k) (concat xs) = xs ! i"
proof (induction xs arbitrary: i)
  case (Cons x xs)
  then show ?case
    by (cases i) (auto simp: subslice_def add.commute [of k])
qed simp

lemma erasure_file_slices:
  assumes "length hs = N" "length shards = N" "\<forall>h \<in> set hs. length h = 32" "\<forall>x \<in> set shards. length x = S"
    and "length (erasure_header n D P) = 14"
  defines "b \<equiv> erasure_file n D P hs shards"
  shows "length b = 38 + N * (S + 32)" "take 10 b = ERASURE_CODING_BANNER" "subslice 10 24 b = erasure_header n D P"
    "i < N \<Longrightarrow> subslice (24 + i * 32) (24 + i * 32 + 32) b = hs ! i"
    "i < N \<Longrightarrow> subslice (24 + N * 32 + i * S) (24 + N * 32 + i * S + S) b = shards ! i"
    "n' \<le> N * S \<Longrightarrow> subslice (24 + N * 32) (24 + N * 32 + n') b = take n' (concat shards)"
proof -
  let ?H = "erasure_header n D P"
  have l: "length (concat hs) = N * 32" "length (concat shards) = N * S"
    using length_concat_uniform [OF assms(3)] length_concat_uniform [OF assms(4)] assms(1,2) by (simp_all only:)
  have b1: "b = (ERASURE_CODING_BANNER @ ?H) @ (concat hs @ concat shards @ ?H)"
    and b2: "b = (ERASURE_CODING_BANNER @ ?H @ concat hs) @ (concat shards @ ?H)"
    by (simp_all add: b_def erasure_file_def)
  have p1: "length (ERASURE_CODING_BANNER @ ?H) = 24" and p2: "length (ERASURE_CODING_BANNER @ ?H @ concat hs) = 24 + N * 32"
    using assms(5) l by simp_all
  show "length b = 38 + N * (S + 32)" using assms(5) l by (simp add: b1 algebra_simps)
  show "take 10 b = ERASURE_CODING_BANNER" by (simp add: b1)
  show "subslice 10 24 b = ?H" using assms(5) by (simp add: b1 subslice_def)
  have bound: "i * k + k \<le> N * k" if "i < N" for i k
    using that by (metis Suc_leI add.commute mult_Suc mult_le_mono1)
  show "i < N \<Longrightarrow> subslice (24 + i * 32) (24 + i * 32 + 32) b = hs ! i"
    using subslice_shift [OF p1, of "i * 32" "i * 32 + 32" "concat hs @ concat shards @ ?H"]
      subslice_concat_uniform [OF assms(3), of i] bound [of i 32] assms(1) l
    by (simp only: b1 add.assoc subslice_append_left)
  show "i < N \<Longrightarrow> subslice (24 + N * 32 + i * S) (24 + N * 32 + i * S + S) b = shards ! i"
    using subslice_shift [OF p2, of "i * S" "i * S + S" "concat shards @ ?H"]
      subslice_concat_uniform [OF assms(4), of i] bound [of i S] assms(2) l
    by (simp only: b2 add.assoc subslice_append_left)
  show "n' \<le> N * S \<Longrightarrow> subslice (24 + N * 32) (24 + N * 32 + n') b = take n' (concat shards)"
    using subslice_shift [OF p2, of 0 n' "concat shards @ ?H"] l
    by (simp only: b2 add_0_right slice_simps take_append diff_is_0_eq [THEN iffD2] take_0 append_Nil2)
qed

text \<open>
  The loop over the shards of such a file: \<open>good\<close> tells which shards have the recorded hash.  With
  at least \<open>D\<close> good shards it ends with \<open>D\<close> of them, each at its place, and asks for recovery
  exactly when one of the data shards is damaged.
\<close>

definition shards_inv :: "nat \<Rightarrow> nat \<Rightarrow> (nat \<Rightarrow> bool) \<Rightarrow> bytes list \<Rightarrow> nat \<Rightarrow> shard_state \<Rightarrow> bool" where
  "shards_inv N D good shards i ss \<longleftrightarrow>
     length (shardData ss) = N \<and> \<not> wrongHashDetected ss
   \<and> (\<forall>j < N. shardData ss ! j = (if j < i \<and> good j then shards ! j else []))
   \<and> availableShards ss = card {j. j < i \<and> good j}
   \<and> (recoveryNeeded ss \<longleftrightarrow> (\<exists>j < i. j < D \<and> \<not> good j))
   \<and> (rewriteNeeded ss \<longleftrightarrow> recoveryNeeded ss)"

lemma card_less_Suc_if: "card {j. j < Suc i \<and> good j} = card {j. j < i \<and> good j} + (if good i then 1 else 0)"
proof -
  have "{j. j < Suc i \<and> good j} = (if good i then insert i {j. j < i \<and> good j} else {j. j < i \<and> good j})"
    by (auto simp: less_Suc_eq)
  then show ?thesis by simp
qed

lemma ex_less_Suc: "(\<exists>j < Suc i. Q j) \<longleftrightarrow> (\<exists>j < i. Q j) \<or> Q i"
  by (auto simp: less_Suc_eq)

lemma shards_inv_good:
  assumes "shards_inv N D good shards i ss" and "i < N" and "good i"
  shows "shards_inv N D good shards (Suc i) (keep_shard ss i (shards ! i))"
proof -
  have "\<forall>j < N. (shardData ss)[i := shards ! i] ! j = (if j < Suc i \<and> good j then shards ! j else [])"
    using assms by (auto simp: shards_inv_def nth_list_update less_Suc_eq)
  then show ?thesis
    using assms by (simp add: shards_inv_def keep_shard_def card_less_Suc_if ex_less_Suc del: less_Suc_eq)
qed

lemma shards_inv_bad:
  assumes "shards_inv N D good shards i ss" and "i < N" and "\<not> good i"
  shows "shards_inv N D good shards (Suc i) (if i < D then ss\<lparr>recoveryNeeded := True, rewriteNeeded := True\<rparr> else ss)"
proof -
  have "\<forall>j < N. shardData ss ! j = (if j < Suc i \<and> good j then shards ! j else [])"
    using assms by (auto simp: shards_inv_def less_Suc_eq)
  then show ?thesis
    using assms by (auto simp: shards_inv_def card_less_Suc_if ex_less_Suc simp del: less_Suc_eq)
qed

lemma shard_loop_spec:
  assumes "\<And>j. j < N \<Longrightarrow> slice_bytes (d + int j * S) (d + int j * S + S) b = Inr (shards ! j)"
    and "\<And>j. j < N \<Longrightarrow> slice_bytes (h + int j * 32) (h + (int j + 1) * 32) b = Inr (hs ! j)"
    and "\<And>j. j < N \<Longrightarrow> d + int j * S + S \<le> int (length b)"
    and good: "\<And>j. j < N \<Longrightarrow> good j \<longleftrightarrow> highway lib (shards ! j) = hs ! j"
    and "D \<le> card {j. j < N \<and> good j}" and "i \<le> N" and "availableShards ss < D" and "shards_inv N D good shards i ss"
  shows "\<exists>k ss'. shard_loop lib False b h d S D [i..<N] ss = Inr ss' \<and> k \<le> N \<and> shards_inv N D good shards k ss'
    \<and> D \<le> availableShards ss'"
  using assms(6-)
proof (induction "N - i" arbitrary: i ss)
  case 0
  then have "i = N" by simp
  then show ?case using 0 assms(5) by (simp add: shards_inv_def)
next
  case (Suc m)
  then have i: "i < N" and m: "m = N - Suc i" "Suc i \<le> N" by simp_all
  have step: "shard_loop lib False b h d S D [i..<N] ss =
      (if good i then (if D \<le> availableShards (keep_shard ss i (shards ! i)) then Inr (keep_shard ss i (shards ! i))
         else shard_loop lib False b h d S D [Suc i..<N] (keep_shard ss i (shards ! i)))
       else shard_loop lib False b h d S D [Suc i..<N]
         (if i < D then ss\<lparr>recoveryNeeded := True, rewriteNeeded := True\<rparr> else ss))"
    using i assms(1-3) [OF i] by (simp add: upt_conv_Cons good [OF i] Let_def)
  show ?case
  proof (cases "good i")
    case True
    note inv = shards_inv_good [OF Suc.prems(3) i True]
    show ?thesis
    proof (cases "D \<le> availableShards (keep_shard ss i (shards ! i))")
      case True
      then show ?thesis using inv m(2) \<open>good i\<close> by (simp add: step) blast
    next
      case False
      then show ?thesis using Suc.hyps(1) [OF m _ inv] \<open>good i\<close> by (simp add: step)
    qed
  next
    case False
    then show ?thesis
      using Suc.hyps(1) [OF m _ shards_inv_bad [OF Suc.prems(3) i False]] Suc.prems(2) by (simp add: step split: if_splits)
  qed
qed

lemma concat_subslices:
  "concat (map (\<lambda>i. subslice (i * k) ((i + 1) * k) xs) [0..<n]) = take (n * k) xs"
proof (induction n)
  case (Suc n)
  then show ?case
    using subslice_append_slice [of 0 "n * k" "Suc n * k" xs] by (simp add: slice_simps)
qed simp

lemma shard_size_enough: "0 < D \<Longrightarrow> n \<le> shard_size n D * D"
  using dividend_less_div_times [of D "n + D - 1"] unfolding shard_size_def by linarith

lemma data_shards_facts:
  assumes "0 < D"
  shows "length (data_shards D b) = D" "\<forall>x \<in> set (data_shards D b). length x = shard_size (length b) D"
    "take (length b) (concat (data_shards D b)) = b"
proof -
  let ?S = "shard_size (length b) D"
  let ?p = "b @ replicate (?S * D - length b) 0"
  have p: "length ?p = ?S * D" using shard_size_enough [OF assms, of "length b"] by simp
  have d: "data_shards D b = map (\<lambda>i. subslice (i * ?S) ((i + 1) * ?S) ?p) [0..<D]"
    by (simp add: data_shards_def Let_def)
  show "length (data_shards D b) = D" by (simp add: d)
  have "length (subslice (i * ?S) ((i + 1) * ?S) ?p) = ?S" if "i < D" for i
  proof -
    have "(i + 1) * ?S \<le> ?S * D" using that by (metis Suc_eq_plus1 Suc_leI mult.commute mult_le_mono2)
    then show ?thesis using p by (simp only: length_subslice) simp
  qed
  then show "\<forall>x \<in> set (data_shards D b). length x = ?S" unfolding d by auto
  have "concat (data_shards D b) = ?p" unfolding d concat_subslices using p by (simp add: mult.commute)
  then show "take (length b) (concat (data_shards D b)) = b" by simp
qed

text \<open>
  A stored erasure-coded file whose shards may have been damaged: \<open>sound\<close> says that a shard that has
  the recorded hash is the recorded shard, which is what a hash is for.
\<close>

definition recorded_shards :: "chunk_lib \<Rightarrow> nat \<Rightarrow> nat \<Rightarrow> bytes \<Rightarrow> bytes list" where
  "recorded_shards lib D P b = data_shards D b @ rs_parity lib D P (data_shards D b)"

definition intact :: "chunk_lib \<Rightarrow> bytes list \<Rightarrow> bytes list \<Rightarrow> nat \<Rightarrow> bool" where
  "intact lib recorded sh i \<longleftrightarrow> highway lib (sh ! i) = highway lib (recorded ! i)"

definition sound :: "chunk_lib \<Rightarrow> bytes list \<Rightarrow> bytes list \<Rightarrow> bool" where
  "sound lib recorded sh \<longleftrightarrow> length sh = length recorded
     \<and> (\<forall>i < length recorded. length (sh ! i) = length (recorded ! i) \<and> (intact lib recorded sh i \<longrightarrow> sh ! i = recorded ! i))"

lemma recorded_shards_facts:
  assumes "shards_ok lib D P" and "0 < D"
  shows "length (recorded_shards lib D P b) = D + P"
    "\<forall>x \<in> set (recorded_shards lib D P b). length x = shard_size (length b) D"
    "\<forall>h \<in> set (map (highway lib) (recorded_shards lib D P b)). length h = 32"
    "take D (recorded_shards lib D P b) = data_shards D b"
proof -
  note d = data_shards_facts [OF assms(2), of b]
  have "length (highway lib x) = 32" for x using assms(1) unfolding shards_ok_def by blast
  then show "\<forall>h \<in> set (map (highway lib) (recorded_shards lib D P b)). length h = 32" by simp
  have "length (rs_parity lib D P (data_shards D b)) = P
    \<and> (\<forall>x \<in> set (rs_parity lib D P (data_shards D b)). length x = shard_size (length b) D)"
    using assms(1) d(1,2) unfolding shards_ok_def by blast
  then show "length (recorded_shards lib D P b) = D + P"
    "\<forall>x \<in> set (recorded_shards lib D P b). length x = shard_size (length b) D"
    "take D (recorded_shards lib D P b) = data_shards D b"
    using d(1,2) by (auto simp: recorded_shards_def)
qed

lemma shards_okD:
  assumes "shards_ok lib D P" and "length ds = D" and "\<forall>x \<in> set ds. length x = S"
    and "length known = D + P" and "\<forall>i < D + P. known ! i = [] \<or> known ! i = (ds @ rs_parity lib D P ds) ! i"
    and "D \<le> length (filter (\<lambda>x. x \<noteq> []) known)"
  shows "\<exists>xs. rs_reconstruct lib D P known = Inr xs \<and> take D xs = ds"
  using assms(1) [unfolded shards_ok_def, THEN conjunct2, rule_format, OF conjI [OF assms(2,3)], THEN conjunct2, THEN conjunct2, rule_format,
    OF conjI [OF assms(4) conjI [OF assms(5,6)]]] .

lemma data_shards_recover:
  assumes "shards_ok lib D P" and "0 < D" and "b \<noteq> []" and "length known = D + P"
    and "\<And>i. i < D + P \<Longrightarrow> known ! i = (if Q i then recorded_shards lib D P b ! i else [])"
    and "D \<le> card {i. i < D + P \<and> Q i}"
  shows "\<exists>xs. rs_reconstruct lib D P known = Inr xs \<and> take D xs = data_shards D b"
proof -
  note r = recorded_shards_facts [OF assms(1,2), of b]
  have "0 < length b * 1" using assms(3) by simp
  then have pos: "0 < shard_size (length b) D" using shard_size_enough [OF assms(2), of "length b"] by (cases "shard_size (length b) D") auto
  have "known ! i \<noteq> [] \<longleftrightarrow> Q i" if "i < D + P" for i
  proof -
    have "length (recorded_shards lib D P b ! i) = shard_size (length b) D" using r(1,2) that by simp
    then show ?thesis using pos assms(5) [OF that] by auto
  qed
  then have "{i. i < D + P \<and> known ! i \<noteq> []} = {i. i < D + P \<and> Q i}" by blast
  then have "D \<le> length (filter (\<lambda>x. x \<noteq> []) known)" using assms(4,6) by (simp add: length_filter_conv_card)
  moreover have "\<forall>i < D + P. known ! i = [] \<or> known ! i = (data_shards D b @ rs_parity lib D P (data_shards D b)) ! i"
    using assms(5) by (auto simp: recorded_shards_def)
  ultimately show ?thesis
    using shards_okD [OF assms(1) data_shards_facts(1,2) [OF assms(2), of b] assms(4)] by blast
qed

lemma slice_bytes_nat: "i \<le> j \<Longrightarrow> j \<le> length b \<Longrightarrow> slice_bytes (int i) (int j) b = Inr (subslice i j b)"
  by (simp add: slice_bytes_def)

lemma int_shard_size: "0 < D \<Longrightarrow> (int n + int D - 1) sdiv int D = int (shard_size n D)"
  by (simp add: signed_divide_int_def shard_size_def zdiv_int of_nat_diff sgn_if)

lemma erasure_content_recovers:
  fixes lib D P b sh
  defines "recorded \<equiv> recorded_shards lib D P b"
  defines "f \<equiv> erasure_file (length b) D P (map (highway lib) recorded) sh"
  assumes "shards_ok lib D P" and "rs_new lib (int D) (int P) = None" and "0 < D" and "b \<noteq> []"
    and "length (erasure_header (length b) D P) = 14"
    and sound: "sound lib recorded sh" and enough: "D \<le> card {i. i < D + P \<and> intact lib recorded sh i}"
  shows "erasure_content lib False (int (length b)) D P (int (shard_size (length b) D)) f
    = Inr (b, \<exists>i < D. \<not> intact lib recorded sh i)"
proof -
  let ?S = "shard_size (length b) D" and ?N = "D + P" and ?good = "intact lib recorded sh"
  note r = recorded_shards_facts [OF assms(3,5), of b, folded recorded_def]
  have sh: "length sh = ?N" "\<forall>x \<in> set sh. length x = ?S"
    using sound r(1) nth_mem r(2) unfolding sound_def by (auto simp: in_set_conv_nth) (metis nth_mem)
  have hs: "length (map (highway lib) recorded) = ?N" using r(1) by simp
  note e = erasure_file_slices [OF hs sh(1) r(3) sh(2) assms(7), folded f_def]
  have in_file: "24 + ?N * 32 + i * ?S + ?S \<le> length f" "24 + i * 32 + 32 \<le> length f" if "i < ?N" for i
  proof -
    have "i * k + k \<le> ?N * k" for k using that by (metis Suc_leI add.commute mult_Suc mult_le_mono1)
    from this [of ?S] this [of 32] show "24 + ?N * 32 + i * ?S + ?S \<le> length f" "24 + i * 32 + 32 \<le> length f"
      unfolding e(1) by (simp_all add: algebra_simps)
  qed
  define ss0 where "ss0 = \<lparr>shardData = replicate ?N [], recoveryNeeded = False, rewriteNeeded = False,
         availableShards = 0, wrongHashDetected = False\<rparr>"
  have part: "slice_bytes (24 + int ?N * 32 + int j * int ?S) (24 + int ?N * 32 + int j * int ?S + int ?S) f = Inr (sh ! j)"
    and hash: "slice_bytes (24 + int j * 32) (24 + (int j + 1) * 32) f = Inr (map (highway lib) recorded ! j)"
    and fits: "24 + int ?N * 32 + int j * int ?S + int ?S \<le> int (length f)"
    and good: "?good j \<longleftrightarrow> highway lib (sh ! j) = map (highway lib) recorded ! j" if "j < ?N" for j
  proof -
    show "slice_bytes (24 + int ?N * 32 + int j * int ?S) (24 + int ?N * 32 + int j * int ?S + int ?S) f = Inr (sh ! j)"
      using slice_bytes_nat [OF _ in_file(1) [OF that], of "24 + ?N * 32 + j * ?S"] e(5) [OF that] by simp
    have "slice_bytes (int (24 + j * 32)) (int (24 + j * 32 + 32)) f = Inr (map (highway lib) recorded ! j)"
      using slice_bytes_nat [OF _ in_file(2) [OF that], of "24 + j * 32"] e(4) [OF that] by simp
    then show "slice_bytes (24 + int j * 32) (24 + (int j + 1) * 32) f = Inr (map (highway lib) recorded ! j)"
      by (simp add: algebra_simps)
    show "24 + int ?N * 32 + int j * int ?S + int ?S \<le> int (length f)"
      using of_nat_mono [OF in_file(1) [OF that], where 'a = int] by simp
    show "?good j \<longleftrightarrow> highway lib (sh ! j) = map (highway lib) recorded ! j"
      using that r(1) by (simp add: intact_def)
  qed
  have "shards_inv ?N D ?good sh 0 ss0" by (simp add: ss0_def shards_inv_def)
  moreover have "availableShards ss0 < D" using assms(5) by (simp add: ss0_def)
  ultimately obtain k ss where loop: "shard_loop lib False f 24 (24 + int ?N * 32) (int ?S) D [0..<?N] ss0 = Inr ss"
    and k: "k \<le> ?N" and inv: "shards_inv ?N D ?good sh k ss" and avail: "D \<le> availableShards ss"
    using shard_loop_spec [where N = ?N and i = 0 and ss = ss0 and S = "int ?S", OF part hash fits good enough]
    by auto
  have card: "availableShards ss = card {j. j < k \<and> ?good j}" and
    data: "\<And>j. j < ?N \<Longrightarrow> shardData ss ! j = (if j < k \<and> ?good j then sh ! j else [])"
    and len: "length (shardData ss) = ?N"
    using inv by (simp_all add: shards_inv_def)
  have "card {j. j < k \<and> ?good j} \<le> card {..<k}" by (rule card_mono) auto
  then have "D \<le> k" using avail card by simp
  then have flags: "recoveryNeeded ss \<longleftrightarrow> (\<exists>i < D. \<not> ?good i)" "rewriteNeeded ss \<longleftrightarrow> (\<exists>i < D. \<not> ?good i)"
    using inv unfolding shards_inv_def by (meson less_le_trans)+
  have start: "erasure_content lib False (int (length b)) D P (int ?S) f = (if \<not> recoveryNeeded ss
      then bindE (slice_bytes (24 + int ?N * 32) (24 + int ?N * 32 + int (length b)) f) (\<lambda>c. Inr (c, rewriteNeeded ss))
      else bindE (lift_error (rs_reconstruct lib D P (shardData ss))) (\<lambda>xs.
             bindE (slice_bytes 0 (int (length b)) (concat (take D xs))) (\<lambda>c. Inr (c, rewriteNeeded ss))))"
    using loop avail assms(4) unfolding erasure_content_def ss0_def by (simp add: Let_def)
  note d = data_shards_facts [OF assms(5), of b]
  have b_fits: "length b \<le> D * ?S" using shard_size_enough [OF assms(5), of "length b"] by (simp add: mult.commute)
  show ?thesis
  proof (cases "recoveryNeeded ss")
    case False
    have "take D sh = take D recorded"
      using False flags sound sh(1) r(1) by (intro nth_equalityI) (auto simp: sound_def)
    then have "concat sh = concat (data_shards D b) @ concat (drop D sh)"
      using r(4) append_take_drop_id [of D sh] by (metis concat_append)
    moreover have "length (concat (data_shards D b)) = D * ?S" using length_concat_uniform [OF d(2)] d(1) by simp
    ultimately have "take (length b) (concat sh) = b" using d(3) b_fits by simp
    moreover have "length b \<le> ?N * ?S" using b_fits by (simp add: algebra_simps)
    moreover from this have "24 + ?N * 32 + length b \<le> length f" unfolding e(1) by (simp add: algebra_simps)
    ultimately have "slice_bytes (24 + int ?N * 32) (24 + int ?N * 32 + int (length b)) f = Inr b"
      using slice_bytes_nat [of "24 + ?N * 32" "24 + ?N * 32 + length b" f] e(6) [of "length b"] by simp
    then show ?thesis using False flags by (simp add: start)
  next
    case True
    have "shardData ss ! j = (if j < k \<and> ?good j then recorded ! j else [])" if "j < ?N" for j
      using data [OF that] sound that r(1) by (simp add: sound_def)
    moreover have "{i. i < ?N \<and> i < k \<and> ?good i} = {i. i < k \<and> ?good i}" using k by auto
    ultimately obtain xs where xs: "rs_reconstruct lib D P (shardData ss) = Inr xs" "take D xs = data_shards D b"
      using data_shards_recover [OF assms(3,5,6) len, of "\<lambda>j. j < k \<and> ?good j"] card avail
      unfolding recorded_def by auto
    have "length b \<le> length (concat (data_shards D b))" using length_concat_uniform [OF d(2)] d(1) b_fits by simp
    then have "slice_bytes 0 (int (length b)) (concat (data_shards D b)) = Inr b"
      using slice_bytes_nat [of 0 "length b" "concat (data_shards D b)"] d(3) by (simp add: slice_simps)
    then show ?thesis using True flags xs by (simp add: start lift_error_def)
  qed
qed

lemma erasure_decode_recovers:
  fixes lib D P b sh
  defines "recorded \<equiv> recorded_shards lib D P b"
  assumes "shards_ok lib D P" and "rs_new lib (int D) (int P) = None" and "0 < D" and "D < 2 ^ 16" and "P < 2 ^ 16"
    and "b \<noteq> []" and "length b < 2 ^ 63" and "DataShards cfg = int D"
    and sound: "sound lib recorded sh" and "D \<le> card {i. i < D + P \<and> intact lib recorded sh i}"
  shows "erasure_decode lib cfg False (erasure_file (length b) D P (map (highway lib) recorded) sh)
    = Inr (b, \<exists>i < D. \<not> intact lib recorded sh i)"
proof -
  let ?f = "erasure_file (length b) D P (map (highway lib) recorded) sh" and ?H = "erasure_header (length b) D P"
  note h = erasure_header_fields [OF assms(8,5,6)]
  note r = recorded_shards_facts [OF assms(2,4), of b, folded recorded_def]
  have sh: "length sh = D + P" "\<forall>x \<in> set sh. length x = shard_size (length b) D"
    using sound r(1) nth_mem r(2) unfolding sound_def by (auto simp: in_set_conv_nth) (metis nth_mem)
  note e = erasure_file_slices [OF _ sh(1) r(3) sh(2) h(1), simplified, OF r(1)]
  have len: "int (length ?f) = 10 + 2 * 14 + int (D + P) * (int (shard_size (length b) D) + 32)"
    unfolding e(1) by (simp add: algebra_simps)
  show ?thesis
    using erasure_content_recovers [OF assms(2,3,4,7) h(1) sound [unfolded recorded_def] assms(11) [unfolded recorded_def]]
      e(1-3) h len assms(4) int_shard_size [OF assms(4), of "length b"]
    unfolding erasure_decode_def Let_def assms(9) recorded_def by simp
qed

lemma undamaged: "length r = D + P \<Longrightarrow> sound lib r r \<and> D \<le> card {i. i < D + P \<and> intact lib r r i} \<and> (\<forall>i. intact lib r r i)"
  by (simp add: sound_def intact_def)

lemma not_erasure_coded: "take 10 b \<noteq> ERASURE_CODING_BANNER \<Longrightarrow> erasure_decode lib cfg arm64 b = Inr (b, False)"
  by (simp add: erasure_decode_def)

section \<open>Round trip\<close>

text \<open>What the code relies on for one configuration, key and nonce.\<close>

definition coding_ok :: "chunk_lib \<Rightarrow> config \<Rightarrow> bytes \<Rightarrow> bytes \<Rightarrow> bool \<Rightarrow> bool" where
  "coding_ok lib cfg nonce encryptionKey metadata \<longleftrightarrow>
     packages_ok lib \<and> length nonce = 12
   \<and> (encryptionKey \<noteq> [] \<and> rsaPublicKey cfg \<noteq> None \<and> \<not> metadata \<longrightarrow> rsa_pair_ok lib cfg)
   \<and> 0 \<le> DataShards cfg \<and> DataShards cfg < 2 ^ 16 \<and> 0 \<le> ParityShards cfg \<and> ParityShards cfg < 2 ^ 16
   \<and> (DataShards cfg \<noteq> 0 \<and> ParityShards cfg \<noteq> 0 \<longrightarrow> shards_ok lib (nat (DataShards cfg)) (nat (ParityShards cfg)))"

lemma header_not_erasure:
  assumes "encryption_header lib cfg rk nonce ek dk metadata = Inr (header, key)"
  shows "take 10 (header @ g) \<noteq> ERASURE_CODING_BANNER \<and> header \<noteq> []"
proof -
  have "10 \<le> length header \<and> header ! 9 \<noteq> 3"
    using header_shape [OF assms]
    by (auto simp: nth_append ENCRYPTION_VERSION_RSA_def ENCRYPTION_BANNER_def split: if_splits)
  then have "take 10 (header @ g) ! 9 \<noteq> ERASURE_CODING_BANNER ! 9" "header \<noteq> []"
    by (auto simp: ERASURE_CODING_BANNER_def nth_append)
  then show ?thesis by metis
qed

lemma compressed_not_erasure:
  assumes "packages_ok lib" and "compress_data lib level d = Inr z"
  shows "take 10 z \<noteq> ERASURE_CODING_BANNER"
proof -
  have "hd z \<in> {0x78, 0x5A, 0x4C} \<and> z \<noteq> []"
    using assms(2) packages_okD(2) [OF assms(1), of level d]
    by (auto simp: compress_data_def bytes_of_def lift_error_def bindE_Inr split: if_splits sum.splits)
  then have "hd (take 10 z) \<noteq> hd ERASURE_CODING_BANNER"
    by (auto simp: ERASURE_CODING_BANNER_def bytes_of_def)
  then show ?thesis by metis
qed

lemma encode_chunk_parts:
  assumes "coding_ok lib cfg nonce ek metadata" and "encode_chunk lib cfg rk nonce ek dk metadata d = Inr f"
  obtains p z where "erasure_encode lib cfg p = Inr f" "open_chunk lib cfg False ek dk p = Inr z"
    "decompress_data lib z = Inr d" "p \<noteq> []" "take 10 p \<noteq> ERASURE_CODING_BANNER"
proof (cases "ek = []")
  case True
  then obtain z where z: "compress_data lib (CompressionLevel cfg) d = Inr z" "erasure_encode lib cfg z = Inr f"
    using assms(2) by (auto simp: encode_chunk_def bindE_Inr)
  have "packages_ok lib" using assms(1) by (simp add: coding_ok_def)
  note c = decompress_compressed [OF this z(1)] compressed_not_erasure [OF this z(1)]
  show ?thesis by (rule that [of z z]) (use z c True in \<open>simp_all add: open_chunk_def\<close>)
next
  case False
  then obtain header key z where h: "encryption_header lib cfg rk nonce ek dk metadata = Inr (header, key)"
    and z: "compress_data lib (CompressionLevel cfg) d = Inr z"
    and f: "erasure_encode lib cfg (header @ gcm_seal lib key nonce (pad_data z)) = Inr f"
    using assms(2) by (auto simp: encode_chunk_def bindE_Inr)
  have ok: "packages_ok lib" "length nonce = 12" "rsaPublicKey cfg \<noteq> None \<and> \<not> metadata \<Longrightarrow> rsa_pair_ok lib cfg"
    using assms(1) False by (simp_all add: coding_ok_def)
  show ?thesis
    by (rule that [OF f open_sealed [OF ok(1) False ok(2) h ok(3)]])
      (use decompress_compressed [OF ok(1) z] header_not_erasure [OF h] in simp_all)
qed

text \<open>
  The shards of a stored file, and the file with other bytes in their place: what a failing disk may
  leave, when the file keeps its length and its first header and hashes.
\<close>

definition file_shards :: "nat \<Rightarrow> nat \<Rightarrow> bytes \<Rightarrow> bytes list" where
  "file_shards D P f =
     (let N = D + P; S = (length f - 38 - N * 32) div N
      in map (\<lambda>i. subslice (24 + N * 32 + i * S) (24 + N * 32 + i * S + S) f) [0..<N])"

definition with_shards :: "nat \<Rightarrow> nat \<Rightarrow> bytes list \<Rightarrow> bytes \<Rightarrow> bytes" where
  "with_shards D P sh f = take (24 + (D + P) * 32) f @ concat sh @ drop (length f - 14) f"

lemma file_shards_of_file:
  fixes lib D P b n sh
  assumes "shards_ok lib D P" and "0 < D" and "length (erasure_header n D P) = 14"
  defines "recorded \<equiv> recorded_shards lib D P b"
  defines "f \<equiv> erasure_file n D P (map (highway lib) recorded) recorded"
  shows "file_shards D P f = recorded"
    and "with_shards D P sh f = erasure_file n D P (map (highway lib) recorded) sh"
proof -
  note r = recorded_shards_facts [OF assms(1,2), of b, folded recorded_def]
  have hs: "length (map (highway lib) recorded) = D + P" using r(1) by simp
  note e = erasure_file_slices [OF hs r(1) r(3) r(2) assms(3), folded f_def]
  have "(length f - 38 - (D + P) * 32) div (D + P) = shard_size (length b) D"
    using assms(2) unfolding e(1) by (simp add: distrib_left)
  then show "file_shards D P f = recorded"
    using e(5) r(1) by (intro nth_equalityI) (simp_all add: file_shards_def Let_def)
  have l: "length (concat (map (highway lib) recorded)) = (D + P) * 32"
    using length_concat_uniform [OF r(3)] hs by simp
  show "with_shards D P sh f = erasure_file n D P (map (highway lib) recorded) sh"
    using l assms(3) by (simp add: with_shards_def f_def erasure_file_def)
qed

lemma erasure_encode_shape:
  assumes "erasure_encode lib cfg p = Inr f" and "0 < DataShards cfg" and "0 < ParityShards cfg"
  defines "D \<equiv> nat (DataShards cfg)" and "P \<equiv> nat (ParityShards cfg)"
  shows "rs_new lib (int D) (int P) = None"
    and "f = erasure_file (length p) D P (map (highway lib) (recorded_shards lib D P p)) (recorded_shards lib D P p)"
  using assms by (auto simp: erasure_encode_def recorded_shards_def Let_def split: option.splits)

lemma length_erasure_file: "length b \<le> length (erasure_file n D P hs (data_shards D b @ ps))" if "0 < D"
proof -
  have "length b \<le> length (concat (data_shards D b))"
    using data_shards_facts(3) [OF that, of b] by (metis length_take min.cobounded1)
  then show ?thesis by (simp add: erasure_file_def)
qed

text \<open>
  C40. What \<^verbatim>\<open>Encrypt\<close> stored comes back after \<^verbatim>\<open>Decrypt\<close>, with any \<open>D\<close> shards left intact: the data is that
  which was encoded, and the caller is told to rewrite the chunk exactly when one of the data
  shards was damaged.
\<close>

theorem damaged_chunk_recovered:
  fixes D P f sh
  assumes "coding_ok lib cfg nonce ek metadata" and "encode_chunk lib cfg rk nonce ek dk metadata d = Inr f"
    and "length f < 2 ^ 63" and "DataShards cfg = int D" and "ParityShards cfg = int P" and "0 < D" and "0 < P"
    and "sound lib (file_shards D P f) sh" and "D \<le> card {i. i < D + P \<and> intact lib (file_shards D P f) sh i}"
  shows "decode_chunk lib cfg False False ek dk (with_shards D P sh f)
    = Inr (d, \<exists>i < D. \<not> intact lib (file_shards D P f) sh i)"
proof -
  obtain p z where p: "erasure_encode lib cfg p = Inr f" "open_chunk lib cfg False ek dk p = Inr z"
    "decompress_data lib z = Inr d" "p \<noteq> []"
    by (rule encode_chunk_parts [OF assms(1,2)])
  have bounds: "D < 2 ^ 16" "P < 2 ^ 16" "shards_ok lib D P" using assms(1,4-7) by (simp_all add: coding_ok_def)
  note e = erasure_encode_shape [OF p(1), unfolded assms(4,5), simplified, OF assms(6,7)]
  have "length p \<le> length f" unfolding e(2) recorded_shards_def by (rule length_erasure_file [OF assms(6)])
  then have n: "length p < 2 ^ 63" using assms(3) by simp
  note fs = file_shards_of_file [OF bounds(3) assms(6) erasure_header_fields(1) [OF n bounds(1,2)], where b = p, folded e(2)]
  have "erasure_decode lib cfg False (with_shards D P sh f) = Inr (p, \<exists>i < D. \<not> intact lib (file_shards D P f) sh i)"
    unfolding fs(2) using erasure_decode_recovers [OF bounds(3) e(1) assms(6) bounds(1,2) p(4) n assms(4)] assms(8,9)
    unfolding fs(1) by blast
  then show ?thesis using p by (simp add: decode_chunk_def stored_payload_def)
qed

lemma decode_encoded:
  assumes "coding_ok lib cfg nonce ek metadata" and "encode_chunk lib cfg rk nonce ek dk metadata d = Inr f"
    and "length f < 2 ^ 63"
  shows "\<exists>z. stored_payload lib cfg False False ek dk f = Inr (z, False) \<and> decompress_data lib z = Inr d"
proof -
  obtain p z where p: "erasure_encode lib cfg p = Inr f" "open_chunk lib cfg False ek dk p = Inr z"
    "decompress_data lib z = Inr d" "p \<noteq> []" "take 10 p \<noteq> ERASURE_CODING_BANNER"
    by (rule encode_chunk_parts [OF assms(1,2)])
  have "erasure_decode lib cfg False f = Inr (p, False)"
  proof (cases "DataShards cfg = 0 \<or> ParityShards cfg = 0")
    case True
    then show ?thesis using p(1,5) by (simp add: erasure_encode_def not_erasure_coded)
  next
    case False
    define D P where "D = nat (DataShards cfg)" and "P = nat (ParityShards cfg)"
    have b: "0 < DataShards cfg" "0 < ParityShards cfg" using False assms(1) by (auto simp: coding_ok_def)
    then have c: "0 < D" "D < 2 ^ 16" "P < 2 ^ 16" "shards_ok lib D P" "DataShards cfg = int D"
      using assms(1) by (simp_all add: coding_ok_def D_def P_def nat_less_iff)
    note e = erasure_encode_shape [OF p(1) b, folded D_def P_def]
    have "length p \<le> length f" unfolding e(2) recorded_shards_def by (rule length_erasure_file [OF c(1)])
    then have "length p < 2 ^ 63" using assms(3) by simp
    then show ?thesis
      using erasure_decode_recovers [OF c(4) e(1) c(1-3) p(4) _ c(5), of "recorded_shards lib D P p"]
        undamaged [OF recorded_shards_facts(1) [OF c(4,1)], of lib p] unfolding e(2) by simp
  qed
  then show ?thesis using p by (simp add: stored_payload_def)
qed

text \<open>Filling a chunk with several writes is one write.\<close>

lemma Write_Write: "Write q (Write p c) = Write (p @ q) c"
  by (cases c) (simp add: Write_def map_option.compositionality comp_def)

lemma fold_Write: "fold Write ds c = (if ds = [] then c else Write (concat ds) c)"
  by (induction ds arbitrary: c) (simp_all add: Write_Write)

lemma fold_Write_fresh:
  "fold Write ds (Reset True (CreateChunk True)) = \<lparr>cBuffer = Some (concat ds), cSize = 0, cHasher = Some (concat ds),
     cChecksum = Some (concat ds), cHash = [], cId = [], isMetadata = False, isBroken = False, isRawData = False\<rparr>"
  by (simp add: fold_Write Write_def Reset_def CreateChunk_def)


text \<open>
  A chunk whose buffer no longer has the checksum of what was written to it is never encrypted:
  \<^verbatim>\<open>Encrypt\<close> panics and leaves the chunk as it is.
\<close>

theorem corrupted_buffer_refused:
  assumes "sum64 lib b \<noteq> sum64 lib (concat ds)"
  shows "Encrypt lib cfg rk nonce ek dk metadata ((fold Write ds (Reset True (CreateChunk True)))\<lparr>cBuffer := Some b\<rparr>)
    = (Some (CodingPanic ''CHUNK_ID''), (fold Write ds (Reset True (CreateChunk True)))\<lparr>cBuffer := Some b\<rparr>)"
  using assms by (simp add: fold_Write_fresh Encrypt_def VerifyChecksum_def GetBytes_def)

text \<open>The number of data shards of the configuration is a divisor when an erasure-coded file is read.\<close>

lemma plain_configuration_panics:
  assumes "length (erasure_header n D P) = 14" and "drop 12 (erasure_header n D P) = checksum_bytes (erasure_header n D P)"
    and "DataShards cfg = 0"
  shows "erasure_decode lib cfg arm64 (erasure_file n D P hs shards) = Inl (CodingPanic ''integer divide by zero'')"
  using assms by (simp add: erasure_decode_def erasure_file_def Let_def subslice_def)

section \<open>Witnesses\<close>

text \<open>
  Packages that keep their promises and can be evaluated: the compressors add a header, the ciphers
  do nothing, the hash is a prefix, and the only erasure code is a copy of the one data shard.
\<close>

definition copy_lib :: chunk_lib where
  "copy_lib = \<lparr>blake2 = (\<lambda>k d. k @ d), hmac_sha256 = (\<lambda>k d. d @ k), sum64 = (\<lambda>b. of_nat (sum_list (map unat b))),
     highway = (\<lambda>b. take 32 (b @ replicate 32 0)), wrong_highway = (\<lambda>b. replicate 32 1),
     deflate = (\<lambda>l d. 0x78 # d), inflate = (\<lambda>z. case z of [] \<Rightarrow> Inl ''EOF'' | x # d \<Rightarrow> Inr d),
     zstd_encode = (\<lambda>l d. Inr (0 # d)), zstd_decode = (\<lambda>z. Inr (tl z)), lz4_encode = (\<lambda>d. Inr (1 # d)),
     lz4_decode = (\<lambda>z. Inr (tl z)), aes_error = (\<lambda>k. None), gcm_seal = (\<lambda>k n d. d), gcm_open = (\<lambda>k n d. Inr d),
     rsa_encrypt = (\<lambda>pub k. Inr k), rsa_decrypt = (\<lambda>priv c. Inr c), rs_new = (\<lambda>d p. None),
     rs_parity = (\<lambda>d p ds. replicate p (hd ds)), rs_reconstruct = (\<lambda>d p known. Inr (filter (\<lambda>x. x \<noteq> []) known))\<rparr>"

lemma copy_lib_ok: "packages_ok copy_lib"
  by (simp add: packages_ok_def copy_lib_def)

lemma copy_lib_shards: "shards_ok copy_lib 1 1"
proof -
  have "take 1 (filter (\<lambda>x. x \<noteq> []) known) = [d]"
    if "length known = 2" "\<forall>i < 2. known ! i = [] \<or> known ! i = [d, d] ! i" "1 \<le> length (filter (\<lambda>x. x \<noteq> []) known)"
    for known and d :: bytes
    using that by (auto simp: length_Suc_conv numeral_2_eq_2 All_less_Suc)
  note copies = this [unfolded numeral_2_eq_2, simplified]
  show ?thesis by (auto simp: shards_ok_def copy_lib_def length_Suc_conv intro!: copies)
qed

definition erasure_config :: config where
  "erasure_config = CreateConfig\<lparr>DataShards := 1, ParityShards := 1\<rparr>"

lemma erasure_config_ok: "coding_ok copy_lib erasure_config (replicate 12 7) ek m"
  using copy_lib_ok copy_lib_shards by (simp add: coding_ok_def erasure_config_def CreateConfig_def)


definition stored_example :: bytes where
  "stored_example =
    [100, 117, 112, 108, 105, 99, 97, 99, 121, 3, 7, 0, 0, 0, 0, 0, 0, 0, 1, 0, 1, 0, 7, 0, 76, 90, 52,
     32, 1, 65, 66, 0, 0, 0, 0, 0, 0, 0, 0, 0, 0, 0, 0, 0, 0, 0, 0, 0, 0, 0, 0, 0, 0, 0, 0, 0, 76, 90,
     52, 32, 1, 65, 66, 0, 0, 0, 0, 0, 0, 0, 0, 0, 0, 0, 0, 0, 0, 0, 0, 0, 0, 0, 0, 0, 0, 0, 0, 0, 76,
     90, 52, 32, 1, 65, 66, 76, 90, 52, 32, 1, 65, 66, 7, 0, 0, 0, 0, 0, 0, 0, 1, 0, 1, 0, 7, 0]"

lemma stored_example_encoded:
  "encode_chunk copy_lib erasure_config [] (replicate 12 7) [] [] False [65, 66] = Inr stored_example \<and> length stored_example < 2 ^ 63"
proof
  show "encode_chunk copy_lib erasure_config [] (replicate 12 7) [] [] False [65, 66] = Inr stored_example" by code_simp
qed (simp add: stored_example_def)

definition damaged_example :: "bytes list" where
  "damaged_example = [[0, 0, 0, 0, 0, 0, 0], [76, 90, 52, 32, 1, 65, 66]]"

lemma damaged_example_hypotheses:
  "sound copy_lib (file_shards 1 1 stored_example) damaged_example"
  "1 \<le> card {i. i < 1 + 1 \<and> intact copy_lib (file_shards 1 1 stored_example) damaged_example i}"
  "\<not> intact copy_lib (file_shards 1 1 stored_example) damaged_example 0"
proof -
  have f: "file_shards 1 1 stored_example = [[76, 90, 52, 32, 1, 65, 66], [76, 90, 52, 32, 1, 65, 66]]" by code_simp
  have i: "intact copy_lib (file_shards 1 1 stored_example) damaged_example 1"
    "\<not> intact copy_lib (file_shards 1 1 stored_example) damaged_example 0"
    unfolding f by (simp_all add: intact_def damaged_example_def copy_lib_def)
  show "sound copy_lib (file_shards 1 1 stored_example) damaged_example"
    using i(2) unfolding f by (auto simp: sound_def damaged_example_def less_Suc_eq)
  have "card {1 :: nat} \<le> card {i. i < 1 + 1 \<and> intact copy_lib (file_shards 1 1 stored_example) damaged_example i}"
    using i by (intro card_mono) auto
  then show "1 \<le> card {i. i < 1 + 1 \<and> intact copy_lib (file_shards 1 1 stored_example) damaged_example i}" by simp
  show "\<not> intact copy_lib (file_shards 1 1 stored_example) damaged_example 0" by (rule i(2))
qed

lemma damaged_chunk_recovered_witness:
  "decode_chunk copy_lib erasure_config False False [] [] (with_shards 1 1 damaged_example stored_example) = Inr ([65, 66], True)"
  using damaged_chunk_recovered [OF erasure_config_ok stored_example_encoded [THEN conjunct1] stored_example_encoded [THEN conjunct2],
      where D = 1 and P = 1, OF _ _ _ _ damaged_example_hypotheses(1,2)] damaged_example_hypotheses(3)
  by (simp add: erasure_config_def)

lemma plain_config_ok: "coding_ok copy_lib CreateConfig (replicate 12 7) ek m"
  using copy_lib_ok by (simp add: coding_ok_def CreateConfig_def)

definition sealed_example :: chunk_obj where
  "sealed_example = snd (Encrypt copy_lib CreateConfig [] (replicate 12 7) [3] [] False
     (fold Write [[65], [66]] (Reset True (CreateChunk True))))"

lemma sealed_example_facts:
  "Encrypt copy_lib CreateConfig [] (replicate 12 7) [3] [] False (fold Write [[65], [66]] (Reset True (CreateChunk True)))
    = (None, sealed_example)" "length (GetBytes sealed_example) < 2 ^ 63"
  by (simp_all add: sealed_example_def Write_def Reset_def CreateChunk_def Encrypt_def VerifyChecksum_def GetBytes_def encode_chunk_def
      encryption_header_def compress_data_def erasure_encode_def pad_data_def CreateConfig_def copy_lib_def Let_def
      lift_error_def bytes_of_def)


lemma corrupted_buffer_refused_witness:
  "fst (Encrypt copy_lib erasure_config [] [] [] [] False ((fold Write [[65]] (Reset True (CreateChunk True)))\<lparr>cBuffer := Some [66]\<rparr>))
    = Some (CodingPanic ''CHUNK_ID'')"
  using corrupted_buffer_refused [of copy_lib "[66]" "[[65]]"] by (simp add: copy_lib_def)

end
