(* ===== verification/Storage.thy ===== *)
theory Storage
  imports Go_Strings Config
begin

text \<open>
  The storage interface (\<^verbatim>\<open>Storage\<close> and \<^verbatim>\<open>StorageBase\<close> in \<^verbatim>\<open>src/src/duplicacy_storage.go\<close>): a
  storage is a record of the operations of the Go interface over a state, and the chunk layout is
  computed on top of it.  The locale \<open>file_store\<close> states what the program relies on; the local
  file storage of the next theory provides it.
\<close>

section \<open>The interface\<close>

text \<open>
  An error is its message.  Operations that may change the storage return its new state; a download
  does, too, because a remote storage may fail once and succeed when asked again.
\<close>

record 's storage_ops =
  ListFiles :: "'s \<Rightarrow> string \<Rightarrow> string + (string \<times> int) list"
  DeleteFile :: "'s \<Rightarrow> string \<Rightarrow> string option \<times> 's"
  MoveFile :: "'s \<Rightarrow> string \<Rightarrow> string \<Rightarrow> string option \<times> 's"
  CreateDirectory :: "'s \<Rightarrow> string \<Rightarrow> string option \<times> 's"
  GetFileInfo :: "'s \<Rightarrow> string \<Rightarrow> string + (bool \<times> bool \<times> int)"
  DownloadFile :: "'s \<Rightarrow> string \<Rightarrow> (string + bytes) \<times> 's"
  UploadFile :: "'s \<Rightarrow> string \<Rightarrow> bytes \<Rightarrow> string option \<times> 's"
  IsCacheNeeded :: bool
  IsMoveFileImplemented :: bool
  IsStrongConsistent :: bool
  IsFastListing :: bool

section \<open>The chunk layout\<close>

record nesting =
  readLevels :: "int list"
  writeLevel :: int

definition SetDefaultNestingLevels :: "int list \<Rightarrow> int \<Rightarrow> nesting" where
  "SetDefaultNestingLevels levels level = \<lparr>readLevels = levels, writeLevel = level\<rparr>"

text \<open>
  The path of a chunk at a nesting level.  Slicing an id that is too short for the level is a
  run-time panic.
\<close>

definition nested_path :: "int \<Rightarrow> string \<Rightarrow> string option" where
  "nested_path level chunkID =
     (if 0 \<le> level \<and> nat (2 * level) \<le> length chunkID
      then Some (''chunks/''
             @ concat (map (\<lambda>i. subslice (2 * i) (2 * i + 2) chunkID @ ''/'') [0..<nat level])
             @ drop (nat (2 * level)) chunkID)
      else None)"

datatype storage_error = IOError string | SliceOutOfRange

definition invalid_nesting :: storage_error where
  "invalid_nesting = IOError ''Invalid chunk nesting setup''"

definition ChunkPath :: "nesting \<Rightarrow> string \<Rightarrow> storage_error + string" where
  "ChunkPath nst chunkID =
     (if writeLevel nst \<in> set (readLevels nst)
      then (case nested_path (writeLevel nst) chunkID of Some p \<Rightarrow> Inr p | None \<Rightarrow> Inl SliceOutOfRange)
      else Inl invalid_nesting)"

definition fossil_suffix :: "bool \<Rightarrow> string" where
  "fossil_suffix isFossil = (if isFossil then ''.fsl'' else [])"

text \<open>
  The first loop of \<^verbatim>\<open>FindChunk\<close>: the first read level at which the chunk exists, or the paths
  tried.  An error of \<^verbatim>\<open>GetFileInfo\<close> counts as absence.
\<close>

datatype probe = Hit string int | Missed "string list" | BadSlice

fun probe_levels :: "'s storage_ops \<Rightarrow> 's \<Rightarrow> string \<Rightarrow> bool \<Rightarrow> int list \<Rightarrow> string list \<Rightarrow> probe" where
  "probe_levels st s chunkID isFossil [] chunkPaths = Missed chunkPaths"
| "probe_levels st s chunkID isFossil (level # levels) chunkPaths =
     (case nested_path level chunkID of
        None \<Rightarrow> BadSlice
      | Some path \<Rightarrow>
          (let chunkPath = path @ fossil_suffix isFossil
           in case GetFileInfo st s chunkPath of
                Inr (True, _, sz) \<Rightarrow> Hit chunkPath sz
              | _ \<Rightarrow> probe_levels st s chunkID isFossil levels (chunkPaths @ [chunkPath])))"

definition FindChunk ::
  "'s storage_ops \<Rightarrow> nesting \<Rightarrow> 's \<Rightarrow> string \<Rightarrow> bool \<Rightarrow> storage_error + (string \<times> bool \<times> int)" where
  "FindChunk st nst s chunkID isFossil =
     (case probe_levels st s chunkID isFossil (readLevels nst) [] of
        BadSlice \<Rightarrow> Inl SliceOutOfRange
      | Hit path sz \<Rightarrow> Inr (path, True, sz)
      | Missed paths \<Rightarrow>
          (case find (\<lambda>(level, _). writeLevel nst = level) (zip (readLevels nst) paths) of
             Some (_, path) \<Rightarrow> Inr (path, False, 0)
           | None \<Rightarrow> Inl invalid_nesting))"

text \<open>
  \<^verbatim>\<open>SetNestingLevels\<close>: the new levels, or the error that the write level is not a read level.  The
  JSON parser of the file \<^verbatim>\<open>nesting\<close> is a parameter.
\<close>

definition SetNestingLevels ::
  "(bytes \<Rightarrow> nesting option) \<Rightarrow> 's storage_ops \<Rightarrow> config \<Rightarrow> 's \<Rightarrow> nesting \<Rightarrow> (string + nesting) \<times> 's" where
  "SetNestingLevels parse_nesting st cfg s nst =
     (let (nst', s') =
        (if FixedNesting cfg
         then (let (loaded, s') =
                 (case GetFileInfo st s ''nesting'' of
                    Inr (True, _, _) \<Rightarrow>
                      (case DownloadFile st s ''nesting'' of
                         (Inr content, s') \<Rightarrow>
                           ((case parse_nesting content of
                               Some nst'' \<Rightarrow> nst'' | None \<Rightarrow> nst\<lparr>readLevels := []\<rparr>), s')
                       | (Inl _, s') \<Rightarrow> (nst\<lparr>readLevels := []\<rparr>, s'))
                  | _ \<Rightarrow> (nst\<lparr>readLevels := []\<rparr>, s))
               in (if readLevels loaded = [] then \<lparr>readLevels = [1], writeLevel = 1\<rparr> else loaded, s'))
         else (nst, s))
      in (if writeLevel nst' \<in> set (readLevels nst') then Inr nst' else Inl ''STORAGE_NESTING'', s'))"

section \<open>Ids and paths\<close>

text \<open>
  \<^verbatim>\<open>chunkIDFromListedPath\<close> of \<^verbatim>\<open>src/src/duplicacy_snapshotmanager.go\<close> forgets the nesting of a path
  listed under \<^verbatim>\<open>chunks/\<close>.
\<close>

definition chunkDir :: string where
  "chunkDir = ''chunks/''"

definition chunkIDFromListedPath :: "string \<Rightarrow> string" where
  "chunkIDFromListedPath listedPath = remove_char (CHR ''/'') listedPath"

definition hex_id :: "string \<Rightarrow> bool" where
  "hex_id s \<longleftrightarrow> s \<noteq> [] \<and> set s \<subseteq> set ''0123456789abcdef''"

lemma concat_pairs:
  "2 * n \<le> length s \<Longrightarrow> concat (map (\<lambda>i. subslice (2 * i) (2 * i + 2) s) [0..<n]) = take (2 * n) s"
proof (induction n)
  case (Suc n)
  have "take (2 * n) s @ subslice (2 * n) (2 * n + 2) s = take (2 * Suc n) s"
    using subslice_append_slice [of 0 "2 * n" "2 * n + 2" s] by (simp add: slice_simps)
  with Suc show ?case by simp
qed simp

lemma remove_slashes:
  assumes "CHR ''/'' \<notin> set s"
  shows "remove_char (CHR ''/'') (concat (map (\<lambda>i. subslice (2 * i) (2 * i + 2) s @ ''/'') is))
    = concat (map (\<lambda>i. subslice (2 * i) (2 * i + 2) s) is)"
proof (induction "is")
  case (Cons i "is")
  have "CHR ''/'' \<notin> set (subslice (2 * i) (2 * i + 2) s)"
    using assms by (auto simp: subslice_def dest: in_set_takeD in_set_dropD)
  with Cons show ?case by (simp add: remove_char_id) (simp add: remove_char_def)
qed (simp add: remove_char_def)

lemma nested_path_chunks: "nested_path level chunkID = Some p \<Longrightarrow> take (length chunkDir) p = chunkDir"
  by (auto simp: nested_path_def chunkDir_def split: if_splits)

lemma nested_path_id:
  assumes "nested_path level chunkID = Some p" and "CHR ''/'' \<notin> set chunkID"
  shows "chunkIDFromListedPath (drop (length chunkDir) p) = chunkID"
proof -
  have l: "0 \<le> level" "2 * nat level \<le> length chunkID"
    and p: "drop (length chunkDir) p
      = concat (map (\<lambda>i. subslice (2 * i) (2 * i + 2) chunkID @ ''/'') [0..<nat level])
        @ drop (2 * nat level) chunkID"
    using assms(1) by (auto simp: nested_path_def chunkDir_def nat_mult_distrib split: if_splits)
  have "CHR ''/'' \<notin> set (drop (2 * nat level) chunkID)"
    using assms(2) by (auto dest: in_set_dropD)
  then show ?thesis
    unfolding p chunkIDFromListedPath_def
    by (simp only: remove_char_append remove_slashes [OF assms(2)] concat_pairs [OF l(2)]
        remove_char_id simp_thms append_take_drop_id)
qed

lemma nested_path_inj:
  assumes "nested_path l x = Some p" "nested_path l' y = Some p"
    and "CHR ''/'' \<notin> set x" "CHR ''/'' \<notin> set y"
  shows "x = y"
  using nested_path_id [OF assms(1,3)] nested_path_id [OF assms(2,4)] by simp

text \<open>The paths at which a chunk, or its fossil, is looked for.\<close>

definition chunk_paths :: "nesting \<Rightarrow> string \<Rightarrow> bool \<Rightarrow> string list" where
  "chunk_paths nst chunkID isFossil =
     map (\<lambda>l. the (nested_path l chunkID) @ fossil_suffix isFossil) (readLevels nst)"

text \<open>Ids that fit the levels: hexadecimal, and longer than the directories made of them.\<close>

definition usable_id :: "nesting \<Rightarrow> string \<Rightarrow> bool" where
  "usable_id nst x \<longleftrightarrow> hex_id x \<and> writeLevel nst \<in> set (readLevels nst)
     \<and> list_all (\<lambda>l. 0 \<le> l \<and> 2 * l < int (length x)) (readLevels nst)"

lemma hex_plain:
  assumes "w \<noteq> []" and "set w \<subseteq> set ''0123456789abcdef''"
  shows "plain_name (w @ fossil_suffix f)"
proof -
  have c: "hd w \<in> set ''0123456789abcdef''" using assms hd_in_set by blast
  have "CHR ''/'' \<notin> set w" using assms(2) by auto
  moreover have "hd w \<noteq> CHR ''.''" using c by auto
  ultimately show ?thesis using assms(1)
    by (cases w) (auto simp: plain_name_def fossil_suffix_def)
qed

lemma plain_name_path: "plain_name w \<Longrightarrow> plain_path w"
  unfolding plain_path_def plain_name_def by (simp add: split_on_no_sep)

lemma plain_pairs:
  assumes "2 * n \<le> length x" and "set x \<subseteq> set ''0123456789abcdef''" and "plain_path rest"
  shows "plain_path (concat (map (\<lambda>i. subslice (2 * i) (2 * i + 2) x @ ''/'') [0..<n]) @ rest)"
  using assms(1,3)
proof (induction n arbitrary: rest)
  case (Suc n)
  have "subslice (2 * n) (2 * n + 2) x \<noteq> []" using Suc.prems(1) by (auto simp flip: length_greater_0_conv)
  moreover have "set (subslice (2 * n) (2 * n + 2) x) \<subseteq> set ''0123456789abcdef''"
    unfolding subslice_def by (rule order_trans [OF set_take_subset order_trans [OF set_drop_subset assms(2)]])
  ultimately have "plain_name (subslice (2 * n) (2 * n + 2) x @ fossil_suffix False)" by (rule hex_plain)
  then have "plain_path (subslice (2 * n) (2 * n + 2) x)" by (simp only: fossil_suffix_def if_False append_Nil2 plain_name_path)
  then have "plain_path (subslice (2 * n) (2 * n + 2) x @ CHR ''/'' # rest)"
    using Suc.prems(2) by (simp add: plain_path_append)
  then show ?case using Suc.IH [of "subslice (2 * n) (2 * n + 2) x @ CHR ''/'' # rest"] Suc.prems(1) by simp
qed simp

lemma usable_path:
  assumes "usable_id nst x" and "l \<in> set (readLevels nst)"
  shows "\<exists>p. nested_path l x = Some p \<and> plain_path (p @ fossil_suffix f)"
proof -
  have "0 \<le> l \<and> 2 * l < int (length x)" using assms unfolding usable_id_def list_all_iff by blast
  then have l: "0 \<le> l" "nat (2 * l) < length x" "2 * nat l = nat (2 * l)" by auto
  have x: "set x \<subseteq> set ''0123456789abcdef''" using assms(1) unfolding usable_id_def hex_id_def by blast
  have "drop (nat (2 * l)) x \<noteq> []" using l(2) by simp
  moreover have "set (drop (nat (2 * l)) x) \<subseteq> set ''0123456789abcdef''" by (rule order_trans [OF set_drop_subset x])
  ultimately have "plain_path (drop (nat (2 * l)) x @ fossil_suffix f)" by (intro plain_name_path hex_plain)
  then have "plain_path (concat (map (\<lambda>i. subslice (2 * i) (2 * i + 2) x @ ''/'') [0..<nat l])
      @ drop (nat (2 * l)) x @ fossil_suffix f)"
    using l by (intro plain_pairs x) simp_all
  moreover have "plain_path ''chunks''" by (intro plain_name_path) (simp add: plain_name_def)
  ultimately have "plain_path (''chunks'' @ CHR ''/'' # concat (map (\<lambda>i. subslice (2 * i) (2 * i + 2) x @ ''/'') [0..<nat l])
      @ drop (nat (2 * l)) x @ fossil_suffix f)"
    by (simp only: plain_path_append simp_thms)
  then show ?thesis using l by (simp add: nested_path_def)
qed

section \<open>What the program relies on\<close>

text \<open>
  \<open>look s p\<close> is what a storage has at a path, \<open>body\<close> the content when it is a file.  Operations
  that report an error have changed nothing; those that succeed change the paths they name.
\<close>

locale file_store =
  fixes st :: "'s storage_ops" and look :: "'s \<Rightarrow> string \<Rightarrow> 'n option" and body :: "'n \<Rightarrow> bytes option"
    and valid :: "string \<Rightarrow> bool"
  assumes info: "valid p \<Longrightarrow> (\<exists>d n. GetFileInfo st s p = Inr (True, d, n)) \<longleftrightarrow> look s p \<noteq> None"
    and delete_ok: "DeleteFile st s p = (None, s') \<Longrightarrow> valid p \<Longrightarrow> valid q
          \<Longrightarrow> look s' q = (if q = p then None else look s q)"
    and delete_fail: "DeleteFile st s p = (Some e, s') \<Longrightarrow> look s' = look s"
    and move_ok: "MoveFile st s p p' = (None, s') \<Longrightarrow> valid p \<Longrightarrow> valid p' \<Longrightarrow> valid q
          \<Longrightarrow> look s p \<noteq> None \<and> look s' q = (if q = p' then look s p else if q = p then None else look s q)"
    and move_fail: "MoveFile st s p p' = (Some e, s') \<Longrightarrow> look s' = look s"
    and upload_ok: "UploadFile st s p b = (None, s') \<Longrightarrow> valid p \<Longrightarrow> look s' p \<noteq> None"
    and upload_body: "UploadFile st s p b = (None, s') \<Longrightarrow> valid p \<Longrightarrow> look s p = None
          \<Longrightarrow> \<exists>n. look s' p = Some n \<and> body n = Some b"
    and upload_frame: "UploadFile st s p b = (r, s') \<Longrightarrow> valid p \<Longrightarrow> valid q \<Longrightarrow> q \<noteq> p
          \<Longrightarrow> look s q \<noteq> None \<Longrightarrow> look s' q = look s q"
    and upload_keeps: "UploadFile st s p b = (r, s') \<Longrightarrow> valid p \<Longrightarrow> look s p \<noteq> None \<Longrightarrow> look s' p \<noteq> None"
    and download_same: "DownloadFile st s p = (res, s') \<Longrightarrow> look s' = look s"
    and download_body: "DownloadFile st s p = (Inr b, s') \<Longrightarrow> valid p
          \<Longrightarrow> (\<exists>n. look s p = Some n \<and> body n = Some b)"
begin

lemma look_info:
  assumes "valid p"
  shows "(case GetFileInfo st s p of Inr (True, _, sz) \<Rightarrow> f sz | _ \<Rightarrow> g)
    = (if look s p = None then g else f (snd (snd (projr (GetFileInfo st s p)))))"
  using info [OF assms, of s] by (auto split: sum.splits prod.splits bool.splits)

definition proper_id :: "nesting \<Rightarrow> string \<Rightarrow> bool" where
  "proper_id nst chunkID \<longleftrightarrow> CHR ''/'' \<notin> set chunkID \<and> CHR ''.'' \<notin> set chunkID \<and> writeLevel nst \<in> set (readLevels nst)
     \<and> (\<forall>l \<in> set (readLevels nst). nested_path l chunkID \<noteq> None)
     \<and> (\<forall>l \<in> set (readLevels nst). \<forall>f. valid (the (nested_path l chunkID) @ fossil_suffix f))"

definition stored :: "nesting \<Rightarrow> 's \<Rightarrow> string \<Rightarrow> bool \<Rightarrow> bool" where
  "stored nst s chunkID isFossil \<longleftrightarrow> (\<exists>p \<in> set (chunk_paths nst chunkID isFossil). look s p \<noteq> None)"

lemma probe_levels_spec:
  assumes "\<forall>l \<in> set levels. nested_path l chunkID \<noteq> None"
    and "\<forall>l \<in> set levels. valid (the (nested_path l chunkID) @ fossil_suffix f)"
  defines "ps \<equiv> map (\<lambda>l. the (nested_path l chunkID) @ fossil_suffix f) levels"
  shows "probe_levels st s chunkID f levels acc
    = (case find (\<lambda>p. look s p \<noteq> None) ps of
         Some p \<Rightarrow> Hit p (snd (snd (projr (GetFileInfo st s p)))) | None \<Rightarrow> Missed (acc @ ps))"
  using assms(1,2) unfolding ps_def
proof (induction levels arbitrary: acc)
  case (Cons l ls)
  then obtain p where p: "nested_path l chunkID = Some p" and v: "valid (p @ fossil_suffix f)" by auto
  show ?case using Cons by (simp add: p look_info [OF v] Let_def split: option.split)
qed simp

lemma FindChunk_spec:
  assumes "proper_id nst chunkID"
  shows "FindChunk st nst s chunkID f
    = (case find (\<lambda>p. look s p \<noteq> None) (chunk_paths nst chunkID f) of
         Some p \<Rightarrow> Inr (p, True, snd (snd (projr (GetFileInfo st s p))))
       | None \<Rightarrow> Inr (the (nested_path (writeLevel nst) chunkID) @ fossil_suffix f, False, 0))"
proof -
  let ?F = "\<lambda>l. the (nested_path l chunkID) @ fossil_suffix f"
  have "find (\<lambda>(l, _). writeLevel nst = l) (zip ls (map ?F ls)) = Some (writeLevel nst, ?F (writeLevel nst))"
    if "writeLevel nst \<in> set ls" for ls
    using that by (induction ls) auto
  then show ?thesis
    using assms probe_levels_spec [of "readLevels nst" chunkID f s "[]"]
    by (auto simp: FindChunk_def proper_id_def chunk_paths_def split: option.split)
qed

lemma FindChunk_found:
  assumes "proper_id nst chunkID" and "FindChunk st nst s chunkID f = Inr (p, True, n)"
  shows "p \<in> set (chunk_paths nst chunkID f)" "look s p \<noteq> None" "stored nst s chunkID f" "valid p"
proof -
  have "find (\<lambda>p. look s p \<noteq> None) (chunk_paths nst chunkID f) = Some p"
    using assms(2) by (simp add: FindChunk_spec [OF assms(1)] split: option.splits)
  then show p: "p \<in> set (chunk_paths nst chunkID f)" "look s p \<noteq> None"
    unfolding find_Some_iff by auto
  then show "stored nst s chunkID f" by (auto simp: stored_def)
  show "valid p" using p(1) assms(1) by (auto simp: chunk_paths_def proper_id_def)
qed

lemma FindChunk_missing:
  assumes "proper_id nst chunkID" and "FindChunk st nst s chunkID f = Inr (p, False, n)"
  shows "\<not> stored nst s chunkID f" "p = the (nested_path (writeLevel nst) chunkID) @ fossil_suffix f"
  using assms FindChunk_spec [OF assms(1), of s f]
  by (auto simp: stored_def find_None_iff split: option.splits)

lemma FindChunk_no_error: "proper_id nst chunkID \<Longrightarrow> FindChunk st nst s chunkID f \<noteq> Inl e"
  by (simp add: FindChunk_spec split: option.split)

lemma chunk_paths_valid: "proper_id nst chunkID \<Longrightarrow> p \<in> set (chunk_paths nst chunkID f) \<Longrightarrow> valid p"
  by (auto simp: chunk_paths_def proper_id_def)

lemma chunk_paths_id:
  assumes "proper_id nst x" and "p \<in> set (chunk_paths nst x f)"
  shows "chunkIDFromListedPath (drop (length chunkDir) p) = x @ fossil_suffix f"
proof -
  obtain l where l: "l \<in> set (readLevels nst)" "p = the (nested_path l x) @ fossil_suffix f"
    using assms(2) by (auto simp: chunk_paths_def)
  then obtain q where q: "nested_path l x = Some q" using assms(1) by (auto simp: proper_id_def)
  have "chunkIDFromListedPath (drop (length chunkDir) q) = x"
    using nested_path_id [OF q] assms(1) by (simp add: proper_id_def)
  moreover have "length chunkDir \<le> length q"
    using nested_path_chunks [OF q] by (metis length_take min.absorb_iff2 min.commute)
  moreover have "remove_char (CHR ''/'') (fossil_suffix f) = fossil_suffix f"
    by (simp add: fossil_suffix_def remove_char_def)
  ultimately show ?thesis by (simp add: l(2) q chunkIDFromListedPath_def remove_char_append)
qed

lemma chunk_paths_unique:
  assumes "proper_id nst x" "proper_id nst y" "p \<in> set (chunk_paths nst x f)" "p \<in> set (chunk_paths nst y g)"
  shows "x = y \<and> f = g"
proof -
  have "x @ fossil_suffix f = y @ fossil_suffix g" using chunk_paths_id assms by metis
  moreover have "CHR ''.'' \<notin> set x" "CHR ''.'' \<notin> set y" using assms(1,2) by (simp_all add: proper_id_def)
  ultimately show ?thesis by (auto simp: fossil_suffix_def append_eq_append_conv2 Cons_eq_append_conv split: if_splits)
qed

lemma fossil_path:
  "p \<in> set (chunk_paths nst x False) \<Longrightarrow> p @ ''.fsl'' \<in> set (chunk_paths nst x True)"
  by (auto simp: chunk_paths_def fossil_suffix_def)

lemma ChunkPath_proper: "proper_id nst x \<Longrightarrow> \<exists>p. ChunkPath nst x = Inr p \<and> p \<in> set (chunk_paths nst x False)"
proof -
  assume x: "proper_id nst x"
  then obtain p where "nested_path (writeLevel nst) x = Some p" by (auto simp: proper_id_def)
  then show ?thesis using x
    by (auto simp: ChunkPath_def proper_id_def chunk_paths_def fossil_suffix_def intro!: image_eqI [of _ _ "writeLevel nst"])
qed

lemma FindChunk_missing_path:
  "proper_id nst x \<Longrightarrow> FindChunk st nst s x f = Inr (p, False, n) \<Longrightarrow> p \<in> set (chunk_paths nst x f)"
  using FindChunk_missing(2) [of nst x s f p n] by (auto simp: proper_id_def chunk_paths_def)

text \<open>What is there stays there when something is uploaded anywhere.\<close>

lemma upload_mono:
  "UploadFile st s p b = (r, s') \<Longrightarrow> valid p \<Longrightarrow> valid q \<Longrightarrow> look s q \<noteq> None \<Longrightarrow> look s' q \<noteq> None"
  using upload_frame [of s p b r s' q] upload_keeps [of s p b r s'] by (cases "q = p") auto

text \<open>A chunk is present when it is stored as a chunk or as a fossil.\<close>

definition present :: "nesting \<Rightarrow> 's \<Rightarrow> string \<Rightarrow> bool" where
  "present nst s x \<longleftrightarrow> stored nst s x False \<or> stored nst s x True"

lemma presentI: "p \<in> set (chunk_paths nst x f) \<Longrightarrow> look s p \<noteq> None \<Longrightarrow> present nst s x"
  by (cases f) (auto simp: present_def stored_def)

lemma present_mono:
  assumes "present nst s x" and "\<And>p f. p \<in> set (chunk_paths nst x f) \<Longrightarrow> look s p \<noteq> None \<Longrightarrow> look s' p \<noteq> None"
  shows "present nst s' x"
proof -
  obtain p f where "p \<in> set (chunk_paths nst x f)" "look s p \<noteq> None"
    using assms(1) unfolding present_def stored_def by blast
  then show ?thesis using assms(2) presentI by blast
qed

end

text \<open>A storage on which reading a file that is there never fails.\<close>

locale reliable_store = file_store +
  assumes download_ok: "valid p \<Longrightarrow> look s p = Some n \<Longrightarrow> body n = Some b \<Longrightarrow> fst (DownloadFile st s p) = Inr b"
begin

lemma download_stored:
  assumes "valid p" and "look s p = Some n" and "body n = Some b"
  obtains s' where "DownloadFile st s p = (Inr b, s')"
  using download_ok [OF assms] by (cases "DownloadFile st s p") auto

end

section \<open>Absent chunks\<close>

lemma probe_levels_missed:
  "probe_levels st s chunkID f levels acc = Missed paths
    \<Longrightarrow> paths = acc @ map (\<lambda>l. the (nested_path l chunkID) @ fossil_suffix f) levels
      \<and> (\<forall>l \<in> set levels. nested_path l chunkID \<noteq> None)"
proof (induction levels arbitrary: acc)
  case (Cons l ls)
  then obtain p where p: "nested_path l chunkID = Some p" by (auto split: option.splits)
  then have "probe_levels st s chunkID f ls (acc @ [p @ fossil_suffix f]) = Missed paths"
    using Cons.prems by (auto simp: Let_def split: sum.splits prod.splits bool.splits)
  from Cons.IH [OF this] p show ?case by simp
qed simp

end
