(* ===== verification/File_Storage.thy ===== *)
theory File_Storage
  imports Storage "HOL-Library.AList" "HOL-Library.List_Lexorder" "HOL-Library.Char_ord"
begin

text \<open>
  The storage in a local directory (\<^verbatim>\<open>src/src/duplicacy_filestorage.go\<close>), which also is the
  snapshot cache.  The disk is a list of the paths below the storage directory with what is at each;
  the errors are those the operating system gives for the state of the disk.
\<close>

section \<open>The disk\<close>

datatype fs_node = FileNode bytes | DirNode

type_synonym disk = "(string \<times> fs_node) list"

definition node_at :: "disk \<Rightarrow> string \<Rightarrow> fs_node option" where
  "node_at d p = (if p = ''.'' then Some DirNode else map_of d p)"

text \<open>The children of a directory, in the order of \<^verbatim>\<open>ioutil.ReadDir\<close>, which sorts by name.\<close>

definition child_name :: "string \<Rightarrow> string \<Rightarrow> string option" where
  "child_name dir p =
     (let pre = (if dir = ''.'' then [] else dir @ ''/'');
          name = drop (length pre) p
      in if has_prefix p pre \<and> name \<noteq> [] \<and> CHR ''/'' \<notin> set name then Some name else None)"

definition read_dir :: "disk \<Rightarrow> string \<Rightarrow> (string \<times> fs_node) list" where
  "read_dir d dir = sort_key fst (List.map_filter
     (\<lambda>(p, n). map_option (\<lambda>name. (name, n)) (child_name dir p)) d)"

text \<open>\<^verbatim>\<open>os.MkdirAll\<close>: every missing directory on the way to \<open>dir\<close>.\<close>

definition ancestors :: "string \<Rightarrow> string list" where
  "ancestors dir =
     (let ws = split_on (CHR ''/'') dir in map (\<lambda>n. join_with (CHR ''/'') (take n ws)) [1..<Suc (length ws)])"

definition mkdir_all :: "disk \<Rightarrow> string \<Rightarrow> (string + disk)" where
  "mkdir_all d dir =
     (if list_ex (\<lambda>p. case node_at d p of Some (FileNode b) \<Rightarrow> True | _ \<Rightarrow> False) (ancestors dir) then Inl ''not a directory''
      else Inr (fold (\<lambda>p d. if node_at d p = None then AList.update p DirNode d else d) (ancestors dir) d))"

section \<open>The operations\<close>

definition fs_ListFiles :: "disk \<Rightarrow> string \<Rightarrow> string + (string \<times> int) list" where
  "fs_ListFiles d dir =
     (case node_at d (path_clean dir) of
        None \<Rightarrow> Inr []
      | Some (FileNode b) \<Rightarrow> Inl ''not a directory''
      | Some DirNode \<Rightarrow> Inr (map (\<lambda>(name, n). case n of DirNode \<Rightarrow> (name @ ''/'', 0)
                                              | FileNode b \<Rightarrow> (name, int (length b)))
                            (read_dir d (path_clean dir))))"

definition fs_DeleteFile :: "disk \<Rightarrow> string \<Rightarrow> string option \<times> disk" where
  "fs_DeleteFile d filePath =
     (let k = path_clean filePath in
      case node_at d k of
        None \<Rightarrow> (None, d)
      | Some (FileNode b) \<Rightarrow> (None, AList.delete k d)
      | Some DirNode \<Rightarrow>
          if k = ''.'' \<or> read_dir d k \<noteq> [] then (Some ''directory not empty'', d) else (None, AList.delete k d))"

text \<open>Only files are renamed by the program; a file renamed onto another replaces it.\<close>

definition fs_MoveFile :: "disk \<Rightarrow> string \<Rightarrow> string \<Rightarrow> string option \<times> disk" where
  "fs_MoveFile d from to =
     (let k = path_clean from; k' = path_clean to in
      case node_at d k of
        None \<Rightarrow> (Some ''no such file or directory'', d)
      | Some DirNode \<Rightarrow> (Some ''is a directory'', d)
      | Some (FileNode b) \<Rightarrow>
          if node_at d (path_dir k') \<noteq> Some DirNode then (Some ''no such file or directory'', d)
          else if node_at d k' = Some DirNode then (Some ''file exists'', d)
          else (None, AList.update k' (FileNode b) (AList.delete k d)))"

definition fs_CreateDirectory :: "disk \<Rightarrow> string \<Rightarrow> string option \<times> disk" where
  "fs_CreateDirectory d dir =
     (let k = path_clean dir in
      if node_at d k \<noteq> None then (None, d)
      else if node_at d (path_dir k) \<noteq> Some DirNode then (Some ''no such file or directory'', d)
      else (None, AList.update k DirNode d))"

definition fs_GetFileInfo :: "disk \<Rightarrow> string \<Rightarrow> string + (bool \<times> bool \<times> int)" where
  "fs_GetFileInfo d filePath =
     (case node_at d (path_clean filePath) of
        None \<Rightarrow> Inr (False, False, 0)
      | Some (FileNode b) \<Rightarrow> Inr (True, False, int (length b))
      | Some DirNode \<Rightarrow> Inr (True, True, 0))"

definition fs_DownloadFile :: "disk \<Rightarrow> string \<Rightarrow> (string + bytes) \<times> disk" where
  "fs_DownloadFile d filePath =
     (case node_at d (path_clean filePath) of
        None \<Rightarrow> (Inl ''no such file or directory'', d)
      | Some DirNode \<Rightarrow> (Inl ''is a directory'', d)
      | Some (FileNode b) \<Rightarrow> (Inr b, d))"

text \<open>
  An upload makes the missing directories when the path has more than two components, writes a
  temporary file beside the target and renames it.  When the rename fails although something is at
  the target, the upload counts as done.
\<close>

definition fs_UploadFile :: "disk \<Rightarrow> string \<Rightarrow> bytes \<Rightarrow> string option \<times> disk" where
  "fs_UploadFile d filePath content =
     (let fullPath = path_clean filePath; dir = path_dir fullPath in
      case (if 2 < length (split_on (CHR ''/'') filePath)
            then (case node_at d dir of
                    None \<Rightarrow> mkdir_all d dir
                  | Some DirNode \<Rightarrow> Inr d
                  | Some (FileNode b) \<Rightarrow> Inl ''not a directory or symlink'')
            else Inr d) of
        Inl e \<Rightarrow> (Some e, d)
      | Inr d' \<Rightarrow>
          if node_at d' dir \<noteq> Some DirNode then (Some ''no such file or directory'', d')
          else if node_at d' fullPath = Some DirNode then (None, d')
          else (None, AList.update fullPath (FileNode content) d'))"

definition file_storage :: "bool \<Rightarrow> disk storage_ops" where
  "file_storage isCacheNeeded = \<lparr>
     ListFiles = fs_ListFiles, DeleteFile = fs_DeleteFile, MoveFile = fs_MoveFile,
     CreateDirectory = fs_CreateDirectory, GetFileInfo = fs_GetFileInfo,
     DownloadFile = fs_DownloadFile, UploadFile = fs_UploadFile,
     IsCacheNeeded = isCacheNeeded, IsMoveFileImplemented = True,
     IsStrongConsistent = True, IsFastListing = False\<rparr>"

definition CreateFileStorage_nesting :: nesting where
  "CreateFileStorage_nesting = SetDefaultNestingLevels [2, 3] 2"

section \<open>The interface is provided\<close>

fun node_body :: "fs_node \<Rightarrow> bytes option" where
  "node_body (FileNode b) = Some b"
| "node_body DirNode = None"

lemma plain_not_dot: "plain_path p \<Longrightarrow> p \<noteq> ''.''"
proof
  assume "plain_path p" and "p = ''.''"
  then have "''.'' \<in> set (split_on (CHR ''/'') p)" by simp
  then show False using \<open>plain_path p\<close> unfolding plain_path_def plain_name_def by blast
qed

lemma node_at_update: "p \<noteq> ''.'' \<Longrightarrow> node_at (AList.update p n d) q = (if q = p then Some n else node_at d q)"
  by (simp add: node_at_def AList.update_conv')

lemma node_at_delete: "q \<noteq> ''.'' \<Longrightarrow> node_at (AList.delete p d) q = (if q = p then None else node_at d q)"
  by (simp add: node_at_def delete_conv')

lemma mkdir_fold_keeps:
  "node_at d q = Some n \<Longrightarrow>
   node_at (fold (\<lambda>p d. if node_at d p = None then AList.update p DirNode d else d) ps d) q = Some n"
proof (induction ps arbitrary: d)
  case (Cons p ps)
  have "node_at (if node_at d p = None then AList.update p DirNode d else d) q = Some n"
    using Cons.prems by (cases "p = ''.''") (auto simp: node_at_update node_at_def AList.update_conv')
  then show ?case using Cons.IH by simp
qed simp

lemma mkdir_all_keeps: "mkdir_all d dir = Inr d' \<Longrightarrow> node_at d q = Some n \<Longrightarrow> node_at d' q = Some n"
  by (auto simp: mkdir_all_def mkdir_fold_keeps split: if_splits)

lemma fs_UploadFile_keeps:
  assumes "fs_UploadFile d p b = (r, d')" and "plain_path p" and "node_at d q = Some n"
  shows "q \<noteq> p \<Longrightarrow> node_at d' q = Some n" and "node_at d' q \<noteq> None" and "r = None \<Longrightarrow> node_at d' p \<noteq> None"
  using assms mkdir_all_keeps [of d "path_dir p" _ q n]
  by (auto simp: fs_UploadFile_def path_clean_plain plain_not_dot node_at_update Let_def
      split: sum.splits option.splits fs_node.splits if_splits)

lemma ancestor_prefix:
  assumes "plain_path p" and "a \<in> set (ancestors (path_dir p))"
  shows "a = ''.'' \<or> (\<exists>r. p = a @ CHR ''/'' # r)"
proof (cases "CHR ''/'' \<in> set p")
  case True
  then obtain q w where p: "p = q @ CHR ''/'' # w" "CHR ''/'' \<notin> set w" using split_list_last by metis
  then have "path_dir p = q" using assms(1) path_dir_plain by simp
  then have "a \<in> (\<lambda>n. join_with (CHR ''/'') (take n (split_on (CHR ''/'') q))) ` {1..<Suc (length (split_on (CHR ''/'') q))}"
    using assms(2) unfolding ancestors_def Let_def by (simp only: set_map set_upt)
  then obtain n where "n \<in> {1..<Suc (length (split_on (CHR ''/'') q))}" "a = join_with (CHR ''/'') (take n (split_on (CHR ''/'') q))"
    by (rule imageE)
  then have n: "0 < n" "a = join_with (CHR ''/'') (take n (split_on (CHR ''/'') q))" by simp_all
  show ?thesis
  proof (cases "drop n (split_on (CHR ''/'') q) = []")
    case True
    then have "a = q" using n(2) by (simp add: join_split)
    then show ?thesis using p by blast
  next
    case False
    moreover have "take n (split_on (CHR ''/'') q) \<noteq> []" using n(1) by simp
    ultimately have "q = a @ CHR ''/'' # join_with (CHR ''/'') (drop n (split_on (CHR ''/'') q))"
      using join_with_append [of "take n (split_on (CHR ''/'') q)" "drop n (split_on (CHR ''/'') q)" "CHR ''/''"]
      unfolding append_take_drop_id join_split n(2) by blast
    then show ?thesis using p(1) by (metis append_assoc append_Cons)
  qed
next
  case False
  then have d: "dropWhile (\<lambda>c. c \<noteq> CHR ''/'') (rev p) = []" by (auto simp: dropWhile_eq_Nil_conv)
  have "path_dir p = ''.''" unfolding path_dir_def d by (simp add: path_clean_def has_prefix_def)
  then show ?thesis using assms(2) by (auto simp: ancestors_def upt_rec)
qed

lemma mkdir_fold_other:
  "p \<notin> set ps \<Longrightarrow> p \<noteq> ''.'' \<Longrightarrow>
   node_at (fold (\<lambda>p d. if node_at d p = None then AList.update p DirNode d else d) ps d) p = node_at d p"
  by (induction ps arbitrary: d) (auto simp: node_at_def AList.update_conv')

text \<open>An upload makes the file and directories on the way to it, nothing else.\<close>

lemma fs_UploadFile_new:
  assumes "fs_UploadFile d p b = (r, d')" and "plain_path p" and "plain_path q" and "node_at d q = None" and "node_at d' q \<noteq> None"
  shows "q = p \<or> (\<exists>r. p = q @ CHR ''/'' # r)"
proof (rule ccontr)
  assume no: "\<not> ?thesis"
  then have "q \<notin> set (ancestors (path_dir p))" using ancestor_prefix [OF assms(2)] plain_not_dot [OF assms(3)] by blast
  then have "node_at d'' q = None" if "mkdir_all d (path_dir p) = Inr d''" for d''
    using that mkdir_fold_other plain_not_dot [OF assms(3)] assms(4) by (auto simp: mkdir_all_def split: if_splits)
  then show False
    using assms no by (auto simp: fs_UploadFile_def path_clean_plain plain_not_dot node_at_update Let_def
        split: sum.splits option.splits fs_node.splits if_splits)
qed

lemma fs_UploadFile_body:
  assumes "fs_UploadFile d p b = (None, d')" and "plain_path p" and "node_at d p = None"
  shows "\<exists>n. node_at d' p = Some n \<and> node_body n = Some b"
proof -
  have "node_at d'' p = None" if "mkdir_all d (path_dir p) = Inr d''" for d''
  proof -
    have "p \<notin> set (ancestors (path_dir p))" using ancestor_prefix [OF assms(2), of p] plain_not_dot [OF assms(2)] by auto
    then show ?thesis
      using that mkdir_fold_other plain_not_dot [OF assms(2)] assms(3) by (auto simp: mkdir_all_def split: if_splits)
  qed
  then show ?thesis
    using assms by (auto simp: fs_UploadFile_def path_clean_plain plain_not_dot node_at_update Let_def
        split: sum.splits option.splits fs_node.splits if_splits)
qed

interpretation fs: reliable_store "file_storage c" node_at node_body plain_path
proof
  fix s s' :: disk and p p' q e b r and res :: "string + bytes"
  show "plain_path p \<Longrightarrow> (\<exists>d n. GetFileInfo (file_storage c) s p = Inr (True, d, n)) \<longleftrightarrow> node_at s p \<noteq> None"
    by (auto simp: file_storage_def fs_GetFileInfo_def path_clean_plain split: option.split fs_node.split)
  show "DeleteFile (file_storage c) s p = (None, s') \<Longrightarrow> plain_path p \<Longrightarrow> plain_path q
      \<Longrightarrow> node_at s' q = (if q = p then None else node_at s q)"
    by (auto simp: file_storage_def fs_DeleteFile_def path_clean_plain plain_not_dot node_at_delete Let_def
        split: option.splits fs_node.splits if_splits)
  show "DeleteFile (file_storage c) s p = (Some e, s') \<Longrightarrow> node_at s' = node_at s"
    by (auto simp: file_storage_def fs_DeleteFile_def Let_def split: option.splits fs_node.splits if_splits)
  show "MoveFile (file_storage c) s p p' = (None, s') \<Longrightarrow> plain_path p \<Longrightarrow> plain_path p' \<Longrightarrow> plain_path q
      \<Longrightarrow> node_at s p \<noteq> None \<and> node_at s' q = (if q = p' then node_at s p else if q = p then None else node_at s q)"
    by (auto simp: file_storage_def fs_MoveFile_def path_clean_plain plain_not_dot node_at_delete node_at_update Let_def
        split: option.splits fs_node.splits if_splits)
  show "MoveFile (file_storage c) s p p' = (Some e, s') \<Longrightarrow> node_at s' = node_at s"
    by (auto simp: file_storage_def fs_MoveFile_def Let_def split: option.splits fs_node.splits if_splits)
  show "UploadFile (file_storage c) s p b = (None, s') \<Longrightarrow> plain_path p \<Longrightarrow> node_at s' p \<noteq> None"
    by (auto simp: file_storage_def fs_UploadFile_def path_clean_plain plain_not_dot node_at_update Let_def
        split: sum.splits option.splits fs_node.splits if_splits)
  show "UploadFile (file_storage c) s p b = (None, s') \<Longrightarrow> plain_path p \<Longrightarrow> node_at s p = None
      \<Longrightarrow> \<exists>n. node_at s' p = Some n \<and> node_body n = Some b"
    using fs_UploadFile_body [of s p b s'] by (simp add: file_storage_def)
  show "UploadFile (file_storage c) s p b = (r, s') \<Longrightarrow> plain_path p \<Longrightarrow> plain_path q \<Longrightarrow> q \<noteq> p
      \<Longrightarrow> node_at s q \<noteq> None \<Longrightarrow> node_at s' q = node_at s q"
    using fs_UploadFile_keeps(1) [of s p b r s' q] by (auto simp: file_storage_def)
  show "UploadFile (file_storage c) s p b = (r, s') \<Longrightarrow> plain_path p \<Longrightarrow> node_at s p \<noteq> None \<Longrightarrow> node_at s' p \<noteq> None"
    using fs_UploadFile_keeps(2) [of s p b r s' p] by (auto simp: file_storage_def)
  show "DownloadFile (file_storage c) s p = (res, s') \<Longrightarrow> node_at s' = node_at s"
    by (auto simp: file_storage_def fs_DownloadFile_def split: option.splits fs_node.splits)
  show "DownloadFile (file_storage c) s p = (Inr b, s') \<Longrightarrow> plain_path p
      \<Longrightarrow> \<exists>n. node_at s p = Some n \<and> node_body n = Some b"
    by (auto simp: file_storage_def fs_DownloadFile_def path_clean_plain split: option.splits fs_node.splits)
  fix n
  show "plain_path p \<Longrightarrow> node_at s p = Some n \<Longrightarrow> node_body n = Some b \<Longrightarrow> fst (DownloadFile (file_storage c) s p) = Inr b"
    by (cases n) (simp_all add: file_storage_def fs_DownloadFile_def path_clean_plain)
qed

section \<open>Properties\<close>

text \<open>
  The path \<^verbatim>\<open>FindChunk\<close> returns for a chunk it does not find is the one \<^verbatim>\<open>ChunkPath\<close> computes,
  which is where the chunk is then uploaded to, on every storage and with any nesting levels.
\<close>

theorem FindChunk_absent_is_ChunkPath:
  assumes "FindChunk st nst s chunkID False = Inr (path, False, n)"
  shows "ChunkPath nst chunkID = Inr path \<and> n = 0"
proof -
  let ?F = "\<lambda>l. the (nested_path l chunkID) @ fossil_suffix False"
  obtain paths where m: "probe_levels st s chunkID False (readLevels nst) [] = Missed paths"
    using assms by (auto simp: FindChunk_def split: probe.splits)
  have paths: "paths = map ?F (readLevels nst)" and ok: "\<forall>l \<in> set (readLevels nst). nested_path l chunkID \<noteq> None"
    using probe_levels_missed [OF m] by simp_all
  have "find (\<lambda>(l, _). writeLevel nst = l) (zip ls (map ?F ls))
      = (if writeLevel nst \<in> set ls then Some (writeLevel nst, ?F (writeLevel nst)) else None)" for ls
    by (induction ls) auto
  then have "writeLevel nst \<in> set (readLevels nst)" "path = ?F (writeLevel nst)" "n = 0"
    using assms by (auto simp: FindChunk_def m paths split: if_splits)
  then show ?thesis using ok by (auto simp: ChunkPath_def fossil_suffix_def split: option.split)
qed

theorem FindChunk_absent_is_ChunkPath_witness:
  "FindChunk (file_storage False) \<lparr>readLevels = [2, 1], writeLevel = 1\<rparr> [] ''d3495a'' False = Inr (''chunks/d3/495a'', False, 0)
    \<and> ChunkPath \<lparr>readLevels = [2, 1], writeLevel = 1\<rparr> ''d3495a'' = Inr ''chunks/d3/495a''"
proof -
  have f: "FindChunk (file_storage False) \<lparr>readLevels = [2, 1], writeLevel = 1\<rparr> [] ''d3495a'' False
      = Inr (''chunks/d3/495a'', False, 0)"
    by (simp add: FindChunk_def nested_path_def subslice_def upt_rec fossil_suffix_def file_storage_def
        fs_GetFileInfo_def node_at_def path_clean_def has_prefix_def)
  show ?thesis using FindChunk_absent_is_ChunkPath [OF f] f by simp
qed

text \<open>
  The listed path of a chunk gives its id back, at every nesting level, so the listing of the
  chunk tree and the ids recorded in the snapshots name the same chunks.
\<close>

theorem chunk_path_roundtrip:
  assumes "ChunkPath nst chunkID = Inr path" and "CHR ''/'' \<notin> set chunkID"
  shows "take (length chunkDir) path = chunkDir
    \<and> chunkIDFromListedPath (drop (length chunkDir) path) = chunkID
    \<and> TrimSuffix (chunkIDFromListedPath (drop (length chunkDir) path @ ''.fsl'')) ''.fsl'' = chunkID"
proof -
  have p: "nested_path (writeLevel nst) chunkID = Some path"
    using assms(1) by (auto simp: ChunkPath_def split: if_splits option.splits)
  have id: "chunkIDFromListedPath (drop (length chunkDir) path) = chunkID"
    by (rule nested_path_id [OF p assms(2)])
  moreover have "chunkIDFromListedPath (drop (length chunkDir) path @ ''.fsl'') = chunkID @ ''.fsl''"
    using id by (simp add: chunkIDFromListedPath_def) (simp add: remove_char_def)
  ultimately show ?thesis using nested_path_chunks [OF p] by (simp only: TrimSuffix_append simp_thms)
qed

theorem chunk_path_roundtrip_witness:
  "ChunkPath \<lparr>readLevels = [1, 2], writeLevel = 2\<rparr> ''d3495a8d'' = Inr ''chunks/d3/49/5a8d''
    \<and> chunkIDFromListedPath (drop (length chunkDir) ''chunks/d3/49/5a8d'') = ''d3495a8d''"
proof -
  have p: "ChunkPath \<lparr>readLevels = [1, 2], writeLevel = 2\<rparr> ''d3495a8d'' = Inr ''chunks/d3/49/5a8d''"
    by (simp add: ChunkPath_def nested_path_def subslice_def upt_rec)
  show ?thesis using chunk_path_roundtrip [OF p] p by simp
qed

text \<open>
  \<^verbatim>\<open>SetNestingLevels\<close> leaves a usable layout or fails: the write level is one of the read
  levels, so neither \<^verbatim>\<open>ChunkPath\<close> nor \<^verbatim>\<open>FindChunk\<close> reports an invalid nesting afterwards; with a
  configuration of the new format and no file \<^verbatim>\<open>nesting\<close> the level is 1, whatever was set before.
\<close>

theorem SetNestingLevels_usable:
  assumes "SetNestingLevels pn st cfg s nst = (Inr nst', s')"
  shows "ChunkPath nst' chunkID \<noteq> Inl invalid_nesting \<and> FindChunk st nst' s'' chunkID f \<noteq> Inl invalid_nesting
    \<and> (FixedNesting cfg \<and> GetFileInfo st s ''nesting'' = Inr (False, d, n)
        \<longrightarrow> nst' = \<lparr>readLevels = [1], writeLevel = 1\<rparr> \<and> s' = s)"
proof -
  have w: "writeLevel nst' \<in> set (readLevels nst')"
    using assms by (auto simp: SetNestingLevels_def Let_def split: if_splits sum.splits prod.splits option.splits bool.splits)
  let ?F = "\<lambda>l. the (nested_path l chunkID) @ fossil_suffix f"
  have "find (\<lambda>(l, _). writeLevel nst' = l) (zip ls (map ?F ls)) \<noteq> None" if "writeLevel nst' \<in> set ls" for ls
    using that by (induction ls) auto
  then have "find (\<lambda>(l, _). writeLevel nst' = l) (zip (readLevels nst') (map ?F (readLevels nst'))) \<noteq> None"
    using w .
  then have "FindChunk st nst' s'' chunkID f \<noteq> Inl invalid_nesting"
    using probe_levels_missed [of st s'' chunkID f "readLevels nst'" "[]"]
    by (auto simp: FindChunk_def invalid_nesting_def split: probe.split)
  moreover have "ChunkPath nst' chunkID \<noteq> Inl invalid_nesting"
    using w by (auto simp: ChunkPath_def invalid_nesting_def split: option.split)
  moreover have "FixedNesting cfg \<Longrightarrow> GetFileInfo st s ''nesting'' = Inr (False, d, n)
      \<Longrightarrow> nst' = \<lparr>readLevels = [1], writeLevel = 1\<rparr> \<and> s' = s"
    using assms by (simp add: SetNestingLevels_def)
  ultimately show ?thesis by blast
qed

theorem SetNestingLevels_usable_witness:
  "SetNestingLevels (\<lambda>_. None) (file_storage False) (CreateConfig\<lparr>FixedNesting := True\<rparr>) [] CreateFileStorage_nesting
     = (Inr \<lparr>readLevels = [1], writeLevel = 1\<rparr>, [])
   \<and> FindChunk (file_storage False) \<lparr>readLevels = [1], writeLevel = 1\<rparr> [] ''d3'' False \<noteq> Inl invalid_nesting"
proof -
  have i: "GetFileInfo (file_storage False) [] ''nesting'' = Inr (False, False, 0)"
    by (simp add: file_storage_def fs_GetFileInfo_def node_at_def path_clean_def has_prefix_def)
  then have r: "SetNestingLevels (\<lambda>_. None) (file_storage False) (CreateConfig\<lparr>FixedNesting := True\<rparr>) [] CreateFileStorage_nesting
     = (Inr \<lparr>readLevels = [1], writeLevel = 1\<rparr>, [])"
    by (simp add: SetNestingLevels_def)
  show ?thesis using SetNestingLevels_usable [OF r, where chunkID = "''d3''" and s'' = "[]" and f = False] r by blast
qed

end
