(* ===== verification/Chunk_Operator.thy ===== *)
theory Chunk_Operator
  imports Chunk File_Storage
begin

text \<open>
  The chunk operator (\<^verbatim>\<open>src/src/duplicacy_chunkoperator.go\<close>): the six operations its workers perform
  on a storage, with the snapshot cache on the local disk.  A task runs against the operator's state,
  and ends the process when it logs an error, which is how the workers treat \<^verbatim>\<open>LOG_ERROR\<close>.
\<close>

section \<open>Tasks and state\<close>

datatype chunk_operation = ChunkOperationDownload | ChunkOperationUpload | ChunkOperationDelete
  | ChunkOperationFossilize | ChunkOperationResurrect | ChunkOperationFind

record chunk_task =
  operation :: chunk_operation
  task_id :: string
  task_hash :: string
  task_index :: int
  filePath :: string
  task_metadata :: bool
  task_chunk :: chunk_obj

text \<open>What stays the same while the operator runs.  \<open>entropy\<close> gives the random bytes of an encryption.\<close>

record 's operator_env =
  storage :: "'s storage_ops"
  levels :: nesting
  snapshotCache :: "nesting option"
  lib :: chunk_lib
  opConfig :: config
  entropy :: "string \<Rightarrow> bytes \<times> bytes"
  allowFailures :: bool
  rewriteChunks :: bool
  skipChunkCheck :: bool
  rawData :: bool
  isHubic :: bool
  isWebDAV :: bool

datatype completion = Downloaded chunk_obj int | Uploaded chunk_obj int nat nat

record 's operator_state =
  store :: 's
  cache :: disk
  fossils :: "string list"
  NumberOfFailedChunks :: nat
  downloadedChunkSize :: nat
  completions :: "completion list"

datatype fatal = LogError string | RuntimePanic

type_synonym 's outcome = "fatal option \<times> 's operator_state"

definition add_fossil :: "string \<Rightarrow> 's operator_state \<Rightarrow> 's operator_state" where
  "add_fossil p s = s\<lparr>fossils := fossils s @ [p]\<rparr>"

definition complete :: "completion \<Rightarrow> 's operator_state \<Rightarrow> 's operator_state" where
  "complete c s = s\<lparr>completions := completions s @ [c]\<rparr>"

text \<open>A lookup that fails with an error is logged under \<open>code\<close>; a slice out of range panics.\<close>

definition lookup_fatal :: "string \<Rightarrow> storage_error \<Rightarrow> fatal" where
  "lookup_fatal code e = (case e of IOError _ \<Rightarrow> LogError code | SliceOutOfRange \<Rightarrow> RuntimePanic)"

definition find_chunk :: "'s operator_env \<Rightarrow> 's operator_state \<Rightarrow> string \<Rightarrow> bool \<Rightarrow> storage_error + (string \<times> bool \<times> int)" where
  "find_chunk env s i isFossil = FindChunk (storage env) (levels env) (store s) i isFossil"

text \<open>The hash and the id of a chunk's content, under the operator's configuration.\<close>

definition data_hash :: "'s operator_env \<Rightarrow> bytes \<Rightarrow> string" where
  "data_hash env b = string_of (NewKeyedHasher (lib env) (opConfig env) (HashKey (opConfig env)) b)"

definition data_id :: "'s operator_env \<Rightarrow> bytes \<Rightarrow> string" where
  "data_id env b = GetChunkIDFromHash (lib env) (opConfig env) (data_hash env b)"

section \<open>Deleting, fossilizing, resurrecting, finding\<close>

text \<open>The chunk to delete or fossilize is looked for when the task does not give its path.\<close>

definition locate_chunk :: "'s operator_env \<Rightarrow> chunk_task \<Rightarrow> 's operator_state \<Rightarrow> 's outcome + string" where
  "locate_chunk env task s =
     (if filePath task \<noteq> [] then Inr (filePath task)
      else case find_chunk env s (task_id task) False of
             Inl e \<Rightarrow> Inl (Some (lookup_fatal ''CHUNK_FIND'' e), s)
           | Inr (path, True, _) \<Rightarrow> Inr path
           | Inr (_, False, _) \<Rightarrow>
               if operation task = ChunkOperationDelete then Inl (None, s)
               else case find_chunk env s (task_id task) True of
                      Inr (fossilPath, True, _) \<Rightarrow> Inl (None, add_fossil fossilPath s)
                    | Inl SliceOutOfRange \<Rightarrow> Inl (Some RuntimePanic, s)
                    | _ \<Rightarrow> Inl (Some (LogError ''CHUNK_FIND''), s))"

definition delete_chunk :: "'s operator_env \<Rightarrow> string \<Rightarrow> 's operator_state \<Rightarrow> 's outcome" where
  "delete_chunk env path s = (None, s\<lparr>store := snd (DeleteFile (storage env) (store s) path)\<rparr>)"

definition fossilize_chunk :: "'s operator_env \<Rightarrow> chunk_task \<Rightarrow> string \<Rightarrow> 's operator_state \<Rightarrow> 's outcome" where
  "fossilize_chunk env task path s =
     (let fossilPath = path @ ''.fsl'' in
      case MoveFile (storage env) (store s) path fossilPath of
        (None, t) \<Rightarrow> (None, add_fossil fossilPath (s\<lparr>store := t\<rparr>))
      | (Some _, t) \<Rightarrow>
          (let s' = s\<lparr>store := t\<rparr> in
           case find_chunk env s' (task_id task) True of
             Inr (_, True, _) \<Rightarrow> (None, add_fossil fossilPath (s'\<lparr>store := snd (DeleteFile (storage env) t path)\<rparr>))
           | Inl SliceOutOfRange \<Rightarrow> (Some RuntimePanic, s')
           | _ \<Rightarrow> (Some (LogError ''CHUNK_DELETE''), s')))"

definition resurrect_chunk :: "'s operator_env \<Rightarrow> chunk_task \<Rightarrow> 's operator_state \<Rightarrow> 's outcome" where
  "resurrect_chunk env task s =
     (case find_chunk env s (task_id task) False of
        Inl e \<Rightarrow> (Some (lookup_fatal ''CHUNK_FIND'' e), s)
      | Inr (_, True, _) \<Rightarrow> (None, s\<lparr>store := snd (DeleteFile (storage env) (store s) (filePath task))\<rparr>)
      | Inr (chunkPath, False, _) \<Rightarrow>
          (case MoveFile (storage env) (store s) (filePath task) chunkPath of
             (None, t) \<Rightarrow> (None, s\<lparr>store := t\<rparr>)
           | (Some _, t) \<Rightarrow> (Some (LogError ''FOSSIL_RESURRECT''), s\<lparr>store := t\<rparr>)))"

definition check_chunk :: "'s operator_env \<Rightarrow> chunk_task \<Rightarrow> 's operator_state \<Rightarrow> 's outcome" where
  "check_chunk env task s =
     (case find_chunk env s (task_id task) False of
        Inl e \<Rightarrow> (Some (lookup_fatal ''CHUNK_FIND'' e), s)
      | Inr (_, exist, _) \<Rightarrow> (if exist then None else Some (LogError ''CHUNK_FIND''), s))"

section \<open>Downloading\<close>

text \<open>
  The attempt to load a metadata chunk from the cache: the chunk, if the cache has it intact, and the
  path to save it at otherwise (empty when no cache is used).
\<close>

definition load_cached :: "'s operator_env \<Rightarrow> chunk_task \<Rightarrow> 's operator_state \<Rightarrow> fatal + (chunk_obj option \<times> string)" where
  "load_cached env task s =
     (case snapshotCache env of
        Some cacheLevels \<Rightarrow>
          if task_metadata task \<and> IsCacheNeeded (storage env)
          then (case FindChunk (file_storage False) cacheLevels (cache s) (task_id task) False of
                  Inl (IOError _) \<Rightarrow> Inr (None, [])
                | Inl SliceOutOfRange \<Rightarrow> Inl RuntimePanic
                | Inr (cachedPath, False, _) \<Rightarrow> Inr (None, cachedPath)
                | Inr (cachedPath, True, _) \<Rightarrow>
                    (case fst (fs_DownloadFile (cache s) cachedPath) of
                       Inl _ \<Rightarrow> Inr (None, cachedPath)
                     | Inr b \<Rightarrow>
                         (case GetID (lib env) (opConfig env) (Write b (Reset True (CreateChunk True))) of
                            None \<Rightarrow> Inl RuntimePanic
                          | Some (actualChunkID, chunk) \<Rightarrow>
                              Inr (if actualChunkID = task_id task then Some chunk else None, cachedPath))))
          else Inr (None, [])
      | None \<Rightarrow> Inr (None, []))"

text \<open>Writing a recovered chunk anew, its damaged file becoming a fossil unless it was one.\<close>

definition rewrite_chunk ::
  "'s operator_env \<Rightarrow> chunk_task \<Rightarrow> chunk_obj \<Rightarrow> string \<Rightarrow> string \<Rightarrow> string \<Rightarrow> 's operator_state \<Rightarrow> 's outcome" where
  "rewrite_chunk env task chunk path chunkPath fossilPath s =
     (let s = (if path \<noteq> fossilPath
               then (case MoveFile (storage env) (store s) chunkPath (path @ ''.fsl'') of
                       (None, t) \<Rightarrow> add_fossil (path @ ''.fsl'') (s\<lparr>store := t\<rparr>)
                     | (Some _, t) \<Rightarrow> s\<lparr>store := t\<rparr>)
               else s)
      in case GetHash (lib env) (opConfig env) chunk of
           None \<Rightarrow> (Some RuntimePanic, s)
         | Some (h, _) \<Rightarrow>
             (case Encrypt (lib env) (opConfig env) (fst (entropy env (task_id task))) (snd (entropy env (task_id task)))
                     (ChunkKey (opConfig env)) h (task_metadata task) (Write (GetBytes chunk) (Reset True (CreateChunk True))) of
                (Some (CodingPanic code), _) \<Rightarrow> (Some (LogError code), s)
              | (Some (CodingError _), _) \<Rightarrow> (None, s)
              | (None, newChunk) \<Rightarrow>
                  (None, s\<lparr>store := snd (UploadFile (storage env) (store s) chunkPath (GetBytes newChunk))\<rparr>)))"

definition MaxDownloadAttempts :: nat where
  "MaxDownloadAttempts = 3"

definition fresh_chunk :: "chunk_task \<Rightarrow> chunk_obj" where
  "fresh_chunk task = (Reset False (CreateChunk True))\<lparr>isMetadata := task_metadata task\<rparr>"

text \<open>Which file is downloaded: the chunk, or else its fossil.\<close>

datatype target = Target string string string | Absent string | LookupFailed storage_error

definition find_target :: "'s operator_env \<Rightarrow> chunk_task \<Rightarrow> string \<Rightarrow> 's operator_state \<Rightarrow> target" where
  "find_target env task fossilPath s =
     (case find_chunk env s (task_id task) False of
        Inl e \<Rightarrow> LookupFailed e
      | Inr (chunkPath, True, _) \<Rightarrow> Target chunkPath chunkPath fossilPath
      | Inr (chunkPath, False, _) \<Rightarrow>
          (case find_chunk env s (task_id task) True of
             Inl e \<Rightarrow> LookupFailed e
           | Inr (fossilPath', True, _) \<Rightarrow> Target fossilPath' chunkPath fossilPath'
           | Inr (fossilPath', False, _) \<Rightarrow> Absent fossilPath'))"

text \<open>
  One attempt: a failure code with the chunk as it was left, the chunk, or a retry, which carries the
  fossil path found.  Every retry is guarded by the number of attempts.
\<close>

datatype attempt_result = Failed string chunk_obj | Fatal fatal | Got chunk_obj | Retry string

definition accept_download ::
  "'s operator_env \<Rightarrow> chunk_task \<Rightarrow> bool \<Rightarrow> string \<Rightarrow> string \<Rightarrow> string \<Rightarrow> bytes \<Rightarrow> 's operator_state
     \<Rightarrow> attempt_result \<times> 's operator_state" where
  "accept_download env task again path chunkPath fossilPath b s =
     (let chunk = Write b (fresh_chunk task) in
      if rawData env then (Got (SetStoredHash (lib env) (opConfig env) (task_hash task) chunk), s)
      else case Decrypt (lib env) (opConfig env) False False (ChunkKey (opConfig env)) (task_hash task) chunk of
             Inl (CodingPanic _) \<Rightarrow> (Fatal RuntimePanic, s)
           | Inl (CodingError _) \<Rightarrow>
               (if again then Retry fossilPath else Failed ''DOWNLOAD_DECRYPT'' (fresh_chunk task), s)
           | Inr (rewrite, chunk) \<Rightarrow>
               (case GetID (lib env) (opConfig env) chunk of
                  None \<Rightarrow> (Fatal RuntimePanic, s)
                | Some (actualChunkID, chunk) \<Rightarrow>
                    if actualChunkID \<noteq> task_id task
                    then (if again then Retry fossilPath else Failed ''DOWNLOAD_CORRUPTED'' chunk, s)
                    else if rewrite \<and> rewriteChunks env
                    then (case rewrite_chunk env task chunk path chunkPath fossilPath s of
                            (Some f, s) \<Rightarrow> (Fatal f, s)
                          | (None, s) \<Rightarrow> (Got chunk, s))
                    else (Got chunk, s)))"

definition download_attempt ::
  "'s operator_env \<Rightarrow> chunk_task \<Rightarrow> bool \<Rightarrow> string \<Rightarrow> 's operator_state \<Rightarrow> attempt_result \<times> 's operator_state" where
  "download_attempt env task again fossilPath s =
     (case find_target env task fossilPath s of
        LookupFailed SliceOutOfRange \<Rightarrow> (Fatal RuntimePanic, s)
      | LookupFailed (IOError _) \<Rightarrow> (Failed ''DOWNLOAD_CHUNK'' (fresh_chunk task), s)
      | Absent fossilPath' \<Rightarrow>
          (if (isHubic env \<or> isWebDAV env) \<and> again then Retry fossilPath'
           else Failed ''DOWNLOAD_CHUNK'' (fresh_chunk task), s)
      | Target path chunkPath fossilPath' \<Rightarrow>
          (case DownloadFile (storage env) (store s) path of
             (Inl e, t) \<Rightarrow>
               (if (e = ''unexpected EOF'' \<or> isHubic env) \<and> again then Retry fossilPath'
                else Failed ''DOWNLOAD_CHUNK'' (fresh_chunk task), s\<lparr>store := t\<rparr>)
           | (Inr b, t) \<Rightarrow> accept_download env task again path chunkPath fossilPath' b (s\<lparr>store := t\<rparr>)))"

text \<open>The attempts, counted down: at the last one nothing is retried.\<close>

fun download_attempts ::
  "'s operator_env \<Rightarrow> chunk_task \<Rightarrow> nat \<Rightarrow> string \<Rightarrow> 's operator_state \<Rightarrow> attempt_result \<times> 's operator_state" where
  "download_attempts env task 0 fossilPath s = download_attempt env task False fossilPath s"
| "download_attempts env task (Suc n) fossilPath s =
     (case download_attempt env task True fossilPath s of
        (Retry fossilPath', s') \<Rightarrow> download_attempts env task n fossilPath' s'
      | r \<Rightarrow> r)"

text \<open>
  A failure delivers a broken chunk when failures are allowed, and ends the process otherwise.  A
  metadata chunk is saved to the cache.
\<close>

definition fail_download :: "'s operator_env \<Rightarrow> chunk_task \<Rightarrow> string \<Rightarrow> chunk_obj \<Rightarrow> 's operator_state \<Rightarrow> 's outcome" where
  "fail_download env task code chunk s =
     (let s = s\<lparr>NumberOfFailedChunks := NumberOfFailedChunks s + 1\<rparr>
      in if allowFailures env then (None, complete (Downloaded (chunk\<lparr>isBroken := True\<rparr>) (task_index task)) s)
         else (Some (LogError code), s))"

definition save_cached :: "string \<Rightarrow> chunk_obj \<Rightarrow> 's operator_state \<Rightarrow> 's operator_state" where
  "save_cached cachedPath chunk s =
     (if isMetadata chunk \<and> \<not> isRawData chunk \<and> cachedPath \<noteq> []
      then s\<lparr>cache := snd (fs_UploadFile (cache s) cachedPath (GetBytes chunk))\<rparr> else s)"

definition DownloadChunk :: "'s operator_env \<Rightarrow> chunk_task \<Rightarrow> 's operator_state \<Rightarrow> 's outcome" where
  "DownloadChunk env task s =
     (case load_cached env task s of
        Inl f \<Rightarrow> (Some f, s)
      | Inr (Some chunk, _) \<Rightarrow> (None, complete (Downloaded chunk (task_index task)) s)
      | Inr (None, cachedPath) \<Rightarrow>
          (case download_attempts env task MaxDownloadAttempts [] s of
             (Fatal f, s) \<Rightarrow> (Some f, s)
           | (Retry _, s) \<Rightarrow> (None, s)
           | (Failed code chunk, s) \<Rightarrow> fail_download env task code chunk s
           | (Got chunk, s) \<Rightarrow>
               (let s = save_cached cachedPath chunk s in
                (None, complete (Downloaded chunk (task_index task))
                   (s\<lparr>downloadedChunkSize := downloadedChunkSize s + GetLength chunk\<rparr>)))))"

section \<open>Uploading\<close>

text \<open>
  A metadata chunk is first saved to the cache.  The chunk is encrypted only after the storage has
  been found not to have it, and not sent in a dry run.
\<close>

definition cache_upload :: "'s operator_env \<Rightarrow> chunk_task \<Rightarrow> 's operator_state \<Rightarrow> fatal + 's operator_state" where
  "cache_upload env task s =
     (case snapshotCache env of
        Some cacheLevels \<Rightarrow>
          if task_metadata task \<and> \<not> isRawData (task_chunk task) \<and> IsCacheNeeded (storage env)
          then (case FindChunk (file_storage False) cacheLevels (cache s) (task_id task) False of
                  Inr (chunkPath, False, _) \<Rightarrow>
                    Inr (s\<lparr>cache := snd (fs_UploadFile (cache s) chunkPath (GetBytes (task_chunk task)))\<rparr>)
                | Inl SliceOutOfRange \<Rightarrow> Inl RuntimePanic
                | _ \<Rightarrow> Inr s)
          else Inr s
      | None \<Rightarrow> Inr s)"

definition upload_target :: "'s operator_env \<Rightarrow> chunk_task \<Rightarrow> 's operator_state \<Rightarrow> storage_error + (string \<times> bool)" where
  "upload_target env task s =
     (if skipChunkCheck env
      then bindE (ChunkPath (levels env) (task_id task)) (\<lambda>path. Inr (path, False))
      else bindE (find_chunk env s (task_id task) False) (\<lambda>(path, exist, _). Inr (path, exist)))"

definition stored_form :: "'s operator_env \<Rightarrow> chunk_task \<Rightarrow> fatal + chunk_obj" where
  "stored_form env task =
     (let chunk = task_chunk task in
      if isRawData chunk
      then (if VerifyChecksum (lib env) chunk then Inr chunk else Inl (LogError ''CHUNK_ID''))
      else case GetHash (lib env) (opConfig env) chunk of
             None \<Rightarrow> Inl RuntimePanic
           | Some (h, chunk) \<Rightarrow>
               (case Encrypt (lib env) (opConfig env) (fst (entropy env (task_id task))) (snd (entropy env (task_id task)))
                       (ChunkKey (opConfig env)) h (task_metadata task) chunk of
                  (Some (CodingPanic code), _) \<Rightarrow> Inl (LogError code)
                | (Some (CodingError _), _) \<Rightarrow> Inl (LogError ''UPLOAD_CHUNK'')
                | (None, chunk) \<Rightarrow> Inr chunk))"

definition UploadChunk :: "'s operator_env \<Rightarrow> chunk_task \<Rightarrow> 's operator_state \<Rightarrow> 's outcome" where
  "UploadChunk env task s =
     (let chunkSize = GetLength (task_chunk task) in
      case cache_upload env task s of
        Inl f \<Rightarrow> (Some f, s)
      | Inr s \<Rightarrow>
          (case upload_target env task s of
             Inl e \<Rightarrow> (Some (lookup_fatal ''UPLOAD_CHUNK'' e), s)
           | Inr (_, True) \<Rightarrow> (None, complete (Uploaded (task_chunk task) (task_index task) chunkSize 0) s)
           | Inr (chunkPath, False) \<Rightarrow>
               (case stored_form env task of
                  Inl f \<Rightarrow> (Some f, s)
                | Inr chunk \<Rightarrow>
                    (let done = complete (Uploaded chunk (task_index task) chunkSize (GetLength chunk)) in
                     if dryRun (opConfig env) then (None, done s)
                     else case UploadFile (storage env) (store s) chunkPath (GetBytes chunk) of
                            (Some _, t) \<Rightarrow> (Some (LogError ''UPLOAD_CHUNK''), s\<lparr>store := t\<rparr>)
                          | (None, t) \<Rightarrow> (None, done (s\<lparr>store := t\<rparr>))))))"

section \<open>One task\<close>

definition Run :: "'s operator_env \<Rightarrow> chunk_task \<Rightarrow> 's operator_state \<Rightarrow> 's outcome" where
  "Run env task s =
     (case operation task of
        ChunkOperationDownload \<Rightarrow> DownloadChunk env task s
      | ChunkOperationUpload \<Rightarrow> UploadChunk env task s
      | ChunkOperationDelete \<Rightarrow>
          (case locate_chunk env task s of Inl r \<Rightarrow> r | Inr path \<Rightarrow> delete_chunk env path s)
      | ChunkOperationFossilize \<Rightarrow>
          (case locate_chunk env task s of Inl r \<Rightarrow> r | Inr path \<Rightarrow> fossilize_chunk env task path s)
      | ChunkOperationResurrect \<Rightarrow> resurrect_chunk env task s
      | ChunkOperationFind \<Rightarrow> check_chunk env task s)"

text \<open>The tasks in the order in which the workers run them; a fatal error ends the process.\<close>

fun run_tasks :: "'s operator_env \<Rightarrow> chunk_task list \<Rightarrow> 's operator_state \<Rightarrow> 's outcome" where
  "run_tasks env [] s = (None, s)"
| "run_tasks env (t # ts) s =
     (case Run env t s of (Some f, s') \<Rightarrow> (Some f, s') | (None, s') \<Rightarrow> run_tasks env ts s')"

section \<open>No chunk is lost\<close>

text \<open>
  A task is regular when its id fits the nesting levels and the path it gives, if any, is one of the
  chunk's.
\<close>

context file_store
begin

definition regular :: "nesting \<Rightarrow> chunk_task \<Rightarrow> bool" where
  "regular nst t \<longleftrightarrow> proper_id nst (task_id t)
     \<and> (case operation t of
          ChunkOperationDelete \<Rightarrow> filePath t = [] \<or> (\<exists>f. filePath t \<in> set (chunk_paths nst (task_id t) f))
        | ChunkOperationFossilize \<Rightarrow> filePath t = [] \<or> filePath t \<in> set (chunk_paths nst (task_id t) False)
        | ChunkOperationResurrect \<Rightarrow> filePath t \<in> set (chunk_paths nst (task_id t) True)
        | _ \<Rightarrow> True)"

lemma find_chunk_found:
  "storage env = st \<Longrightarrow> proper_id (levels env) x \<Longrightarrow> find_chunk env s x f = Inr (p, True, n)
    \<Longrightarrow> p \<in> set (chunk_paths (levels env) x f) \<and> look (store s) p \<noteq> None \<and> valid p"
  using FindChunk_found [of "levels env" x "store s" f p n] by (simp add: find_chunk_def)

lemma find_chunk_missing:
  "storage env = st \<Longrightarrow> proper_id (levels env) x \<Longrightarrow> find_chunk env s x f = Inr (p, False, n)
    \<Longrightarrow> p \<in> set (chunk_paths (levels env) x f) \<and> valid p \<and> \<not> stored (levels env) (store s) x f"
  using FindChunk_missing [of "levels env" x "store s" f p n] FindChunk_missing_path [of "levels env" x "store s" f p n]
    chunk_paths_valid [of "levels env" x p f] by (simp add: find_chunk_def)

text \<open>Removing a path of another chunk, or the fossil of a chunk that is there, leaves a chunk present.\<close>

lemma present_delete:
  assumes "present nst s y" and "proper_id nst x" and "proper_id nst y" and "p \<in> set (chunk_paths nst x f)"
    and "x = y \<Longrightarrow> stored nst s y (\<not> f)"
  shows "present nst (snd (DeleteFile st s p)) y"
proof (cases "DeleteFile st s p")
  case (Pair r s')
  have v: "valid p" using chunk_paths_valid assms(2,4) by blast
  obtain q g where q: "q \<in> set (chunk_paths nst y g)" "look s q \<noteq> None" "q \<noteq> p"
  proof (cases "x = y")
    case True
    then obtain q where "q \<in> set (chunk_paths nst y (\<not> f))" "look s q \<noteq> None"
      using assms(5) by (auto simp: stored_def)
    then show ?thesis using that chunk_paths_unique [OF assms(2,3,4)] by blast
  next
    case False
    obtain q g where "q \<in> set (chunk_paths nst y g)" "look s q \<noteq> None"
      using assms(1) unfolding present_def stored_def by blast
    then show ?thesis using that chunk_paths_unique [OF assms(2,3,4)] False by blast
  qed
  have "look s' q \<noteq> None"
    using delete_ok [OF _ v chunk_paths_valid [OF assms(3) q(1)], of s s'] delete_fail [of s p _ s'] q(2,3) Pair
    by (cases r) auto
  then show ?thesis using presentI [OF q(1)] Pair by simp
qed

text \<open>Moving a chunk to its fossil, or back, leaves every chunk present.\<close>

lemma present_move:
  assumes "present nst s y" and "proper_id nst x" and "proper_id nst y"
    and "p \<in> set (chunk_paths nst x f)" and "p' \<in> set (chunk_paths nst x g)"
  shows "present nst (snd (MoveFile st s p p')) y"
proof (cases "MoveFile st s p p'")
  case (Pair r s')
  have v: "valid p" "valid p'" using chunk_paths_valid assms(2,4,5) by blast+
  show ?thesis
  proof (cases r)
    case None
    note m = move_ok [OF Pair [unfolded None] v]
    have to: "look s' p' \<noteq> None" using m [OF v(2)] by simp
    show ?thesis
    proof (cases "x = y")
      case True
      then show ?thesis using presentI [OF assms(5)] to Pair by simp
    next
      case False
      have "look s' q \<noteq> None" if "q \<in> set (chunk_paths nst y h)" "look s q \<noteq> None" for q h
        using m [OF chunk_paths_valid [OF assms(3) that(1)]] that(2) False
          chunk_paths_unique [OF assms(2,3,4)] chunk_paths_unique [OF assms(2,3,5)] that(1) by auto
      then show ?thesis using present_mono [OF assms(1)] Pair by simp
    qed
  next
    case (Some e)
    then have "look s' = look s" using Pair move_fail [of s p p' e s'] by simp
    then show ?thesis using present_mono [OF assms(1)] Pair by simp
  qed
qed

lemma present_upload:
  assumes "present nst s y" and "proper_id nst y" and "valid p"
  shows "present nst (snd (UploadFile st s p b)) y"
  using present_mono [OF assms(1)] upload_mono [of s p b _ _, OF _ assms(3) chunk_paths_valid [OF assms(2)]]
  by (metis surjective_pairing)

lemma present_download:
  "present nst s y \<Longrightarrow> DownloadFile st s p = (r, t) \<Longrightarrow> present nst t y"
  using download_same [of s p r t] by (simp add: present_def stored_def)

lemma locate_chunk_path:
  assumes "storage env = st" and "regular (levels env) t" and "operation t \<in> {ChunkOperationDelete, ChunkOperationFossilize}"
  shows "locate_chunk env t s = Inr p \<Longrightarrow> \<exists>f. p \<in> set (chunk_paths (levels env) (task_id t) f)
      \<and> (operation t = ChunkOperationFossilize \<longrightarrow> \<not> f)"
    and "locate_chunk env t s = Inl r \<Longrightarrow> store (snd r) = store s"
proof -
  have x: "proper_id (levels env) (task_id t)" using assms(2) by (simp add: regular_def)
  show "\<exists>f. p \<in> set (chunk_paths (levels env) (task_id t) f) \<and> (operation t = ChunkOperationFossilize \<longrightarrow> \<not> f)"
    if "locate_chunk env t s = Inr p"
  proof (cases "filePath t = []")
    case True
    then have "\<exists>n. find_chunk env s (task_id t) False = Inr (p, True, n)"
      using that by (auto simp: locate_chunk_def split: sum.splits prod.splits bool.splits if_splits storage_error.splits)
    then show ?thesis using find_chunk_found [OF assms(1) x] by blast
  next
    case False
    then show ?thesis using that assms(2,3) by (auto simp: locate_chunk_def regular_def)
  qed
  show "locate_chunk env t s = Inl r \<Longrightarrow> store (snd r) = store s"
    by (auto simp: locate_chunk_def add_fossil_def split: if_splits sum.splits prod.splits bool.splits storage_error.splits)
qed

lemma fossilize_present:
  assumes "storage env = st" and "proper_id (levels env) (task_id t)" and "proper_id (levels env) y"
    and "p \<in> set (chunk_paths (levels env) (task_id t) False)" and "present (levels env) (store s) y"
  shows "present (levels env) (store (snd (fossilize_chunk env t p s))) y"
proof (cases "MoveFile st (store s) p (p @ ''.fsl'')")
  case (Pair r u)
  have m: "present (levels env) u y"
    using present_move [OF assms(5,2,3,4) fossil_path [OF assms(4)]] Pair by simp
  show ?thesis
  proof (cases r)
    case None
    then show ?thesis using m Pair assms(1) by (simp add: fossilize_chunk_def add_fossil_def)
  next
    case (Some e)
    show ?thesis
    proof (cases "\<exists>fp n. find_chunk env (s\<lparr>store := u\<rparr>) (task_id t) True = Inr (fp, True, n)")
      case True
      then obtain fp n where f: "find_chunk env (s\<lparr>store := u\<rparr>) (task_id t) True = Inr (fp, True, n)" by blast
      then have "stored (levels env) u (task_id t) True"
        using find_chunk_found [OF assms(1,2) f] by (auto simp: stored_def)
      then have "present (levels env) (snd (DeleteFile st u p)) y"
        using present_delete [OF m assms(2,3,4)] by auto
      then show ?thesis using f Pair Some assms(1) by (simp add: fossilize_chunk_def add_fossil_def)
    next
      case False
      then have "store (snd (fossilize_chunk env t p s)) = u"
        using Pair assms(1) Some
        by (auto simp: fossilize_chunk_def Let_def split: sum.splits bool.splits storage_error.splits)
      then show ?thesis using m by simp
    qed
  qed
qed

lemma resurrect_present:
  assumes "storage env = st" and "proper_id (levels env) (task_id t)" and "proper_id (levels env) y"
    and "filePath t \<in> set (chunk_paths (levels env) (task_id t) True)" and "present (levels env) (store s) y"
  shows "present (levels env) (store (snd (resurrect_chunk env t s))) y"
proof (cases "find_chunk env s (task_id t) False")
  case (Inl e)
  then show ?thesis using assms(5) by (simp add: resurrect_chunk_def)
next
  case (Inr r)
  obtain p ex n where r: "r = (p, ex, n)" by (cases r)
  show ?thesis
  proof (cases ex)
    case True
    then have "stored (levels env) (store s) (task_id t) False"
      using find_chunk_found [OF assms(1,2), of s False p n] Inr r by (auto simp: stored_def)
    then have "present (levels env) (snd (DeleteFile st (store s) (filePath t))) y"
      using present_delete [OF assms(5,2,3,4)] by auto
    then show ?thesis using Inr r True assms(1) by (simp add: resurrect_chunk_def)
  next
    case False
    then have "p \<in> set (chunk_paths (levels env) (task_id t) False)"
      using find_chunk_missing [OF assms(1,2), of s False p n] Inr r by simp
    from present_move [OF assms(5,2,3,4) this] show ?thesis
      using Inr r False assms(1) by (auto simp: resurrect_chunk_def split: prod.split option.split)
  qed
qed

lemma rewrite_present:
  assumes "storage env = st" and "proper_id (levels env) (task_id t)" and "proper_id (levels env) y"
    and "cp \<in> set (chunk_paths (levels env) (task_id t) False)" and "path \<noteq> fp \<Longrightarrow> path = cp"
    and "present (levels env) (store s) y"
  shows "present (levels env) (store (snd (rewrite_chunk env t c path cp fp s))) y"
proof -
  have v: "valid cp" using chunk_paths_valid assms(2,4) by blast
  define s' where "s' = (if path \<noteq> fp
      then (case MoveFile (storage env) (store s) cp (path @ ''.fsl'') of
              (None, t) \<Rightarrow> add_fossil (path @ ''.fsl'') (s\<lparr>store := t\<rparr>)
            | (Some _, t) \<Rightarrow> s\<lparr>store := t\<rparr>)
      else s)"
  have "present (levels env) (store s') y"
  proof (cases "path = fp")
    case False
    then show ?thesis
      using present_move [OF assms(6,2,3,4) fossil_path [OF assms(4)]] assms(5) [OF False] assms(1)
      by (auto simp: s'_def add_fossil_def split: prod.split option.split)
  qed (simp add: s'_def assms(6))
  then show ?thesis
    using present_upload [OF _ assms(3) v] assms(1)
    unfolding rewrite_chunk_def s'_def [symmetric] Let_def
    by (simp split: option.split prod.split coding_error.split)
qed

lemma find_target_paths:
  assumes "storage env = st" and "proper_id (levels env) (task_id t)" and "find_target env t fp s = Target path cp fp'"
  shows "cp \<in> set (chunk_paths (levels env) (task_id t) False)" "path \<noteq> fp' \<Longrightarrow> path = cp"
  using assms(3) find_chunk_found [OF assms(1,2)] find_chunk_missing [OF assms(1,2)]
  by (auto simp: find_target_def split: sum.splits prod.splits bool.splits)

lemma accept_download_store:
  "\<exists>c. store (snd (accept_download env t again path cp fp b s)) \<in> {store s, store (snd (rewrite_chunk env t c path cp fp s))}"
proof -
  have "store (snd (case rewrite_chunk env t c path cp fp s of (Some f, s) \<Rightarrow> (Fatal f, s) | (None, s) \<Rightarrow> (Got c', s)))
      = store (snd (rewrite_chunk env t c path cp fp s))" for c c'
    by (simp split: prod.split option.split)
  then show ?thesis
    by (auto simp: accept_download_def Let_def split: sum.split coding_error.split option.split)
qed

lemma download_present:
  assumes "storage env = st" and "proper_id (levels env) (task_id t)" and "proper_id (levels env) y"
    and "present (levels env) (store s) y"
  shows "present (levels env) (store (snd (download_attempts env t n fp s))) y"
proof -
  have one: "present (levels env) (store (snd (download_attempt env t again fp s))) y"
    if "present (levels env) (store s) y" for again fp s
  proof (cases "find_target env t fp s")
    case (Target path cp fp')
    obtain r u where d: "DownloadFile st (store s) path = (r, u)" by fastforce
    have u: "present (levels env) u y" by (rule present_download [OF that d])
    then have "present (levels env) (store (snd (accept_download env t again path cp fp' b (s\<lparr>store := u\<rparr>)))) y" for b
      using rewrite_present [OF assms(1-3) find_target_paths [OF assms(1,2) Target], where s = "s\<lparr>store := u\<rparr>"]
        accept_download_store [of env t again path cp fp' b "s\<lparr>store := u\<rparr>"] by auto
    then show ?thesis using Target d u assms(1) by (simp add: download_attempt_def split: sum.split)
  qed (use that in \<open>simp_all add: download_attempt_def split: storage_error.split\<close>)
  show ?thesis using assms(4)
  proof (induction n arbitrary: fp s)
    case (Suc n)
    have "present (levels env) (store (snd (download_attempt env t True fp s))) y" using one Suc.prems by blast
    then show ?case using Suc.IH by (auto split: prod.split attempt_result.split)
  qed (simp add: one)
qed

lemma upload_present:
  assumes "storage env = st" and "proper_id (levels env) (task_id t)" and "proper_id (levels env) y"
    and "present (levels env) (store s) y"
  shows "present (levels env) (store (snd (UploadChunk env t s))) y"
proof -
  have c: "store s' = store s" if "cache_upload env t s = Inr s'" for s'
    using that by (auto simp: cache_upload_def split: option.splits if_splits sum.splits storage_error.splits prod.splits bool.splits)
  have v: "valid p" if found: "upload_target env t s' = Inr (p, False)" for p s'
  proof (cases "skipChunkCheck env")
    case True
    then have "ChunkPath (levels env) (task_id t) = Inr p"
      using found by (simp add: upload_target_def bindE_Inr)
    then show ?thesis using ChunkPath_proper [OF assms(2)] chunk_paths_valid [OF assms(2)] by auto
  next
    case False
    then obtain n where "find_chunk env s' (task_id t) False = Inr (p, False, n)"
      using found by (auto simp: upload_target_def bindE_Inr split: prod.splits)
    then show ?thesis using find_chunk_missing [OF assms(1,2)] by blast
  qed
  show ?thesis
  proof (cases "cache_upload env t s")
    case (Inr s')
    have u: "present (levels env) u y" if "upload_target env t s' = Inr (p, False)" "UploadFile st (store s') p b = (r, u)"
      for p b r u
      using present_upload [OF _ assms(3) v [OF that(1)], of "store s'" b] that(2) c [OF Inr] assms(4) by simp
    show ?thesis
      using Inr c [OF Inr] assms(1,4) u
      by (auto simp: UploadChunk_def complete_def Let_def split: sum.split bool.split prod.split option.split)
  qed (use assms(4) in \<open>simp add: UploadChunk_def\<close>)
qed

lemma DownloadChunk_store:
  "store (snd (DownloadChunk env t s)) \<in> {store s, store (snd (download_attempts env t MaxDownloadAttempts [] s))}"
  by (auto simp: DownloadChunk_def fail_download_def complete_def save_cached_def Let_def
      split: sum.split option.split prod.split attempt_result.split)

lemma Run_present:
  assumes "storage env = st" and "regular (levels env) t" and "proper_id (levels env) y"
    and "operation t = ChunkOperationDelete \<Longrightarrow> task_id t \<noteq> y" and "present (levels env) (store s) y"
  shows "present (levels env) (store (snd (Run env t s))) y"
proof -
  have x: "proper_id (levels env) (task_id t)" using assms(2) by (simp add: regular_def)
  show ?thesis
  proof (cases "operation t")
    case ChunkOperationDownload
    then show ?thesis
      using DownloadChunk_store [of env t s] download_present [OF assms(1) x assms(3,5)] assms(5) by (auto simp: Run_def)
  next
    case ChunkOperationUpload
    then show ?thesis using upload_present [OF assms(1) x assms(3,5)] by (simp add: Run_def)
  next
    case ChunkOperationDelete
    have "present (levels env) (store (snd (delete_chunk env p s))) y" if found: "locate_chunk env t s = Inr p" for p
    proof -
      obtain f where "p \<in> set (chunk_paths (levels env) (task_id t) f)"
        using locate_chunk_path(1) [OF assms(1,2) _ found] ChunkOperationDelete by blast
      from present_delete [OF assms(5) x assms(3) this] show ?thesis
        using assms(1,4) ChunkOperationDelete by (simp add: delete_chunk_def)
    qed
    then show ?thesis
      using locate_chunk_path(2) [OF assms(1,2), of s] ChunkOperationDelete assms(5) by (auto simp: Run_def split: sum.split)
  next
    case ChunkOperationFossilize
    have "present (levels env) (store (snd (fossilize_chunk env t p s))) y" if "locate_chunk env t s = Inr p" for p
      using locate_chunk_path(1) [OF assms(1,2) _ that] ChunkOperationFossilize
        fossilize_present [OF assms(1) x assms(3) _ assms(5)] by auto
    then show ?thesis
      using locate_chunk_path(2) [OF assms(1,2), of s] ChunkOperationFossilize assms(5)
      by (auto simp: Run_def split: sum.split)
  next
    case ChunkOperationResurrect
    then have "filePath t \<in> set (chunk_paths (levels env) (task_id t) True)" using assms(2) by (simp add: regular_def)
    then show ?thesis
      using resurrect_present [OF assms(1) x assms(3) _ assms(5)] ChunkOperationResurrect by (simp add: Run_def)
  next
    case ChunkOperationFind
    then show ?thesis using assms(5) by (simp add: Run_def check_chunk_def split: sum.split prod.split)
  qed
qed

lemma run_tasks_present:
  assumes "storage env = st" and "list_all (regular (levels env)) ts" and "proper_id (levels env) y"
    and "list_all (\<lambda>t. operation t = ChunkOperationDelete \<longrightarrow> task_id t \<noteq> y) ts" and "present (levels env) (store s) y"
  shows "present (levels env) (store (snd (run_tasks env ts s))) y"
  using assms(2,4,5)
proof (induction ts arbitrary: s)
  case (Cons t ts)
  obtain f s' where r: "Run env t s = (f, s')" by fastforce
  then have "present (levels env) (store s') y"
    using Run_present [OF assms(1) _ assms(3), of t s] Cons.prems by simp
  then show ?case using Cons r by (simp split: option.split)
qed simp

end

section \<open>On the disk\<close>

definition on_disk :: "nesting \<Rightarrow> disk \<Rightarrow> string \<Rightarrow> bool \<Rightarrow> bool" where
  "on_disk nst d x isFossil \<longleftrightarrow> list_ex (\<lambda>p. node_at d p \<noteq> None) (chunk_paths nst x isFossil)"

text \<open>A task as the managers queue it: a usable id, and no path or one of the chunk's.\<close>

definition task_ok :: "nesting \<Rightarrow> chunk_task \<Rightarrow> bool" where
  "task_ok nst t \<longleftrightarrow> usable_id nst (task_id t)
     \<and> (case operation t of
          ChunkOperationDelete \<Rightarrow> filePath t = [] \<or> filePath t \<in> set (chunk_paths nst (task_id t) False @ chunk_paths nst (task_id t) True)
        | ChunkOperationFossilize \<Rightarrow> filePath t = [] \<or> filePath t \<in> set (chunk_paths nst (task_id t) False)
        | ChunkOperationResurrect \<Rightarrow> filePath t \<in> set (chunk_paths nst (task_id t) True)
        | _ \<Rightarrow> True)"

lemma usable_proper:
  assumes "usable_id nst x"
  shows "fs.proper_id nst x"
proof -
  have "plain_path (the (nested_path l x) @ fossil_suffix f) \<and> nested_path l x \<noteq> None" if "l \<in> set (readLevels nst)" for l f
    using usable_path [OF assms that, of f] by auto
  moreover have "CHR ''/'' \<notin> set x" "CHR ''.'' \<notin> set x" "writeLevel nst \<in> set (readLevels nst)"
    using assms by (auto simp: usable_id_def hex_id_def)
  ultimately show ?thesis unfolding fs.proper_id_def by blast
qed

lemma stored_on_disk: "fs.stored nst d x f \<longleftrightarrow> on_disk nst d x f"
  by (auto simp: fs.stored_def on_disk_def list_ex_iff)

lemma task_ok_regular: "task_ok nst t \<Longrightarrow> fs.regular nst t"
  using usable_proper [of nst "task_id t"]
  by (auto simp: task_ok_def fs.regular_def split: chunk_operation.splits)

text \<open>
  C33. Whatever tasks the workers run, in any order and even when one of them ends the process, a chunk
  that was on the disk, as a chunk or as a fossil, is still there as one or the other, unless one of
  the tasks deletes that very chunk.
\<close>

theorem no_chunk_lost:
  assumes "storage env = file_storage c" and "list_all (task_ok (levels env)) ts" and "usable_id (levels env) x"
    and "list_all (\<lambda>t. operation t = ChunkOperationDelete \<longrightarrow> task_id t \<noteq> x) ts"
    and "on_disk (levels env) (store s) x False \<or> on_disk (levels env) (store s) x True"
    and "run_tasks env ts s = (result, s')"
  shows "on_disk (levels env) (store s') x False \<or> on_disk (levels env) (store s') x True"
proof -
  have "list_all (fs.regular (levels env)) ts"
    using assms(2) task_ok_regular by (auto simp: list_all_iff)
  then show ?thesis
    using fs.run_tasks_present [OF assms(1) _ usable_proper [OF assms(3)] assms(4), of s] assms(5,6)
    unfolding fs.present_def stored_on_disk by simp
qed

text \<open>What a finished download delivers.\<close>

lemma GetID_data:
  assumes "GetID (lib env) (opConfig env) c = Some (i, c')" and "cId c = []" and "cHash c = []"
    and "cHasher c = Some d" and "cBuffer c = Some d"
  shows "data_id env (GetBytes c') = i"
  using assms by (auto simp: GetID_def GetHash_def GetBytes_def data_id_def data_hash_def Let_def)

lemma GetID_broken: "GetID l cfg c = Some (i, c') \<Longrightarrow> isBroken c' = isBroken c"
  by (auto simp: GetID_def GetHash_def Let_def split: if_splits option.splits)

lemma Decrypt_fields:
  assumes "Decrypt l cfg arm hm k dk (Write b (fresh_chunk t)) = Inr (rewrite, c)"
  obtains d where "cId c = []" and "cHash c = []" and "cHasher c = Some d" and "cBuffer c = Some d" and "\<not> isBroken c"
  using assms by (auto simp: Decrypt_def bindE_Inr fresh_chunk_def Reset_def CreateChunk_def Write_def)

lemma cached_fields:
  "cId (Write b (Reset True (CreateChunk True))) = []" "cHash (Write b (Reset True (CreateChunk True))) = []"
  "cHasher (Write b (Reset True (CreateChunk True))) = Some b" "cBuffer (Write b (Reset True (CreateChunk True))) = Some b"
  "\<not> isBroken (Write b (Reset True (CreateChunk True)))"
  by (simp_all add: Write_def Reset_def CreateChunk_def)

lemma rewrite_completions: "completions (snd (rewrite_chunk env t c p cp fp s)) = completions s"
  by (simp add: rewrite_chunk_def add_fossil_def Let_def split: option.split prod.split coding_error.split)

lemma accept_download_result:
  assumes "accept_download env t again path cp fp b s = (r, s')" and "\<not> rawData env"
  shows "completions s' = completions s" and "r = Got c \<Longrightarrow> data_id env (GetBytes c) = task_id t \<and> \<not> isBroken c"
    and "r = Retry q \<Longrightarrow> again"
proof -
  have rw: "completions s'' = completions s" if "rewrite_chunk env t c' path cp fp s = (f, s'')" for c' f s''
    using rewrite_completions [of env t c' path cp fp s] that by simp
  show "completions s' = completions s"
    using assms rw by (auto simp: accept_download_def Let_def split: sum.splits coding_error.splits option.splits prod.splits if_splits)
  show "data_id env (GetBytes c) = task_id t \<and> \<not> isBroken c" if "r = Got c"
  proof -
    have "\<exists>w c0. Decrypt (lib env) (opConfig env) False False (ChunkKey (opConfig env)) (task_hash t) (Write b (fresh_chunk t)) = Inr (w, c0)
        \<and> GetID (lib env) (opConfig env) c0 = Some (task_id t, c)"
      using assms that
      by (auto simp: accept_download_def Let_def split: sum.splits coding_error.splits option.splits prod.splits if_splits)
    then show ?thesis by (elim exE conjE Decrypt_fields) (intro conjI GetID_data, auto dest: GetID_broken)
  qed
  show "r = Retry q \<Longrightarrow> again"
    using assms by (auto simp: accept_download_def Let_def split: sum.splits coding_error.splits option.splits prod.splits if_splits)
qed

lemma download_attempt_result:
  assumes "download_attempt env t again fp s = (r, s')" and "\<not> rawData env"
  shows "completions s' = completions s \<and> (\<forall>c. r = Got c \<longrightarrow> data_id env (GetBytes c) = task_id t \<and> \<not> isBroken c)
    \<and> (\<forall>q. r = Retry q \<longrightarrow> again)"
proof (cases "find_target env t fp s")
  case (Target path cp fp')
  show ?thesis
  proof (cases "DownloadFile (storage env) (store s) path")
    case (Pair d u)
    show ?thesis
    proof (cases d)
      case (Inr b)
      then have "accept_download env t again path cp fp' b (s\<lparr>store := u\<rparr>) = (r, s')"
        using assms(1) Target Pair by (simp add: download_attempt_def)
      from accept_download_result [OF this assms(2)] show ?thesis by simp
    qed (use assms(1) Target Pair in \<open>auto simp: download_attempt_def split: if_splits\<close>)
  qed
qed (use assms(1) in \<open>auto simp: download_attempt_def split: storage_error.splits if_splits\<close>)

lemma download_attempts_result:
  assumes "\<not> rawData env" and "download_attempts env t n fp s = (r, s')"
  shows "completions s' = completions s \<and> (\<forall>c. r = Got c \<longrightarrow> data_id env (GetBytes c) = task_id t \<and> \<not> isBroken c)
    \<and> (\<forall>q. r \<noteq> Retry q)"
  using assms(2)
proof (induction n arbitrary: fp s)
  case 0
  then show ?case using download_attempt_result [of env t False fp s r s'] assms(1) by auto
next
  case (Suc n)
  obtain r1 s1 where one: "download_attempt env t True fp s = (r1, s1)" by fastforce
  note d = download_attempt_result [OF one assms(1)]
  show ?case
  proof (cases r1)
    case (Retry q)
    then have "download_attempts env t n q s1 = (r, s')" using Suc.prems one by simp
    from Suc.IH [OF this] d show ?thesis by simp
  qed (use Suc.prems one d in auto)
qed

lemma DownloadChunk_delivers:
  assumes "DownloadChunk env t s = (None, s')" and "\<not> rawData env"
  shows "\<exists>c. completions s' = completions s @ [Downloaded c (task_index t)]
    \<and> (if isBroken c then allowFailures env else data_id env (GetBytes c) = task_id t)"
proof (cases "load_cached env t s")
  case (Inl f)
  then show ?thesis using assms(1) by (simp add: DownloadChunk_def)
next
  case (Inr r)
  obtain oc cp where r: "r = (oc, cp)" by (cases r)
  show ?thesis
  proof (cases oc)
    case (Some c)
    have "\<exists>b. GetID (lib env) (opConfig env) (Write b (Reset True (CreateChunk True))) = Some (task_id t, c)"
      using Inr r Some by (auto simp: load_cached_def split: option.splits if_splits sum.splits storage_error.splits prod.splits bool.splits)
    then have "data_id env (GetBytes c) = task_id t" and "\<not> isBroken c"
      using GetID_data [OF _ cached_fields(1-4)] GetID_broken cached_fields(5) by blast+
    then show ?thesis
      using assms(1) Inr r Some by (auto simp: DownloadChunk_def complete_def)
  next
    case None
    obtain a s1 where at: "download_attempts env t MaxDownloadAttempts [] s = (a, s1)" by fastforce
    note d = download_attempts_result [OF assms(2) at]
    show ?thesis
    proof (cases a)
      case (Got c)
      have sc: "completions (save_cached cp c s1) = completions s1" by (simp add: save_cached_def)
      have "data_id env (GetBytes c) = task_id t \<and> \<not> isBroken c" using d Got by simp
      moreover have "completions s' = completions s @ [Downloaded c (task_index t)]"
        using assms(1) Inr r None at Got d sc by (auto simp: DownloadChunk_def complete_def Let_def)
      ultimately show ?thesis by auto
    qed (use assms(1) Inr r None at d in \<open>auto simp: DownloadChunk_def complete_def fail_download_def Let_def split: if_splits\<close>)
  qed
qed


text \<open>The tasks that the methods of the operator queue.\<close>

definition download_task :: "chunk_lib \<Rightarrow> config \<Rightarrow> string \<Rightarrow> int \<Rightarrow> bool \<Rightarrow> chunk_task" where
  "download_task l cfg chunkHash chunkIndex metadata = \<lparr>operation = ChunkOperationDownload,
     task_id = GetChunkIDFromHash l cfg chunkHash, task_hash = chunkHash, task_index = chunkIndex, filePath = [],
     task_metadata = metadata, task_chunk = CreateChunk True\<rparr>"

definition upload_task :: "chunk_lib \<Rightarrow> config \<Rightarrow> chunk_obj \<Rightarrow> int \<Rightarrow> bool \<Rightarrow> chunk_task option" where
  "upload_task l cfg chunk chunkIndex metadata =
     map_option (\<lambda>(chunkHash, chunk). \<lparr>operation = ChunkOperationUpload,
       task_id = GetChunkIDFromHash l cfg chunkHash, task_hash = chunkHash, task_index = chunkIndex, filePath = [],
       task_metadata = metadata, task_chunk = chunk\<rparr>) (GetHash l cfg chunk)"

definition path_task :: "chunk_operation \<Rightarrow> string \<Rightarrow> string \<Rightarrow> chunk_task" where
  "path_task op chunkID path = \<lparr>operation = op, task_id = chunkID, task_hash = [], task_index = 0, filePath = path,
     task_metadata = False, task_chunk = CreateChunk True\<rparr>"

lemma found_after_upload:
  assumes "usable_id nst x" and "\<not> on_disk nst d x False" and "p \<in> set (chunk_paths nst x False)"
    and "fs_UploadFile d p b = (None, d')"
  shows "\<exists>n. FindChunk (file_storage c) nst d' x False = Inr (p, True, n)" and "fs_DownloadFile d' p = (Inr b, d')"
proof -
  note x = usable_proper [OF assms(1)]
  have pl: "plain_path q" if "q \<in> set (chunk_paths nst x False)" for q
    using fs.chunk_paths_valid [OF x that] .
  have absent: "node_at d q = None" if "q \<in> set (chunk_paths nst x False)" for q
    using assms(2) that by (auto simp: on_disk_def list_ex_iff)
  obtain n where n: "node_at d' p = Some n" "node_body n = Some b"
    using fs_UploadFile_body [OF assms(4) pl [OF assms(3)] absent [OF assms(3)]] by blast
  show "fs_DownloadFile d' p = (Inr b, d')"
    using n pl [OF assms(3)] by (cases n) (simp_all add: fs_DownloadFile_def path_clean_plain)
  have only: "q = p" if q: "q \<in> set (chunk_paths nst x False)" "node_at d' q \<noteq> None" for q
  proof (rule ccontr)
    assume "q \<noteq> p"
    then obtain r where r: "p = q @ CHR ''/'' # r"
      using fs_UploadFile_new [OF assms(4) pl [OF assms(3)] pl [OF q(1)] absent [OF q(1)] q(2)] by blast
    then have "plain_path r" using pl [OF assms(3)] by (simp add: plain_path_append)
    then have ne: "remove_char (CHR ''/'') r \<noteq> []" by (rule plain_path_letters)
    have "length chunkDir \<le> length q"
    proof -
      obtain l where l: "l \<in> set (readLevels nst)" "q = the (nested_path l x) @ fossil_suffix False"
        using q(1) by (auto simp: chunk_paths_def)
      then obtain q' where "nested_path l x = Some q'" using usable_path [OF assms(1)] by blast
      then show ?thesis using nested_path_chunks [of l x q'] l(2) by (simp add: fossil_suffix_def) (metis length_take min.cobounded1)
    qed
    then have "chunkIDFromListedPath (drop (length chunkDir) p)
        = chunkIDFromListedPath (drop (length chunkDir) q) @ remove_char (CHR ''/'') r"
      by (simp add: r chunkIDFromListedPath_def) (simp add: remove_char_def)
    then show False using fs.chunk_paths_id [OF x assms(3)] fs.chunk_paths_id [OF x q(1)] ne by simp
  qed
  have "find (\<lambda>q. node_at d' q \<noteq> None) (chunk_paths nst x False) = Some p"
  proof (cases "find (\<lambda>q. node_at d' q \<noteq> None) (chunk_paths nst x False)")
    case None
    then show ?thesis using assms(3) n(1) unfolding find_None_iff by fastforce
  next
    case (Some q)
    then have "q \<in> set (chunk_paths nst x False)" "node_at d' q \<noteq> None" unfolding find_Some_iff by auto
    then show ?thesis using only Some by simp
  qed
  then show "\<exists>n. FindChunk (file_storage c) nst d' x False = Inr (p, True, n)"
    using fs.FindChunk_spec [OF x, of c d' False] by simp
qed

lemma upload_task_fresh:
  assumes "upload_task l cfg (fold Write ds (Reset True (CreateChunk True))) i m = Some t"
  shows "operation t = ChunkOperationUpload" "task_hash t = string_of (NewKeyedHasher l cfg (HashKey cfg) (concat ds))"
    "task_id t = GetChunkIDFromHash l cfg (task_hash t)" "task_index t = i" "task_metadata t = m"
    "task_chunk t = (fold Write ds (Reset True (CreateChunk True)))\<lparr>cHash := task_hash t\<rparr>"
  using assms unfolding fold_Write_fresh by (auto simp: upload_task_def GetHash_def Let_def)

lemma stored_form_fresh:
  assumes "upload_task (lib env) (opConfig env) (fold Write ds (Reset True (CreateChunk True))) i m = Some t"
    and "stored_form env t = Inr c"
  shows "encode_chunk (lib env) (opConfig env) (fst (entropy env (task_id t))) (snd (entropy env (task_id t)))
    (ChunkKey (opConfig env)) (task_hash t) m (concat ds) = Inr (GetBytes c)"
proof -
  note t = upload_task_fresh [OF assms(1)]
  let ?ch = "(fold Write ds (Reset True (CreateChunk True)))\<lparr>cHash := task_hash t\<rparr>"
  have "GetHash (lib env) (opConfig env) ?ch = Some (task_hash t, ?ch)"
    by (simp add: fold_Write_fresh GetHash_def t(2))
  then show ?thesis
    using assms(2) t(5,6) unfolding stored_form_def
    by (auto simp: fold_Write_fresh Encrypt_def VerifyChecksum_def GetBytes_def Let_def split: sum.splits coding_error.splits)
qed

lemma accept_stored:
  assumes "coding_ok (lib env) (opConfig env) nonce (ChunkKey (opConfig env)) m" and "\<not> rawData env"
    and "encode_chunk (lib env) (opConfig env) rk nonce (ChunkKey (opConfig env)) (task_hash t) m d = Inr f"
    and "length f < 2 ^ 63"
    and "task_hash t = string_of (NewKeyedHasher (lib env) (opConfig env) (HashKey (opConfig env)) d)"
    and "task_id t = GetChunkIDFromHash (lib env) (opConfig env) (task_hash t)"
  shows "\<exists>c. accept_download env t again p cp fp f s = (Got c, s) \<and> GetBytes c = d \<and> \<not> isBroken c"
proof -
  obtain z where z: "stored_payload (lib env) (opConfig env) False False (ChunkKey (opConfig env)) (task_hash t) f = Inr (z, False)"
    "decompress_data (lib env) z = Inr d"
    using decode_encoded [OF assms(1,3,4)] by blast
  show ?thesis
    using z assms(2,5,6)
    by (auto simp: accept_download_def Decrypt_def fresh_chunk_def Write_def Reset_def CreateChunk_def GetBytes_def
        GetID_def GetHash_def Let_def)
qed

text \<open>
  C34. A chunk that the operator uploads to a local storage that does not have it is found there and
  downloaded intact under the hash it was uploaded with: the data comes back byte for byte, whatever
  the compression, encryption and erasure coding, and the storage is not touched by reading it.
\<close>

theorem uploaded_chunk_downloads:
  assumes "storage env = file_storage isCacheNeeded" and "snapshotCache env = None" and "\<not> rawData env" and "\<not> dryRun (opConfig env)"
    and "upload_task (lib env) (opConfig env) (fold Write ds (Reset True (CreateChunk True))) i m = Some t"
    and "coding_ok (lib env) (opConfig env) (snd (entropy env (task_id t))) (ChunkKey (opConfig env)) m"
    and "usable_id (levels env) (task_id t)" and "\<not> on_disk (levels env) (store s) (task_id t) False"
    and "Run env t s = (None, s1)" and "completions s1 = completions s @ [Uploaded ch i dataSize storedSize]" and "storedSize < 2 ^ 63"
  shows "\<exists>c s2. Run env (download_task (lib env) (opConfig env) (task_hash t) j m) s1 = (None, s2)
    \<and> completions s2 = completions s1 @ [Downloaded c j] \<and> GetBytes c = concat ds \<and> \<not> isBroken c \<and> store s2 = store s1"
proof -
  note t = upload_task_fresh [OF assms(5)]
  have x: "fs.proper_id (levels env) (task_id t)" by (rule usable_proper [OF assms(7)])
  have cu: "cache_upload env t s = Inr s" using assms(2) by (simp add: cache_upload_def)
  obtain p ex where ut: "upload_target env t s = Inr (p, ex)"
    using assms(9) t(1) cu by (auto simp: Run_def UploadChunk_def Let_def split: sum.splits)
  have p: "p \<in> set (chunk_paths (levels env) (task_id t) False) \<and> \<not> ex"
  proof (cases "skipChunkCheck env")
    case True
    then show ?thesis using ut fs.ChunkPath_proper [OF x] by (auto simp: upload_target_def)
  next
    case False
    then obtain n where f: "find_chunk env s (task_id t) False = Inr (p, ex, n)"
      using ut by (auto simp: upload_target_def bindE_def split: sum.splits)
    have "\<not> ex"
      using fs.find_chunk_found [OF assms(1) x, of s False p n] f assms(8) by (auto simp: on_disk_def list_ex_iff)
    then show ?thesis using fs.find_chunk_missing [OF assms(1) x, of s False p n] f by simp
  qed
  obtain c where c: "stored_form env t = Inr c"
    using assms(9) t(1) cu ut p by (auto simp: Run_def UploadChunk_def Let_def split: sum.splits)
  obtain u where u: "fs_UploadFile (store s) p (GetBytes c) = (None, u)" "store s1 = u"
    and sent: "completions s1 = completions s @ [Uploaded c i (GetLength (task_chunk t)) (GetLength c)]"
    using assms(1,4,9) t(1,4) cu ut p c
    by (auto simp: Run_def UploadChunk_def Let_def file_storage_def complete_def split: prod.splits option.splits)
  note e = stored_form_fresh [OF assms(5) c]
  have "length (GetBytes c) \<le> GetLength c" by (simp add: GetBytes_def GetLength_def split: option.split)
  then have len: "length (GetBytes c) < 2 ^ 63" using assms(10,11) sent by (auto intro: le_less_trans)
  let ?d = "download_task (lib env) (opConfig env) (task_hash t) j m"
  have d: "task_hash ?d = task_hash t" "task_id ?d = task_id t" "task_index ?d = j" "operation ?d = ChunkOperationDownload"
    using t(3) by (simp_all add: download_task_def)
  obtain n where found: "FindChunk (file_storage isCacheNeeded) (levels env) u (task_id t) False = Inr (p, True, n)"
    using found_after_upload(1) [OF assms(7,8) _ u(1)] p by blast
  have down: "fs_DownloadFile u p = (Inr (GetBytes c), u)"
    using found_after_upload(2) [OF assms(7,8) _ u(1)] p by blast
  have e': "encode_chunk (lib env) (opConfig env) (fst (entropy env (task_id t))) (snd (entropy env (task_id t)))
      (ChunkKey (opConfig env)) (task_hash ?d) m (concat ds) = Inr (GetBytes c)"
    unfolding d(1) by (rule e)
  obtain c' where acc: "accept_download env ?d True p p [] (GetBytes c) s1 = (Got c', s1)" "GetBytes c' = concat ds" "\<not> isBroken c'"
    using accept_stored [OF assms(6,3) e' len, where again = True and p = p and cp = p and fp = "[]" and s = s1]
      t(2,3) unfolding d by blast
  have same: "s1\<lparr>store := u\<rparr> = s1" using u(2) by (cases s1) simp
  have "find_target env ?d [] s1 = Target p p []"
    using found u(2) assms(1) d(2) by (simp add: find_target_def find_chunk_def)
  moreover have "DownloadFile (storage env) (store s1) p = (Inr (GetBytes c), u)"
    using down u(2) assms(1) by (simp add: file_storage_def)
  ultimately have "download_attempt env ?d True [] s1 = accept_download env ?d True p p [] (GetBytes c) (s1\<lparr>store := u\<rparr>)"
    by (simp add: download_attempt_def)
  then have "download_attempt env ?d True [] s1 = (Got c', s1)" unfolding same acc(1) .
  then have "download_attempts env ?d MaxDownloadAttempts [] s1 = (Got c', s1)"
    by (simp add: MaxDownloadAttempts_def eval_nat_numeral)
  then show ?thesis
    using acc(2,3) assms(2) d by (simp add: Run_def DownloadChunk_def load_cached_def save_cached_def complete_def Let_def)
qed

section \<open>Witnesses\<close>

definition example_levels :: nesting where
  "example_levels = \<lparr>readLevels = [1, 0], writeLevel = 1\<rparr>"

definition example_env :: "disk operator_env" where
  "example_env = \<lparr>storage = file_storage False, levels = example_levels, snapshotCache = None,
     lib = copy_lib\<lparr>blake2 := \<lambda>k d. take 2 d\<rparr>, opConfig = CreateConfig, entropy = \<lambda>_. ([], replicate 12 7),
     allowFailures = True, rewriteChunks = False, skipChunkCheck = False, rawData = False, isHubic = False, isWebDAV = False\<rparr>"

definition example_state :: "disk \<Rightarrow> disk operator_state" where
  "example_state d = \<lparr>store = d, cache = [], fossils = [], NumberOfFailedChunks = 0, downloadedChunkSize = 0, completions = []\<rparr>"

definition example_disk :: disk where
  "example_disk = [(''chunks'', DirNode), (''chunks/d3'', DirNode), (''chunks/d3/49'', FileNode [1]), (''chunks/ab'', DirNode),
     (''chunks/ab/cd'', FileNode [2])]"

definition example_tasks :: "chunk_task list" where
  "example_tasks = [path_task ChunkOperationFossilize ''d349'' [], path_task ChunkOperationDelete ''abcd'' [],
     path_task ChunkOperationResurrect ''d349'' ''chunks/d3/49.fsl'', path_task ChunkOperationFossilize ''d349'' ''chunks/d3/49'']"

lemma example_run:
  "fst (run_tasks example_env example_tasks (example_state example_disk)) = None
   \<and> fossils (snd (run_tasks example_env example_tasks (example_state example_disk))) = [''chunks/d3/49.fsl'', ''chunks/d3/49.fsl'']
   \<and> node_at (store (snd (run_tasks example_env example_tasks (example_state example_disk)))) ''chunks/d3/49.fsl'' = Some (FileNode [1])"
  by code_simp

lemma no_chunk_lost_witness:
  "on_disk example_levels (store (snd (run_tasks example_env example_tasks (example_state example_disk)))) ''d349'' False
   \<or> on_disk example_levels (store (snd (run_tasks example_env example_tasks (example_state example_disk)))) ''d349'' True"
proof -
  have a: "list_all (task_ok example_levels) example_tasks" by code_simp
  have b: "usable_id example_levels ''d349''" by code_simp
  have c: "list_all (\<lambda>t. operation t = ChunkOperationDelete \<longrightarrow> task_id t \<noteq> ''d349'') example_tasks" by code_simp
  have d: "on_disk example_levels (store (example_state example_disk)) ''d349'' False" by code_simp
  have e: "storage example_env = file_storage False" "levels example_env = example_levels" by (simp_all add: example_env_def)
  show ?thesis
    by (rule no_chunk_lost [OF e(1), unfolded e(2), OF a b c disjI1 [OF d] surjective_pairing])
qed


definition example_upload :: chunk_task where
  "example_upload = the (upload_task (lib example_env) CreateConfig (fold Write [[65], [66]] (Reset True (CreateChunk True))) 5 False)"

lemma example_upload_run:
  "upload_task (lib example_env) CreateConfig (fold Write [[65], [66]] (Reset True (CreateChunk True))) 5 False = Some example_upload"
  "usable_id example_levels (task_id example_upload)"
  "fst (Run example_env example_upload (example_state example_disk)) = None"
  "\<not> on_disk example_levels example_disk (task_id example_upload) False"
  by code_simp+

lemma example_upload_completion:
  "completions (snd (Run example_env example_upload (example_state example_disk)))
    = [Uploaded ((fold Write [[65], [66]] (Reset True (CreateChunk True)))\<lparr>cHash := ''AB'', cChecksum := None,
         cBuffer := Some [76, 90, 52, 32, 1, 65, 66]\<rparr>) 5 2 7]"
  by code_simp

lemma example_coding_ok: "coding_ok (lib example_env) CreateConfig (replicate 12 7) ek m"
  using copy_lib_ok by (simp add: coding_ok_def packages_ok_def CreateConfig_def example_env_def)

lemma uploaded_chunk_downloads_witness:
  "\<exists>c s2. Run example_env (download_task (lib example_env) CreateConfig (task_hash example_upload) 9 False)
      (snd (Run example_env example_upload (example_state example_disk))) = (None, s2)
    \<and> GetBytes c = [65, 66] \<and> last (completions s2) = Downloaded c 9"
proof -
  have e: "storage example_env = file_storage False" "snapshotCache example_env = None" "\<not> rawData example_env"
    "\<not> dryRun (opConfig example_env)" "opConfig example_env = CreateConfig" "levels example_env = example_levels"
    "entropy example_env = (\<lambda>_. ([], replicate 12 7))"
    by (simp_all add: example_env_def CreateConfig_def)
  have c: "coding_ok (lib example_env) (opConfig example_env) (snd (entropy example_env (task_id example_upload)))
      (ChunkKey (opConfig example_env)) False"
    unfolding e by (simp add: example_coding_ok)
  have r: "Run example_env example_upload (example_state example_disk)
      = (None, snd (Run example_env example_upload (example_state example_disk)))"
    using example_upload_run(3) by (metis prod.collapse)
  have n: "\<not> on_disk (levels example_env) (store (example_state example_disk)) (task_id example_upload) False"
    using example_upload_run(4) by (simp add: e(6) example_state_def)
  have u: "completions (snd (Run example_env example_upload (example_state example_disk)))
      = completions (example_state example_disk) @ [Uploaded ((fold Write [[65], [66]] (Reset True (CreateChunk True)))\<lparr>cHash := ''AB'',
          cChecksum := None, cBuffer := Some [76, 90, 52, 32, 1, 65, 66]\<rparr>) 5 2 7]"
    unfolding example_upload_completion by (simp add: example_state_def)
  have i: "upload_task (lib example_env) (opConfig example_env) (fold Write [[65], [66]] (Reset True (CreateChunk True))) 5 False
      = Some example_upload" "usable_id (levels example_env) (task_id example_upload)"
    using example_upload_run(1,2) by (simp_all add: e(5,6))
  obtain c s2 where "Run example_env (download_task (lib example_env) (opConfig example_env) (task_hash example_upload) 9 False)
      (snd (Run example_env example_upload (example_state example_disk))) = (None, s2)"
    "completions s2 = completions (snd (Run example_env example_upload (example_state example_disk))) @ [Downloaded c 9]"
    "GetBytes c = concat [[65], [66]]"
    using uploaded_chunk_downloads [OF e(1-4) i(1) c i(2) n r u, of 9] by auto
  then show ?thesis unfolding e(5) by (intro exI [of _ c] exI [of _ s2]) simp
qed

end
