(* ===== verification/Snapshot.thy ===== *)
theory Snapshot
  imports Chunk "HOL-Library.Multiset"
begin

text \<open>
  Snapshots: the record and its JSON form (\<^verbatim>\<open>src/src/duplicacy_snapshot.go\<close>), and the reading of the chunk
  sequences a snapshot names (\<^verbatim>\<open>src/src/duplicacy_snapshotmanager.go\<close>): the sequence reader,
  \<^verbatim>\<open>DownloadSequence\<close>, and the expansion of many snapshots that share sequences.
\<close>

section \<open>The snapshot\<close>

record snapshot =
  Version :: int
  ID :: string
  Revision :: int
  Options :: string
  Tag :: string
  StartTime :: int
  EndTime :: int
  FileSize :: int
  NumberOfFiles :: int
  FileSequence :: "string list"
  ChunkSequence :: "string list"
  LengthSequence :: "string list"
  ChunkHashes :: "string list"
  ChunkLengths :: "int list"
  Flag :: bool

definition empty_snapshot :: snapshot where
  "empty_snapshot = \<lparr>Version = 0, ID = [], Revision = 0, Options = [], Tag = [], StartTime = 0, EndTime = 0, FileSize = 0,
     NumberOfFiles = 0, FileSequence = [], ChunkSequence = [], LengthSequence = [], ChunkHashes = [], ChunkLengths = [],
     Flag = False\<rparr>"

definition CreateEmptySnapshot :: "int \<Rightarrow> string \<Rightarrow> snapshot" where
  "CreateEmptySnapshot now i = empty_snapshot\<lparr>Version := 1, ID := i, StartTime := now\<rparr>"

definition MetadataSequences :: "snapshot \<Rightarrow> string list list" where
  "MetadataSequences s = [FileSequence s, ChunkSequence s, LengthSequence s]"

definition SetSequence :: "string \<Rightarrow> string list \<Rightarrow> snapshot \<Rightarrow> snapshot" where
  "SetSequence sequenceType sq s =
     (if sequenceType = ''files'' then s\<lparr>FileSequence := sq\<rparr>
      else if sequenceType = ''chunks'' then s\<lparr>ChunkSequence := sq\<rparr>
      else s\<lparr>LengthSequence := sq\<rparr>)"

definition ClearChunks :: "snapshot \<Rightarrow> snapshot" where
  "ClearChunks s = s\<lparr>ChunkHashes := []\<rparr>"

definition snapshotDir :: "string \<Rightarrow> string" where
  "snapshotDir i = ''snapshots/'' @ i @ ''/''"

definition snapshotPath :: "string \<Rightarrow> int \<Rightarrow> string" where
  "snapshotPath i revision = snapshotDir i @ Itoa revision"

section \<open>JSON\<close>

text \<open>
  What the JSON package makes of a text.  A number is given by its value as a 64-bit float, truncated
  to an integer, which is all the code does with one.
\<close>

datatype json = JNumber int | JString string | JArray "json list" | JOther

definition hex_value :: "char \<Rightarrow> nat option" where
  "hex_value c = (let n = of_char c :: nat in
     if 48 \<le> n \<and> n \<le> 57 then Some (n - 48) else if 97 \<le> n \<and> n \<le> 102 then Some (n - 87)
     else if 65 \<le> n \<and> n \<le> 70 then Some (n - 55) else None)"

fun hex_decode :: "string \<Rightarrow> string option" where
  "hex_decode [] = Some []"
| "hex_decode [c] = None"
| "hex_decode (c # d # s) =
     (case (hex_value c, hex_value d, hex_decode s) of
        (Some x, Some y, Some t) \<Rightarrow> Some (char_of (16 * x + y) # t)
      | _ \<Rightarrow> None)"

definition encodeSequence :: "string list \<Rightarrow> string list" where
  "encodeSequence sq = map hex_encode sq"

definition MarshalJSON :: "snapshot \<Rightarrow> (string \<times> json) list" where
  "MarshalJSON s =
     [(''version'', JNumber (Version s)), (''id'', JString (ID s)), (''revision'', JNumber (Revision s)),
      (''options'', JString (Options s)), (''tag'', JString (Tag s)), (''start_time'', JNumber (StartTime s)),
      (''end_time'', JNumber (EndTime s))]
     @ (if FileSize s \<noteq> 0 \<and> NumberOfFiles s \<noteq> 0
        then [(''file_size'', JNumber (FileSize s)), (''number_of_files'', JNumber (NumberOfFiles s))] else [])
     @ [(''files'', JArray (map JString (encodeSequence (FileSequence s)))),
        (''chunks'', JArray (map JString (encodeSequence (ChunkSequence s)))),
        (''lengths'', JArray (map JString (encodeSequence (LengthSequence s))))]"

text \<open>The fields of an object, with the errors of a missing and of an ill-typed field.\<close>

fun number_of :: "json \<Rightarrow> int option" where
  "number_of (JNumber i) = Some i"
| "number_of _ = None"

fun string_in :: "json \<Rightarrow> string option" where
  "string_in (JString s) = Some s"
| "string_in _ = None"

definition required :: "(json \<Rightarrow> 'a option) \<Rightarrow> (string \<times> json) list \<Rightarrow> string \<Rightarrow> string \<Rightarrow> string \<Rightarrow> string + 'a" where
  "required get root key missing invalid =
     (case map_of root key of
        None \<Rightarrow> Inl missing
      | Some v \<Rightarrow> (case get v of None \<Rightarrow> Inl invalid | Some x \<Rightarrow> Inr x))"

definition optional :: "(json \<Rightarrow> 'a option) \<Rightarrow> (string \<times> json) list \<Rightarrow> string \<Rightarrow> 'a \<Rightarrow> string \<Rightarrow> string + 'a" where
  "optional get root key dflt invalid =
     (case map_of root key of
        None \<Rightarrow> Inr dflt
      | Some v \<Rightarrow> (case get v of None \<Rightarrow> Inl invalid | Some x \<Rightarrow> Inr x))"

definition lenient_number :: "(string \<times> json) list \<Rightarrow> string \<Rightarrow> int" where
  "lenient_number root key = (case map_of root key of Some (JNumber i) \<Rightarrow> i | _ \<Rightarrow> 0)"

fun hashes_of :: "json list \<Rightarrow> string + string list" where
  "hashes_of [] = Inr []"
| "hashes_of (v # vs) =
     (case string_in v of
        None \<Rightarrow> Inl ''Invalid file sequence is specified in the snapshot''
      | Some h \<Rightarrow>
          (case hex_decode h of
             None \<Rightarrow> Inl ''Hash is not a valid hex string in the snapshot''
           | Some hash \<Rightarrow> bindE (hashes_of vs) (\<lambda>hs. Inr (hash # hs))))"

fun array_of :: "json \<Rightarrow> json list option" where
  "array_of (JArray vs) = Some vs"
| "array_of _ = None"

fun load_sequences :: "(string \<times> json) list \<Rightarrow> string list \<Rightarrow> snapshot \<Rightarrow> string + snapshot" where
  "load_sequences root [] s = Inr s"
| "load_sequences root (sequenceType # ts) s =
     bindE (required array_of root sequenceType (''No '' @ sequenceType @ '' are specified in the snapshot'')
              (''Invalid '' @ sequenceType @ '' are specified in the snapshot'')) (\<lambda>vs.
     bindE (hashes_of vs) (\<lambda>sq. load_sequences root ts (SetSequence sequenceType sq s)))"

definition CreateSnapshotFromDescription :: "(bytes \<Rightarrow> string + (string \<times> json) list) \<Rightarrow> bytes \<Rightarrow> string + snapshot" where
  "CreateSnapshotFromDescription parse description =
     bindE (parse description) (\<lambda>root.
     bindE (optional number_of root ''version'' 0 ''Invalid version is specified in the snapshot'') (\<lambda>version.
     bindE (required string_in root ''id'' ''No id is specified in the snapshot'' ''Invalid id is specified in the snapshot'') (\<lambda>i.
     bindE (required number_of root ''revision'' ''No revision is specified in the snapshot''
              ''Invalid revision is specified in the snapshot'') (\<lambda>revision.
     bindE (optional string_in root ''tag'' [] ''Invalid tag is specified in the snapshot'') (\<lambda>tag.
     bindE (optional string_in root ''options'' [] ''Invalid options is specified in the snapshot'') (\<lambda>opts.
     bindE (required number_of root ''start_time'' ''No creation time is specified in the snapshot''
              ''Invalid creation time is specified in the snapshot'') (\<lambda>startTime.
     bindE (required number_of root ''end_time'' ''No creation time is specified in the snapshot''
              ''Invalid creation time is specified in the snapshot'') (\<lambda>endTime.
       load_sequences root [''files'', ''chunks'', ''lengths'']
         (empty_snapshot\<lparr>Version := version, ID := i, Revision := revision, Tag := tag, Options := opts, StartTime := startTime,
            EndTime := endTime, FileSize := lenient_number root ''file_size'',
            NumberOfFiles := lenient_number root ''number_of_files''\<rparr>)))))))))"

definition LoadChunks :: "(bytes \<Rightarrow> string + json list) \<Rightarrow> bytes \<Rightarrow> snapshot \<Rightarrow> string + snapshot" where
  "LoadChunks parse description s =
     bindE (parse description) (\<lambda>root. bindE (hashes_of root) (\<lambda>hs. Inr (s\<lparr>ChunkHashes := hs\<rparr>)))"

section \<open>The JSON form is read back\<close>

lemma hex_value_digit: "n < 16 \<Longrightarrow> hex_value (hex_digit n) = Some n"
proof -
  have "list_all (\<lambda>n. hex_value (hex_digit n) = Some n) [0..<16]" by code_simp
  then show "n < 16 \<Longrightarrow> hex_value (hex_digit n) = Some n" by (simp only: list_all_iff set_upt atLeastLessThan_iff) simp
qed

lemma hex_decode_encode [simp]: "hex_decode (hex_encode s) = Some s"
proof (induction s)
  case (Cons c s)
  have "(of_char c :: nat) < 256" by simp
  then have "(of_char c :: nat) div 16 < 16" "(of_char c :: nat) mod 16 < 16" by (simp_all add: less_mult_imp_div_less)
  moreover have "char_of (16 * (of_char c div 16) + of_char c mod 16 :: nat) = c" by simp
  ultimately show ?case using Cons by (simp add: hex_encode_def hex_value_digit)
qed (simp add: hex_encode_def)

lemma hashes_of_encoded [simp]: "hashes_of (map JString (encodeSequence sq)) = Inr sq"
  by (induction sq) (simp_all add: encodeSequence_def)

text \<open>What a snapshot file keeps of a snapshot: not its contents in memory, and both sizes or none.\<close>

definition stored_snapshot :: "snapshot \<Rightarrow> snapshot" where
  "stored_snapshot s = s\<lparr>ChunkHashes := [], ChunkLengths := [], Flag := False,
     FileSize := (if NumberOfFiles s = 0 then 0 else FileSize s),
     NumberOfFiles := (if FileSize s = 0 then 0 else NumberOfFiles s)\<rparr>"

text \<open>
  A snapshot written as JSON is read back as it was, but for the sequences held in memory and for
  the two totals, which are stored only together.
\<close>

lemma snapshot_json:
  assumes "parse description = Inr (MarshalJSON s)"
  shows "CreateSnapshotFromDescription parse description = Inr (stored_snapshot s)"
proof (cases "FileSize s \<noteq> 0 \<and> NumberOfFiles s \<noteq> 0")
  case True
  then show ?thesis
    using assms
    by (cases s) (simp add: CreateSnapshotFromDescription_def MarshalJSON_def required_def optional_def lenient_number_def
        SetSequence_def empty_snapshot_def stored_snapshot_def)
next
  case False
  then show ?thesis
    using assms
    by (cases s) (auto simp: CreateSnapshotFromDescription_def MarshalJSON_def required_def optional_def lenient_number_def
        SetSequence_def empty_snapshot_def stored_snapshot_def)
qed

section \<open>Sequence keys\<close>

definition sequenceKey :: "string list \<Rightarrow> string" where
  "sequenceKey sq = concat (map (\<lambda>h. Itoa (int (length h)) @ '':'' @ h) sq)"

lemma colon_not_digit: "CHR '':'' \<notin> set (decimal n)"
proof (induction n rule: less_induct)
  case (less n)
  have "digit d \<noteq> CHR '':''" if "d < 10" for d
    using digit_value_digit [OF that] by (auto simp: digit_value_def)
  then have d: "CHR '':'' \<noteq> digit d" if "d < 10" for d using that by metis
  have "CHR '':'' \<noteq> digit n" if "n < 10" using d that by blast
  moreover have "CHR '':'' \<noteq> digit (n mod 10)" using d by simp
  moreover have "\<not> n < 10 \<Longrightarrow> CHR '':'' \<notin> set (decimal (n div 10))" using less by simp
  ultimately show ?case by (simp add: decimal.simps [of n])
qed

lemma decimal_colon_inj:
  assumes "decimal m @ CHR '':'' # x = decimal n @ CHR '':'' # y"
  shows "m = n \<and> x = y"
proof -
  let ?t = "takeWhile (\<lambda>c. c \<noteq> CHR '':'')"
  have t: "?t (decimal k @ CHR '':'' # z) = decimal k" for k z
  proof -
    have "?t (decimal k @ CHR '':'' # z) = decimal k @ ?t (CHR '':'' # z)"
      by (rule takeWhile_append2) (use colon_not_digit [of k] in blast)
    then show ?thesis by simp
  qed
  have "decimal m = ?t (decimal m @ CHR '':'' # x)" by (rule t [symmetric])
  also have "\<dots> = decimal n" unfolding assms by (rule t)
  finally have "decimal m = decimal n" .
  then have "Some m = Some n" by (metis read_decimal_decimal)
  then have "m = n" by (simp only: option.inject)
  then show ?thesis using assms by (simp only: same_append_eq list.inject simp_thms)
qed

lemma sequenceKey_inj: "sequenceKey xs = sequenceKey ys \<longleftrightarrow> xs = ys"
proof
  show "sequenceKey xs = sequenceKey ys \<Longrightarrow> xs = ys"
  proof (induction xs arbitrary: ys)
    case Nil
    then show ?case by (cases ys) (auto simp: sequenceKey_def)
  next
    case (Cons x xs)
    then obtain y ys' where ys: "ys = y # ys'" by (cases ys) (auto simp: sequenceKey_def)
    have "decimal (length x) @ CHR '':'' # x @ sequenceKey xs = decimal (length y) @ CHR '':'' # y @ sequenceKey ys'"
      using Cons.prems by (simp add: ys sequenceKey_def Itoa_def)
    from decimal_colon_inj [OF this] have "x = y" "sequenceKey xs = sequenceKey ys'" by auto
    then show ?case using Cons.IH ys by simp
  qed
qed simp

text \<open>
  Different chunk sequences have different keys, whatever bytes the hashes contain, so two
  snapshots are expanded together only when their sequences are the same.
\<close>

theorem sequenceKey_injective: "sequenceKey xs = sequenceKey ys \<longleftrightarrow> xs = ys"
  by (rule sequenceKey_inj)

section \<open>Reading a chunk sequence\<close>

text \<open>
  The reader loads the chunks of a sequence one by one.  \<open>None\<close> stands for \<^verbatim>\<open>io.EOF\<close>, also when a chunk
  that was loaded is empty.  An empty sequence makes \<^verbatim>\<open>NewSequenceReader\<close> panic.
\<close>

record sequence_reader =
  sr_rest :: "string list"
  sr_buffer :: bytes

definition NewSequenceReader :: "(string \<Rightarrow> bytes) \<Rightarrow> string list \<Rightarrow> sequence_reader option" where
  "NewSequenceReader refill sq = (case sq of [] \<Rightarrow> None | h # hs \<Rightarrow> Some \<lparr>sr_rest = hs, sr_buffer = refill h\<rparr>)"

definition read_buffer :: "nat \<Rightarrow> sequence_reader \<Rightarrow> bytes option \<times> sequence_reader" where
  "read_buffer n r = (if sr_buffer r = [] then (None, r)
     else (Some (take n (sr_buffer r)), r\<lparr>sr_buffer := drop n (sr_buffer r)\<rparr>))"

definition sequence_Read :: "(string \<Rightarrow> bytes) \<Rightarrow> nat \<Rightarrow> sequence_reader \<Rightarrow> bytes option \<times> sequence_reader" where
  "sequence_Read refill n r =
     (if sr_buffer r = []
      then (case sr_rest r of
              h # hs \<Rightarrow> read_buffer n \<lparr>sr_rest = hs, sr_buffer = refill h\<rparr>
            | [] \<Rightarrow> (None, r))
      else read_buffer n r)"

definition GetFirstByte :: "sequence_reader \<Rightarrow> byte" where
  "GetFirstByte r = (case sr_buffer r of b # _ \<Rightarrow> b | [] \<Rightarrow> 0)"

text \<open>Reading with any series of positive sizes, up to the end of the file.\<close>

fun read_series :: "(string \<Rightarrow> bytes) \<Rightarrow> nat list \<Rightarrow> sequence_reader \<Rightarrow> bytes" where
  "read_series refill [] r = []"
| "read_series refill (n # ns) r =
     (case sequence_Read refill n r of (None, _) \<Rightarrow> [] | (Some b, r') \<Rightarrow> b @ read_series refill ns r')"

definition reader_content :: "(string \<Rightarrow> bytes) \<Rightarrow> sequence_reader \<Rightarrow> bytes" where
  "reader_content refill r = sr_buffer r @ concat (map refill (sr_rest r))"

lemma sequence_Read_content:
  assumes "list_all (\<lambda>h. refill h \<noteq> []) (sr_rest r)" and "sequence_Read refill n r = (res, r')"
  shows "(case res of Some b \<Rightarrow> b @ reader_content refill r' = reader_content refill r \<and> (0 < n \<longrightarrow> b \<noteq> [])
      | None \<Rightarrow> reader_content refill r = []) \<and> list_all (\<lambda>h. refill h \<noteq> []) (sr_rest r')"
  using assms by (cases "sr_rest r"; cases r)
    (auto simp: sequence_Read_def read_buffer_def reader_content_def split: if_splits)

text \<open>
  Reading a chunk sequence piecewise gives the bytes of its chunks in order: any series of reads
  returns a prefix of the concatenated chunks, and a series at least as long as the content returns
  all of it, provided that no chunk of the sequence is empty.
\<close>

theorem sequence_reader_content:
  assumes "NewSequenceReader refill sq = Some r" and "list_all (\<lambda>h. refill h \<noteq> []) sq" and "list_all (\<lambda>n. 0 < n) ns"
  shows "take (length (read_series refill ns r)) (concat (map refill sq)) = read_series refill ns r
    \<and> (length (concat (map refill sq)) \<le> length ns \<longrightarrow> read_series refill ns r = concat (map refill sq))"
proof -
  have "\<exists>t. read_series refill ns r @ t = reader_content refill r
      \<and> (length (reader_content refill r) \<le> length ns \<longrightarrow> t = [])"
    if "list_all (\<lambda>h. refill h \<noteq> []) (sr_rest r)" for r
    using assms(3) that
  proof (induction ns arbitrary: r)
    case (Cons n ns)
    obtain res r' where rd: "sequence_Read refill n r = (res, r')" by fastforce
    note c = sequence_Read_content [OF Cons.prems(2) rd]
    show ?case
    proof (cases res)
      case (Some b)
      then obtain t where t: "read_series refill ns r' @ t = reader_content refill r'"
        "length (reader_content refill r') \<le> length ns \<longrightarrow> t = []"
        using Cons.IH [of r'] Cons.prems c by auto
      have b: "b @ reader_content refill r' = reader_content refill r" "b \<noteq> []" using c Some Cons.prems by auto
      then have "length (reader_content refill r) \<le> length (n # ns) \<Longrightarrow> length (reader_content refill r') \<le> length ns"
        by (cases b) (auto dest: arg_cong [of _ _ length])
      then show ?thesis using t b rd Some by (intro exI [of _ t]) auto
    qed (use c rd in simp)
  qed simp
  moreover have "reader_content refill r = concat (map refill sq)" "list_all (\<lambda>h. refill h \<noteq> []) (sr_rest r)"
    using assms(1,2) by (auto simp: NewSequenceReader_def reader_content_def split: list.splits)
  ultimately obtain t where "read_series refill ns r @ t = concat (map refill sq)"
    "length (concat (map refill sq)) \<le> length ns \<longrightarrow> t = []" by metis
  then show ?thesis by (metis append_Nil2 append_eq_conv_conj)
qed

lemma sequence_reader_content_witness:
  "read_series (\<lambda>h. if h = ''a'' then [1, 2] else [3]) [1, 5, 2] \<lparr>sr_rest = [''b''], sr_buffer = [1, 2]\<rparr> = [1, 2, 3]"
  using sequence_reader_content [of "\<lambda>h. if h = ''a'' then [1, 2] else [3]" "[''a'', ''b'']" _ "[1, 5, 2]"]
  by (simp add: NewSequenceReader_def)

text \<open>
  \<^verbatim>\<open>DownloadSequence\<close>: each download that completes fills its own piece; \<open>order\<close> is the order in which
  they do.
\<close>

definition DownloadSequence :: "(string \<Rightarrow> bytes) \<Rightarrow> nat list \<Rightarrow> string list \<Rightarrow> bytes" where
  "DownloadSequence fetch order sq =
     concat (fold (\<lambda>i pieces. pieces[i := pieces ! i @ fetch (sq ! i)]) order (replicate (length sq) []))"

lemma pieces_filled:
  assumes "distinct order" and "set order \<subseteq> {..<length sq}" and "length pieces = length sq"
  shows "fold (\<lambda>i pieces. pieces[i := pieces ! i @ fetch (sq ! i)]) order pieces
    = map (\<lambda>i. pieces ! i @ (if i \<in> set order then fetch (sq ! i) else [])) [0..<length sq]"
  using assms
proof (induction order arbitrary: pieces)
  case Nil
  then show ?case using map_nth [of pieces] by simp
next
  case (Cons j js)
  then show ?case by (auto intro!: nth_equalityI simp: nth_list_update)
qed

text \<open>
  The content of a sequence does not depend on the order in which its chunks arrive.
\<close>

theorem DownloadSequence_any_order:
  assumes "mset order = mset [0..<length sq]"
  shows "DownloadSequence fetch order sq = concat (map fetch sq)"
proof -
  have d: "distinct order" using mset_eq_imp_distinct_iff [OF assms] by simp
  have so: "set order = {..<length sq}" using mset_eq_setD [OF assms] by (simp only: set_upt) auto
  have "DownloadSequence fetch order sq = concat (map (\<lambda>i. replicate (length sq) [] ! i
      @ (if i \<in> set order then fetch (sq ! i) else [])) [0..<length sq])"
    unfolding DownloadSequence_def by (subst pieces_filled [OF d]) (simp_all only: so length_replicate order_refl)
  also have "\<dots> = concat (map (\<lambda>i. fetch (sq ! i)) [0..<length sq])"
    by (intro arg_cong [of _ _ concat] map_cong) (simp_all add: so)
  finally have "DownloadSequence fetch order sq = concat (map (\<lambda>i. fetch (sq ! i)) [0..<length sq])" .
  moreover have "map (\<lambda>i. fetch (sq ! i)) [0..<length sq] = map fetch sq"
    by (rule nth_equalityI) simp_all
  ultimately show ?thesis by simp
qed

lemma DownloadSequence_any_order_witness:
  "DownloadSequence (\<lambda>h. [of_nat (length h)]) [1, 0] [''a'', ''bc''] = [1, 2]"
  using DownloadSequence_any_order [of "[1, 0]" "[''a'', ''bc'']"] by (simp add: upt_rec)

end
