(* ===== verification/Concurrency.thy ===== *)
theory Concurrency
  imports Main "HOL-Library.Multiset"
begin

text \<open>
  The two worker pools of the program as step relations: \<^verbatim>\<open>runConcurrently\<close> of
  \<^verbatim>\<open>src/src/duplicacy_concurrency.go\<close>, whose workers claim the indices of a range, and the task queue of
  \<^verbatim>\<open>src/src/duplicacy_chunkoperator.go\<close>, whose workers wait for tasks.  A step is what one goroutine does
  between two points at which another may run.
\<close>

section \<open>runConcurrently\<close>

datatype worker = Claiming | Working nat | Returned

text \<open>
  A job changes the state shared by the jobs and may panic.  \<open>executed\<close> records the calls made, in
  the order in which they finished.
\<close>

record ('s, 'e) pool =
  nextIndex :: nat
  workers :: "worker list"
  failure :: "'e option"
  shared :: 's
  executed :: "nat list"

type_synonym ('s, 'e) job = "nat \<Rightarrow> nat \<Rightarrow> 's \<Rightarrow> 'e option \<times> 's"

definition start_pool :: "nat \<Rightarrow> 's \<Rightarrow> ('s, 'e) pool" where
  "start_pool threads s = \<lparr>nextIndex = 0, workers = replicate threads Claiming, failure = None, shared = s, executed = []\<rparr>"

inductive pool_step :: "nat \<Rightarrow> ('s, 'e) job \<Rightarrow> ('s, 'e) pool \<Rightarrow> ('s, 'e) pool \<Rightarrow> bool" for limit job where
  claim: "\<lbrakk> t < length (workers p); workers p ! t = Claiming; nextIndex p < limit \<rbrakk>
    \<Longrightarrow> pool_step limit job p (p\<lparr>nextIndex := nextIndex p + 1, workers := (workers p)[t := Working (nextIndex p)]\<rparr>)"
| exhausted: "\<lbrakk> t < length (workers p); workers p ! t = Claiming; limit \<le> nextIndex p \<rbrakk>
    \<Longrightarrow> pool_step limit job p (p\<lparr>nextIndex := nextIndex p + 1, workers := (workers p)[t := Returned]\<rparr>)"
| completed: "\<lbrakk> t < length (workers p); workers p ! t = Working i; job t i (shared p) = (None, s) \<rbrakk>
    \<Longrightarrow> pool_step limit job p (p\<lparr>workers := (workers p)[t := Claiming], shared := s, executed := executed p @ [i]\<rparr>)"
| panicked: "\<lbrakk> t < length (workers p); workers p ! t = Working i; job t i (shared p) = (Some e, s) \<rbrakk>
    \<Longrightarrow> pool_step limit job p (p\<lparr>workers := (workers p)[t := Returned], shared := s, executed := executed p @ [i],
          failure := (if failure p = None then Some e else failure p)\<rparr>)"

inductive_cases pool_stepE: "pool_step limit job p q"

definition all_returned :: "('s, 'e) pool \<Rightarrow> bool" where
  "all_returned p \<longleftrightarrow> list_all (\<lambda>w. w = Returned) (workers p)"

text \<open>The loop taken with at most one worker: a panic ends it.\<close>

fun serial_jobs :: "('s, 'e) job \<Rightarrow> nat list \<Rightarrow> 's \<Rightarrow> 'e option \<times> 's" where
  "serial_jobs job [] s = (None, s)"
| "serial_jobs job (i # is) s = (case job 0 i s of (None, s') \<Rightarrow> serial_jobs job is s' | r \<Rightarrow> r)"

text \<open>The outcomes of \<^verbatim>\<open>runConcurrently(threads, limit, job)\<close> from a shared state.\<close>

definition runConcurrently :: "nat \<Rightarrow> nat \<Rightarrow> ('s, 'e) job \<Rightarrow> 's \<Rightarrow> 'e option \<times> 's \<Rightarrow> bool" where
  "runConcurrently threads limit job s r \<longleftrightarrow>
     (let n = min threads limit in
      if n \<le> 1 then r = serial_jobs job [0..<limit] s
      else \<exists>p. (pool_step limit job)\<^sup>*\<^sup>* (start_pool n s) p \<and> all_returned p \<and> r = (failure p, shared p))"

section \<open>The pool ends\<close>

fun worker_weight :: "worker \<Rightarrow> nat" where
  "worker_weight Claiming = 1"
| "worker_weight (Working i) = 2"
| "worker_weight Returned = 0"

definition pool_weight :: "nat \<Rightarrow> ('s, 'e) pool \<Rightarrow> nat" where
  "pool_weight limit p = 2 * (limit - nextIndex p) + sum_list (map worker_weight (workers p))"

lemma sum_list_weight:
  "t < length ws \<Longrightarrow> sum_list (map worker_weight (ws[t := w])) + worker_weight (ws ! t)
     = sum_list (map worker_weight ws) + worker_weight w"
proof (induction ws arbitrary: t)
  case (Cons v vs)
  then show ?case by (cases t) auto
qed simp

lemma pool_weight_decreases: "pool_step limit job p q \<Longrightarrow> pool_weight limit q < pool_weight limit p"
proof (induction rule: pool_step.induct)
  case (claim t p)
  then show ?case using sum_list_weight [of t "workers p" "Working (nextIndex p)"] by (simp add: pool_weight_def)
next
  case (exhausted t p)
  then show ?case using sum_list_weight [of t "workers p" Returned] by (simp add: pool_weight_def)
next
  case (completed t p i s)
  then show ?case using sum_list_weight [of t "workers p" Claiming] by (simp add: pool_weight_def)
next
  case (panicked t p i e s)
  then show ?case using sum_list_weight [of t "workers p" Returned] by (simp add: pool_weight_def)
qed

lemma pool_progress:
  assumes "\<not> all_returned p"
  shows "\<exists>q. pool_step limit job p q"
proof -
  obtain t where t: "t < length (workers p)" "workers p ! t \<noteq> Returned"
    using assms by (auto simp: all_returned_def list_all_length)
  show ?thesis
  proof (cases "workers p ! t")
    case Claiming
    then show ?thesis using t(1) pool_step.claim [of t p limit job] pool_step.exhausted [of t p limit job] by (meson not_le)
  next
    case (Working i)
    obtain r s where "job t i (shared p) = (r, s)" by fastforce
    then show ?thesis using t(1) Working pool_step.completed [of t p i job s limit] pool_step.panicked [of t p i job _ s limit]
      by (cases r) blast+
  qed (use t in simp)
qed

lemma pool_can_finish: "\<exists>q. (pool_step limit job)\<^sup>*\<^sup>* p q \<and> all_returned q"
proof (induction "pool_weight limit p" arbitrary: p rule: less_induct)
  case less
  show ?case
  proof (cases "all_returned p")
    case False
    then obtain p' where "pool_step limit job p p'" using pool_progress by blast
    then show ?thesis using less pool_weight_decreases converse_rtranclp_into_rtranclp by metis
  qed blast
qed

section \<open>Every index once\<close>

fun working_index :: "worker \<Rightarrow> nat list" where
  "working_index (Working i) = [i]"
| "working_index _ = []"

definition in_progress :: "('s, 'e) pool \<Rightarrow> nat multiset" where
  "in_progress p = mset (concat (map working_index (workers p)))"

lemma in_progress_update:
  "t < length ws \<Longrightarrow> mset (concat (map working_index (ws[t := w]))) + mset (working_index (ws ! t))
     = mset (concat (map working_index ws)) + mset (working_index w)"
proof (induction ws arbitrary: t)
  case (Cons v vs)
  then show ?case by (cases t) (auto simp: ac_simps)
qed simp

text \<open>The indices claimed are the ones executed and those in progress.\<close>

definition pool_inv :: "nat \<Rightarrow> ('s, 'e) pool \<Rightarrow> bool" where
  "pool_inv limit p \<longleftrightarrow> mset (executed p) + in_progress p = mset [0..<min (nextIndex p) limit]"

lemma pool_inv_start: "pool_inv limit (start_pool n s)"
proof -
  have "concat (map working_index (replicate n Claiming)) = []" by (induction n) auto
  then show ?thesis by (simp add: pool_inv_def in_progress_def start_pool_def)
qed

lemma pool_inv_step: "pool_step limit job p q \<Longrightarrow> pool_inv limit p \<Longrightarrow> pool_inv limit q"
proof (induction rule: pool_step.induct)
  case (claim t p)
  then show ?case
    using in_progress_update [of t "workers p" "Working (nextIndex p)"]
    by (simp add: pool_inv_def in_progress_def min_def split: if_splits)
next
  case (exhausted t p)
  then show ?case
    using in_progress_update [of t "workers p" Returned] by (simp add: pool_inv_def in_progress_def min_def split: if_splits)
next
  case (completed t p i s)
  then have "mset (concat (map working_index (workers p)))
      = add_mset i (mset (concat (map working_index ((workers p)[t := Claiming]))))"
    using in_progress_update [of t "workers p" Claiming] by simp
  with completed show ?case by (simp add: pool_inv_def in_progress_def)
next
  case (panicked t p i e s)
  then have "mset (concat (map working_index (workers p)))
      = add_mset i (mset (concat (map working_index ((workers p)[t := Returned]))))"
    using in_progress_update [of t "workers p" Returned] by simp
  with panicked show ?case by (simp add: pool_inv_def in_progress_def)
qed

text \<open>
  Without a panic the shared state is what the executed jobs make of it one after another, and a worker
  returns only when the range is exhausted.
\<close>

definition apply_jobs :: "('s, 'e) job \<Rightarrow> nat list \<Rightarrow> 's \<Rightarrow> 's" where
  "apply_jobs job is s = fold (\<lambda>i s. snd (job 0 i s)) is s"

definition quiet :: "nat \<Rightarrow> ('s, 'e) job \<Rightarrow> bool" where
  "quiet limit job \<longleftrightarrow> (\<forall>t i s. i < limit \<longrightarrow> job t i s = job 0 i s \<and> fst (job 0 i s) = None)"

definition quiet_inv :: "nat \<Rightarrow> ('s, 'e) job \<Rightarrow> 's \<Rightarrow> ('s, 'e) pool \<Rightarrow> bool" where
  "quiet_inv limit job s p \<longleftrightarrow> pool_inv limit p \<and> failure p = None \<and> shared p = apply_jobs job (executed p) s
     \<and> (Returned \<in> set (workers p) \<longrightarrow> limit \<le> nextIndex p)"

lemma working_bounded:
  assumes "pool_inv limit p" and "t < length (workers p)" and "workers p ! t = Working i"
  shows "i < limit"
proof -
  have "i \<in># in_progress p" using assms(2,3) by (auto simp: in_progress_def in_set_conv_nth intro!: bexI [of _ "workers p ! t"])
  then have "i \<in># mset (executed p) + in_progress p" by simp
  then have "i \<in># mset [0..<min (nextIndex p) limit]" using assms(1) unfolding pool_inv_def by simp
  then show ?thesis by simp
qed

lemma set_update_keeps: "w \<in> set (ws[t := v]) \<Longrightarrow> w = v \<or> w \<in> set ws"
  using set_update_subset_insert by fastforce

lemma quiet_inv_step:
  assumes "quiet limit job" and "pool_step limit job p q" and "quiet_inv limit job s p"
  shows "quiet_inv limit job s q"
proof -
  have q: "pool_inv limit q" using pool_inv_step [OF assms(2)] assms(3) by (simp add: quiet_inv_def)
  from assms(2) show ?thesis
  proof (cases rule: pool_step.cases)
    case (claim t)
    then show ?thesis using q assms(3) by (auto simp: quiet_inv_def dest!: set_update_keeps)
  next
    case (exhausted t)
    then show ?thesis using q assms(3) by (auto simp: quiet_inv_def)
  next
    case (completed t i s')
    have "i < limit" using working_bounded [OF _ completed(2,3)] assms(3) by (simp add: quiet_inv_def)
    then have "job 0 i (shared p) = (None, s')" using assms(1) completed(4) unfolding quiet_def by metis
    then show ?thesis using q assms(3) completed by (auto simp: quiet_inv_def apply_jobs_def dest!: set_update_keeps)
  next
    case (panicked t i e s')
    have "i < limit" using working_bounded [OF _ panicked(2,3)] assms(3) by (simp add: quiet_inv_def)
    then have "fst (job t i (shared p)) = None" using assms(1) unfolding quiet_def by metis
    then show ?thesis using panicked(4) by simp
  qed
qed

lemma quiet_inv_reachable:
  assumes "quiet limit job" and "(pool_step limit job)\<^sup>*\<^sup>* (start_pool n s) p"
  shows "quiet_inv limit job s p"
  using assms(2)
proof (induction rule: rtranclp_induct)
  case base
  then show ?case using pool_inv_start [of limit n s] by (simp add: quiet_inv_def start_pool_def apply_jobs_def)
next
  case (step p q)
  then show ?case using quiet_inv_step [OF assms(1)] by blast
qed

lemma workers_kept: "(pool_step limit job)\<^sup>*\<^sup>* p q \<Longrightarrow> length (workers q) = length (workers p)"
  by (induction rule: rtranclp_induct) (auto elim!: pool_stepE)

lemma all_returned_idle: "all_returned p \<Longrightarrow> in_progress p = {#}"
  by (auto simp: all_returned_def in_progress_def list_all_iff)

lemma serial_jobs_quiet:
  "(\<And>i s. i \<in> set is \<Longrightarrow> fst (job 0 i s) = None) \<Longrightarrow> serial_jobs job is s = (None, apply_jobs job is s)"
proof (induction "is" arbitrary: s)
  case (Cons i "is")
  have "job 0 i s = (None, snd (job 0 i s))" using Cons.prems [of i s] by (cases "job 0 i s") simp
  then show ?case using Cons by (auto simp: apply_jobs_def split: prod.split)
qed (simp add: apply_jobs_def)

text \<open>Jobs on different indices may run in any order.\<close>

definition independent_jobs :: "nat \<Rightarrow> ('s, 'e) job \<Rightarrow> bool" where
  "independent_jobs limit job \<longleftrightarrow>
     (\<forall>i < limit. \<forall>j < limit. \<forall>s. snd (job 0 i (snd (job 0 j s))) = snd (job 0 j (snd (job 0 i s))))"

lemma pool_runs_loop:
  assumes "quiet limit job" and "independent_jobs limit job" and "runConcurrently threads limit job s r"
  shows "r = serial_jobs job [0..<limit] s \<and> r = (None, apply_jobs job [0..<limit] s)"
proof -
  have loop: "serial_jobs job [0..<limit] s = (None, apply_jobs job [0..<limit] s)"
  proof (rule serial_jobs_quiet)
    fix i s
    assume "i \<in> set [0..<limit]"
    then have "i < limit" by simp
    then show "fst (job 0 i s) = None" using assms(1) unfolding quiet_def by blast
  qed
  show ?thesis
  proof (cases "min threads limit \<le> 1")
    case True
    then show ?thesis using assms(3) loop by (simp add: runConcurrently_def)
  next
    case False
    then obtain p where p: "(pool_step limit job)\<^sup>*\<^sup>* (start_pool (min threads limit) s) p" "all_returned p"
      and r: "r = (failure p, shared p)"
      using assms(3) by (auto simp: runConcurrently_def Let_def)
    note inv = quiet_inv_reachable [OF assms(1) p(1)]
    have "length (workers p) = min threads limit" using workers_kept [OF p(1)] by (simp add: start_pool_def)
    then have "Returned \<in> set (workers p)" using p(2) False by (cases "workers p") (auto simp: all_returned_def)
    then have "limit \<le> nextIndex p" using inv by (simp add: quiet_inv_def)
    then have all: "mset (executed p) = mset [0..<limit]"
      using inv all_returned_idle [OF p(2)] by (simp add: quiet_inv_def pool_inv_def min_absorb2)
    then have "set (executed p) = {0..<limit}" by (metis set_mset_mset set_upt)
    moreover have "snd (job 0 i (snd (job 0 j s))) = snd (job 0 j (snd (job 0 i s)))" if "i < limit" "j < limit" for i j s
      using assms(2) that unfolding independent_jobs_def by blast
    ultimately have "fold (\<lambda>i s. snd (job 0 i s)) (executed p) = fold (\<lambda>i s. snd (job 0 i s)) [0..<limit]"
      by (intro fold_multiset_equiv [OF _ all]) (simp add: comp_def fun_eq_iff)
    then show ?thesis using inv r loop by (simp add: quiet_inv_def apply_jobs_def)
  qed
qed

text \<open>
  C36. With jobs that do not panic and commute, \<^verbatim>\<open>runConcurrently\<close> does what the plain loop over the
  range does, whatever the number of threads and the interleaving: every index is executed exactly
  once, and the outcome is the same.
\<close>

theorem runConcurrently_is_loop:
  assumes "quiet limit job" and "independent_jobs limit job" and "runConcurrently threads limit job s r"
  shows "r = serial_jobs job [0..<limit] s \<and> r = (None, apply_jobs job [0..<limit] s)"
  using pool_runs_loop [OF assms] .

text \<open>
  C37. The pool cannot hang: from every state that can be reached some finite continuation returns all
  workers, whatever the jobs do, and no execution takes more steps than the weight of the first
  state, two per index and one per worker.
\<close>

theorem runConcurrently_ends:
  fixes p :: "('s, 'e) pool"
  assumes "(pool_step limit job ^^ k) (start_pool n s) p"
  shows "k \<le> 2 * limit + n \<and> (\<exists>q. (pool_step limit job)\<^sup>*\<^sup>* p q \<and> all_returned q)"
proof -
  have "pool_weight limit p + k \<le> pool_weight limit (start_pool n s :: ('s, 'e) pool)"
    using assms
  proof (induction k arbitrary: p)
    case (Suc k)
    then obtain p' where "(pool_step limit job ^^ k) (start_pool n s) p'" "pool_step limit job p' p" by auto
    then show ?case using Suc.IH pool_weight_decreases by fastforce
  qed auto
  moreover have "pool_weight limit (start_pool n s :: ('s, 'e) pool) = 2 * limit + n"
    by (simp add: pool_weight_def start_pool_def sum_list_replicate)
  ultimately show ?thesis using pool_can_finish by auto
qed

section \<open>The task queue of the chunk operator\<close>

text \<open>
  \<open>adding\<close> are the tasks that \<^verbatim>\<open>AddTask\<close> has counted and not yet put into the channel, \<open>stoppers\<close> the calls
  of \<^verbatim>\<open>Stop\<close> that have waited for completion and not yet looked at \<open>stopped\<close>, \<open>stops\<close> the messages still to
  be sent on the stop channel.  \<open>added\<close> and \<open>finished\<close> record the tasks given and finished.
\<close>

datatype 'task runner = Waiting | Running 'task | Stopped

record 'task task_queue =
  numberOfActiveTasks :: int
  adding :: "'task list"
  taskQueue :: "'task list"
  runners :: "'task runner list"
  stoppers :: nat
  stopped :: bool
  stops :: nat
  added :: "'task list"
  finished :: "'task list"

definition CreateChunkOperator :: "nat \<Rightarrow> 'task task_queue" where
  "CreateChunkOperator threads = \<lparr>numberOfActiveTasks = 0, adding = [], taskQueue = [], runners = replicate threads Waiting,
     stoppers = 0, stopped = False, stops = 0, added = [], finished = []\<rparr>"

inductive queue_step :: "'task task_queue \<Rightarrow> 'task task_queue \<Rightarrow> bool" where
  add: "queue_step q (q\<lparr>numberOfActiveTasks := numberOfActiveTasks q + 1, adding := adding q @ [task], added := added q @ [task]\<rparr>)"
| enqueue: "\<lbrakk> adding q = us @ task # vs; length (taskQueue q) < length (runners q) \<rbrakk>
    \<Longrightarrow> queue_step q (q\<lparr>adding := us @ vs, taskQueue := taskQueue q @ [task]\<rparr>)"
| receive: "\<lbrakk> t < length (runners q); runners q ! t = Waiting; taskQueue q = task # rest \<rbrakk>
    \<Longrightarrow> queue_step q (q\<lparr>runners := (runners q)[t := Running task], taskQueue := rest\<rparr>)"
| finish: "\<lbrakk> t < length (runners q); runners q ! t = Running task \<rbrakk>
    \<Longrightarrow> queue_step q (q\<lparr>runners := (runners q)[t := Waiting], numberOfActiveTasks := numberOfActiveTasks q - 1,
          finished := finished q @ [task]\<rparr>)"
| waited: "numberOfActiveTasks q \<le> 0 \<Longrightarrow> queue_step q (q\<lparr>stoppers := stoppers q + 1\<rparr>)"
| stop: "\<lbrakk> 0 < stoppers q; \<not> stopped q \<rbrakk>
    \<Longrightarrow> queue_step q (q\<lparr>stoppers := stoppers q - 1, stopped := True, stops := length (runners q)\<rparr>)"
| stop_again: "\<lbrakk> 0 < stoppers q; stopped q \<rbrakk> \<Longrightarrow> queue_step q (q\<lparr>stoppers := stoppers q - 1\<rparr>)"
| quit: "\<lbrakk> 0 < stops q; t < length (runners q); runners q ! t = Waiting \<rbrakk>
    \<Longrightarrow> queue_step q (q\<lparr>runners := (runners q)[t := Stopped], stops := stops q - 1\<rparr>)"

inductive_cases queue_stepE: "queue_step p q"

fun running_task :: "'task runner \<Rightarrow> 'task list" where
  "running_task (Running task) = [task]"
| "running_task _ = []"

definition underway :: "'task task_queue \<Rightarrow> 'task multiset" where
  "underway q = mset (adding q) + mset (taskQueue q) + mset (concat (map running_task (runners q)))"

definition stopped_count :: "'task runner list \<Rightarrow> nat" where
  "stopped_count rs = length (filter (\<lambda>r. r = Stopped) rs)"

definition queue_inv :: "nat \<Rightarrow> 'task task_queue \<Rightarrow> bool" where
  "queue_inv threads q \<longleftrightarrow> length (runners q) = threads \<and> length (taskQueue q) \<le> threads
     \<and> mset (added q) = mset (finished q) + underway q
     \<and> numberOfActiveTasks q = int (size (underway q))
     \<and> stops q + stopped_count (runners q) = (if stopped q then threads else 0)"

lemma running_update:
  "t < length rs \<Longrightarrow> mset (concat (map running_task (rs[t := r]))) + mset (running_task (rs ! t))
     = mset (concat (map running_task rs)) + mset (running_task r)"
proof (induction rs arbitrary: t)
  case (Cons v vs)
  then show ?case by (cases t) (auto simp: ac_simps)
qed simp

lemma stopped_update:
  "t < length rs \<Longrightarrow> rs ! t \<noteq> Stopped \<Longrightarrow> stopped_count (rs[t := r]) = stopped_count rs + (if r = Stopped then 1 else 0)"
proof (induction rs arbitrary: t)
  case (Cons v vs)
  then show ?case by (cases t) (auto simp: stopped_count_def)
qed simp

lemma queue_inv_start: "queue_inv threads (CreateChunkOperator threads)"
proof -
  have "concat (map running_task (replicate threads Waiting)) = []" by (induction threads) auto
  moreover have "stopped_count (replicate threads Waiting) = 0" by (simp add: stopped_count_def)
  ultimately show ?thesis by (simp add: queue_inv_def CreateChunkOperator_def underway_def)
qed

lemma queue_inv_step: "queue_step p q \<Longrightarrow> queue_inv threads p \<Longrightarrow> queue_inv threads q"
proof (induction rule: queue_step.induct)
  case (receive t q task rest)
  then show ?case
    using running_update [of t "runners q" "Running task"] stopped_update [of t "runners q" "Running task"]
    by (simp add: queue_inv_def underway_def)
next
  case (finish t q task)
  then have "mset (concat (map running_task (runners q)))
      = add_mset task (mset (concat (map running_task ((runners q)[t := Waiting]))))"
    using running_update [of t "runners q" Waiting] by simp
  with finish show ?case
    using stopped_update [of t "runners q" Waiting] by (simp add: queue_inv_def underway_def)
next
  case (quit q t)
  then show ?case
    using running_update [of t "runners q" Stopped] stopped_update [of t "runners q" Stopped]
    by (simp add: queue_inv_def underway_def split: if_splits)
qed (auto simp: queue_inv_def underway_def split: if_splits)

lemma queue_inv_reachable: "queue_step\<^sup>*\<^sup>* (CreateChunkOperator threads) q \<Longrightarrow> queue_inv threads q"
  by (induction rule: rtranclp_induct) (auto intro: queue_inv_start queue_inv_step)

text \<open>
  C38. When \<^verbatim>\<open>WaitForCompletion\<close> may return, every task added so far has been run to its end, exactly
  once, whatever the interleaving of callers and workers; the counter is never negative and the
  channel never holds more tasks than there are workers.
\<close>

theorem wait_means_completed:
  assumes "queue_step\<^sup>*\<^sup>* (CreateChunkOperator threads) q"
  shows "0 \<le> numberOfActiveTasks q \<and> length (taskQueue q) \<le> threads
    \<and> (numberOfActiveTasks q \<le> 0 \<longrightarrow> mset (finished q) = mset (added q) \<and> adding q = [] \<and> taskQueue q = []
        \<and> list_all (\<lambda>r. running_task r = []) (runners q))"
proof -
  note inv = queue_inv_reachable [OF assms]
  have "underway q = {#}" if "numberOfActiveTasks q \<le> 0"
    using inv that by (simp add: queue_inv_def)
  then have "numberOfActiveTasks q \<le> 0 \<longrightarrow> mset (finished q) = mset (added q) \<and> adding q = [] \<and> taskQueue q = []
        \<and> list_all (\<lambda>r. running_task r = []) (runners q)"
    using inv by (auto simp: queue_inv_def underway_def list_all_iff)
  then show ?thesis using inv by (simp add: queue_inv_def)
qed

text \<open>
  However often and from however many callers \<^verbatim>\<open>Stop\<close> is called, each worker is stopped at most once
  and no more stop messages are sent than there are workers, so no call waits for a worker that is
  gone.
\<close>

theorem stop_takes_effect_once:
  assumes "queue_step\<^sup>*\<^sup>* (CreateChunkOperator threads) q"
  shows "stops q + stopped_count (runners q) = (if stopped q then threads else 0)"
  using queue_inv_reachable [OF assms] by (simp add: queue_inv_def)

section \<open>Witnesses\<close>

definition sum_job :: "(nat, string) job" where
  "sum_job = (\<lambda>t i s. (None, s + i))"

lemma sum_job_facts: "quiet 2 sum_job" "independent_jobs 2 sum_job"
  by (simp_all add: quiet_def independent_jobs_def sum_job_def)

definition sum_pool :: "nat \<Rightarrow> worker list \<Rightarrow> nat \<Rightarrow> nat list \<Rightarrow> (nat, string) pool" where
  "sum_pool k ws s is = \<lparr>nextIndex = k, workers = ws, failure = None, shared = s, executed = is\<rparr>"

lemma sum_pool_steps:
  "pool_step 2 sum_job (sum_pool 0 [Claiming, Claiming] 7 []) (sum_pool 1 [Claiming, Working 0] 7 [])"
  "pool_step 2 sum_job (sum_pool 1 [Claiming, Working 0] 7 []) (sum_pool 2 [Working 1, Working 0] 7 [])"
  "pool_step 2 sum_job (sum_pool 2 [Working 1, Working 0] 7 []) (sum_pool 2 [Claiming, Working 0] 8 [1])"
  "pool_step 2 sum_job (sum_pool 2 [Claiming, Working 0] 8 [1]) (sum_pool 2 [Claiming, Claiming] 8 [1, 0])"
  "pool_step 2 sum_job (sum_pool 2 [Claiming, Claiming] 8 [1, 0]) (sum_pool 3 [Returned, Claiming] 8 [1, 0])"
  "pool_step 2 sum_job (sum_pool 3 [Returned, Claiming] 8 [1, 0]) (sum_pool 4 [Returned, Returned] 8 [1, 0])"
  using pool_step.claim [of 1 "sum_pool 0 [Claiming, Claiming] 7 []" 2 sum_job]
    pool_step.claim [of 0 "sum_pool 1 [Claiming, Working 0] 7 []" 2 sum_job]
    pool_step.completed [of 0 "sum_pool 2 [Working 1, Working 0] 7 []" 1 sum_job 8 2]
    pool_step.completed [of 1 "sum_pool 2 [Claiming, Working 0] 8 [1]" 0 sum_job 8 2]
    pool_step.exhausted [of 0 "sum_pool 2 [Claiming, Claiming] 8 [1, 0]" 2 sum_job]
    pool_step.exhausted [of 1 "sum_pool 3 [Returned, Claiming] 8 [1, 0]" 2 sum_job]
  by (simp_all add: sum_pool_def sum_job_def numeral_2_eq_2 numeral_3_eq_3 eval_nat_numeral)

lemma sum_pool_run: "(pool_step 2 sum_job)\<^sup>*\<^sup>* (start_pool 2 7) (sum_pool 4 [Returned, Returned] 8 [1, 0])"
proof -
  have s: "start_pool 2 7 = sum_pool 0 [Claiming, Claiming] 7 []"
    by (simp add: start_pool_def sum_pool_def numeral_2_eq_2)
  show ?thesis unfolding s
    using sum_pool_steps by (meson converse_rtranclp_into_rtranclp rtranclp.rtrancl_refl)
qed

lemma runConcurrently_is_loop_witness:
  "runConcurrently 3 2 sum_job 7 (None, 8) \<and> (None, 8) = serial_jobs sum_job [0..<2] 7"
proof -
  have "runConcurrently 3 2 sum_job 7 (None, 8)"
    using sum_pool_run
    by (auto simp: runConcurrently_def all_returned_def sum_pool_def intro!: exI [of _ "sum_pool 4 [Returned, Returned] 8 [1, 0]"])
  then show ?thesis using runConcurrently_is_loop [OF sum_job_facts] by blast
qed

lemma runConcurrently_ends_witness:
  "\<exists>q. (pool_step 2 sum_job)\<^sup>*\<^sup>* (sum_pool 1 [Claiming, Working 0] 7 []) q \<and> all_returned q"
proof -
  have "(pool_step 2 sum_job ^^ 1) (start_pool 2 7) (sum_pool 1 [Claiming, Working 0] 7 [])"
    unfolding relpowp_1 using sum_pool_steps(1) by (simp add: start_pool_def sum_pool_def numeral_2_eq_2)
  from runConcurrently_ends [OF this] show ?thesis by blast
qed

definition queue_example :: "nat \<Rightarrow> nat list \<Rightarrow> nat list \<Rightarrow> nat runner list \<Rightarrow> nat list \<Rightarrow> nat task_queue" where
  "queue_example n us qs rs fs = \<lparr>numberOfActiveTasks = int n, adding = us, taskQueue = qs, runners = rs,
     stoppers = 0, stopped = False, stops = 0, added = [5], finished = fs\<rparr>"

lemma queue_example_run: "queue_step\<^sup>*\<^sup>* (CreateChunkOperator 1) (queue_example 0 [] [] [Waiting] [5])"
proof -
  have "queue_step (CreateChunkOperator 1) (queue_example 1 [5] [] [Waiting] [])"
    using queue_step.add [of "CreateChunkOperator 1" 5] by (simp add: CreateChunkOperator_def queue_example_def)
  moreover have "queue_step (queue_example 1 [5] [] [Waiting] []) (queue_example 1 [] [5] [Waiting] [])"
    using queue_step.enqueue [of "queue_example 1 [5] [] [Waiting] []" "[]" 5 "[]"] by (simp add: queue_example_def)
  moreover have "queue_step (queue_example 1 [] [5] [Waiting] []) (queue_example 1 [] [] [Running 5] [])"
    using queue_step.receive [of 0 "queue_example 1 [] [5] [Waiting] []" 5 "[]"] by (simp add: queue_example_def)
  moreover have "queue_step (queue_example 1 [] [] [Running 5] []) (queue_example 0 [] [] [Waiting] [5])"
    using queue_step.finish [of 0 "queue_example 1 [] [] [Running 5] []" 5] by (simp add: queue_example_def)
  ultimately show ?thesis by (meson converse_rtranclp_into_rtranclp rtranclp.rtrancl_refl)
qed

lemma wait_means_completed_witness: "mset (finished (queue_example 0 [] [] [Waiting] [5])) = {#5#}"
  using wait_means_completed [OF queue_example_run] by (simp add: queue_example_def)

lemma stop_takes_effect_once_witness:
  "stops (CreateChunkOperator 3) + stopped_count (runners (CreateChunkOperator 3 :: nat task_queue)) = 0"
  using stop_takes_effect_once [of 3 "CreateChunkOperator 3 :: nat task_queue"] by (simp add: CreateChunkOperator_def)

end
