(* ===== verification/Snapshot_Chunks.thy ===== *)
theory Snapshot_Chunks
  imports Snapshot Concurrency
begin

text \<open>
  Which chunks a snapshot references (\<^verbatim>\<open>src/src/duplicacy_snapshotmanager.go\<close>): \<^verbatim>\<open>GetSnapshotChunks\<close> for
  one snapshot, and \<^verbatim>\<open>expandSnapshots\<close>, which expands every distinct chunk sequence once, concurrently.
\<close>

section \<open>One snapshot\<close>

text \<open>
  \<open>load\<close> downloads a chunk sequence and decodes the hashes it holds; \<open>None\<close> is the logged error, which
  ends the command.  \<open>ident\<close> is \<^verbatim>\<open>GetChunkIDFromHash\<close>.
\<close>

definition own_chunks :: "(string \<Rightarrow> string) \<Rightarrow> snapshot \<Rightarrow> string list" where
  "own_chunks ident s = concat (map (map ident) (MetadataSequences s))"

definition loaded_hashes :: "(string list \<Rightarrow> string list option) \<Rightarrow> snapshot \<Rightarrow> string list option" where
  "loaded_hashes load s = (if ChunkHashes s = [] then load (ChunkSequence s) else Some (ChunkHashes s))"

definition GetSnapshotChunks ::
  "(string \<Rightarrow> string) \<Rightarrow> (string list \<Rightarrow> string list option) \<Rightarrow> bool \<Rightarrow> snapshot \<Rightarrow> (string list \<times> snapshot) option" where
  "GetSnapshotChunks ident load keepChunkHashes s =
     map_option (\<lambda>hs. (own_chunks ident s @ map ident hs, if keepChunkHashes then s\<lparr>ChunkHashes := hs\<rparr> else ClearChunks s))
       (loaded_hashes load s)"

text \<open>The ids, and the hashes when they are wanted, added to the caller's sets.\<close>

definition GetSnapshotChunkHashes ::
  "(string \<Rightarrow> string) \<Rightarrow> (string list \<Rightarrow> string list option) \<Rightarrow> snapshot \<Rightarrow> string set option \<Rightarrow> string set
     \<Rightarrow> string set option \<times> string set \<times> bool" where
  "GetSnapshotChunkHashes ident load s chunkHashes chunkIDs =
     (let sq = concat (MetadataSequences s);
          hashes = map_option (\<lambda>c. c \<union> set sq) chunkHashes; ids = chunkIDs \<union> ident ` set sq
      in case loaded_hashes load s of
           None \<Rightarrow> (hashes, ids, False)
         | Some hs \<Rightarrow> (map_option (\<lambda>c. c \<union> set hs) hashes, ids \<union> ident ` set hs, True))"

definition referencedChunkIDs ::
  "(string \<Rightarrow> string) \<Rightarrow> (string list \<Rightarrow> string list option) \<Rightarrow> (string \<times> snapshot list) list \<Rightarrow> string set option" where
  "referencedChunkIDs ident load snapshotMap =
     map_option (\<lambda>xs. set (concat (map fst xs))) (those (map (GetSnapshotChunks ident load True) (concat (map snd snapshotMap))))"

section \<open>Many snapshots\<close>

text \<open>
  The groups of snapshots that have the same chunk sequence, in the order in which the sequences are
  first seen, and for each key the index of its group.
\<close>

definition add_to_group :: "snapshot \<Rightarrow> (string \<times> nat) list \<times> snapshot list list \<Rightarrow> (string \<times> nat) list \<times> snapshot list list" where
  "add_to_group s = (\<lambda>(sequenceIndex, groups).
     let key = sequenceKey (ChunkSequence s) in
     case map_of sequenceIndex key of
       Some i \<Rightarrow> (sequenceIndex, groups[i := groups ! i @ [s]])
     | None \<Rightarrow> ((key, length groups) # sequenceIndex, groups @ [[s]]))"

definition group_snapshots :: "snapshot list \<Rightarrow> (string \<times> nat) list \<times> snapshot list list" where
  "group_snapshots ss = fold add_to_group ss ([], [])"

text \<open>One that has its hashes in memory, if there is one, or the first.\<close>

definition expandableSnapshot :: "snapshot list \<Rightarrow> snapshot" where
  "expandableSnapshot members = (case find (\<lambda>s. ChunkHashes s \<noteq> []) members of Some s \<Rightarrow> s | None \<Rightarrow> hd members)"

definition expandChunkHashes :: "(string \<Rightarrow> string) \<Rightarrow> (string list \<Rightarrow> string list option) \<Rightarrow> snapshot \<Rightarrow> string list option" where
  "expandChunkHashes ident load s = map_option (map ident) (loaded_hashes load s)"

text \<open>
  The expansion of a group is a job that writes its own slot; one that fails panics and leaves the slot
  as it is.
\<close>

definition expand_job ::
  "(string \<Rightarrow> string) \<Rightarrow> (string list \<Rightarrow> string list option) \<Rightarrow> snapshot list list \<Rightarrow> (string list list, string) job" where
  "expand_job ident load groups threadIndex index expanded =
     (case expandChunkHashes ident load (expandableSnapshot (groups ! index)) of
        None \<Rightarrow> (Some ''SNAPSHOT_CHUNK'', expanded)
      | Some ids \<Rightarrow> (None, expanded[index := ids]))"

text \<open>
  The possible results of \<^verbatim>\<open>expandSnapshots\<close>: the error a worker panicked with, or one list of chunk ids
  per snapshot, in the order of the snapshots.
\<close>

definition merge_expanded ::
  "(string \<Rightarrow> string) \<Rightarrow> (string \<times> nat) list \<Rightarrow> string list list \<Rightarrow> snapshot list \<Rightarrow> string list list" where
  "merge_expanded ident sequenceIndex expanded ss =
     map (\<lambda>s. own_chunks ident s @ expanded ! the (map_of sequenceIndex (sequenceKey (ChunkSequence s)))) ss"

definition expandSnapshots ::
  "(string \<Rightarrow> string) \<Rightarrow> (string list \<Rightarrow> string list option) \<Rightarrow> nat \<Rightarrow> snapshot list \<Rightarrow> string + string list list \<Rightarrow> bool" where
  "expandSnapshots ident load threads ss r \<longleftrightarrow>
     (let (sequenceIndex, groups) = group_snapshots ss in
      \<exists>failed expanded.
        runConcurrently threads (length groups) (expand_job ident load groups) (replicate (length groups) []) (failed, expanded)
        \<and> r = (case failed of Some e \<Rightarrow> Inl e | None \<Rightarrow> Inr (merge_expanded ident sequenceIndex expanded ss)))"

section \<open>Sharing does not change the result\<close>

text \<open>The groups of a list of snapshots: each snapshot is in the group of its key, and only those are.\<close>

definition groups_inv :: "snapshot list \<Rightarrow> (string \<times> nat) list \<times> snapshot list list \<Rightarrow> bool" where
  "groups_inv ss = (\<lambda>(ix, groups).
     (\<forall>s \<in> set ss. \<exists>i. map_of ix (sequenceKey (ChunkSequence s)) = Some i)
   \<and> (\<forall>k i. map_of ix k = Some i \<longrightarrow> i < length groups \<and> groups ! i \<noteq> []
        \<and> (\<forall>s \<in> set (groups ! i). s \<in> set ss \<and> sequenceKey (ChunkSequence s) = k))
   \<and> (\<forall>i < length groups. \<exists>k. map_of ix k = Some i))"

lemma groups_inv_add:
  assumes "groups_inv ss g"
  shows "groups_inv (ss @ [s]) (add_to_group s g)"
proof -
  obtain ix groups where g: "g = (ix, groups)" by (cases g)
  let ?k = "sequenceKey (ChunkSequence s)"
  have all: "\<And>s'. s' \<in> set ss \<Longrightarrow> \<exists>i. map_of ix (sequenceKey (ChunkSequence s')) = Some i"
    and members: "\<And>k i. map_of ix k = Some i \<Longrightarrow> i < length groups \<and> groups ! i \<noteq> []
        \<and> (\<forall>s' \<in> set (groups ! i). s' \<in> set ss \<and> sequenceKey (ChunkSequence s') = k)"
    and keys: "\<And>i. i < length groups \<Longrightarrow> \<exists>k. map_of ix k = Some i"
    using assms unfolding groups_inv_def g by blast+
  show ?thesis
  proof (cases "map_of ix ?k")
    case None
    then have new: "add_to_group s g = ((?k, length groups) # ix, groups @ [[s]])" by (simp add: add_to_group_def g)
    have "\<exists>i. map_of ((?k, length groups) # ix) (sequenceKey (ChunkSequence s')) = Some i" if "s' \<in> set (ss @ [s])" for s'
      using all that by auto
    moreover have "i < length (groups @ [[s]]) \<and> (groups @ [[s]]) ! i \<noteq> []
        \<and> (\<forall>s' \<in> set ((groups @ [[s]]) ! i). s' \<in> set (ss @ [s]) \<and> sequenceKey (ChunkSequence s') = k)"
      if "map_of ((?k, length groups) # ix) k = Some i" for k i
      using members [of k i] that by (auto simp: nth_append split: if_splits)
    moreover have "\<exists>k. map_of ((?k, length groups) # ix) k = Some i" if i: "i < length (groups @ [[s]])" for i
    proof (cases "i = length groups")
      case False
      then obtain k where k: "map_of ix k = Some i" using keys i by force
      then have "k \<noteq> ?k" using None by auto
      then show ?thesis using k by (intro exI [of _ k]) simp
    qed (intro exI [of _ ?k], simp)
    ultimately show ?thesis unfolding new groups_inv_def by blast
  next
    case (Some j)
    then have new: "add_to_group s g = (ix, groups[j := groups ! j @ [s]])" by (simp add: add_to_group_def g)
    have j: "j < length groups" using members [OF Some] by simp
    have "i < length (groups[j := groups ! j @ [s]]) \<and> groups[j := groups ! j @ [s]] ! i \<noteq> []
        \<and> (\<forall>s' \<in> set (groups[j := groups ! j @ [s]] ! i). s' \<in> set (ss @ [s]) \<and> sequenceKey (ChunkSequence s') = k)"
      if "map_of ix k = Some i" for k i
    proof (cases "i = j")
      case True
      have "k = ?k"
      proof -
        obtain s' where "s' \<in> set (groups ! j)" using members [OF Some] by (cases "groups ! j") auto
        then show ?thesis using members [OF Some] members [OF that] True by auto
      qed
      then show ?thesis using members [OF Some] True j by auto
    qed (use members [OF that] in auto)
    moreover have "\<exists>i. map_of ix (sequenceKey (ChunkSequence s')) = Some i" if "s' \<in> set (ss @ [s])" for s'
      using all Some that by auto
    ultimately show ?thesis using keys unfolding new groups_inv_def by simp
  qed
qed

lemma groups_inv_group: "groups_inv ss (group_snapshots ss)"
proof (induction ss rule: rev_induct)
  case Nil
  then show ?case by (simp add: groups_inv_def group_snapshots_def)
next
  case (snoc s ss)
  then show ?case using groups_inv_add [of ss "group_snapshots ss" s] by (simp add: group_snapshots_def)
qed

text \<open>Hashes kept in memory are those of the sequence.\<close>

definition consistent :: "(string list \<Rightarrow> string list option) \<Rightarrow> snapshot \<Rightarrow> bool" where
  "consistent load s \<longleftrightarrow> ChunkHashes s = [] \<or> load (ChunkSequence s) = Some (ChunkHashes s)"

lemma consistent_loaded: "consistent load s \<Longrightarrow> loaded_hashes load s = load (ChunkSequence s)"
  by (auto simp: consistent_def loaded_hashes_def)

lemma expandable_member: "members \<noteq> [] \<Longrightarrow> expandableSnapshot members \<in> set members"
proof (cases "find (\<lambda>s. ChunkHashes s \<noteq> []) members")
  case (Some s)
  then have "s \<in> set members" by (auto simp: find_Some_iff)
  then show ?thesis using Some by (simp add: expandableSnapshot_def)
qed (simp add: expandableSnapshot_def)

lemma group_expansion:
  assumes "list_all (consistent load) ss" and "group_snapshots ss = (ix, groups)"
    and "map_of ix (sequenceKey (ChunkSequence s)) = Some i"
  shows "i < length groups \<and> expandChunkHashes ident load (expandableSnapshot (groups ! i))
    = map_option (map ident) (load (ChunkSequence s))"
proof -
  note inv = groups_inv_group [of ss, unfolded assms(2)]
  then have g: "i < length groups" "groups ! i \<noteq> []"
    "\<forall>s' \<in> set (groups ! i). s' \<in> set ss \<and> sequenceKey (ChunkSequence s') = sequenceKey (ChunkSequence s)"
    using assms(3) unfolding groups_inv_def by blast+
  let ?e = "expandableSnapshot (groups ! i)"
  have e: "?e \<in> set ss" "sequenceKey (ChunkSequence ?e) = sequenceKey (ChunkSequence s)"
    using g(3) expandable_member [OF g(2)] by blast+
  then have "ChunkSequence ?e = ChunkSequence s" by (simp add: sequenceKey_inj)
  moreover have "consistent load ?e" using assms(1) e(1) by (simp add: list_all_iff)
  ultimately show ?thesis using g(1) by (simp add: expandChunkHashes_def consistent_loaded)
qed

text \<open>
  C29. When no sequence fails to load, \<^verbatim>\<open>expandSnapshots\<close> returns for every snapshot exactly the chunks
  \<^verbatim>\<open>GetSnapshotChunks\<close> finds for it alone, in the same order, however the snapshots share sequences,
  with any number of threads and any interleaving.
\<close>

theorem expandSnapshots_is_GetSnapshotChunks:
  assumes "list_all (consistent load) ss" and "list_all (\<lambda>s. load (ChunkSequence s) \<noteq> None) ss"
    and "expandSnapshots ident load threads ss r"
  shows "\<exists>lists. r = Inr lists \<and> map Some lists = map (map_option fst \<circ> GetSnapshotChunks ident load keep) ss"
proof -
  obtain ix groups where g: "group_snapshots ss = (ix, groups)" by fastforce
  note inv = groups_inv_group [of ss, unfolded g]
  let ?n = "length groups" and ?job = "expand_job ident load groups"
  define ids where "ids i = the (expandChunkHashes ident load (expandableSnapshot (groups ! i)))" for i
  have some: "expandChunkHashes ident load (expandableSnapshot (groups ! i)) = Some (ids i)" if i: "i < ?n" for i
  proof -
    obtain k where "map_of ix k = Some i" using inv i unfolding groups_inv_def by blast
    moreover from this have "groups ! i \<noteq> []" "\<forall>s \<in> set (groups ! i). s \<in> set ss \<and> sequenceKey (ChunkSequence s) = k"
      using inv unfolding groups_inv_def by blast+
    then obtain s where s: "s \<in> set ss" "sequenceKey (ChunkSequence s) = k"
      using hd_in_set [of "groups ! i"] by blast
    ultimately have "i < ?n \<and> expandChunkHashes ident load (expandableSnapshot (groups ! i))
        = map_option (map ident) (load (ChunkSequence s))"
      using group_expansion [OF assms(1) g, of s i] by blast
    moreover have "load (ChunkSequence s) \<noteq> None" using assms(2) s by (simp add: list_all_iff)
    ultimately show ?thesis by (auto simp: ids_def)
  qed
  have job: "?job t i s = (None, s[i := ids i])" if "i < ?n" for t i s using some [OF that] by (simp add: expand_job_def)
  have q: "quiet ?n ?job" unfolding quiet_def by (simp add: job)
  have c: "independent_jobs ?n ?job"
    unfolding independent_jobs_def
  proof (intro allI impI)
    fix i j s
    assume "i < ?n" "j < ?n"
    then show "snd (?job 0 i (snd (?job 0 j s))) = snd (?job 0 j (snd (?job 0 i s)))"
      by (cases "i = j") (simp_all add: job list_update_swap)
  qed
  have filled: "fold (\<lambda>i s. snd (?job 0 i s)) [0..<k] xs = map ids [0..<k] @ drop k xs" if "length xs = ?n" "k \<le> ?n" for k xs
    using that by (induction k) (auto simp: job list_update_append Cons_nth_drop_Suc [symmetric])
  obtain failed expanded where run: "runConcurrently threads ?n ?job (replicate ?n []) (failed, expanded)"
    and r: "r = (case failed of Some e \<Rightarrow> Inl e | None \<Rightarrow> Inr (merge_expanded ident ix expanded ss))"
    using assms(3) by (auto simp: expandSnapshots_def g)
  have "failed = None" "expanded = map ids [0..<?n]"
    using pool_runs_loop [OF q c run] filled [of "replicate ?n []" ?n] by (simp_all add: apply_jobs_def)
  then have res: "r = Inr (merge_expanded ident ix (map ids [0..<?n]) ss)" using r by simp
  have one: "Some (own_chunks ident s @ map ids [0..<?n] ! the (map_of ix (sequenceKey (ChunkSequence s))))
      = map_option fst (GetSnapshotChunks ident load keep s)" if s: "s \<in> set ss" for s
  proof -
    obtain i where i: "map_of ix (sequenceKey (ChunkSequence s)) = Some i" using inv s unfolding groups_inv_def by blast
    note e = group_expansion [OF assms(1) g i, of ident]
    obtain hs where hs: "load (ChunkSequence s) = Some hs" using assms(2) s by (auto simp: list_all_iff)
    then have "ids i = map ident hs" using e by (simp add: ids_def)
    moreover have "loaded_hashes load s = Some hs" using assms(1) s hs by (simp add: consistent_loaded list_all_iff)
    ultimately show ?thesis using i e by (simp add: GetSnapshotChunks_def)
  qed
  show ?thesis unfolding res by (auto simp: merge_expanded_def one)
qed

definition shared_example :: "snapshot list" where
  "shared_example = [empty_snapshot\<lparr>FileSequence := [''f''], ChunkSequence := [''a'', ''b'']\<rparr>, empty_snapshot\<lparr>ChunkSequence := [''a'', ''b'']\<rparr>]"

lemma expandSnapshots_is_GetSnapshotChunks_witness:
  "\<exists>lists. Inr [[''f'', ''a'', ''b'', ''b'', ''a''], [''a'', ''b'', ''b'', ''a'']] = (Inr lists :: string + string list list)
    \<and> map Some lists = map (map_option fst \<circ> GetSnapshotChunks id (\<lambda>sq. Some (rev sq)) False) shared_example"
proof (rule expandSnapshots_is_GetSnapshotChunks [of "\<lambda>sq. Some (rev sq)" shared_example id 1])
  show "list_all (consistent (\<lambda>sq. Some (rev sq))) shared_example"
    by (simp add: shared_example_def consistent_def empty_snapshot_def)
  show "list_all (\<lambda>s. Some (rev (ChunkSequence s)) \<noteq> None) shared_example" by (simp add: shared_example_def)
  show "expandSnapshots id (\<lambda>sq. Some (rev sq)) 1 shared_example (Inr [[''f'', ''a'', ''b'', ''b'', ''a''], [''a'', ''b'', ''b'', ''a'']])"
    by (simp add: expandSnapshots_def shared_example_def group_snapshots_def add_to_group_def runConcurrently_def expand_job_def
        expandChunkHashes_def loaded_hashes_def expandableSnapshot_def merge_expanded_def own_chunks_def MetadataSequences_def
        empty_snapshot_def)
qed

end
