(* ===== verification/Fossil_Collection.thy ===== *)
theory Fossil_Collection
  imports Snapshot "HOL-Library.AList" "HOL-Library.Multiset" "HOL-Library.Signed_Division"
begin

text \<open>
  Fossil collections (\<^verbatim>\<open>src/src/duplicacy_snapshotmanager.go\<close>): the record a prune leaves of the chunks it
  has turned into fossils, and the criteria under which a later prune may delete them.
\<close>

section \<open>The collection\<close>

text \<open>
  A map of Go is an association list, in the order of one iteration over it; that order is arbitrary, so
  the properties below hold for every order.  Times are seconds since 1970.
\<close>

type_synonym snapshot_map = "(string \<times> snapshot list) list"

record fossil_collection =
  collectionEndTime :: int
  LastRevisions :: "(string \<times> int) list"
  DeletedRevisions :: "(string \<times> int list) list"
  Fossils :: "string list"
  Temporaries :: "string list"

text \<open>An id without snapshots makes the index of its last snapshot run out of range.\<close>

definition CreateFossilCollection :: "snapshot_map \<Rightarrow> fossil_collection option" where
  "CreateFossilCollection allSnapshots =
     (if list_ex (\<lambda>(_, ss). ss = []) allSnapshots then None
      else Some \<lparr>collectionEndTime = 0, LastRevisions = map (\<lambda>(i, ss). (i, Revision (last ss))) allSnapshots,
             DeletedRevisions = [], Fossils = [], Temporaries = []\<rparr>)"

definition AddFossil :: "string \<Rightarrow> fossil_collection \<Rightarrow> fossil_collection" where
  "AddFossil h coll = coll\<lparr>Fossils := Fossils coll @ [h]\<rparr>"

definition AddTemporary :: "string \<Rightarrow> fossil_collection \<Rightarrow> fossil_collection" where
  "AddTemporary temporary coll = coll\<lparr>Temporaries := Temporaries coll @ [temporary]\<rparr>"

definition IsEmpty :: "fossil_collection \<Rightarrow> bool" where
  "IsEmpty coll \<longleftrightarrow> length (Fossils coll) = 0 \<and> length (Temporaries coll) = 0"

definition secondsInDay :: int where
  "secondsInDay = 86400"

text \<open>
  Days between two times.  \<open>midnight\<close> gives the local midnight before a time; the difference of two
  dates is a 64-bit number of nanoseconds and saturates.
\<close>

definition nanoseconds_between :: "int \<Rightarrow> int \<Rightarrow> int" where
  "nanoseconds_between a b = max (- (2 ^ 63)) (min (2 ^ 63 - 1) (1000000000 * (b - a)))"

definition getDaysBetween :: "(int \<Rightarrow> int) \<Rightarrow> int \<Rightarrow> int \<Rightarrow> int" where
  "getDaysBetween midnight start fin =
     (nanoseconds_between (midnight start) (midnight fin) sdiv 3600000000000 + 1) sdiv 24"

section \<open>When fossils may be deleted\<close>

text \<open>The host is what follows the first \<^verbatim>\<open>@\<close> of an id, if it has one.\<close>

definition hostID :: "string \<Rightarrow> string" where
  "hostID i = (case dropWhile (\<lambda>c. c \<noteq> CHR ''@'') i of [] \<Rightarrow> i | _ # h \<Rightarrow> h)"

text \<open>
  The snapshots of one id that the collection does not know, up to the first that ended after it, and
  whether there is such a one.
\<close>

definition extraTime :: "bool \<Rightarrow> int" where
  "extraTime isStrongConsistent = (if isStrongConsistent then 0 else secondsInDay div 2)"

fun collect_new :: "int \<Rightarrow> int \<Rightarrow> snapshot list \<Rightarrow> snapshot list \<times> bool" where
  "collect_new lastRevision limit [] = ([], False)"
| "collect_new lastRevision limit (s # ss) =
     (if Revision s \<le> lastRevision then collect_new lastRevision limit ss
      else if EndTime s > limit then ([s], True)
      else let (news, found) = collect_new lastRevision limit ss in (s # news, found))"

record deletable_state =
  hasNewSnapshot :: "(string \<times> bool) list"
  lastSnapshotTime :: "(string \<times> int) list"
  newSnapshots :: "snapshot list"

definition lastRevision_of :: "fossil_collection \<Rightarrow> string \<Rightarrow> int" where
  "lastRevision_of coll i = (case map_of (LastRevisions coll) i of Some r \<Rightarrow> r | None \<Rightarrow> 0)"

definition consider_id :: "bool \<Rightarrow> string list \<Rightarrow> fossil_collection \<Rightarrow> string \<times> snapshot list \<Rightarrow> deletable_state \<Rightarrow> deletable_state" where
  "consider_id isStrongConsistent ignoredIDs coll = (\<lambda>(i, snapshotList) st.
     if snapshotList = [] \<or> i \<in> set ignoredIDs then st
     else
       let h = hostID i;
           seen = map_of (hasNewSnapshot st) h \<noteq> None;
           flags = (if seen then hasNewSnapshot st else AList.update h False (hasNewSnapshot st));
           times = (if seen then lastSnapshotTime st else AList.update h 0 (lastSnapshotTime st));
           (news, found) = collect_new (lastRevision_of coll i) (collectionEndTime coll + extraTime isStrongConsistent) snapshotList;
           lastTime = EndTime (last snapshotList)
       in \<lparr>hasNewSnapshot = (if found then AList.update h True flags else flags),
           lastSnapshotTime = (if lastTime > the (map_of times h) then AList.update h lastTime times else times),
           newSnapshots = newSnapshots st @ news\<rparr>)"

definition maxSnapshotRunningTime :: int where
  "maxSnapshotRunningTime = 7"

definition dormant :: "int \<Rightarrow> int \<Rightarrow> bool" where
  "dormant now t \<longleftrightarrow> 0 < t \<and> t < now - maxSnapshotRunningTime * secondsInDay"

definition IsDeletable :: "int \<Rightarrow> bool \<Rightarrow> string list \<Rightarrow> snapshot_map \<Rightarrow> fossil_collection \<Rightarrow> bool \<times> snapshot list" where
  "IsDeletable now isStrongConsistent ignoredIDs allSnapshots coll =
     (let st = fold (consider_id isStrongConsistent ignoredIDs coll) allSnapshots
                 \<lparr>hasNewSnapshot = [], lastSnapshotTime = [], newSnapshots = []\<rparr>
      in if list_all (\<lambda>(h, new). new \<or> dormant now (the (map_of (lastSnapshotTime st) h))) (hasNewSnapshot st)
         then (True, newSnapshots st) else (False, []))"

section \<open>The criteria, declaratively\<close>

text \<open>
  The ids that count, the snapshots of one that prove that no backup that was running during the
  collection is still running, and the last time a host was seen.
\<close>

definition considered :: "string list \<Rightarrow> snapshot_map \<Rightarrow> snapshot_map" where
  "considered ignoredIDs all = filter (\<lambda>(i, ss). ss \<noteq> [] \<and> i \<notin> set ignoredIDs) all"

definition is_new :: "fossil_collection \<Rightarrow> string \<Rightarrow> snapshot \<Rightarrow> bool" where
  "is_new coll i s \<longleftrightarrow> lastRevision_of coll i < Revision s"

definition ends_after :: "bool \<Rightarrow> fossil_collection \<Rightarrow> snapshot \<Rightarrow> bool" where
  "ends_after strong coll s \<longleftrightarrow> collectionEndTime coll + extraTime strong < EndTime s"

definition has_fresh :: "bool \<Rightarrow> fossil_collection \<Rightarrow> string \<times> snapshot list \<Rightarrow> bool" where
  "has_fresh strong coll = (\<lambda>(i, ss). list_ex (\<lambda>s. is_new coll i s \<and> ends_after strong coll s) ss)"

definition on_host :: "string \<Rightarrow> snapshot_map \<Rightarrow> snapshot_map" where
  "on_host h m = filter (\<lambda>(i, _). hostID i = h) m"

definition last_seen :: "snapshot_map \<Rightarrow> int" where
  "last_seen m = fold max (map (\<lambda>(_, ss). EndTime (last ss)) m) 0"

definition deletable :: "int \<Rightarrow> bool \<Rightarrow> string list \<Rightarrow> snapshot_map \<Rightarrow> fossil_collection \<Rightarrow> bool" where
  "deletable now strong ignoredIDs all coll \<longleftrightarrow>
     (let m = considered ignoredIDs all in
      list_all (\<lambda>(i, _). list_ex (has_fresh strong coll) (on_host (hostID i) m)
        \<or> dormant now (last_seen (on_host (hostID i) m))) m)"

text \<open>The new snapshots of an id, up to the first that ended after the collection.\<close>

definition new_until_fresh :: "bool \<Rightarrow> fossil_collection \<Rightarrow> string \<times> snapshot list \<Rightarrow> snapshot list" where
  "new_until_fresh strong coll = (\<lambda>(i, ss).
     let news = filter (is_new coll i) ss
     in takeWhile (\<lambda>s. \<not> ends_after strong coll s) news @ take 1 (dropWhile (\<lambda>s. \<not> ends_after strong coll s) news))"

lemma collect_new_spec:
  "collect_new (lastRevision_of coll i) (collectionEndTime coll + extraTime strong) ss
   = (new_until_fresh strong coll (i, ss), has_fresh strong coll (i, ss))"
  by (induction ss) (auto simp: new_until_fresh_def has_fresh_def is_new_def ends_after_def Let_def)

lemma last_seen_snoc: "last_seen (m @ [(i, ss)]) = max (EndTime (last ss)) (last_seen m)"
  by (simp add: last_seen_def)

lemma considered_snoc:
  "considered ig (m @ [(i, ss)]) = considered ig m @ (if ss = [] \<or> i \<in> set ig then [] else [(i, ss)])"
  by (simp add: considered_def)

text \<open>What the loop has found after some of the ids.\<close>

definition deletable_inv :: "bool \<Rightarrow> fossil_collection \<Rightarrow> snapshot_map \<Rightarrow> deletable_state \<Rightarrow> bool" where
  "deletable_inv strong coll m st \<longleftrightarrow>
     distinct (map fst (hasNewSnapshot st))
   \<and> (\<forall>h. map_of (hasNewSnapshot st) h = (if on_host h m = [] then None else Some (list_ex (has_fresh strong coll) (on_host h m))))
   \<and> (\<forall>h. map_of (lastSnapshotTime st) h = (if on_host h m = [] then None else Some (last_seen (on_host h m))))
   \<and> newSnapshots st = concat (map (new_until_fresh strong coll) m)"

lemma deletable_inv_step:
  assumes "deletable_inv strong coll m st" and "ss \<noteq> []" and "i \<notin> set ig"
  shows "deletable_inv strong coll (m @ [(i, ss)]) (consider_id strong ig coll (i, ss) st)"
proof -
  let ?h = "hostID i"
  have o: "on_host h (m @ [(i, ss)]) = on_host h m @ (if h = ?h then [(i, ss)] else [])" for h
    by (simp add: on_host_def)
  define flags where "flags = (if map_of (hasNewSnapshot st) ?h \<noteq> None then hasNewSnapshot st else AList.update ?h False (hasNewSnapshot st))"
  define times where "times = (if map_of (hasNewSnapshot st) ?h \<noteq> None then lastSnapshotTime st else AList.update ?h 0 (lastSnapshotTime st))"
  have inv: "distinct (map fst (hasNewSnapshot st))"
    "\<And>h. map_of (hasNewSnapshot st) h = (if on_host h m = [] then None else Some (list_ex (has_fresh strong coll) (on_host h m)))"
    "\<And>h. map_of (lastSnapshotTime st) h = (if on_host h m = [] then None else Some (last_seen (on_host h m)))"
    "newSnapshots st = concat (map (new_until_fresh strong coll) m)"
    using assms(1) unfolding deletable_inv_def by blast+
  have d: "distinct (map fst flags)" using inv(1) by (simp add: flags_def distinct_update)
  have f: "map_of flags h = (if h = ?h \<or> on_host h m \<noteq> [] then Some (list_ex (has_fresh strong coll) (on_host h m)) else None)" for h
    using inv(2) by (auto simp: flags_def update_conv')
  have t: "map_of times h = (if h = ?h \<or> on_host h m \<noteq> [] then Some (last_seen (on_host h m)) else None)" for h
    using inv(2,3) by (auto simp: times_def update_conv' last_seen_def)
  have eq: "consider_id strong ig coll (i, ss) st =
      \<lparr>hasNewSnapshot = (if has_fresh strong coll (i, ss) then AList.update ?h True flags else flags),
       lastSnapshotTime = (if EndTime (last ss) > the (map_of times ?h) then AList.update ?h (EndTime (last ss)) times else times),
       newSnapshots = newSnapshots st @ new_until_fresh strong coll (i, ss)\<rparr>"
    using assms(2,3) by (simp add: consider_id_def collect_new_spec flags_def times_def Let_def)
  show ?thesis
    unfolding deletable_inv_def eq
  proof (intro conjI allI)
    show "distinct (map fst (hasNewSnapshot \<lparr>hasNewSnapshot = (if has_fresh strong coll (i, ss) then AList.update ?h True flags else flags),
       lastSnapshotTime = (if EndTime (last ss) > the (map_of times ?h) then AList.update ?h (EndTime (last ss)) times else times),
       newSnapshots = newSnapshots st @ new_until_fresh strong coll (i, ss)\<rparr>))"
      using d by (simp add: distinct_update)
  qed (auto simp: o f t inv(4) update_conv' last_seen_snoc)
qed

lemma deletable_inv_all:
  "deletable_inv strong coll (considered ig m)
     (fold (consider_id strong ig coll) m \<lparr>hasNewSnapshot = [], lastSnapshotTime = [], newSnapshots = []\<rparr>)"
proof (induction m rule: rev_induct)
  case Nil
  then show ?case by (simp add: deletable_inv_def considered_def on_host_def)
next
  case (snoc x m)
  obtain i ss where x: "x = (i, ss)" by (cases x)
  show ?case
  proof (cases "ss = [] \<or> i \<in> set ig")
    case True
    then show ?thesis using snoc by (simp add: x considered_snoc consider_id_def)
  next
    case False
    then show ?thesis using deletable_inv_step [OF snoc, of ss i ig] by (simp add: x considered_snoc)
  qed
qed

lemma IsDeletable_eq:
  "IsDeletable now strong ig all coll
   = (if deletable now strong ig all coll
      then (True, concat (map (new_until_fresh strong coll) (considered ig all))) else (False, []))"
proof -
  define st where "st = fold (consider_id strong ig coll) all \<lparr>hasNewSnapshot = [], lastSnapshotTime = [], newSnapshots = []\<rparr>"
  let ?m = "considered ig all"
  have inv: "distinct (map fst (hasNewSnapshot st))"
    "\<And>h. map_of (hasNewSnapshot st) h = (if on_host h ?m = [] then None else Some (list_ex (has_fresh strong coll) (on_host h ?m)))"
    "\<And>h. map_of (lastSnapshotTime st) h = (if on_host h ?m = [] then None else Some (last_seen (on_host h ?m)))"
    "newSnapshots st = concat (map (new_until_fresh strong coll) ?m)"
    using deletable_inv_all [of strong coll ig all] unfolding deletable_inv_def st_def by blast+
  have ex: "(\<exists>ss. (i, ss) \<in> set ?m \<and> hostID i = h) \<Longrightarrow> on_host h ?m \<noteq> []" for i h
    by (auto simp: on_host_def filter_empty_conv)
  have ex': "on_host h ?m \<noteq> [] \<Longrightarrow> \<exists>i ss. (i, ss) \<in> set ?m \<and> hostID i = h" for h
    by (auto simp: on_host_def filter_empty_conv)
  have "list_all (\<lambda>(h, new). new \<or> dormant now (the (map_of (lastSnapshotTime st) h))) (hasNewSnapshot st)
    \<longleftrightarrow> (\<forall>h. on_host h ?m \<noteq> [] \<longrightarrow> list_ex (has_fresh strong coll) (on_host h ?m) \<or> dormant now (last_seen (on_host h ?m)))"
    (is "?l \<longleftrightarrow> ?r")
  proof
    assume l: ?l
    show ?r
    proof (intro allI impI)
      fix h
      assume "on_host h ?m \<noteq> []"
      then have "(h, list_ex (has_fresh strong coll) (on_host h ?m)) \<in> set (hasNewSnapshot st)"
        and "map_of (lastSnapshotTime st) h = Some (last_seen (on_host h ?m))"
        using inv(2,3) [of h] by (simp_all add: map_of_SomeD)
      then show "list_ex (has_fresh strong coll) (on_host h ?m) \<or> dormant now (last_seen (on_host h ?m))"
        using l by (auto simp: list_all_iff)
    qed
  next
    assume r: ?r
    show ?l unfolding list_all_iff
    proof (clarify)
      fix h v
      assume "(h, v) \<in> set (hasNewSnapshot st)" and "\<not> dormant now (the (map_of (lastSnapshotTime st) h))"
      moreover from this have "map_of (hasNewSnapshot st) h = Some v" using inv(1) by simp
      ultimately show v using r inv(2,3) [of h] by (auto split: if_splits)
    qed
  qed
  also have "\<dots> \<longleftrightarrow> deletable now strong ig all coll"
    unfolding deletable_def Let_def list_all_iff using ex ex' by fast
  finally show ?thesis by (simp add: IsDeletable_def st_def [symmetric] Let_def inv(4))
qed

lemma last_seen_Max: "last_seen m = Max (insert 0 ((\<lambda>(_, ss). EndTime (last ss)) ` set m))"
  unfolding last_seen_def by (metis Max.set_eq_fold list.simps(15) set_map)

lemma set_on_host_considered:
  "mset all = mset all' \<Longrightarrow> set (on_host h (considered ig all)) = set (on_host h (considered ig all'))"
  by (auto simp: on_host_def considered_def dest: mset_eq_setD)

lemma deletable_permuted: "mset all = mset all' \<Longrightarrow> deletable now strong ig all coll = deletable now strong ig all' coll"
  using set_on_host_considered [of all all' _ ig] mset_eq_setD [of all all']
  by (simp add: deletable_def Let_def list_all_iff list_ex_iff last_seen_Max) (simp add: considered_def)

text \<open>
  C8. A fossil collection is deletable exactly when every host that counts has a snapshot the
  collection does not know that ended after it, or was last seen more than seven days ago; the new
  snapshots returned are those of each id up to the first that ended after the collection.  Neither
  depends on the order in which the map of snapshots is traversed.
\<close>

theorem IsDeletable_criteria:
  assumes "mset all = mset all'"
  shows "fst (IsDeletable now strong ig all coll) = deletable now strong ig all' coll
    \<and> mset (snd (IsDeletable now strong ig all coll))
      = (if deletable now strong ig all' coll then mset (concat (map (new_until_fresh strong coll) (considered ig all'))) else {#})"
proof -
  have "mset (concat (map f xs)) = (\<Sum>x\<in>#mset xs. mset (f x))" for f :: "string \<times> snapshot list \<Rightarrow> snapshot list" and xs
    by (induction xs) simp_all
  moreover have "mset (considered ig all) = mset (considered ig all')" using assms by (simp add: considered_def)
  ultimately show ?thesis by (simp_all add: IsDeletable_eq deletable_permuted [OF assms])
qed

definition deletable_example :: snapshot_map where
  "deletable_example =
     [(''a@h'', [empty_snapshot\<lparr>Revision := 1, EndTime := 50\<rparr>, empty_snapshot\<lparr>Revision := 2, EndTime := 90\<rparr>, empty_snapshot\<lparr>Revision := 3, EndTime := 120\<rparr>]),
      (''b@h'', [empty_snapshot\<lparr>Revision := 1, EndTime := 60\<rparr>]), (''old'', [empty_snapshot\<lparr>Revision := 4, EndTime := 10\<rparr>])]"

definition collection_example :: fossil_collection where
  "collection_example = \<lparr>collectionEndTime = 100, LastRevisions = [(''a@h'', 1), (''b@h'', 1), (''old'', 4)], DeletedRevisions = [],
     Fossils = [], Temporaries = []\<rparr>"

lemma IsDeletable_criteria_witness:
  "map Revision (snd (IsDeletable 1000000 True [] deletable_example collection_example)) = [2, 3]
   \<and> fst (IsDeletable 1000000 True [] (rev deletable_example) collection_example)"
proof -
  have m: "mset (rev deletable_example) = mset deletable_example" by simp
  have d: "deletable 1000000 True [] deletable_example collection_example" by code_simp
  have s: "map Revision (snd (IsDeletable 1000000 True [] deletable_example collection_example)) = [2, 3]" by code_simp
  show ?thesis using IsDeletable_criteria [OF m, of 1000000 True "[]" collection_example] d s by simp
qed

text \<open>
  With a deletable collection, a new snapshot of an id that counts is returned unless a new one before
  it ended after the collection.
\<close>

lemma IsDeletable_new:
  assumes "IsDeletable now strong ig all coll = (True, news)" and "(i, ss @ s # ss') \<in> set all" and "i \<notin> set ig"
    and "is_new coll i s" and "list_all (\<lambda>t. is_new coll i t \<longrightarrow> \<not> ends_after strong coll t) ss"
  shows "s \<in> set news"
proof -
  have news: "news = concat (map (new_until_fresh strong coll) (considered ig all))"
    using assms(1) by (simp add: IsDeletable_eq split: if_splits)
  have c: "(i, ss @ s # ss') \<in> set (considered ig all)" using assms(2,3) by (simp add: considered_def)
  have "list_all (\<lambda>t. \<not> ends_after strong coll t) (filter (is_new coll i) ss)" using assms(5) by (auto simp: list_all_iff)
  then have "dropWhile (\<lambda>t. \<not> ends_after strong coll t) (filter (is_new coll i) ss) = []"
    by (simp add: dropWhile_eq_Nil_conv list_all_iff)
  then have "s \<in> set (new_until_fresh strong coll (i, ss @ s # ss'))"
    using assms(4) by (auto simp: new_until_fresh_def Let_def takeWhile_append dropWhile_append)
  then show ?thesis using c by (auto simp: news)
qed

end
