(* ===== verification/Disk_Tree.thy ===== *)
theory Disk_Tree
  imports File_Storage "HOL-Library.Multiset"
begin

text \<open>
  Well-formed disks, and the listing of whole directory trees by \<^verbatim>\<open>ListAllFiles\<close>
  (\<^verbatim>\<open>src/src/duplicacy_snapshotmanager.go\<close>).
\<close>

section \<open>Well-formed disks\<close>

text \<open>Every path is on the disk once, is a plain relative path, and lies in a directory of the disk.\<close>

definition disk_ok :: "disk \<Rightarrow> bool" where
  "disk_ok d \<longleftrightarrow> distinct (map fst d)
     \<and> list_all (\<lambda>p. plain_path p \<and> node_at d (path_dir p) = Some DirNode) (map fst d)"

lemma path_dir_top: "CHR ''/'' \<notin> set p \<Longrightarrow> path_dir p = ''.''"
proof -
  assume "CHR ''/'' \<notin> set p"
  then have d: "dropWhile (\<lambda>c. c \<noteq> CHR ''/'') (rev p) = []" by (auto simp: dropWhile_eq_Nil_conv)
  show ?thesis unfolding path_dir_def d by (simp add: path_clean_def has_prefix_def)
qed

lemma plain_path_cases:
  assumes "plain_path p"
  obtains (top) "plain_name p" "path_dir p = ''.''"
  | (sub) q w where "p = q @ CHR ''/'' # w" "plain_path q" "plain_name w" "path_dir p = q"
proof (cases "CHR ''/'' \<in> set p")
  case True
  then obtain q w where p: "p = q @ CHR ''/'' # w" "CHR ''/'' \<notin> set w" using split_list_last by metis
  then have "plain_path q" "plain_path w" using assms by (simp_all add: plain_path_append)
  then show ?thesis using sub p path_dir_plain [of q w] assms by (simp add: plain_path_def split_on_no_sep)
next
  case False
  then have "path_dir p = ''.''" by (rule path_dir_top)
  then show ?thesis using top assms False by (simp add: plain_path_def split_on_no_sep)
qed

lemma disk_okD:
  assumes "disk_ok d" and "node_at d p = Some n" and "p \<noteq> ''.''"
  shows "plain_path p" "node_at d (path_dir p) = Some DirNode"
proof -
  have "(p, n) \<in> set d" using assms(2,3) by (simp add: node_at_def map_of_SomeD)
  then have "p \<in> set (map fst d)" by force
  then show "plain_path p" "node_at d (path_dir p) = Some DirNode"
    using assms(1) unfolding disk_ok_def list_all_iff by blast+
qed

lemma disk_okI:
  assumes "distinct (map fst d)"
    and "\<And>p n. p \<noteq> ''.'' \<Longrightarrow> node_at d p = Some n \<Longrightarrow> plain_path p \<and> node_at d (path_dir p) = Some DirNode"
    and "''.'' \<notin> fst ` set d"
  shows "disk_ok d"
proof -
  have "plain_path p \<and> node_at d (path_dir p) = Some DirNode" if p: "p \<in> set (map fst d)" for p
  proof -
    obtain n where "map_of d p = Some n" using p by (metis list.set_map map_of_eq_None_iff not_None_eq)
    moreover have "p \<noteq> ''.''" using p assms(3) unfolding set_map by blast
    ultimately show ?thesis using assms(2) [of p n] by (simp add: node_at_def)
  qed
  then show ?thesis using assms(1) unfolding disk_ok_def list_all_iff by blast
qed

lemma disk_ok_root: "disk_ok d \<Longrightarrow> ''.'' \<notin> fst ` set d"
  using plain_not_dot unfolding disk_ok_def list_all_iff set_map by blast

lemma child_of_dir:
  assumes "plain_path p" and "path_dir p = q"
  shows "\<exists>w. child_name q p = Some w"
  using assms(1)
proof (cases rule: plain_path_cases)
  case top
  then show ?thesis using assms(2) by (auto simp: child_name_def has_prefix_def plain_name_def)
next
  case (sub q' w)
  then have "q' \<noteq> ''.''" using plain_not_dot by blast
  then show ?thesis using sub assms(2) by (simp add: child_name_def has_prefix_def plain_name_def)
qed

lemma read_dir_empty:
  assumes "read_dir d q = []" and "disk_ok d" and "node_at d p = Some n" and "p \<noteq> ''.''"
  shows "path_dir p \<noteq> q"
proof
  assume "path_dir p = q"
  then obtain w where w: "child_name q p = Some w" using child_of_dir disk_okD(1) [OF assms(2-4)] by blast
  have "(p, n) \<in> set d" using assms(3,4) by (simp add: node_at_def map_of_SomeD)
  then have "(w, n) \<in> set (read_dir d q)" using w by (force simp: read_dir_def List.map_filter_def)
  then show False using assms(1) by simp
qed

lemma distinct_delete: "distinct (map fst d) \<Longrightarrow> distinct (map fst (AList.delete k d))"
  by (metis AList.distinct_delete)

text \<open>Replacing or adding a node in a directory, and removing one that has no children.\<close>

lemma disk_ok_update:
  assumes "disk_ok d" and "plain_path p" and "node_at d (path_dir p) = Some DirNode" and "node_at d p = Some DirNode \<Longrightarrow> n = DirNode"
  shows "disk_ok (AList.update p n d)"
proof (rule disk_okI)
  show "distinct (map fst (AList.update p n d))" using assms(1) by (simp add: disk_ok_def distinct_update)
  have np: "p \<noteq> ''.''" using plain_not_dot assms(2) by blast
  show "''.'' \<notin> fst ` set (AList.update p n d)"
    using disk_ok_root [OF assms(1)] np update_keys [of p n d] unfolding set_map [symmetric] by auto
  have dir: "node_at (AList.update p n d) q = Some DirNode" if "node_at d q = Some DirNode" for q
    using that assms(4) np by (auto simp: node_at_update)
  fix q m
  assume "q \<noteq> ''.''" "node_at (AList.update p n d) q = Some m"
  then show "plain_path q \<and> node_at (AList.update p n d) (path_dir q) = Some DirNode"
    using assms(2,3) disk_okD [OF assms(1), of q] np dir by (cases "q = p") (auto simp: node_at_update)
qed

lemma disk_ok_delete:
  assumes "disk_ok d" and "k \<noteq> ''.''" and "node_at d k = Some DirNode \<Longrightarrow> read_dir d k = []"
  shows "disk_ok (AList.delete k d)"
proof (rule disk_okI)
  show "distinct (map fst (AList.delete k d))" using assms(1) by (simp add: disk_ok_def distinct_delete)
  show "''.'' \<notin> fst ` set (AList.delete k d)" using disk_ok_root [OF assms(1)] delete_keys [of k d]
    unfolding set_map [symmetric] by simp
  fix q m
  assume q: "q \<noteq> ''.''" "node_at (AList.delete k d) q = Some m"
  then have q': "node_at d q = Some m" "q \<noteq> k" by (auto simp: node_at_delete split: if_splits)
  note ok = disk_okD [OF assms(1) q'(1) q(1)]
  have "path_dir q \<noteq> k" using ok(2) assms(3) read_dir_empty [OF _ assms(1) q'(1) q(1)] by auto
  then show "plain_path q \<and> node_at (AList.delete k d) (path_dir q) = Some DirNode"
    using ok by (cases "path_dir q = ''.''") (simp_all add: node_at_delete, simp add: node_at_def)
qed

lemma ancestor_Suc:
  assumes "plain_path q" and "n < length (split_on (CHR ''/'') q)"
  defines "a \<equiv> \<lambda>n. join_with (CHR ''/'') (take n (split_on (CHR ''/'') q))"
  shows "plain_path (a (Suc n))" and "path_dir (a (Suc n)) = (if n = 0 then ''.'' else a n)"
proof -
  let ?ws = "split_on (CHR ''/'') q"
  have w: "plain_name (?ws ! n)" using assms(1,2) by (simp add: plain_path_def)
  have pl: "m \<le> length ?ws \<Longrightarrow> 0 < m \<Longrightarrow> plain_path (a m)" for m
  proof (induction m)
    case (Suc m)
    have wm: "plain_path (?ws ! m)" using Suc.prems assms(1) by (intro plain_name_path) (simp add: plain_path_def)
    show ?case
    proof (cases "m = 0")
      case True
      then show ?thesis using wm Suc.prems by (simp add: a_def take_Suc_conv_app_nth)
    next
      case False
      then have "a (Suc m) = a m @ CHR ''/'' # ?ws ! m"
        using Suc.prems by (simp add: a_def take_Suc_conv_app_nth join_with_append)
      then show ?thesis using Suc False wm by (simp add: plain_path_append)
    qed
  qed simp
  then show p: "plain_path (a (Suc n))" using assms(2) by simp
  show "path_dir (a (Suc n)) = (if n = 0 then ''.'' else a n)"
  proof (cases "n = 0")
    case True
    then have "a (Suc n) = ?ws ! 0" using assms(2) by (simp add: a_def take_Suc_conv_app_nth)
    then have "CHR ''/'' \<notin> set (a (Suc n))" using w True by (simp add: plain_name_def)
    then have "path_dir (a (Suc n)) = ''.''" by (rule path_dir_top)
    then show ?thesis using True by simp
  next
    case False
    then have "a (Suc n) = a n @ CHR ''/'' # ?ws ! n"
      using assms(2) by (simp add: a_def take_Suc_conv_app_nth join_with_append)
    then show ?thesis using False p w path_dir_plain [of "a n" "?ws ! n"] by (simp add: plain_name_def)
  qed
qed

lemma mkdir_all_ok:
  assumes "disk_ok d" and "plain_path q" and "mkdir_all d q = Inr d'"
  shows "disk_ok d' \<and> node_at d' q = Some DirNode"
proof -
  let ?ws = "split_on (CHR ''/'') q" and ?a = "\<lambda>n. join_with (CHR ''/'') (take n (split_on (CHR ''/'') q))"
  let ?step = "\<lambda>p d. if node_at d p = None then AList.update p DirNode d else d"
  have anc: "ancestors q = map ?a [1..<Suc (length ?ws)]" by (simp add: ancestors_def Let_def)
  have nofile: "node_at d (?a m) \<noteq> Some (FileNode b)" if "0 < m" "m \<le> length ?ws" for m b
  proof
    assume "node_at d (?a m) = Some (FileNode b)"
    moreover have "?a m \<in> set (ancestors q)" using that unfolding anc by (simp del: upt_Suc)
    ultimately show False using assms(3) by (auto simp: mkdir_all_def list_ex_iff split: if_splits)
  qed
  have d': "d' = fold ?step (ancestors q) d" using assms(3) by (simp add: mkdir_all_def split: if_splits)
  have "disk_ok (fold ?step (map ?a [1..<Suc m]) d)
      \<and> (\<forall>j. 0 < j \<and> j \<le> m \<longrightarrow> node_at (fold ?step (map ?a [1..<Suc m]) d) (?a j) = Some DirNode)
      \<and> (\<forall>j b. 0 < j \<and> j \<le> length ?ws \<longrightarrow> node_at (fold ?step (map ?a [1..<Suc m]) d) (?a j) \<noteq> Some (FileNode b))"
    if "m \<le> length ?ws" for m
    using that
  proof (induction m)
    case 0
    then show ?case using assms(1) nofile by simp
  next
    case (Suc m)
    define e where "e = fold ?step (map ?a [1..<Suc m]) d"
    have e: "disk_ok e" "\<And>j. 0 < j \<Longrightarrow> j \<le> m \<Longrightarrow> node_at e (?a j) = Some DirNode"
      "\<And>j b. 0 < j \<Longrightarrow> j \<le> length ?ws \<Longrightarrow> node_at e (?a j) \<noteq> Some (FileNode b)"
      using Suc unfolding e_def by auto
    note s = ancestor_Suc [OF assms(2), of m]
    have parent: "node_at e (path_dir (?a (Suc m))) = Some DirNode"
      using s(2) e(2) [of m] Suc.prems by (cases "m = 0") (auto simp: node_at_def)
    have np: "?a (Suc m) \<noteq> ''.''" using s(1) plain_not_dot Suc.prems by auto
    have f: "fold ?step (map ?a [1..<Suc (Suc m)]) d = ?step (?a (Suc m)) e" unfolding e_def by simp
    show ?case
    proof (cases "node_at e (?a (Suc m)) = None")
      case True
      have ok: "disk_ok (AList.update (?a (Suc m)) DirNode e)"
        using disk_ok_update [OF e(1) _ parent] s(1) Suc.prems by simp
      show ?thesis unfolding f using True ok e(2,3) np by (auto simp: node_at_update le_Suc_eq)
    next
      case False
      then have "node_at e (?a (Suc m)) = Some DirNode"
        using e(3) [of "Suc m"] Suc.prems by (cases "node_at e (?a (Suc m))") (auto, metis fs_node.exhaust)
      then show ?thesis unfolding f using e by (auto simp: le_Suc_eq)
    qed
  qed
  note inv = this [of "length ?ws", OF order_refl]
  have "?a (length ?ws) = q" by (simp add: join_split)
  moreover have "0 < length ?ws" by simp
  then have "node_at (fold ?step (map ?a [1..<Suc (length ?ws)]) d) (?a (length ?ws)) = Some DirNode" using inv by blast
  ultimately have "node_at (fold ?step (map ?a [1..<Suc (length ?ws)]) d) q = Some DirNode" by (simp only:)
  then show ?thesis using inv unfolding d' anc by blast
qed

lemma fs_keeps_disk_ok:
  assumes "disk_ok d" and "plain_path p"
  shows "disk_ok (snd (fs_DeleteFile d x)) \<and> disk_ok (snd (fs_MoveFile d x p)) \<and> disk_ok (snd (fs_CreateDirectory d p))
    \<and> disk_ok (snd (fs_DownloadFile d x)) \<and> disk_ok (snd (fs_UploadFile d p b))"
proof -
  have root: "path_clean x = ''.'' \<Longrightarrow> node_at d (path_clean x) = Some DirNode" by (simp add: node_at_def)
  have "disk_ok (snd (fs_DeleteFile d x))"
  proof (cases "path_clean x = ''.''")
    case True
    then show ?thesis using assms(1) root by (simp add: fs_DeleteFile_def)
  next
    case False
    have "disk_ok (AList.delete (path_clean x) d)" if "node_at d (path_clean x) = Some (FileNode c)" for c
      using disk_ok_delete [OF assms(1) False] that by simp
    moreover have "disk_ok (AList.delete (path_clean x) d)" if "read_dir d (path_clean x) = []"
      using disk_ok_delete [OF assms(1) False] that by simp
    ultimately show ?thesis using assms(1) False
      by (auto simp: fs_DeleteFile_def Let_def split: option.split fs_node.split)
  qed
  moreover have "disk_ok (snd (fs_MoveFile d x p))"
  proof (cases "node_at d (path_clean x)")
    case (Some n)
    let ?k = "path_clean x"
    show ?thesis
    proof (cases n)
      case (FileNode c)
      then have np: "?k \<noteq> ''.''" using Some by (auto simp: node_at_def)
      have e: "disk_ok (AList.delete ?k d)" using disk_ok_delete [OF assms(1) np] Some FileNode by simp
      have "disk_ok (AList.update p (FileNode c) (AList.delete ?k d))"
        if "node_at d (path_dir p) = Some DirNode" "node_at d p \<noteq> Some DirNode"
      proof (rule disk_ok_update [OF e assms(2)])
        show "node_at (AList.delete ?k d) (path_dir p) = Some DirNode"
          using that(1) Some FileNode by (cases "path_dir p = ''.''") (auto simp: node_at_delete, simp add: node_at_def)
        show "node_at (AList.delete ?k d) p = Some DirNode \<Longrightarrow> FileNode c = DirNode"
          using that(2) plain_not_dot [OF assms(2)] by (simp add: node_at_delete split: if_splits)
      qed
      then show ?thesis using Some FileNode assms by (simp add: fs_MoveFile_def path_clean_plain Let_def)
    qed (use Some assms in \<open>simp add: fs_MoveFile_def Let_def\<close>)
  qed (use assms in \<open>simp add: fs_MoveFile_def Let_def\<close>)
  moreover have "disk_ok (snd (fs_CreateDirectory d p))"
    using assms disk_ok_update [OF assms, of DirNode] by (simp add: fs_CreateDirectory_def path_clean_plain Let_def)
  moreover have "disk_ok (snd (fs_DownloadFile d x))"
    using assms(1) by (simp add: fs_DownloadFile_def split: option.split fs_node.split)
  moreover have "disk_ok (snd (fs_UploadFile d p b))"
  proof -
    have mk: "disk_ok d'" if "mkdir_all d (path_dir p) = Inr d'" "node_at d (path_dir p) = None" for d'
      using assms(2)
    proof (cases rule: plain_path_cases)
      case top
      then show ?thesis using that(2) by (simp add: node_at_def)
    next
      case (sub q w)
      then show ?thesis using mkdir_all_ok [OF assms(1) _ that(1)] by simp
    qed
    have up: "disk_ok (AList.update p (FileNode b) d')"
      if "disk_ok d'" "node_at d' (path_dir p) = Some DirNode" "node_at d' p \<noteq> Some DirNode" for d'
      using disk_ok_update [OF that(1) assms(2) that(2)] that(3) by simp
    show ?thesis using assms mk up
      by (auto simp: fs_UploadFile_def path_clean_plain Let_def split: sum.split option.split fs_node.split)
  qed
  ultimately show ?thesis by blast
qed



section \<open>Listing a tree\<close>

text \<open>
  \<^verbatim>\<open>ListAllFiles\<close> keeps a stack of directories, its top first here.  Names that end with a slash are
  directories; paths are given below the root, whose length is \<open>n\<close>.  A storage could be listed without end,
  so the loop is a partial function; \<open>None\<close> stands for not returning.
\<close>

definition is_directory :: "string \<Rightarrow> bool" where
  "is_directory file \<longleftrightarrow> file \<noteq> [] \<and> last file = CHR ''/''"

definition own_entry :: "nat \<Rightarrow> string \<Rightarrow> (string \<times> int) list" where
  "own_entry n dir = (if n < length dir then [(drop n dir, 0)] else [])"

partial_function (option) list_tree ::
  "'s storage_ops \<Rightarrow> 's \<Rightarrow> nat \<Rightarrow> string list \<Rightarrow> (string \<times> int) list \<Rightarrow> (string + (string \<times> int) list) option" where
  "list_tree st s n directories allFiles =
     (case directories of
        [] \<Rightarrow> Some (Inr allFiles)
      | dir # rest \<Rightarrow>
          (case ListFiles st s dir of
             Inl e \<Rightarrow> Some (Inl ''LIST_FILES'')
           | Inr files \<Rightarrow>
               list_tree st s n (rev (map (\<lambda>(file, _). dir @ file) (filter (\<lambda>(file, _). is_directory file) files)) @ rest)
                 (allFiles @ own_entry n dir @ map (\<lambda>(file, sz). (drop n (dir @ file), sz)) (filter (\<lambda>(file, _). \<not> is_directory file) files))))"

declare list_tree.simps [code]

definition ListAllFiles :: "'s storage_ops \<Rightarrow> 's \<Rightarrow> string \<Rightarrow> (string + (string \<times> int) list) option" where
  "ListAllFiles st s root = list_tree st s (length root) [root] []"

text \<open>How a node of the disk is listed, and the nodes below a directory.\<close>

fun listed_node :: "nat \<Rightarrow> string \<times> fs_node \<Rightarrow> string \<times> int" where
  "listed_node n (p, DirNode) = (drop n p @ ''/'', 0)"
| "listed_node n (p, FileNode b) = (drop n p, int (length b))"

definition below :: "disk \<Rightarrow> string \<Rightarrow> disk" where
  "below d dir = filter (\<lambda>(p, _). has_prefix p dir) d"

definition direct :: "string \<Rightarrow> string \<Rightarrow> bool" where
  "direct dir p \<longleftrightarrow> has_prefix p dir \<and> CHR ''/'' \<notin> set (drop (length dir) p)"

definition child_dirs :: "disk \<Rightarrow> string \<Rightarrow> string list" where
  "child_dirs d dir = map (\<lambda>(p, _). p @ ''/'') (filter (\<lambda>(p, n). direct dir p \<and> n = DirNode) d)"

lemma has_prefix_iff: "has_prefix p a \<longleftrightarrow> (\<exists>r. p = a @ r)"
  by (auto simp: has_prefix_def) (metis append_take_drop_id)

lemma ancestor_dir:
  "disk_ok d \<Longrightarrow> node_at d (a @ CHR ''/'' # b) = Some n \<Longrightarrow> plain_path (a @ CHR ''/'' # b) \<Longrightarrow> node_at d a = Some DirNode"
proof (induction "length b" arbitrary: b n rule: less_induct)
  case less
  have np: "a @ CHR ''/'' # b \<noteq> ''.''" using plain_not_dot less.prems(3) by blast
  show ?case
  proof (cases "CHR ''/'' \<in> set b")
    case False
    then show ?thesis using disk_okD(2) [OF less.prems(1,2) np] path_dir_plain [OF less.prems(3)] by simp
  next
    case True
    then obtain b' w where b: "b = b' @ CHR ''/'' # w" "CHR ''/'' \<notin> set w" using split_list_last by metis
    have pl: "plain_path ((a @ CHR ''/'' # b') @ CHR ''/'' # w)" using less.prems(3) b(1) by simp
    then have "path_dir ((a @ CHR ''/'' # b') @ CHR ''/'' # w) = a @ CHR ''/'' # b'" using b(2) by (rule path_dir_plain)
    then have "node_at d (a @ CHR ''/'' # b') = Some DirNode"
      using disk_okD(2) [OF less.prems(1,2) np] b(1) by simp
    moreover have "plain_path (a @ CHR ''/'' # b')" using pl unfolding plain_path_append by blast
    ultimately show ?thesis using less.hyps [of b'] less.prems(1) b(1) by simp
  qed
qed

lemma sum_mset_one:
  assumes "distinct cs" and "\<And>c c'. c \<in> set cs \<Longrightarrow> c' \<in> set cs \<Longrightarrow> P c \<Longrightarrow> P c' \<Longrightarrow> c = c'"
  shows "(\<Sum>c\<in>#mset cs. if P c then {#x#} else {#}) = (if \<exists>c \<in> set cs. P c then {#x#} else {#})"
  using assms
proof (induction cs)
  case (Cons c cs)
  have "(\<Sum>c\<in>#mset cs. if P c then {#x#} else {#}) = (if \<exists>c \<in> set cs. P c then {#x#} else {#})"
    using Cons by simp
  then show ?case using Cons.prems by auto
qed simp

text \<open>The nodes below a directory are its children and the nodes below its child directories.\<close>

lemma below_partition:
  assumes "disk_ok d" and "dir = q @ ''/''" and "plain_path q"
  shows "mset (below d dir) = mset (filter (\<lambda>(p, _). direct dir p) d) + (\<Sum>c\<in>#mset (child_dirs d dir). mset (below d c))"
proof -
  let ?cs = "child_dirs d dir"
  have keys: "distinct (map fst d)" using assms(1) by (simp add: disk_ok_def)
  have dist: "distinct ?cs"
  proof -
    have "distinct (map fst (filter (\<lambda>(p, n). direct dir p \<and> n = DirNode) d))"
      using keys by (simp add: distinct_map_filter)
    moreover have "?cs = map (\<lambda>p. p @ ''/'') (map fst (filter (\<lambda>(p, n). direct dir p \<and> n = DirNode) d))"
      by (simp add: child_dirs_def case_prod_beta comp_def)
    ultimately show ?thesis by (simp add: distinct_map inj_on_def)
  qed
  have c: "\<exists>w. c = dir @ w @ ''/'' \<and> CHR ''/'' \<notin> set w" if "c \<in> set ?cs" for c
    using that by (auto simp: child_dirs_def direct_def has_prefix_iff)
  have one: "(if has_prefix p dir then {#(p, n)#} else {#})
      = (if direct dir p then {#(p, n)#} else {#}) + (\<Sum>c\<in>#mset ?cs. if has_prefix p c then {#(p, n)#} else {#})"
    if "(p, n) \<in> set d" for p n
  proof -
    have uniq: "c1 = c2" if cc: "c1 \<in> set ?cs" "c2 \<in> set ?cs" "has_prefix p c1" "has_prefix p c2" for c1 c2
    proof -
      obtain w1 w2 where w: "c1 = dir @ w1 @ ''/''" "CHR ''/'' \<notin> set w1" "c2 = dir @ w2 @ ''/''" "CHR ''/'' \<notin> set w2"
        using c cc(1,2) by meson
      then obtain r1 r2 where "dir @ w1 @ CHR ''/'' # r1 = dir @ w2 @ CHR ''/'' # r2"
        using cc(3,4) unfolding has_prefix_iff by fastforce
      then have "takeWhile (\<lambda>x. x \<noteq> CHR ''/'') (w1 @ CHR ''/'' # r1) = takeWhile (\<lambda>x. x \<noteq> CHR ''/'') (w2 @ CHR ''/'' # r2)" by simp
      moreover have "takeWhile (\<lambda>x. x \<noteq> CHR ''/'') (w @ CHR ''/'' # r) = w" if "CHR ''/'' \<notin> set w" for w r
        using that by (subst takeWhile_append2) auto
      ultimately show ?thesis using w by simp
    qed
    have pd: "node_at d p = Some n \<and> plain_path p"
    proof -
      have p: "p \<in> set (map fst d)" using that by force
      then have "plain_path p" using assms(1) unfolding disk_ok_def list_all_iff by blast
      then show ?thesis using that keys plain_not_dot [of p] by (simp add: node_at_def)
    qed
    have ex: "(\<exists>c \<in> set ?cs. has_prefix p c) \<longleftrightarrow> has_prefix p dir \<and> \<not> direct dir p"
    proof
      assume "\<exists>c \<in> set ?cs. has_prefix p c"
      then obtain w r where "p = (dir @ w @ ''/'') @ r" using c has_prefix_iff by metis
      then show "has_prefix p dir \<and> \<not> direct dir p" by (auto simp: direct_def has_prefix_iff)
    next
      assume "has_prefix p dir \<and> \<not> direct dir p"
      then obtain r where r: "p = dir @ r" "CHR ''/'' \<in> set r" by (auto simp: direct_def has_prefix_iff)
      then obtain w r' where w: "r = w @ CHR ''/'' # r'" "CHR ''/'' \<notin> set w" using split_list_first by metis
      then have "p = (dir @ w) @ CHR ''/'' # r'" using r by simp
      then have "node_at d (dir @ w) = Some DirNode" and pl: "plain_path (dir @ w)"
        using ancestor_dir [OF assms(1), of "dir @ w" r'] pd plain_path_append by metis+
      moreover have "dir @ w \<noteq> ''.''" using plain_not_dot [OF pl] .
      ultimately have "(dir @ w, DirNode) \<in> set d" by (simp add: node_at_def map_of_SomeD)
      then have "(dir @ w) @ ''/'' \<in> set ?cs"
        using w(2) by (force simp: child_dirs_def direct_def)
      moreover have "has_prefix p ((dir @ w) @ ''/'')" using r w unfolding has_prefix_iff by simp
      ultimately show "\<exists>c \<in> set ?cs. has_prefix p c" by blast
    qed
    have imp: "direct dir p \<Longrightarrow> has_prefix p dir" by (simp add: direct_def)
    have "(\<Sum>c\<in>#mset ?cs. if has_prefix p c then {#(p, n)#} else {#}) = (if \<exists>c \<in> set ?cs. has_prefix p c then {#(p, n)#} else {#})"
      by (rule sum_mset_one [OF dist]) (use uniq in blast)
    then show ?thesis using ex imp by simp
  qed
  have "mset (filter (\<lambda>(p, _). has_prefix p dir) xs) = mset (filter (\<lambda>(p, _). direct dir p) xs)
      + (\<Sum>c\<in>#mset ?cs. mset (filter (\<lambda>(p, _). has_prefix p c) xs))" if "set xs \<subseteq> set d" for xs
    using that
  proof (induction xs)
    case (Cons x xs)
    obtain p n where x: "x = (p, n)" by (cases x)
    have a: "mset (filter (\<lambda>(p, _). P p) (x # xs)) = (if P p then {#(p, n)#} else {#}) + mset (filter (\<lambda>(p, _). P p) xs)" for P
      by (simp add: x)
    have "(\<Sum>c\<in>#mset ?cs. mset (filter (\<lambda>(p, _). has_prefix p c) (x # xs)))
        = (\<Sum>c\<in>#mset ?cs. if has_prefix p c then {#(p, n)#} else {#}) + (\<Sum>c\<in>#mset ?cs. mset (filter (\<lambda>(p, _). has_prefix p c) xs))"
      unfolding a by (simp only: sum_mset.distrib)
    then show ?case unfolding a using one [of p n] Cons x by simp
  qed simp
  from this [of d] show ?thesis by (simp add: below_def)
qed

lemma path_clean_slash:
  assumes "plain_path q"
  shows "path_clean (q @ ''/'') = q"
proof -
  have "path_clean (q @ ''/'') = path_clean q"
    using plain_path_nonempty [OF assms] split_on_sep [of "CHR ''/''" q "[]"]
    by (cases q) (simp_all add: path_clean_def has_prefix_def)
  then show ?thesis using path_clean_plain [OF assms] by simp
qed

lemma child_name_direct:
  assumes "plain_path q" and "plain_path p"
  shows "child_name q p = (if direct (q @ ''/'') p then Some (drop (Suc (length q)) p) else None)"
proof -
  have "q \<noteq> ''.''" by (rule plain_not_dot [OF assms(1)])
  moreover have "drop (Suc (length q)) p \<noteq> []" if pre: "has_prefix p (q @ ''/'')"
  proof
    assume "drop (Suc (length q)) p = []"
    then have "p = q @ CHR ''/'' # []" using pre by (auto simp: has_prefix_iff)
    then have "plain_path []" using assms(2) plain_path_append [of q "[]"] by simp
    then show False using plain_path_nonempty by blast
  qed
  ultimately show ?thesis by (auto simp: child_name_def direct_def)
qed

lemma ListFiles_dir:
  assumes "disk_ok d" and "plain_path q" and "node_at d q = Some DirNode" and "fs_ListFiles d (q @ ''/'') = Inr files"
  shows "mset files = mset (map (listed_node (Suc (length q))) (filter (\<lambda>(p, _). direct (q @ ''/'') p) d))"
proof -
  have pl: "plain_path p" if "(p, n) \<in> set d" for p n
  proof -
    have "p \<in> set (map fst d)" using that by force
    then show ?thesis using assms(1) unfolding disk_ok_def list_all_iff by blast
  qed
  let ?named = "\<lambda>(name, n). case n of DirNode \<Rightarrow> (name @ ''/'', 0) | FileNode b \<Rightarrow> (name, int (length b))"
  have "map ?named (List.map_filter (\<lambda>(p, n). map_option (\<lambda>name. (name, n)) (child_name q p)) xs)
      = map (listed_node (Suc (length q))) (filter (\<lambda>(p, _). direct (q @ ''/'') p) xs)" if "set xs \<subseteq> set d" for xs
    using that
  proof (induction xs)
    case (Cons x xs)
    obtain p n where x: "x = (p, n)" by (cases x)
    then show ?case using Cons child_name_direct [OF assms(2) pl [of p n]]
      by (cases n) (simp_all add: List.map_filter_simps)
  qed (simp add: List.map_filter_simps)
  note eq = this [of d, OF order_refl]
  have "mset (map ?named (read_dir d q)) = mset (map ?named (List.map_filter (\<lambda>(p, n). map_option (\<lambda>name. (name, n)) (child_name q p)) d))"
    by (simp only: read_dir_def mset_map mset_sort)
  also have "\<dots> = mset (map (listed_node (Suc (length q))) (filter (\<lambda>(p, _). direct (q @ ''/'') p) d))" by (simp only: eq)
  finally have "mset (map ?named (read_dir d q)) = mset (map (listed_node (Suc (length q))) (filter (\<lambda>(p, _). direct (q @ ''/'') p) d))" .
  moreover have "files = map ?named (read_dir d q)"
    using assms(3,4) path_clean_slash [OF assms(2)] by (simp add: fs_ListFiles_def)
  ultimately show ?thesis by (simp only:)
qed

text \<open>What listing a directory adds: the directory itself, unless it is the root, and what is below it.\<close>

definition tree_content :: "disk \<Rightarrow> nat \<Rightarrow> string \<Rightarrow> (string \<times> int) multiset" where
  "tree_content d n dir = mset (own_entry n dir) + image_mset (listed_node n) (mset (below d dir))"

definition listable :: "disk \<Rightarrow> nat \<Rightarrow> string \<Rightarrow> bool" where
  "listable d n dir \<longleftrightarrow> (\<exists>q. dir = q @ ''/'' \<and> plain_path q \<and> node_at d q = Some DirNode \<and> n \<le> length dir)"

lemma child_dirs_listable:
  assumes "disk_ok d" and "listable d n dir" and "c \<in> set (child_dirs d dir)"
  shows "listable d n c \<and> n < length c"
proof -
  obtain q where q: "dir = q @ ''/''" "n \<le> length dir" using assms(2) by (auto simp: listable_def)
  obtain p where p: "c = p @ ''/''" "(p, DirNode) \<in> set d" "has_prefix p dir"
    using assms(3) by (auto simp: child_dirs_def direct_def)
  have k: "p \<in> set (map fst d)" using p(2) by force
  then have pl: "plain_path p" using assms(1) unfolding disk_ok_def list_all_iff by blast
  moreover have "node_at d p = Some DirNode"
    using p(2) assms(1) plain_not_dot [OF pl] by (simp add: node_at_def disk_ok_def)
  moreover have "length dir \<le> length p" using p(3) by (auto simp: has_prefix_iff)
  ultimately show ?thesis using p(1) q(2) by (auto simp: listable_def)
qed

text \<open>
  The entries of a directory: its files are listed now, its directories are pushed.
\<close>

lemma split_entries:
  assumes "disk_ok d" and "dir = q @ ''/''" and "plain_path q" and "n \<le> length dir"
    and "mset files = mset (map (listed_node (length dir)) (filter (\<lambda>(p, _). direct dir p) d))"
  shows "mset (map (\<lambda>(file, _). dir @ file) (filter (\<lambda>(file, _). is_directory file) files)) = mset (child_dirs d dir)"
    and "mset (map (\<lambda>(file, sz). (drop n (dir @ file), sz)) (filter (\<lambda>(file, _). \<not> is_directory file) files))
        + (\<Sum>c\<in>#mset (child_dirs d dir). mset (own_entry n c))
      = image_mset (listed_node n) (mset (filter (\<lambda>(p, _). direct dir p) d))"
proof -
  let ?ln = "listed_node (length dir)" and ?dir = "\<lambda>(file :: string, _ :: int). is_directory file"
  have pl: "plain_path p" if "(p, m) \<in> set d" for p m
  proof -
    have "p \<in> set (map fst d)" using that by force
    then show ?thesis using assms(1) unfolding disk_ok_def list_all_iff by blast
  qed
  have one: "is_directory (fst (?ln (p, m))) \<longleftrightarrow> m = DirNode" "dir @ drop (length dir) p = p"
    "m \<noteq> DirNode \<Longrightarrow> (drop n (dir @ fst (?ln (p, m))), snd (?ln (p, m))) = listed_node n (p, m)"
    "mset (own_entry n (p @ ''/'')) = {#listed_node n (p, DirNode)#}"
    if "(p, m) \<in> set d" "direct dir p" for p m
  proof -
    have pre: "p = dir @ drop (length dir) p" using that(2) by (auto simp: direct_def has_prefix_iff)
    then show dp: "dir @ drop (length dir) p = p" by simp
    have "drop (length dir) p \<noteq> []"
    proof
      assume "drop (length dir) p = []"
      then have "p = q @ CHR ''/'' # []" using pre assms(2) by simp
      then have "plain_path []" using pl [OF that(1)] plain_path_append [of q "[]"] by simp
      then show False using plain_path_nonempty by blast
    qed
    moreover have "CHR ''/'' \<notin> set (drop (length dir) p)" using that(2) by (simp add: direct_def)
    ultimately have "\<not> is_directory (drop (length dir) p)" unfolding is_directory_def by (metis last_in_set)
    then show "is_directory (fst (?ln (p, m))) \<longleftrightarrow> m = DirNode" by (cases m) (simp_all add: is_directory_def)
    show "m \<noteq> DirNode \<Longrightarrow> (drop n (dir @ fst (?ln (p, m))), snd (?ln (p, m))) = listed_node n (p, m)"
      using dp by (cases m) simp_all
    have "n \<le> length p" using pre assms(4) by (metis le_add1 le_trans length_append)
    then show "mset (own_entry n (p @ ''/'')) = {#listed_node n (p, DirNode)#}" by (simp add: own_entry_def)
  qed
  have fd: "filter_mset P (mset files) = mset (filter P (map ?ln (filter (\<lambda>(p, _). direct dir p) d)))" for P
    using assms(5) by (simp only: mset_filter)
  have "map (\<lambda>(file, _). dir @ file) (filter ?dir (map ?ln (filter (\<lambda>(p, _). direct dir p) xs)))
      = map (\<lambda>(p, _). p @ ''/'') (filter (\<lambda>(p, n). direct dir p \<and> n = DirNode) xs)" if "set xs \<subseteq> set d" for xs
    using that
  proof (induction xs)
    case (Cons x xs)
    obtain p m where x: "x = (p, m)" by (cases x)
    then show ?case using Cons one(1,2) [of p m] by (cases m) (auto simp: is_directory_def)
  qed simp
  note pushed = this [of d, OF order_refl]
  have "mset (map (\<lambda>(file, _). dir @ file) (filter ?dir files)) = image_mset (\<lambda>(file, _). dir @ file) (filter_mset ?dir (mset files))"
    by (simp only: mset_map mset_filter)
  also have "\<dots> = mset (map (\<lambda>(file, _). dir @ file) (filter ?dir (map ?ln (filter (\<lambda>(p, _). direct dir p) d))))"
    by (simp only: fd mset_map)
  also have "\<dots> = mset (child_dirs d dir)" by (simp only: pushed child_dirs_def)
  finally show "mset (map (\<lambda>(file, _). dir @ file) (filter ?dir files)) = mset (child_dirs d dir)" .
  have "image_mset (\<lambda>(file, sz). (drop n (dir @ file), sz)) (mset (filter (\<lambda>(file, _). \<not> is_directory file) (map ?ln (filter (\<lambda>(p, _). direct dir p) xs))))
        + (\<Sum>c\<in>#mset (map (\<lambda>(p, _). p @ ''/'') (filter (\<lambda>(p, n). direct dir p \<and> n = DirNode) xs)). mset (own_entry n c))
      = image_mset (listed_node n) (mset (filter (\<lambda>(p, _). direct dir p) xs))" if "set xs \<subseteq> set d" for xs
    using that
  proof (induction xs)
    case (Cons x xs)
    obtain p m where x: "x = (p, m)" by (cases x)
    show ?case
    proof (cases m)
      case DirNode
      then show ?thesis using Cons one(1,4) [of p m] x by (auto simp: case_prod_beta)
    next
      case (FileNode b)
      then show ?thesis using Cons one(1,3) [of p m] x by (auto simp: case_prod_beta)
    qed
  qed simp
  from this [of d] show "mset (map (\<lambda>(file, sz). (drop n (dir @ file), sz)) (filter (\<lambda>(file, _). \<not> is_directory file) files))
        + (\<Sum>c\<in>#mset (child_dirs d dir). mset (own_entry n c))
      = image_mset (listed_node n) (mset (filter (\<lambda>(p, _). direct dir p) d))"
    by (simp only: mset_map mset_filter child_dirs_def assms(5) order_refl simp_thms)
qed

lemma image_mset_sum_list: "image_mset f (\<Sum>c\<in>#A. g c) = (\<Sum>c\<in>#A. image_mset f (g c))"
  by (induction A) simp_all

lemma tree_content_split:
  assumes "disk_ok d" and "dir = q @ ''/''" and "plain_path q" and "n \<le> length dir"
    and "mset files = mset (map (listed_node (length dir)) (filter (\<lambda>(p, _). direct dir p) d))"
  shows "tree_content d n dir = mset (own_entry n dir)
      + mset (map (\<lambda>(file, sz). (drop n (dir @ file), sz)) (filter (\<lambda>(file, _). \<not> is_directory file) files))
      + (\<Sum>c\<in>#mset (child_dirs d dir). tree_content d n c)"
proof -
  have "(\<Sum>c\<in>#mset (child_dirs d dir). tree_content d n c)
      = (\<Sum>c\<in>#mset (child_dirs d dir). mset (own_entry n c)) + image_mset (listed_node n) (\<Sum>c\<in>#mset (child_dirs d dir). mset (below d c))"
    unfolding tree_content_def sum_mset.distrib by (simp only: image_mset_sum_list)
  then show ?thesis
    unfolding tree_content_def [of d n dir] below_partition [OF assms(1-3)] image_mset_union
      split_entries(2) [OF assms, symmetric] by (simp add: add_ac)
qed

definition tree_weight :: "disk \<Rightarrow> string \<Rightarrow> nat" where
  "tree_weight d dir = Suc (length (below d dir))"

lemma tree_weight_split:
  assumes "disk_ok d" and "dir = q @ ''/''" and "plain_path q"
  shows "(\<Sum>c\<in>#mset (child_dirs d dir). tree_weight d c) < tree_weight d dir"
proof -
  have "length (child_dirs d dir) \<le> length (filter (\<lambda>(p, _). direct dir p) d)"
  proof -
    have "length (filter (\<lambda>(p, n). direct dir p \<and> n = DirNode) xs) \<le> length (filter (\<lambda>(p, _). direct dir p) xs)" for xs
      by (induction xs) auto
    then show ?thesis by (simp add: child_dirs_def)
  qed
  moreover have "length (below d dir) = length (filter (\<lambda>(p, _). direct dir p) d) + (\<Sum>c\<in>#mset (child_dirs d dir). length (below d c))"
  proof -
    have "size (\<Sum>c\<in>#A. mset (below d c)) = (\<Sum>c\<in>#A. length (below d c))" for A by (induction A) simp_all
    then show ?thesis using arg_cong [OF below_partition [OF assms], of size] by (simp only: size_union size_mset)
  qed
  moreover have "(\<Sum>c\<in>#mset cs. tree_weight d c) = length cs + (\<Sum>c\<in>#mset cs. length (below d c))" for cs
    by (induction cs) (simp_all add: tree_weight_def)
  ultimately show ?thesis by (simp add: tree_weight_def)
qed

text \<open>The loop ends, having added what every directory of the stack contains.\<close>

lemma list_tree_content:
  assumes "disk_ok d" and "list_all (listable d n) dirs"
  shows "\<exists>r. list_tree (file_storage c) d n dirs acc = Some (Inr r)
    \<and> mset r = mset acc + (\<Sum>dir\<in>#mset dirs. tree_content d n dir)"
  using assms(2)
proof (induction "\<Sum>dir\<in>#mset dirs. tree_weight d dir" arbitrary: dirs acc rule: less_induct)
  case less
  show ?case
  proof (cases dirs)
    case Nil
    then show ?thesis by (simp add: list_tree.simps)
  next
    case (Cons dir rest)
    then obtain q where q: "dir = q @ ''/''" "plain_path q" "node_at d q = Some DirNode" "n \<le> length dir"
      using less.prems by (auto simp: listable_def)
    obtain files where files: "fs_ListFiles d dir = Inr files"
      using q(1,3) path_clean_slash [OF q(2)] by (simp add: fs_ListFiles_def)
    have ent: "mset files = mset (map (listed_node (length dir)) (filter (\<lambda>(p, _). direct dir p) d))"
      using ListFiles_dir [OF assms(1) q(2,3)] files q(1) by simp
    define dirs' where "dirs' = rev (map (\<lambda>(file, _). dir @ file) (filter (\<lambda>(file, _). is_directory file) files)) @ rest"
    define acc' where "acc' = acc @ own_entry n dir @ map (\<lambda>(file, sz). (drop n (dir @ file), sz)) (filter (\<lambda>(file, _). \<not> is_directory file) files)"
    have step: "list_tree (file_storage c) d n dirs acc = list_tree (file_storage c) d n dirs' acc'"
      using files unfolding Cons dirs'_def acc'_def
      by (subst list_tree.simps) (simp add: file_storage_def)
    have m: "mset dirs' = mset (child_dirs d dir) + mset rest"
      using split_entries(1) [OF assms(1) q(1,2,4) ent] by (simp add: dirs'_def)
    have "list_all (listable d n) dirs'"
    proof -
      have "set dirs' = set (child_dirs d dir) \<union> set rest" using arg_cong [OF m, of set_mset] by simp
      then show ?thesis using less.prems child_dirs_listable [OF assms(1)] by (auto simp: Cons list_all_iff)
    qed
    moreover have "(\<Sum>dir\<in>#mset dirs'. tree_weight d dir) < (\<Sum>dir\<in>#mset dirs. tree_weight d dir)"
      using tree_weight_split [OF assms(1) q(1,2)] unfolding m Cons by simp
    ultimately obtain r where r: "list_tree (file_storage c) d n dirs' acc' = Some (Inr r)"
      "mset r = mset acc' + (\<Sum>dir\<in>#mset dirs'. tree_content d n dir)"
      using less.hyps [of dirs' acc'] by blast
    have "mset r = mset acc + (\<Sum>dir\<in>#mset dirs. tree_content d n dir)"
      using r(2) tree_content_split [OF assms(1) q(1,2,4) ent] unfolding m Cons by (simp add: acc'_def add_ac)
    then show ?thesis using r(1) step by simp
  qed
qed

lemma ListAllFiles_tree:
  assumes "disk_ok d" and "plain_path q" and "\<forall>b. node_at d q \<noteq> Some (FileNode b)"
  shows "\<exists>r. ListAllFiles (file_storage c) d (q @ ''/'') = Some (Inr r)
    \<and> mset r = mset (map (listed_node (Suc (length q))) (below d (q @ ''/'')))"
proof (cases "node_at d q")
  case None
  have "below d (q @ ''/'') = []"
    unfolding below_def filter_empty_conv
  proof (clarify)
    fix p n
    assume p: "(p, n) \<in> set d" "has_prefix p (q @ ''/'')"
    then have "p \<in> set (map fst d)" by force
    then have pl: "plain_path p" using assms(1) unfolding disk_ok_def list_all_iff by blast
    then have "node_at d p = Some n" using p(1) assms(1) plain_not_dot by (auto simp: node_at_def disk_ok_def)
    moreover obtain r where "p = q @ CHR ''/'' # r" using p(2) by (auto simp: has_prefix_iff)
    ultimately show False using ancestor_dir [OF assms(1), of q r n] pl None by simp
  qed
  moreover have "ListAllFiles (file_storage c) d (q @ ''/'') = Some (Inr [])"
    using None path_clean_slash [OF assms(2)]
    by (simp add: ListAllFiles_def list_tree.simps file_storage_def fs_ListFiles_def own_entry_def)
  ultimately show ?thesis by simp
next
  case (Some n)
  then have "node_at d q = Some DirNode" using assms(3) by (cases n) auto
  then have "list_all (listable d (length (q @ ''/''))) [q @ ''/'']" using assms(2) by (simp add: listable_def)
  from list_tree_content [OF assms(1) this, of c "[]"] show ?thesis
    by (simp add: ListAllFiles_def tree_content_def own_entry_def)
qed

text \<open>
  C26. \<^verbatim>\<open>ListAllFiles\<close> returns on every local storage, and lists every file and directory below the root
  given to it exactly once, files with their size.
\<close>

theorem ListAllFiles_complete:
  assumes "disk_ok d" and "plain_path q" and "list_ex (\<lambda>n. node_at d q = n) [None, Some DirNode]"
  shows "\<exists>r. ListAllFiles (file_storage c) d (q @ ''/'') = Some (Inr r)
    \<and> mset r = mset (map (listed_node (Suc (length q))) (below d (q @ ''/'')))"
  using ListAllFiles_tree [OF assms(1,2)] assms(3) by auto

definition tree_example :: disk where
  "tree_example = [(''chunks'', DirNode), (''chunks/d3'', DirNode), (''chunks/d3/49'', FileNode [1]), (''chunks/d3/4a'', DirNode),
     (''chunks/d3/4a/5b.fsl'', FileNode [2, 3]), (''config'', FileNode [4])]"

lemma ListAllFiles_complete_witness:
  "\<exists>r. ListAllFiles (file_storage True) tree_example ''chunks/'' = Some (Inr r)
    \<and> mset r = {#(''d3/'', 0), (''d3/49'', 1), (''d3/4a/'', 0), (''d3/4a/5b.fsl'', 2)#}"
proof -
  have a: "disk_ok tree_example" by code_simp
  have b: "plain_path ''chunks''" by code_simp
  have c: "list_ex (\<lambda>n. node_at tree_example ''chunks'' = n) [None, Some DirNode]" by code_simp
  have d: "map (listed_node (Suc (length ''chunks''))) (below tree_example (''chunks'' @ ''/''))
      = [(''d3/'', 0), (''d3/49'', 1), (''d3/4a/'', 0), (''d3/4a/5b.fsl'', 2)]" by code_simp
  show ?thesis using ListAllFiles_complete [OF a b c, of True] unfolding d by simp
qed

end
