(* ===== verification/Snapshot_Files.thy ===== *)
theory Snapshot_Files
  imports Snapshot_Chunks Chunk_Operator Disk_Tree
begin

text \<open>
  The snapshot manager's view of the storage (\<^verbatim>\<open>src/src/duplicacy_snapshotmanager.go\<close>): snapshot files are
  encrypted files that are not chunks, cached on the local disk; ids and revisions are found by listing
  directories; and the snapshot cache is cleaned of what no snapshot needs.
\<close>

section \<open>Files that are not chunks\<close>

text \<open>
  The manager works on the state of the chunk operator: the storage and the cache.  The cache is set up
  before any of these functions is called.  \<open>rewriting\<close> says whether an operator exists that rewriting
  damaged files.  A derivation key is at most 64 bytes of the path.
\<close>

definition derivation_key :: "string \<Rightarrow> string" where
  "derivation_key k = (if 64 < length k then drop (length k - 64) k else k)"

definition cached_file :: "'s operator_env \<Rightarrow> string \<Rightarrow> 's operator_state \<Rightarrow> bytes option" where
  "cached_file env path s =
     (if IsCacheNeeded (storage env)
      then (case fst (fs_DownloadFile (cache s) path) of
              Inr b \<Rightarrow> if b \<noteq> [] then Some b else None
            | Inl _ \<Rightarrow> None)
      else None)"

definition rewrite_file :: "'s operator_env \<Rightarrow> string \<Rightarrow> string \<Rightarrow> bytes \<Rightarrow> 's operator_state \<Rightarrow> fatal option \<times> 's operator_state" where
  "rewrite_file env path key b s =
     (case Encrypt (lib env) (opConfig env) (fst (entropy env path)) (snd (entropy env path)) (FileKey (opConfig env)) key True
             (Write b (Reset True (CreateChunk True))) of
        (Some (CodingPanic code), _) \<Rightarrow> (Some (LogError code), s)
      | (Some (CodingError _), _) \<Rightarrow> (None, s)
      | (None, newChunk) \<Rightarrow> (None, s\<lparr>store := snd (UploadFile (storage env) (store s) path (GetBytes newChunk))\<rparr>))"

definition save_cached_file :: "'s operator_env \<Rightarrow> string \<Rightarrow> bytes \<Rightarrow> 's operator_state \<Rightarrow> 's operator_state" where
  "save_cached_file env path b s =
     (if IsCacheNeeded (storage env) then s\<lparr>cache := snd (fs_UploadFile (cache s) path b)\<rparr> else s)"

definition downloadFile ::
  "'s operator_env \<Rightarrow> bool \<Rightarrow> string \<Rightarrow> string \<Rightarrow> 's operator_state \<Rightarrow> (fatal + bytes) \<times> 's operator_state" where
  "downloadFile env rewriting path derivationKey s =
     (case cached_file env path s of
        Some b \<Rightarrow> (Inr b, s)
      | None \<Rightarrow>
          (case DownloadFile (storage env) (store s) path of
             (Inl _, t) \<Rightarrow> (Inl (LogError ''DOWNLOAD_FILE''), s\<lparr>store := t\<rparr>)
           | (Inr b, t) \<Rightarrow>
               (let s = s\<lparr>store := t\<rparr>; key = derivation_key derivationKey in
                case Decrypt (lib env) (opConfig env) False False (FileKey (opConfig env)) key (Write b (Reset False (CreateChunk True))) of
                  Inl (CodingPanic _) \<Rightarrow> (Inl RuntimePanic, s)
                | Inl (CodingError _) \<Rightarrow> (Inl (LogError ''DOWNLOAD_DECRYPT''), s)
                | Inr (rewrite, chunk) \<Rightarrow>
                    (case (if rewrite \<and> rewriting then rewrite_file env path key (GetBytes chunk) s else (None, s)) of
                       (Some f, s) \<Rightarrow> (Inl f, s)
                     | (None, s) \<Rightarrow> (Inr (GetBytes chunk), save_cached_file env path (GetBytes chunk) s)))))"

text \<open>
  The directory of an uploaded file is created once; \<open>created\<close> are the directories made so far.
  \<^verbatim>\<open>UploadFile\<close> caches the plain file, then encrypts and uploads it.
\<close>

definition parent_of :: "string \<Rightarrow> string option" where
  "parent_of path =
     (let tail = dropWhile (\<lambda>c. c \<noteq> CHR ''/'') (rev path) in if 1 < length tail then Some (rev (tl tail)) else None)"

definition ensure_directory :: "'s operator_env \<Rightarrow> string list \<Rightarrow> string \<Rightarrow> 's operator_state \<Rightarrow> bool \<times> string list \<times> 's operator_state" where
  "ensure_directory env created path s =
     (case parent_of path of
        None \<Rightarrow> (True, created, s)
      | Some dir \<Rightarrow>
          if dir \<in> set created then (True, created, s)
          else (case CreateDirectory (storage env) (store s) dir of
                  (Some _, t) \<Rightarrow> (False, created, s\<lparr>store := t\<rparr>)
                | (None, t) \<Rightarrow> (True, dir # created, s\<lparr>store := t\<rparr>)))"

definition upload_file ::
  "'s operator_env \<Rightarrow> string list \<Rightarrow> string \<Rightarrow> string \<Rightarrow> bytes \<Rightarrow> 's operator_state \<Rightarrow> fatal option \<times> string list \<times> 's operator_state" where
  "upload_file env created path derivationKey content s =
     (case ensure_directory env created path s of
        (False, created, s) \<Rightarrow> (Some (LogError ''UPLOAD_FILE''), created, s)
      | (True, created, s) \<Rightarrow>
          (let s = save_cached_file env path content s in
           case Encrypt (lib env) (opConfig env) (fst (entropy env path)) (snd (entropy env path)) (FileKey (opConfig env))
                  (derivation_key derivationKey) True (Write content (Reset False (CreateChunk True))) of
             (Some (CodingPanic code), _) \<Rightarrow> (Some (LogError code), created, s)
           | (Some (CodingError _), _) \<Rightarrow> (Some (LogError ''UPLOAD_File''), created, s)
           | (None, chunk) \<Rightarrow>
               (case UploadFile (storage env) (store s) path (GetBytes chunk) of
                  (Some _, t) \<Rightarrow> (Some (LogError ''UPLOAD_File''), created, s\<lparr>store := t\<rparr>)
                | (None, t) \<Rightarrow> (None, created, s\<lparr>store := t\<rparr>))))"

section \<open>Ids, revisions, snapshots\<close>

definition ListSnapshotIDs :: "'s storage_ops \<Rightarrow> 's \<Rightarrow> string + string list" where
  "ListSnapshotIDs st s =
     bindE (ListFiles st s ''snapshots/'') (\<lambda>dirs. Inr (map (\<lambda>(dir, _). butlast dir) (filter (\<lambda>(dir, _). is_directory dir) dirs)))"

definition ListSnapshotRevisions :: "'s storage_ops \<Rightarrow> 's \<Rightarrow> string \<Rightarrow> string + int list" where
  "ListSnapshotRevisions st s snapshotID =
     bindE (ListFiles st s (snapshotDir snapshotID)) (\<lambda>files.
       Inr (sort (List.map_filter (\<lambda>(file, _). if file \<noteq> [] \<and> \<not> is_directory file then Atoi file else None) files)))"

definition downloadSnapshot ::
  "(bytes \<Rightarrow> string + (string \<times> json) list) \<Rightarrow> 's operator_env \<Rightarrow> bool \<Rightarrow> string \<Rightarrow> int \<Rightarrow> bool \<Rightarrow> 's operator_state
     \<Rightarrow> (fatal + snapshot) \<times> 's operator_state" where
  "downloadSnapshot parse env rewriting snapshotID revision listed s =
     (let path = snapshotPath snapshotID revision;
          problem = (if listed then None
                     else case GetFileInfo (storage env) (store s) path of
                            Inl _ \<Rightarrow> Some ''SNAPSHOT_INFO''
                          | Inr (exist, _, _) \<Rightarrow> if exist then None else Some ''SNAPSHOT_NOT_EXIST'')
      in case problem of
           Some code \<Rightarrow> (Inl (LogError code), s)
         | None \<Rightarrow>
             (case downloadFile env rewriting path path s of
                (Inl f, s) \<Rightarrow> (Inl f, s)
              | (Inr description, s) \<Rightarrow>
                  (case CreateSnapshotFromDescription parse description of
                     Inl _ \<Rightarrow> (Inl (LogError ''SNAPSHOT_PARSE''), s)
                   | Inr snap \<Rightarrow> (Inr (snap\<lparr>ID := snapshotID\<rparr>), s))))"

definition downloadLatestSnapshot ::
  "(bytes \<Rightarrow> string + (string \<times> json) list) \<Rightarrow> 's operator_env \<Rightarrow> bool \<Rightarrow> string \<Rightarrow> 's operator_state
     \<Rightarrow> (fatal + snapshot option) \<times> 's operator_state" where
  "downloadLatestSnapshot parse env rewriting snapshotID s =
     (case ListSnapshotRevisions (storage env) (store s) snapshotID of
        Inl _ \<Rightarrow> (Inl (LogError ''SNAPSHOT_LIST''), s)
      | Inr revisions \<Rightarrow>
          (let latest = fold (\<lambda>revision latest. if revision > latest then revision else latest) revisions 0 in
           if 0 < latest
           then (case downloadSnapshot parse env rewriting snapshotID latest True s of
                   (Inl f, s) \<Rightarrow> (Inl f, s)
                 | (Inr snap, s) \<Rightarrow> (Inr (Some snap), s))
           else (Inr None, s)))"

text \<open>The revisions in order, one by one, as with one thread.\<close>

fun downloadSnapshots ::
  "(bytes \<Rightarrow> string + (string \<times> json) list) \<Rightarrow> 's operator_env \<Rightarrow> bool \<Rightarrow> string \<Rightarrow> int list \<Rightarrow> bool \<Rightarrow> 's operator_state
     \<Rightarrow> (fatal + snapshot list) \<times> 's operator_state" where
  "downloadSnapshots parse env rewriting snapshotID [] listed s = (Inr [], s)"
| "downloadSnapshots parse env rewriting snapshotID (revision # revisions) listed s =
     (case downloadSnapshot parse env rewriting snapshotID revision listed s of
        (Inl f, s) \<Rightarrow> (Inl f, s)
      | (Inr snap, s) \<Rightarrow>
          (case downloadSnapshots parse env rewriting snapshotID revisions listed s of
             (Inl f, s) \<Rightarrow> (Inl f, s)
           | (Inr snaps, s) \<Rightarrow> (Inr (snap # snaps), s)))"

definition countChunkDirectories :: "'s storage_ops \<Rightarrow> 's \<Rightarrow> nat" where
  "countChunkDirectories st s =
     (case ListFiles st s chunkDir of
        Inl _ \<Rightarrow> 0
      | Inr entries \<Rightarrow> length (filter (\<lambda>(entry, _). has_suffix entry ''/'') entries))"

section \<open>What is uploaded is downloaded\<close>

lemma upload_then_download:
  assumes "disk_ok d" and "plain_path p" and "fs_UploadFile d p b = (r, d')"
  shows "fst (fs_DownloadFile d' p) = Inr b \<or> (\<exists>e. fst (fs_DownloadFile d' p) = Inl e)"
    and "r = None \<Longrightarrow> node_at d p \<noteq> Some DirNode \<Longrightarrow> fs_DownloadFile d' p = (Inr b, d')"
proof -
  have up: "d' = d \<and> r \<noteq> None \<and> node_at d (path_dir p) \<noteq> Some DirNode
      \<or> (\<exists>e. r = None \<and> node_at e p = Some DirNode \<and> d' = e \<and> node_at d p = Some DirNode)
      \<or> (\<exists>e. r = None \<and> d' = AList.update p (FileNode b) e)"
    (is "?failed \<or> ?there \<or> ?written")
  proof -
    have mk: "node_at d' (path_dir p) = Some DirNode" if "mkdir_all d (path_dir p) = Inr d'" "node_at d (path_dir p) = None" for d'
      using assms(2)
    proof (cases rule: plain_path_cases)
      case top
      then show ?thesis using that(2) by (simp add: node_at_def)
    next
      case (sub q w)
      then show ?thesis using mkdir_all_ok [OF assms(1) _ that(1)] by simp
    qed
    have old: "node_at d p = Some DirNode" if "mkdir_all d (path_dir p) = Inr d'" "node_at d (path_dir p) = None" "node_at d' p = Some DirNode" for d'
    proof (rule ccontr)
      assume no: "node_at d p \<noteq> Some DirNode"
      have "p \<notin> set (ancestors (path_dir p))" using ancestor_prefix [OF assms(2), of p] plain_not_dot [OF assms(2)] by auto
      then have "node_at d' p = node_at d p"
        using that(1) mkdir_fold_other plain_not_dot [OF assms(2)] by (auto simp: mkdir_all_def split: if_splits)
      then show False using no that(3) by simp
    qed
    show ?thesis
      using assms(3) mk old
      by (auto simp: fs_UploadFile_def path_clean_plain [OF assms(2)] Let_def split: sum.splits option.splits fs_node.splits if_splits)
  qed
  have w: "fs_DownloadFile (AList.update p (FileNode b) e) p = (Inr b, AList.update p (FileNode b) e)" for e
    using plain_not_dot [OF assms(2)] by (simp add: fs_DownloadFile_def path_clean_plain [OF assms(2)] node_at_update)
  show "fst (fs_DownloadFile d' p) = Inr b \<or> (\<exists>e. fst (fs_DownloadFile d' p) = Inl e)"
    using up
  proof (elim disjE)
    assume ?failed
    then have "node_at d' p = None" using disk_okD(2) [OF assms(1) _ plain_not_dot [OF assms(2)]] by (cases "node_at d p") auto
    then show ?thesis by (simp add: fs_DownloadFile_def path_clean_plain [OF assms(2)])
  next
    assume ?there
    then show ?thesis by (auto simp: fs_DownloadFile_def path_clean_plain [OF assms(2)])
  qed (use w in auto)
  show "r = None \<Longrightarrow> node_at d p \<noteq> Some DirNode \<Longrightarrow> fs_DownloadFile d' p = (Inr b, d')" using up w by auto
qed

lemma parent_of_path: "parent_of p = Some dir \<Longrightarrow> \<exists>w. p = dir @ CHR ''/'' # w \<and> CHR ''/'' \<notin> set w"
proof -
  let ?t = "dropWhile (\<lambda>c. c \<noteq> CHR ''/'') (rev p)"
  assume "parent_of p = Some dir"
  then have t: "1 < length ?t" "dir = rev (tl ?t)" by (auto simp: parent_of_def Let_def split: if_splits)
  then have "?t = CHR ''/'' # tl ?t" using hd_dropWhile [of "\<lambda>c. c \<noteq> CHR ''/''" "rev p"] by (cases ?t) auto
  then have "rev p = takeWhile (\<lambda>c. c \<noteq> CHR ''/'') (rev p) @ CHR ''/'' # tl ?t" by (metis takeWhile_dropWhile_id)
  then have "p = rev (tl ?t) @ CHR ''/'' # rev (takeWhile (\<lambda>c. c \<noteq> CHR ''/'') (rev p))"
    by (metis rev.simps(2) rev_append rev_rev_ident append_assoc append_Cons append_Nil)
  moreover have "CHR ''/'' \<notin> set (rev (takeWhile (\<lambda>c. c \<noteq> CHR ''/'') (rev p)))" by (auto dest: set_takeWhileD)
  ultimately show ?thesis using t(2) by blast
qed

lemma ensure_directory_disk:
  assumes "storage env = file_storage c" and "disk_ok (store s)" and "plain_path p"
    and "ensure_directory env created p s = (ok, created', s')"
  shows "disk_ok (store s')" and "node_at (store s) p \<noteq> Some DirNode \<Longrightarrow> node_at (store s') p \<noteq> Some DirNode" and "cache s' = cache s"
proof -
  show "cache s' = cache s" using assms(4) by (auto simp: ensure_directory_def split: option.splits if_splits prod.splits)
  have "store s' = store s \<or> (\<exists>dir. parent_of p = Some dir \<and> store s' = snd (fs_CreateDirectory (store s) dir))"
    using assms(1,4) by (auto simp: ensure_directory_def file_storage_def split: option.splits if_splits prod.splits)
  then have "disk_ok (store s') \<and> (node_at (store s) p \<noteq> Some DirNode \<longrightarrow> node_at (store s') p \<noteq> Some DirNode)"
  proof (elim disjE exE conjE)
    fix dir
    assume dir: "parent_of p = Some dir" "store s' = snd (fs_CreateDirectory (store s) dir)"
    then obtain w where w: "p = dir @ CHR ''/'' # w" using parent_of_path by blast
    then have pd: "plain_path dir" using assms(3) by (simp add: plain_path_append)
    then have "disk_ok (store s')" using assms(2) dir(2)
      by (simp add: fs_CreateDirectory_def path_clean_plain Let_def disk_ok_update)
    moreover have "node_at (store s) p \<noteq> Some DirNode \<longrightarrow> node_at (store s') p \<noteq> Some DirNode"
      using pd dir(2) w plain_not_dot [OF pd]
      by (auto simp: fs_CreateDirectory_def path_clean_plain Let_def node_at_update)
    ultimately show ?thesis ..
  qed (use assms(2) in auto)
  then show "disk_ok (store s')" "node_at (store s) p \<noteq> Some DirNode \<Longrightarrow> node_at (store s') p \<noteq> Some DirNode" by blast+
qed

lemma upload_file_download:
  assumes "storage env = file_storage c" and "disk_ok (store s)" and "disk_ok (cache s)" and "plain_path p"
    and "node_at (store s) p \<noteq> Some DirNode"
    and "coding_ok (lib env) (opConfig env) (snd (entropy env p)) (FileKey (opConfig env)) True"
    and "upload_file env created p key content s = (None, created', s1)"
    and "list_all (\<lambda>n. case n of Some (FileNode b) \<Rightarrow> length b < 2 ^ 63 | _ \<Rightarrow> True) [node_at (store s1) p]"
  shows "\<exists>s2. downloadFile env rewriting p key s1 = (Inr content, s2)"
proof -
  let ?key = "derivation_key key" and ?rk = "fst (entropy env p)" and ?nonce = "snd (entropy env p)"
    and ?fk = "FileKey (opConfig env)"
  obtain ok created0 s0 where en: "ensure_directory env created p s = (ok, created0, s0)" by (cases "ensure_directory env created p s") auto
  have ok: "ok" using assms(7) by (cases ok) (simp_all add: upload_file_def en)
  note d0 = ensure_directory_disk [OF assms(1,2,4) en]
  have st: "store (save_cached_file env p content s0) = store s0" by (simp add: save_cached_file_def)
  obtain chunk where ch: "Encrypt (lib env) (opConfig env) ?rk ?nonce ?fk ?key True (Write content (Reset False (CreateChunk True))) = (None, chunk)"
    and up: "fs_UploadFile (store s0) p (GetBytes chunk) = (None, store s1)" "cache s1 = cache (save_cached_file env p content s0)"
    using assms(1,7) ok st unfolding upload_file_def en
    by (auto simp: Let_def file_storage_def split: prod.splits option.splits coding_error.splits)
  obtain f where f: "encode_chunk (lib env) (opConfig env) ?rk ?nonce ?fk ?key True content = Inr f" "GetBytes chunk = f"
    using ch by (auto simp: Encrypt_def VerifyChecksum_def GetBytes_def Write_def Reset_def CreateChunk_def split: sum.splits if_splits)
  note down = upload_then_download(2) [OF d0(1) assms(4) up(1) refl d0(2) [OF assms(5)], unfolded f(2)]
  have "node_at (store s1) p = Some (FileNode f)"
    using arg_cong [OF down, of fst] by (auto simp: fs_DownloadFile_def path_clean_plain [OF assms(4)] split: option.splits fs_node.splits)
  then have len: "length f < 2 ^ 63" using assms(8) by simp
  obtain z where z: "stored_payload (lib env) (opConfig env) False False ?fk ?key f = Inr (z, False)"
    "decompress_data (lib env) z = Inr content"
    using decode_encoded [OF assms(6) f(1) len] by blast
  then obtain chunk' where dec: "Decrypt (lib env) (opConfig env) False False ?fk ?key (Write f (Reset False (CreateChunk True))) = Inr (False, chunk')"
    "GetBytes chunk' = content"
    by (auto simp: Decrypt_def Write_def Reset_def CreateChunk_def GetBytes_def)
  have "cached_file env p s1 = None \<or> cached_file env p s1 = Some content"
  proof (cases "IsCacheNeeded (storage env)")
    case True
    then have "cache s1 = snd (fs_UploadFile (cache s) p content)" using up(2) d0(3) by (simp add: save_cached_file_def)
    then show ?thesis
      using upload_then_download(1) [OF assms(3,4) surjective_pairing, of content] by (auto simp: cached_file_def split: sum.splits prod.splits)
  qed (simp add: cached_file_def)
  then show ?thesis
  proof (elim disjE)
    assume "cached_file env p s1 = None"
    then show ?thesis using down dec assms(1) by (simp add: downloadFile_def file_storage_def)
  qed (simp add: downloadFile_def)
qed

text \<open>
  C28. A snapshot uploaded to a local storage is downloaded again, through the cache or from the storage,
  whatever the compression, encryption and erasure coding, with everything its file keeps: the totals
  only when both are known, and not the hashes and lengths held in memory.  Its id becomes the one asked for.
\<close>

theorem snapshot_uploaded_downloads:
  assumes "storage env = file_storage c" and "disk_ok (store s)" and "disk_ok (cache s)" and "plain_path (snapshotPath i r)"
    and "node_at (store s) (snapshotPath i r) \<noteq> Some DirNode"
    and "coding_ok (lib env) (opConfig env) (snd (entropy env (snapshotPath i r))) (FileKey (opConfig env)) True"
    and "parse (render (MarshalJSON snap)) = Inr (MarshalJSON snap)"
    and "upload_file env created (snapshotPath i r) (snapshotPath i r) (render (MarshalJSON snap)) s = (None, created', s1)"
    and "list_all (\<lambda>n. case n of Some (FileNode b) \<Rightarrow> length b < 2 ^ 63 | _ \<Rightarrow> True) [node_at (store s1) (snapshotPath i r)]"
  shows "\<exists>s2. downloadSnapshot parse env rewriting i r True s1 = (Inr ((stored_snapshot snap)\<lparr>ID := i\<rparr>), s2)"
proof -
  obtain s2 where "downloadFile env rewriting (snapshotPath i r) (snapshotPath i r) s1 = (Inr (render (MarshalJSON snap)), s2)"
    using upload_file_download [OF assms(1-6,8,9)] by blast
  then show ?thesis using snapshot_json [where parse = parse, OF assms(7)] by (simp add: downloadSnapshot_def)
qed

definition file_example :: snapshot where
  "file_example = empty_snapshot\<lparr>ID := ''old'', Revision := 1, ChunkSequence := [''h''], FileSize := 3, NumberOfFiles := 1\<rparr>"

definition file_example_run :: "fatal option \<times> string list \<times> disk operator_state" where
  "file_example_run = upload_file example_env [] ''snapshots/new/1'' ''snapshots/new/1'' [1, 2] (example_state [(''snapshots'', DirNode)])"

lemma snapshot_uploaded_downloads_witness:
  "\<exists>s2. downloadSnapshot (\<lambda>_. Inr (MarshalJSON file_example)) example_env False ''new'' 1 True (snd (snd file_example_run))
    = (Inr (file_example\<lparr>ID := ''new''\<rparr>), s2)"
proof -
  have p: "snapshotPath ''new'' 1 = ''snapshots/new/1''" by code_simp
  have a: "storage example_env = file_storage False" "lib example_env = copy_lib\<lparr>blake2 := \<lambda>k d. take 2 d\<rparr>"
    "opConfig example_env = CreateConfig" "entropy example_env = (\<lambda>_. ([], replicate 12 7))" by (simp_all add: example_env_def)
  have b: "disk_ok (store (example_state [(''snapshots'', DirNode)]))" by code_simp
  have c: "disk_ok (cache (example_state [(''snapshots'', DirNode)]))" by code_simp
  have d: "plain_path (snapshotPath ''new'' 1)" by code_simp
  have e: "node_at (store (example_state [(''snapshots'', DirNode)])) (snapshotPath ''new'' 1) \<noteq> Some DirNode" by code_simp
  have f: "fst file_example_run = None" by code_simp
  have g: "(case node_at (store (snd (snd file_example_run))) ''snapshots/new/1'' of Some (FileNode b) \<Rightarrow> length b < 100 | _ \<Rightarrow> True)" by code_simp
  have run: "upload_file example_env [] (snapshotPath ''new'' 1) (snapshotPath ''new'' 1) ((\<lambda>_. [1, 2]) (MarshalJSON file_example))
      (example_state [(''snapshots'', DirNode)]) = (None, fst (snd file_example_run), snd (snd file_example_run))"
    using f unfolding p file_example_run_def by (metis prod.collapse)
  have len: "list_all (\<lambda>n. case n of Some (FileNode b) \<Rightarrow> length b < 2 ^ 63 | _ \<Rightarrow> True) [node_at (store (snd (snd file_example_run))) (snapshotPath ''new'' 1)]"
    using g unfolding p by (auto split: option.splits fs_node.splits)
  have ok: "coding_ok (lib example_env) (opConfig example_env) (snd (entropy example_env (snapshotPath ''new'' 1))) (FileKey (opConfig example_env)) True"
    using example_coding_ok unfolding a by simp
  have st: "stored_snapshot file_example = file_example" by (simp add: stored_snapshot_def file_example_def empty_snapshot_def)
  show ?thesis
    using snapshot_uploaded_downloads [where parse = "\<lambda>_. Inr (MarshalJSON file_example)" and render = "\<lambda>_. [1, 2]"
        and snap = file_example and rewriting = False, OF a(1) b c d e ok refl run len] unfolding st by simp
qed

end
