(* ===== verification/Prune.thy ===== *)
theory Prune
  imports Fossil_Collection Snapshot_Files
begin

text \<open>
  Pruning (\<^verbatim>\<open>PruneSnapshots\<close> in \<^verbatim>\<open>src/src/duplicacy_snapshotmanager.go\<close>): two-step fossil collection.  Step
  one selects the snapshots to delete, turns the chunks only they need into fossils and writes a fossil
  collection; step two, in a later run, deletes the fossils of a collection or brings them back.
\<close>

section \<open>Options\<close>

record prune_options =
  selfID :: string
  snapshotID :: string
  revisionsToBeDeleted :: "int list"
  tags :: "string list"
  retentions :: "string list"
  exhaustive :: bool
  exclusive :: bool
  ignoredIDs :: "string list"
  dry :: bool
  deleteOnly :: bool
  collectOnly :: bool

record retention_policy =
  Age :: int
  Interval :: int

text \<open>Digits as a number; one that does not fit is the largest \<^verbatim>\<open>int\<close>, since the error is ignored.\<close>

definition is_digits :: "string \<Rightarrow> bool" where
  "is_digits s \<longleftrightarrow> s \<noteq> [] \<and> list_all (\<lambda>c. digit_value c \<noteq> None) s"

definition number_value :: "string \<Rightarrow> int" where
  "number_value s = (case Atoi s of Some n \<Rightarrow> n | None \<Rightarrow> max_int)"

definition parse_retention :: "string \<Rightarrow> retention_policy option" where
  "parse_retention retention =
     (case split_on (CHR '':'') (TrimSpace retention) of
        [interval, age] \<Rightarrow>
          if is_digits interval \<and> is_digits age \<and> 1 \<le> number_value age \<and> 0 \<le> number_value interval
          then Some \<lparr>Age = number_value age, Interval = number_value interval\<rparr> else None
      | _ \<Rightarrow> None)"

definition retention_policies :: "prune_options \<Rightarrow> fatal + retention_policy list" where
  "retention_policies opt =
     (if revisionsToBeDeleted opt = [] \<and> retentions opt \<noteq> []
      then (case those (map parse_retention (retentions opt)) of
              None \<Rightarrow> Inl (LogError ''RETENTION_INVALID'') | Some ps \<Rightarrow> Inr ps)
      else Inr [])"

section \<open>Which snapshots are deleted\<close>

text \<open>
  The loop over the snapshots of one id keeps the policies that still apply, oldest age first, and the
  time of the last snapshot kept under the current one (0 for none).  \<open>days\<close> is \<^verbatim>\<open>getDaysBetween\<close>.
\<close>

fun skip_policies :: "int \<Rightarrow> retention_policy list \<Rightarrow> int \<Rightarrow> retention_policy list \<times> int" where
  "skip_policies age [] lastTime = ([], lastTime)"
| "skip_policies age (p # ps) lastTime = (if age < Age p then skip_policies age ps 0 else (p # ps, lastTime))"

definition flagged :: "snapshot \<Rightarrow> snapshot" where
  "flagged s = s\<lparr>Flag := True\<rparr>"

fun apply_retention ::
  "(int \<Rightarrow> int \<Rightarrow> int) \<Rightarrow> int \<Rightarrow> bool \<Rightarrow> string list \<Rightarrow> retention_policy list \<Rightarrow> int \<Rightarrow> snapshot list \<Rightarrow> snapshot list" where
  "apply_retention days now excl tgs ps lastTime [] = []"
| "apply_retention days now excl tgs ps lastTime (s # ss) =
     (if \<not> excl \<and> ss = [] then [s]
      else if tgs \<noteq> [] \<and> Tag s \<notin> set tgs then s # apply_retention days now excl tgs ps lastTime ss
      else case skip_policies (days (StartTime s) now) ps lastTime of
             ([], _) \<Rightarrow> s # ss
           | (p # ps', lastTime') \<Rightarrow>
               if Interval p = 0 then flagged s # apply_retention days now excl tgs (p # ps') lastTime' ss
               else if lastTime' \<noteq> 0 \<and> days lastTime' (StartTime s) < Interval p
               then flagged s # apply_retention days now excl tgs (p # ps') lastTime' ss
               else s # apply_retention days now excl tgs (p # ps') (StartTime s) ss)"

definition select_snapshots ::
  "prune_options \<Rightarrow> (int \<Rightarrow> int \<Rightarrow> int) \<Rightarrow> int \<Rightarrow> retention_policy list \<Rightarrow> snapshot_map \<Rightarrow> snapshot_map" where
  "select_snapshots opt days now policies all = map (\<lambda>(i, ss).
     (i, if snapshotID opt \<noteq> [] \<and> i \<noteq> snapshotID opt then ss
         else if revisionsToBeDeleted opt \<noteq> []
         then map (\<lambda>s. if Revision s \<in> set (revisionsToBeDeleted opt) then flagged s else s) ss
         else if policies \<noteq> []
         then (if length ss \<le> 1 then ss else apply_retention days now (exclusive opt) (tags opt) policies 0 ss)
         else if tags opt \<noteq> [] then map (\<lambda>s. if Tag s \<in> set (tags opt) then flagged s else s) ss
         else ss)) all"

text \<open>Snapshots are not flagged when they are loaded, so the flagged ones are those counted.\<close>

definition toBeDeleted :: "snapshot_map \<Rightarrow> nat" where
  "toBeDeleted all = length (filter Flag (concat (map snd all)))"

section \<open>Collecting fossils\<close>

text \<open>
  The chunks of several snapshots, as \<^verbatim>\<open>expandSnapshots\<close> returns them
  (\<open>expandSnapshots_is_GetSnapshotChunks\<close>); a sequence that cannot be loaded ends the command.
\<close>

definition expand_all ::
  "(string \<Rightarrow> string) \<Rightarrow> (string list \<Rightarrow> string list option) \<Rightarrow> snapshot list \<Rightarrow> string list option" where
  "expand_all ident load ss = map_option concat (those (map (map_option fst \<circ> GetSnapshotChunks ident load False) ss))"

definition fossilizeChunk :: "string \<Rightarrow> string \<Rightarrow> bool \<Rightarrow> chunk_task" where
  "fossilizeChunk chunkID path excl = path_task (if excl then ChunkOperationDelete else ChunkOperationFossilize) chunkID path"

definition latest_flagged :: "snapshot_map \<Rightarrow> bool" where
  "latest_flagged all = list_ex (\<lambda>(_, ss). ss \<noteq> [] \<and> Flag (last ss)) all"

definition keptSnapshots :: "snapshot_map \<Rightarrow> snapshot list" where
  "keptSnapshots all = filter (\<lambda>s. \<not> Flag s) (concat (map snd all))"

definition deletedSnapshots :: "snapshot_map \<Rightarrow> snapshot list" where
  "deletedSnapshots all = filter Flag (concat (map snd all))"

definition kept_chunks ::
  "(string \<Rightarrow> string) \<Rightarrow> (string list \<Rightarrow> string list option) \<Rightarrow> prune_options \<Rightarrow> snapshot_map \<Rightarrow> fatal + string list" where
  "kept_chunks ident load opt all =
     (if \<not> exclusive opt \<and> latest_flagged all then Inl (LogError ''SNAPSHOT_DELETE'')
      else case expand_all ident load (keptSnapshots all) of None \<Rightarrow> Inl (LogError ''SNAPSHOT_CHUNK'') | Some ids \<Rightarrow> Inr ids)"

text \<open>The tasks queued; the order of a map's chunks is arbitrary.\<close>

definition pruneSnapshotsNonExhaustive ::
  "(string \<Rightarrow> string) \<Rightarrow> (string list \<Rightarrow> string list option) \<Rightarrow> prune_options \<Rightarrow> snapshot_map \<Rightarrow> fatal + chunk_task list" where
  "pruneSnapshotsNonExhaustive ident load opt all =
     bindE (kept_chunks ident load opt all) (\<lambda>kept.
       case expand_all ident load (deletedSnapshots all) of
         None \<Rightarrow> Inl (LogError ''SNAPSHOT_CHUNK'')
       | Some targets \<Rightarrow>
           Inr (if dry opt then []
                else map (\<lambda>chunk. fossilizeChunk chunk [] (exclusive opt)) (filter (\<lambda>c. c \<notin> set kept) (remdups targets))))"

text \<open>
  The scan of all files below \<^verbatim>\<open>chunks/\<close>: the files and referenced chunks met so far, the tasks queued, and
  the fossil collection.
\<close>

record prune_scan =
  uniqueFiles :: "string list"
  metChunks :: "string list"
  queued :: "chunk_task list"
  collection :: fossil_collection

definition enqueue :: "chunk_task \<Rightarrow> prune_scan \<Rightarrow> prune_scan" where
  "enqueue t sc = sc\<lparr>queued := queued sc @ [t]\<rparr>"

definition scan_file :: "prune_options \<Rightarrow> string list \<Rightarrow> string list \<Rightarrow> string \<Rightarrow> prune_scan \<Rightarrow> prune_scan" where
  "scan_file opt referencedFossils referencedChunks file sc =
     (if file \<in> set (uniqueFiles sc) then sc
      else
        let sc = sc\<lparr>uniqueFiles := file # uniqueFiles sc\<rparr> in
        if file = [] \<or> is_directory file then sc
        else if has_suffix file ''.tmp''
        then (if dry opt then sc
              else if exclusive opt then enqueue (path_task ChunkOperationDelete [] (chunkDir @ file)) sc
              else sc\<lparr>collection := AddTemporary file (collection sc)\<rparr>)
        else if has_suffix file ''.fsl''
        then (if file \<in> set referencedFossils then sc
              else
                let chunk = TrimSuffix (chunkIDFromListedPath file) ''.fsl'' in
                if dry opt then sc
                else if chunk \<in> set referencedChunks then enqueue (path_task ChunkOperationResurrect chunk (chunkDir @ file)) sc
                else if exclusive opt then enqueue (path_task ChunkOperationDelete chunk (chunkDir @ file)) sc
                else sc\<lparr>collection := AddFossil (chunkDir @ file) (collection sc)\<rparr>)
        else
          let chunk = chunkIDFromListedPath file in
          if \<not> hex_id chunk then sc
          else if chunk \<notin> set referencedChunks
          then (if dry opt then sc else enqueue (fossilizeChunk chunk (chunkDir @ file) (exclusive opt)) sc)
          else if chunk \<in> set (metChunks sc)
          then (if dry opt then sc else enqueue (path_task ChunkOperationDelete chunk (chunkDir @ file)) sc)
          else sc\<lparr>metChunks := chunk # metChunks sc\<rparr>)"

definition pruneSnapshotsExhaustive ::
  "(string \<Rightarrow> string) \<Rightarrow> (string list \<Rightarrow> string list option) \<Rightarrow> prune_options \<Rightarrow> string list \<Rightarrow> snapshot_map \<Rightarrow> string list
     \<Rightarrow> fossil_collection \<Rightarrow> fatal + (chunk_task list \<times> fossil_collection)" where
  "pruneSnapshotsExhaustive ident load opt referencedFossils all allFiles coll =
     bindE (kept_chunks ident load opt all) (\<lambda>kept.
       let sc = fold (scan_file opt referencedFossils kept) allFiles
                  \<lparr>uniqueFiles = [], metChunks = [], queued = [], collection = coll\<rparr>
       in Inr (queued sc, collection sc))"

section \<open>Deleting fossils\<close>

text \<open>
  The tasks for one deletable collection.  A fossil whose path is shorter than its directory makes the
  command panic after the tasks before it have been queued.
\<close>

definition fossil_chunk :: "string \<Rightarrow> string" where
  "fossil_chunk fossil = TrimSuffix (chunkIDFromListedPath (drop (length chunkDir) fossil)) ''.fsl''"

definition fossil_task :: "string list \<Rightarrow> string \<Rightarrow> chunk_task" where
  "fossil_task newChunks fossil =
     (let chunk = fossil_chunk fossil in
      path_task (if chunk \<in> set newChunks then ChunkOperationResurrect else ChunkOperationDelete) chunk fossil)"

definition collection_tasks :: "bool \<Rightarrow> string list \<Rightarrow> fossil_collection \<Rightarrow> chunk_task list \<times> fatal option" where
  "collection_tasks dryRn newChunks coll =
     (let good = takeWhile (\<lambda>f. length chunkDir \<le> length f) (Fossils coll);
          tasks = map (fossil_task newChunks) good;
          temporaries = map (path_task ChunkOperationDelete []) (Temporaries coll)
      in if good = Fossils coll then (if dryRn then [] else tasks @ temporaries, None)
         else (if dryRn then [] else tasks, Some RuntimePanic))"

text \<open>Revisions that the collection says were deleted but that are still there.\<close>

definition ghost_revision :: "snapshot_map \<Rightarrow> fossil_collection \<Rightarrow> bool" where
  "ghost_revision all coll =
     list_ex (\<lambda>(i, revisions). list_ex (\<lambda>revision.
       list_ex (\<lambda>s. revision = Revision s) (case map_of all i of Some ss \<Rightarrow> ss | None \<Rightarrow> [])) revisions) (DeletedRevisions coll)"

record deletion =
  deletionTasks :: "chunk_task list"
  maxCollectionNumber :: int
  referencedFossils :: "string list"
  cacheDisk :: disk

definition collectionDir :: string where
  "collectionDir = ''fossils''"

text \<open>What the code takes from outside: the chunk sequences, the JSON form of a collection, and the clock.\<close>

record prune_env =
  sequence :: "string list \<Rightarrow> string list option"
  unmarshal :: "bytes \<Rightarrow> fossil_collection option"
  marshal :: "fossil_collection \<Rightarrow> bytes"
  clock :: int
  endClock :: int
  daysBetween :: "int \<Rightarrow> int \<Rightarrow> int"

definition process_collection ::
  "(string \<Rightarrow> string) \<Rightarrow> bool \<Rightarrow> prune_env \<Rightarrow> prune_options \<Rightarrow> snapshot_map \<Rightarrow> string \<Rightarrow> deletion \<Rightarrow> fatal option \<times> deletion" where
  "process_collection ident strong penv opt all name del =
     (if \<not> is_digits name then (None, del)
      else
        let del = del\<lparr>maxCollectionNumber := max (number_value name) (maxCollectionNumber del)\<rparr>;
            file = joinPath collectionDir name
        in if collectOnly opt then (None, del)
        else case fst (fs_DownloadFile (cacheDisk del) file) of
               Inl _ \<Rightarrow> (Some (LogError ''FOSSIL_COLLECT''), del)
             | Inr b \<Rightarrow>
                 (case unmarshal penv b of
                    None \<Rightarrow> (Some (LogError ''FOSSIL_COLLECT''), del)
                  | Some coll \<Rightarrow>
                      if ghost_revision all coll then (None, del\<lparr>cacheDisk := snd (fs_DeleteFile (cacheDisk del) file)\<rparr>)
                      else
                        let del = del\<lparr>referencedFossils := referencedFossils del @ Fossils coll\<rparr>;
                            (isDeletable, news) = IsDeletable (clock penv) strong (ignoredIDs opt) all coll
                        in if \<not> (isDeletable \<or> exclusive opt) then (None, del)
                        else case expand_all ident (sequence penv) news of
                               None \<Rightarrow> (Some (LogError ''SNAPSHOT_CHUNK''), del)
                             | Some newChunks \<Rightarrow>
                                 let (tasks, panic) = collection_tasks (dry opt) newChunks coll;
                                     del = del\<lparr>deletionTasks := deletionTasks del @ tasks\<rparr>
                                 in if panic \<noteq> None then (panic, del)
                                    else (None, if dry opt then del else del\<lparr>cacheDisk := snd (fs_DeleteFile (cacheDisk del) file)\<rparr>)))"

fun process_collections ::
  "(string \<Rightarrow> string) \<Rightarrow> bool \<Rightarrow> prune_env \<Rightarrow> prune_options \<Rightarrow> snapshot_map \<Rightarrow> string list \<Rightarrow> deletion \<Rightarrow> fatal option \<times> deletion" where
  "process_collections ident strong penv opt all [] del = (None, del)"
| "process_collections ident strong penv opt all (name # names) del =
     (case process_collection ident strong penv opt all name del of
        (Some f, del) \<Rightarrow> (Some f, del)
      | (None, del) \<Rightarrow> process_collections ident strong penv opt all names del)"

section \<open>The snapshot cache\<close>

text \<open>
  Cleaning the cache on the local disk: the cached snapshot files that are not wanted or whose chunk
  sequence is nowhere to be found are deleted, then the cached chunks no remaining one needs.  \<open>None\<close>
  stands for a panic.
\<close>

definition find_exists :: "'s storage_ops \<Rightarrow> nesting \<Rightarrow> 's \<Rightarrow> string \<Rightarrow> bool option" where
  "find_exists st nst s chunkID =
     (case FindChunk st nst s chunkID False of
        Inl SliceOutOfRange \<Rightarrow> None
      | Inl (IOError _) \<Rightarrow> Some False
      | Inr (_, exist, _) \<Rightarrow> Some exist)"

fun chunks_available :: "'s operator_env \<Rightarrow> 's operator_state \<Rightarrow> string list \<Rightarrow> bool option" where
  "chunks_available env s [] = Some True"
| "chunks_available env s (i # is) =
     (case Option.bind (snapshotCache env) (\<lambda>nst. find_exists (file_storage False) nst (cache s) i) of
        None \<Rightarrow> None
      | Some True \<Rightarrow> chunks_available env s is
      | Some False \<Rightarrow>
          (case find_exists (storage env) (levels env) (store s) i of
             None \<Rightarrow> None
           | Some True \<Rightarrow> chunks_available env s is
           | Some False \<Rightarrow> Some False))"

definition delete_cached :: "string \<Rightarrow> 's operator_state \<Rightarrow> 's operator_state" where
  "delete_cached path s = s\<lparr>cache := snd (fs_DeleteFile (cache s) path)\<rparr>"

definition clean_snapshot_file ::
  "(bytes \<Rightarrow> string + (string \<times> json) list) \<Rightarrow> 's operator_env \<Rightarrow> string list \<Rightarrow> string \<Rightarrow> string list \<times> 's operator_state
     \<Rightarrow> fatal + (string list \<times> 's operator_state)" where
  "clean_snapshot_file parse env allSnapshotFiles file = (\<lambda>(chunks, s).
     let path = joinPath ''snapshots'' file in
     if file = [] then Inl RuntimePanic
     else if is_directory file then Inr (chunks, s)
     else if file \<notin> set allSnapshotFiles then Inr (chunks, delete_cached path s)
     else case fst (fs_DownloadFile (cache s) path) of
            Inl _ \<Rightarrow> Inr (chunks, s)
          | Inr description \<Rightarrow>
              (case CreateSnapshotFromDescription parse description of
                 Inl _ \<Rightarrow> Inl (LogError ''SNAPSHOT_CACHE'')
               | Inr snap \<Rightarrow>
                   (let ids = map (GetChunkIDFromHash (lib env) (opConfig env)) (ChunkSequence snap) in
                    case chunks_available env s ids of
                      None \<Rightarrow> Inl RuntimePanic
                    | Some False \<Rightarrow> Inr (chunks, delete_cached path s)
                    | Some True \<Rightarrow> Inr (chunks @ ids, s))))"

fun clean_snapshot_files ::
  "(bytes \<Rightarrow> string + (string \<times> json) list) \<Rightarrow> 's operator_env \<Rightarrow> string list \<Rightarrow> string list \<Rightarrow> string list \<times> 's operator_state
     \<Rightarrow> fatal + (string list \<times> 's operator_state)" where
  "clean_snapshot_files parse env all [] cs = Inr cs"
| "clean_snapshot_files parse env all (file # files) cs =
     bindE (clean_snapshot_file parse env all file cs) (clean_snapshot_files parse env all files)"

definition clean_chunk_file :: "string list \<Rightarrow> string \<Rightarrow> 's operator_state \<Rightarrow> 's operator_state" where
  "clean_chunk_file chunks file s =
     (if file \<noteq> [] \<and> \<not> is_directory file \<and> chunkIDFromListedPath file \<notin> set chunks
      then delete_cached (joinPath ''chunks'' file) s else s)"

definition listed_cache :: "disk \<Rightarrow> string \<Rightarrow> (fatal + string list) option" where
  "listed_cache d root = map_option (\<lambda>r. case r of Inl code \<Rightarrow> Inl (LogError code) | Inr files \<Rightarrow> Inr (map fst files))
     (ListAllFiles (file_storage False) d root)"

definition snapshot_file_name :: "string \<Rightarrow> snapshot \<Rightarrow> string" where
  "snapshot_file_name i s = i @ ''/'' @ Itoa (Revision s)"

definition CleanSnapshotCache ::
  "(bytes \<Rightarrow> string + (string \<times> json) list) \<Rightarrow> (string list \<Rightarrow> string list option) \<Rightarrow> 's operator_env \<Rightarrow> snapshot option
     \<Rightarrow> snapshot_map option \<Rightarrow> 's operator_state \<Rightarrow> (fatal option \<times> 's operator_state) option" where
  "CleanSnapshotCache parse load env latestSnapshot allSnapshots s =
     (let ident = GetChunkIDFromHash (lib env) (opConfig env);
          latest = (case latestSnapshot of None \<Rightarrow> Some [] | Some l \<Rightarrow> map_option fst (GetSnapshotChunks ident load True l));
          names = concat (map (\<lambda>(i, ss). map (snapshot_file_name i) ss) (case allSnapshots of None \<Rightarrow> [] | Some m \<Rightarrow> m))
                    @ (case latestSnapshot of None \<Rightarrow> [] | Some l \<Rightarrow> [snapshot_file_name (ID l) l])
      in if allSnapshots = None \<and> (case fs_GetFileInfo (cache s) ''fossils'' of Inr (exist, _, _) \<Rightarrow> exist | Inl _ \<Rightarrow> False)
         then Some (None, s)
         else case latest of
                None \<Rightarrow> Some (Some (LogError ''SNAPSHOT_CHUNK''), s)
              | Some chunks \<Rightarrow>
                  Option.bind (listed_cache (cache s) ''snapshots/'') (\<lambda>r.
                    case bindE r (\<lambda>files. clean_snapshot_files parse env names files (chunks, s)) of
                      Inl f \<Rightarrow> Some (Some f, s)
                    | Inr (chunks, s) \<Rightarrow>
                        map_option (\<lambda>r. case r of Inl f \<Rightarrow> (Some f, s) | Inr files \<Rightarrow> (None, fold (clean_chunk_file chunks) files s))
                          (listed_cache (cache s) chunkDir)))"

section \<open>The whole command\<close>

text \<open>All snapshots of the storage, by id, in the order of their revisions.\<close>

fun load_ids ::
  "(bytes \<Rightarrow> string + (string \<times> json) list) \<Rightarrow> 's operator_env \<Rightarrow> string list \<Rightarrow> 's operator_state
     \<Rightarrow> (fatal + snapshot_map) \<times> 's operator_state" where
  "load_ids parse env [] s = (Inr [], s)"
| "load_ids parse env (i # is) s =
     (case ListSnapshotRevisions (storage env) (store s) i of
        Inl _ \<Rightarrow> (Inl (LogError ''SNAPSHOT_LIST''), s)
      | Inr revisions \<Rightarrow>
          (case downloadSnapshots parse env False i revisions True s of
             (Inl f, s) \<Rightarrow> (Inl f, s)
           | (Inr snapshots, s) \<Rightarrow>
               (case load_ids parse env is s of
                  (Inl f, s) \<Rightarrow> (Inl f, s)
                | (Inr all, s) \<Rightarrow> (Inr (if snapshots = [] then all else (i, snapshots) # all), s))))"

definition load_all ::
  "(bytes \<Rightarrow> string + (string \<times> json) list) \<Rightarrow> 's operator_env \<Rightarrow> 's operator_state \<Rightarrow> (fatal + snapshot_map) \<times> 's operator_state" where
  "load_all parse env s =
     (case ListSnapshotIDs (storage env) (store s) of
        Inl _ \<Rightarrow> (Inl (LogError ''SNAPSHOT_LIST''), s)
      | Inr ids \<Rightarrow> load_ids parse env ids s)"

text \<open>The fossil collection is completed, and saved unless it is empty.\<close>

definition record_deleted :: "snapshot list \<Rightarrow> fossil_collection \<Rightarrow> fossil_collection" where
  "record_deleted ss coll = coll\<lparr>DeletedRevisions := fold (\<lambda>s m.
     AList.update (ID s) ((case map_of m (ID s) of None \<Rightarrow> [] | Some rs \<Rightarrow> rs) @ [Revision s]) m) ss (DeletedRevisions coll)\<rparr>"

definition save_collection ::
  "prune_env \<Rightarrow> prune_options \<Rightarrow> int \<Rightarrow> fossil_collection \<Rightarrow> 's operator_state \<Rightarrow> fatal option \<times> 's operator_state" where
  "save_collection penv opt maxNumber coll s =
     (if \<not> IsEmpty coll \<and> \<not> dry opt \<and> \<not> exclusive opt
      then (case fs_UploadFile (cache s) (joinPath collectionDir (Itoa (maxNumber + 1))) (marshal penv (coll\<lparr>collectionEndTime := endClock penv\<rparr>)) of
              (Some _, d) \<Rightarrow> (Some (LogError ''FOSSIL_COLLECT''), s\<lparr>cache := d\<rparr>)
            | (None, d) \<Rightarrow> (None, s\<lparr>cache := d\<rparr>))
      else (None, s))"

text \<open>The snapshot files are deleted one by one, as with one thread.\<close>

fun delete_snapshots :: "'s operator_env \<Rightarrow> snapshot list \<Rightarrow> 's operator_state \<Rightarrow> fatal option \<times> 's operator_state" where
  "delete_snapshots env [] s = (None, s)"
| "delete_snapshots env (snap # ss) s =
     (case DeleteFile (storage env) (store s) (snapshotPath (ID snap) (Revision snap)) of
        (Some _, t) \<Rightarrow> (Some (LogError ''SNAPSHOT_DELETE''), s\<lparr>store := t\<rparr>)
      | (None, t) \<Rightarrow> delete_snapshots env ss (delete_cached (snapshotPath (ID snap) (Revision snap)) (s\<lparr>store := t\<rparr>)))"

definition prune_finish ::
  "(bytes \<Rightarrow> string + (string \<times> json) list) \<Rightarrow> prune_env \<Rightarrow> 's operator_env \<Rightarrow> prune_options \<Rightarrow> snapshot_map \<Rightarrow> int
     \<Rightarrow> fossil_collection \<Rightarrow> 's operator_state \<Rightarrow> ((fatal + bool) \<times> 's operator_state) option" where
  "prune_finish parse penv env opt all maxNumber coll s =
     (case save_collection penv opt maxNumber (record_deleted (deletedSnapshots all) (fold AddFossil (fossils s) coll)) s of
        (Some f, s) \<Rightarrow> Some (Inl f, s)
      | (None, s) \<Rightarrow>
          (case delete_snapshots env (if dry opt then [] else deletedSnapshots all) s of
             (Some f, s) \<Rightarrow> Some (Inl f, s)
           | (None, s) \<Rightarrow>
               (let latest = (case map_of all (selfID opt) of
                                Some ss \<Rightarrow> if ss \<noteq> [] \<and> \<not> Flag (last ss) then Some (last ss) else None
                              | None \<Rightarrow> None)
                in map_option (\<lambda>(f, s). (case f of Some f \<Rightarrow> Inl f | None \<Rightarrow> Inr True, s))
                     (CleanSnapshotCache parse (sequence penv) env latest (Some all) s))))"

text \<open>
  The tasks are queued for the workers, which run them in an order of their own: \<open>order\<close> is any
  rearrangement, \<open>early\<close> the number of deletion tasks already run when the chunks are listed.  Whatever
  ends the command, the tasks already queued are run before it returns.
\<close>

definition drain ::
  "'s operator_env \<Rightarrow> (chunk_task list \<Rightarrow> chunk_task list) \<Rightarrow> chunk_task list \<Rightarrow> fatal + bool \<Rightarrow> 's operator_state
     \<Rightarrow> (fatal + bool) \<times> 's operator_state" where
  "drain env order tasks r s = (case run_tasks env (order tasks) s of (Some f, s) \<Rightarrow> (Inl f, s) | (None, s) \<Rightarrow> (r, s))"

definition chunk_listing :: "'s operator_env \<Rightarrow> prune_options \<Rightarrow> 's operator_state \<Rightarrow> (fatal + string list) option" where
  "chunk_listing env opt s =
     (if exhaustive opt
      then map_option (\<lambda>r. case r of Inl code \<Rightarrow> Inl (LogError code) | Inr files \<Rightarrow> Inr (map fst files))
             (ListAllFiles (storage env) (store s) chunkDir)
      else Some (Inr []))"

definition prune_tasks ::
  "(string \<Rightarrow> string) \<Rightarrow> prune_env \<Rightarrow> prune_options \<Rightarrow> string list \<Rightarrow> snapshot_map \<Rightarrow> string list \<Rightarrow> fossil_collection
     \<Rightarrow> fatal + (chunk_task list \<times> fossil_collection)" where
  "prune_tasks ident penv opt referenced all files coll =
     (if exhaustive opt then pruneSnapshotsExhaustive ident (sequence penv) opt referenced all files coll
      else bindE (pruneSnapshotsNonExhaustive ident (sequence penv) opt all) (\<lambda>tasks. Inr (tasks, coll)))"

definition prune_collect ::
  "(bytes \<Rightarrow> string + (string \<times> json) list) \<Rightarrow> prune_env \<Rightarrow> 's operator_env \<Rightarrow> prune_options \<Rightarrow> (chunk_task list \<Rightarrow> chunk_task list)
     \<Rightarrow> nat \<Rightarrow> snapshot_map \<Rightarrow> deletion \<Rightarrow> 's operator_state \<Rightarrow> ((fatal + bool) \<times> 's operator_state) option" where
  "prune_collect parse penv env opt order early all del s =
     (case CreateFossilCollection all of
        None \<Rightarrow> Some (drain env order (deletionTasks del) (Inl RuntimePanic) s)
      | Some coll \<Rightarrow>
          (case run_tasks env (take early (order (deletionTasks del))) s of
             (Some f, s) \<Rightarrow> Some (Inl f, s)
           | (None, s) \<Rightarrow>
               Option.bind (chunk_listing env opt s) (\<lambda>r.
                 let rest = drop early (order (deletionTasks del)) in
                 case bindE r (\<lambda>files. prune_tasks (GetChunkIDFromHash (lib env) (opConfig env)) penv opt (referencedFossils del) all files coll) of
                   Inl f \<Rightarrow> Some (drain env order rest (Inl f) s)
                 | Inr (tasks, coll) \<Rightarrow>
                     (case run_tasks env (order (rest @ tasks)) s of
                        (Some f, s) \<Rightarrow> Some (Inl f, s)
                      | (None, s) \<Rightarrow> prune_finish parse penv env opt all (maxCollectionNumber del) coll s))))"

definition PruneSnapshots ::
  "(bytes \<Rightarrow> string + (string \<times> json) list) \<Rightarrow> prune_env \<Rightarrow> 's operator_env \<Rightarrow> prune_options \<Rightarrow> (chunk_task list \<Rightarrow> chunk_task list)
     \<Rightarrow> nat \<Rightarrow> 's operator_state \<Rightarrow> ((fatal + bool) \<times> 's operator_state) option" where
  "PruneSnapshots parse penv env opt order early s =
     (case retention_policies opt of
        Inl f \<Rightarrow> Some (Inl f, s)
      | Inr policies \<Rightarrow>
          (case load_all parse env s of
             (Inl f, s) \<Rightarrow> Some (Inl f, s)
           | (Inr all, s) \<Rightarrow>
               (case fs_CreateDirectory (cache s) collectionDir of
                  (Some _, d) \<Rightarrow> Some (Inl (LogError ''FOSSIL_COLLECT''), s\<lparr>cache := d\<rparr>)
                | (None, d) \<Rightarrow>
                    (case fs_ListFiles d collectionDir of
                       Inl _ \<Rightarrow> Some (Inl (LogError ''FOSSIL_COLLECT''), s\<lparr>cache := d\<rparr>)
                     | Inr collections \<Rightarrow>
                         (let (f, del) = process_collections (GetChunkIDFromHash (lib env) (opConfig env)) (IsStrongConsistent (storage env))
                                penv opt all (map fst collections)
                                \<lparr>deletionTasks = [], maxCollectionNumber = 0, referencedFossils = [], cacheDisk = d\<rparr>;
                              s = s\<lparr>cache := cacheDisk del\<rparr>;
                              selected = select_snapshots opt (daysBetween penv) (clock penv) policies all
                          in case f of
                               Some f \<Rightarrow> Some (drain env order (deletionTasks del) (Inl f) s)
                             | None \<Rightarrow>
                                 if deleteOnly opt then Some (drain env order (deletionTasks del) (Inr True) s)
                                 else if toBeDeleted selected = 0 \<and> \<not> exhaustive opt
                                 then Some (drain env order (deletionTasks del) (Inr False) s)
                                 else prune_collect parse penv env opt order early selected del s)))))"

end
