(* ===== verification/Prune_Safety.thy ===== *)
theory Prune_Safety
  imports Prune
begin

text \<open>
  What pruning does to the chunks of the snapshots that stay: none is lost, and the fossils that new
  snapshots need become chunks again.
\<close>

section \<open>Tasks that spare a path\<close>

context file_store
begin

text \<open>A task that does not touch the path \<open>p\<close>, which is one of the chunk \<open>x\<close>.\<close>

definition spares :: "nesting \<Rightarrow> string \<Rightarrow> string \<Rightarrow> chunk_task \<Rightarrow> bool" where
  "spares nst x p t \<longleftrightarrow>
     (case operation t of
        ChunkOperationDelete \<Rightarrow>
          if filePath t = [] then proper_id nst (task_id t) \<and> task_id t \<noteq> x else valid (filePath t) \<and> filePath t \<noteq> p
      | ChunkOperationFossilize \<Rightarrow>
          if filePath t = [] then proper_id nst (task_id t) \<and> task_id t \<noteq> x
          else valid (filePath t) \<and> valid (filePath t @ ''.fsl'') \<and> filePath t \<noteq> p \<and> filePath t @ ''.fsl'' \<noteq> p
      | ChunkOperationResurrect \<Rightarrow> proper_id nst (task_id t) \<and> valid (filePath t) \<and> filePath t \<noteq> p
      | ChunkOperationFind \<Rightarrow> True
      | _ \<Rightarrow> False)"

lemma delete_other:
  "valid p \<Longrightarrow> valid q \<Longrightarrow> q \<noteq> p \<Longrightarrow> look (snd (DeleteFile st s q)) p = look s p"
  using delete_ok [of s q _ p] delete_fail [of s q] by (cases "DeleteFile st s q"; cases "fst (DeleteFile st s q)") auto

lemma move_other:
  "valid p \<Longrightarrow> valid q \<Longrightarrow> valid q' \<Longrightarrow> p \<noteq> q \<Longrightarrow> p \<noteq> q' \<Longrightarrow> look (snd (MoveFile st s q q')) p = look s p"
  using move_ok [of s q q' _ p] move_fail [of s q q'] by (cases "MoveFile st s q q'"; cases "fst (MoveFile st s q q')") auto

lemma fossilize_spares:
  assumes "storage env = st" and "valid p" and "valid q" and "valid (q @ ''.fsl'')" and "p \<noteq> q" and "p \<noteq> q @ ''.fsl''"
  shows "look (store (snd (fossilize_chunk env t q s))) p = look (store s) p"
proof -
  obtain r u where m: "MoveFile st (store s) q (q @ ''.fsl'') = (r, u)" by fastforce
  then have u: "look u p = look (store s) p" using move_other [OF assms(2-6), of "store s"] by simp
  have "look (snd (DeleteFile st u q)) p = look u p" using delete_other assms(2,3,5) by blast
  then show ?thesis using u m assms(1)
    by (auto simp: fossilize_chunk_def add_fossil_def Let_def split: option.split sum.split bool.split storage_error.split)
qed

lemma resurrect_spares:
  assumes "storage env = st" and "proper_id (levels env) x" and "p \<in> set (chunk_paths (levels env) x False)"
    and "look (store s) p \<noteq> None" and "proper_id (levels env) (task_id t)" and "valid (filePath t)" and "filePath t \<noteq> p"
  shows "look (store (snd (resurrect_chunk env t s))) p = look (store s) p"
proof -
  have v: "valid p" using chunk_paths_valid assms(2,3) by blast
  show ?thesis
  proof (cases "find_chunk env s (task_id t) False")
    case (Inr r)
    obtain cp ex n where r: "r = (cp, ex, n)" by (cases r)
    show ?thesis
    proof (cases ex)
      case True
      then show ?thesis using Inr r assms(1) delete_other [OF v assms(6,7)] by (simp add: resurrect_chunk_def)
    next
      case False
      then have f: "cp \<in> set (chunk_paths (levels env) (task_id t) False)" "valid cp"
        "\<not> stored (levels env) (store s) (task_id t) False"
        using find_chunk_missing [OF assms(1,5), of s False cp n] Inr r by simp_all
      then have "task_id t \<noteq> x" using assms(3,4) by (auto simp: stored_def)
      then have "p \<noteq> cp" using chunk_paths_unique [OF assms(2,5,3)] f(1) by blast
      then have "look (snd (MoveFile st (store s) (filePath t) cp)) p = look (store s) p"
        using move_other [OF v assms(6) f(2)] assms(7) by auto
      then show ?thesis using Inr r False assms(1) by (auto simp: resurrect_chunk_def split: prod.split option.split)
    qed
  qed (simp add: resurrect_chunk_def)
qed

lemma located_elsewhere:
  assumes "storage env = st" and "proper_id (levels env) x" and "p \<in> set (chunk_paths (levels env) x False)"
    and "filePath t = []" and "proper_id (levels env) (task_id t)" and "task_id t \<noteq> x"
    and "locate_chunk env t s = Inr q"
  shows "valid q \<and> valid (q @ ''.fsl'') \<and> p \<noteq> q \<and> p \<noteq> q @ ''.fsl''"
proof -
  have "\<exists>n. find_chunk env s (task_id t) False = Inr (q, True, n)"
    using assms(4,7) by (auto simp: locate_chunk_def split: sum.splits prod.splits bool.splits if_splits storage_error.splits)
  then have q: "q \<in> set (chunk_paths (levels env) (task_id t) False)" using find_chunk_found [OF assms(1,5)] by blast
  note f = fossil_path [OF q]
  show ?thesis
    using chunk_paths_valid [OF assms(5) q] chunk_paths_valid [OF assms(5) f]
      chunk_paths_unique [OF assms(2,5,3)] q f assms(6) by blast
qed

lemma located_path: "filePath t \<noteq> [] \<Longrightarrow> locate_chunk env t s = Inr (filePath t)"
  by (simp add: locate_chunk_def)

lemma located_store: "locate_chunk env t s = Inl r \<Longrightarrow> store (snd r) = store s"
  by (auto simp: locate_chunk_def add_fossil_def split: if_splits sum.splits prod.splits bool.splits storage_error.splits)

lemma Run_spares:
  assumes "storage env = st" and "proper_id (levels env) x" and "p \<in> set (chunk_paths (levels env) x False)"
    and "look (store s) p \<noteq> None" and "spares (levels env) x p t"
  shows "look (store (snd (Run env t s))) p = look (store s) p"
proof -
  have v: "valid p" using chunk_paths_valid assms(2,3) by blast
  show ?thesis
  proof (cases "operation t")
    case ChunkOperationDelete
    have d: "look (store (snd (delete_chunk env q s))) p = look (store s) p" if "locate_chunk env t s = Inr q" for q
    proof -
      have "valid q \<and> q \<noteq> p"
      proof (cases "filePath t = []")
        case True
        then show ?thesis using located_elsewhere [OF assms(1-3) True _ _ that] assms(5) ChunkOperationDelete
          by (auto simp: spares_def)
      next
        case False
        then show ?thesis using located_path [OF False, of env s] that assms(5) ChunkOperationDelete by (simp add: spares_def)
      qed
      then show ?thesis using delete_other [OF v] assms(1) by (simp add: delete_chunk_def)
    qed
    show ?thesis
    proof (cases "locate_chunk env t s")
      case (Inl r)
      then show ?thesis using located_store [OF Inl] ChunkOperationDelete by (simp add: Run_def)
    qed (use d ChunkOperationDelete in \<open>simp add: Run_def\<close>)
  next
    case ChunkOperationFossilize
    have d: "look (store (snd (fossilize_chunk env t q s))) p = look (store s) p" if "locate_chunk env t s = Inr q" for q
    proof -
      have "valid q \<and> valid (q @ ''.fsl'') \<and> p \<noteq> q \<and> p \<noteq> q @ ''.fsl''"
      proof (cases "filePath t = []")
        case True
        then show ?thesis using located_elsewhere [OF assms(1-3) True _ _ that] assms(5) ChunkOperationFossilize
          by (simp add: spares_def)
      next
        case False
        then show ?thesis using located_path [OF False, of env s] that assms(5) ChunkOperationFossilize by (auto simp: spares_def)
      qed
      then show ?thesis using fossilize_spares [OF assms(1) v] by blast
    qed
    show ?thesis
    proof (cases "locate_chunk env t s")
      case (Inl r)
      then show ?thesis using located_store [OF Inl] ChunkOperationFossilize by (simp add: Run_def)
    qed (use d ChunkOperationFossilize in \<open>simp add: Run_def\<close>)
  next
    case ChunkOperationResurrect
    then show ?thesis using resurrect_spares [OF assms(1-4)] assms(5) by (simp add: Run_def spares_def)
  next
    case ChunkOperationFind
    then show ?thesis by (simp add: Run_def check_chunk_def split: sum.split prod.split)
  qed (use assms(5) in \<open>simp_all add: spares_def\<close>)
qed

lemma run_tasks_spare:
  assumes "storage env = st" and "proper_id (levels env) x" and "p \<in> set (chunk_paths (levels env) x False)"
    and "look (store s) p \<noteq> None" and "list_all (spares (levels env) x p) ts"
  shows "look (store (snd (run_tasks env ts s))) p = look (store s) p"
  using assms(4,5)
proof (induction ts arbitrary: s)
  case (Cons t ts)
  obtain f s' where r: "Run env t s = (f, s')" by fastforce
  then have "look (store s') p = look (store s) p"
    using Run_spares [OF assms(1-3), of s t] Cons.prems by simp
  then show ?case using Cons r by (simp split: option.split)
qed simp

end

section \<open>Chunks of kept snapshots\<close>

text \<open>A path with a dot is not the path of a chunk.\<close>

lemma chunk_path_no_dot:
  assumes "usable_id nst x" and "p \<in> set (chunk_paths nst x False)"
  shows "CHR ''.'' \<notin> set p"
proof
  assume dot: "CHR ''.'' \<in> set p"
  note x = usable_proper [OF assms(1)]
  have "CHR ''.'' \<in> set (drop (length chunkDir) p)"
  proof -
    obtain l q where q: "p = q" "nested_path l x = Some q"
      using assms x by (auto simp: chunk_paths_def fs.proper_id_def fossil_suffix_def)
    have "take (length chunkDir) p = chunkDir" using nested_path_chunks [OF q(2)] q(1) by simp
    then have "p = chunkDir @ drop (length chunkDir) p" by (metis append_take_drop_id)
    moreover have "CHR ''.'' \<notin> set chunkDir" by (simp add: chunkDir_def)
    ultimately show ?thesis using dot by (metis Un_iff set_append)
  qed
  then have "CHR ''.'' \<in> set (chunkIDFromListedPath (drop (length chunkDir) p))"
    by (simp add: chunkIDFromListedPath_def remove_char_def)
  then have "CHR ''.'' \<in> set x" using fs.chunk_paths_id [OF x assms(2)] by (simp add: fossil_suffix_def)
  then show False using x by (simp add: fs.proper_id_def)
qed

lemma chunk_path_plain: "usable_id nst x \<Longrightarrow> p \<in> set (chunk_paths nst x f) \<Longrightarrow> plain_path p"
  using fs.chunk_paths_valid usable_proper by blast

lemma dot_suffix: "has_suffix f suf \<Longrightarrow> CHR ''.'' \<in> set suf \<Longrightarrow> CHR ''.'' \<in> set f"
  by (auto simp: has_suffix_iff)

text \<open>
  Tasks the prune queues on the disk: by id alone, or by a path below the storage.  \<open>prune_task\<close> is what
  all of them satisfy, whatever the state.
\<close>

definition prune_task :: "nesting \<Rightarrow> chunk_task \<Rightarrow> bool" where
  "prune_task nst t \<longleftrightarrow>
     (case operation t of
        ChunkOperationDelete \<Rightarrow> if filePath t = [] then usable_id nst (task_id t) else plain_path (filePath t)
      | ChunkOperationFossilize \<Rightarrow> if filePath t = [] then usable_id nst (task_id t)
          else plain_path (filePath t) \<and> plain_path (filePath t @ ''.fsl'')
      | ChunkOperationResurrect \<Rightarrow> usable_id nst (task_id t) \<and> plain_path (filePath t)
      | _ \<Rightarrow> False)"

lemma plain_fossil:
  assumes "plain_path p"
  shows "plain_path (p @ ''.fsl'')"
proof -
  have name: "plain_path (w @ ''.fsl'')" if "plain_name w" for w
  proof -
    have "4 < length (w @ ''.fsl'')" using that by (simp add: plain_name_def)
    then have "w @ ''.fsl'' \<noteq> ''.'' \<and> w @ ''.fsl'' \<noteq> ''..''" by (auto simp del: length_append dest: arg_cong [of _ _ length])
    then have "plain_name (w @ ''.fsl'')" using that by (simp add: plain_name_def)
    then show ?thesis by (rule plain_name_path)
  qed
  show ?thesis
    using assms
  proof (cases rule: plain_path_cases)
    case top
    then show ?thesis using name by blast
  next
    case (sub q w)
    then show ?thesis using name [of w] plain_path_append [of q "w @ ''.fsl''"] by simp
  qed
qed

text \<open>Such tasks keep the disk well-formed.\<close>

lemma find_chunk_plain:
  assumes "storage env = file_storage c" and "usable_id (levels env) x" and "find_chunk env s x f = Inr (p, ex, n)"
  shows "plain_path p"
proof -
  note x = usable_proper [OF assms(2)]
  have "p \<in> set (chunk_paths (levels env) x f)"
  proof (cases ex)
    case True
    then show ?thesis using fs.find_chunk_found [OF assms(1) x, of s f p n] assms(3) by simp
  next
    case False
    then show ?thesis using fs.find_chunk_missing [OF assms(1) x, of s f p n] assms(3) by simp
  qed
  then show ?thesis by (rule chunk_path_plain [OF assms(2)])
qed

lemma disk_ok_ops:
  assumes "disk_ok d"
  shows "disk_ok (snd (fs_DeleteFile d x))" and "plain_path p \<Longrightarrow> disk_ok (snd (fs_MoveFile d x p))"
    and "plain_path p \<Longrightarrow> disk_ok (snd (fs_UploadFile d p b))" and "disk_ok (snd (fs_DownloadFile d x))"
    and "plain_path p \<Longrightarrow> disk_ok (snd (fs_CreateDirectory d p))"
proof -
  have "plain_path ''chunks''" by code_simp
  then show "disk_ok (snd (fs_DeleteFile d x))" "disk_ok (snd (fs_DownloadFile d x))" using fs_keeps_disk_ok [OF assms] by blast+
  show "plain_path p \<Longrightarrow> disk_ok (snd (fs_MoveFile d x p))" "plain_path p \<Longrightarrow> disk_ok (snd (fs_UploadFile d p b))"
    "plain_path p \<Longrightarrow> disk_ok (snd (fs_CreateDirectory d p))"
    using fs_keeps_disk_ok [OF assms] by blast+
qed

lemma Run_disk_ok:
  assumes "storage env = file_storage c" and "prune_task (levels env) t" and "disk_ok (store s)"
  shows "disk_ok (store (snd (Run env t s)))"
proof -
  have st: "DeleteFile (storage env) = fs_DeleteFile" "MoveFile (storage env) = fs_MoveFile"
    using assms(1) by (simp_all add: file_storage_def)
  have loc: "plain_path q" if "locate_chunk env t s = Inr q" "operation t \<in> {ChunkOperationDelete, ChunkOperationFossilize}" for q
  proof (cases "filePath t = []")
    case True
    then have "\<exists>n. find_chunk env s (task_id t) False = Inr (q, True, n)"
      using that by (auto simp: locate_chunk_def split: sum.splits prod.splits bool.splits if_splits storage_error.splits)
    then show ?thesis using find_chunk_plain [OF assms(1)] True assms(2) that(2) by (auto simp: prune_task_def)
  next
    case False
    then show ?thesis using that assms(2) fs.located_path [OF False, of env s] by (auto simp: prune_task_def)
  qed
  show ?thesis
  proof (cases "operation t")
    case ChunkOperationDelete
    then show ?thesis
      using assms(3) disk_ok_ops(1) [OF assms(3)] fs.located_store [of env t s]
      by (auto simp: Run_def delete_chunk_def st split: sum.split)
  next
    case ChunkOperationFossilize
    have "disk_ok (store (snd (fossilize_chunk env t q s)))" if "locate_chunk env t s = Inr q" for q
    proof -
      obtain r u where m: "fs_MoveFile (store s) q (q @ ''.fsl'') = (r, u)" by fastforce
      have u: "disk_ok u" using disk_ok_ops(2) [OF assms(3) plain_fossil [OF loc [OF that]], of q] ChunkOperationFossilize m by simp
      then show ?thesis using m disk_ok_ops(1) [OF u]
        by (auto simp: fossilize_chunk_def add_fossil_def st Let_def split: option.split sum.split bool.split storage_error.split)
    qed
    then show ?thesis
      using assms(3) fs.located_store [of env t s] ChunkOperationFossilize by (auto simp: Run_def split: sum.split)
  next
    case ChunkOperationResurrect
    then have x: "usable_id (levels env) (task_id t)" using assms(2) by (simp add: prune_task_def)
    then show ?thesis
      using ChunkOperationResurrect assms(3) disk_ok_ops(1,2) [OF assms(3)] find_chunk_plain [OF assms(1) x, of s False]
      by (auto simp: Run_def resurrect_chunk_def st split: sum.split prod.split bool.split option.split)
       (metis snd_conv)+
  qed (use assms(2) in \<open>simp_all add: prune_task_def\<close>)
qed

lemma run_tasks_disk_ok:
  assumes "storage env = file_storage c" and "list_all (prune_task (levels env)) ts" and "disk_ok (store s)"
  shows "disk_ok (store (snd (run_tasks env ts s)))"
  using assms(2,3)
proof (induction ts arbitrary: s)
  case (Cons t ts)
  obtain f s' where r: "Run env t s = (f, s')" by fastforce
  then have "disk_ok (store s')" using Run_disk_ok [OF assms(1), of t s] Cons.prems by simp
  then show ?case using Cons r by (simp split: option.split)
qed simp

section \<open>The tasks of the deletion step\<close>

text \<open>They name files whose paths have a dot, which no chunk has.\<close>

definition gentle :: "nesting \<Rightarrow> chunk_task \<Rightarrow> bool" where
  "gentle nst t \<longleftrightarrow> plain_path (filePath t) \<and> CHR ''.'' \<in> set (filePath t)
     \<and> (operation t = ChunkOperationDelete \<or> operation t = ChunkOperationResurrect \<and> usable_id nst (task_id t))"

definition collection_ok :: "fossil_collection \<Rightarrow> bool" where
  "collection_ok coll \<longleftrightarrow> list_all (\<lambda>f. plain_path f \<and> CHR ''.'' \<in> set f) (Fossils coll @ Temporaries coll)"

lemma gentle_spares:
  assumes "gentle nst t" and "usable_id nst x" and "p \<in> set (chunk_paths nst x False)"
  shows "fs.spares nst x p t"
proof -
  have "filePath t \<noteq> []" "filePath t \<noteq> p" using assms(1) chunk_path_no_dot [OF assms(2,3)] by (auto simp: gentle_def)
  then show ?thesis using assms(1) usable_proper [of nst "task_id t"] by (auto simp: gentle_def fs.spares_def)
qed

lemma gentle_prune_task: "gentle nst t \<Longrightarrow> prune_task nst t"
  using plain_path_nonempty by (auto simp: gentle_def prune_task_def)

lemma run_spares_on_disk:
  assumes "storage env = file_storage c" and "usable_id (levels env) x" and "p \<in> set (chunk_paths (levels env) x False)"
    and "node_at (store s) p \<noteq> None" and "list_all (fs.spares (levels env) x p) ts" and "run_tasks env ts s = (r, s')"
  shows "node_at (store s') p = node_at (store s) p"
  using fs.run_tasks_spare [OF assms(1) usable_proper [OF assms(2)] assms(3-5)] assms(6) by simp

lemma on_diskI: "p \<in> set (chunk_paths nst x f) \<Longrightarrow> node_at d p \<noteq> None \<Longrightarrow> on_disk nst d x f"
  by (auto simp: on_disk_def list_ex_iff)

lemma on_diskE: "on_disk nst d x f \<Longrightarrow> (\<And>p. p \<in> set (chunk_paths nst x f) \<Longrightarrow> node_at d p \<noteq> None \<Longrightarrow> P) \<Longrightarrow> P"
  by (auto simp: on_disk_def list_ex_iff)

lemma run_gentle:
  assumes "storage env = file_storage c" and "usable_id (levels env) x" and "list_all (gentle (levels env)) ts"
    and "on_disk (levels env) (store s) x False" and "run_tasks env ts s = (r, s')"
  shows "on_disk (levels env) (store s') x False"
  using assms(4)
proof (rule on_diskE)
  fix p
  assume p: "p \<in> set (chunk_paths (levels env) x False)" "node_at (store s) p \<noteq> None"
  have "list_all (fs.spares (levels env) x p) ts"
    using assms(3) gentle_spares [OF _ assms(2) p(1)] by (auto simp: list_all_iff)
  from run_spares_on_disk [OF assms(1,2) p this assms(5)] show ?thesis using on_diskI [OF p(1)] p(2) by simp
qed

lemma collection_tasks_gentle:
  assumes "collection_ok coll" and "list_all (usable_id nst) newChunks"
  shows "list_all (gentle nst) (fst (collection_tasks dr newChunks coll))"
  using assms
  by (auto simp: collection_tasks_def Let_def collection_ok_def list_all_iff gentle_def fossil_task_def path_task_def
      dest: set_takeWhileD split: if_splits)

lemma expand_all_ids:
  assumes "expand_all ident load ss = Some ids" and "\<And>h. P (ident h)"
  shows "list_all P ids"
proof -
  have "list_all P (fst r)" if "GetSnapshotChunks ident load k s = Some r" for s r k
    using that assms(2) by (auto simp: GetSnapshotChunks_def own_chunks_def list_all_iff)
  then show ?thesis using assms(1)
  proof (induction ss arbitrary: ids)
    case (Cons s ss)
    then show ?case
      by (auto simp: expand_all_def list_all_append split: option.splits)
  qed (simp add: expand_all_def)
qed

lemma process_collections_gentle:
  assumes "\<And>h. usable_id nst (ident h)" and "\<And>b coll. unmarshal penv b = Some coll \<Longrightarrow> collection_ok coll"
    and "list_all (gentle nst) (deletionTasks del)"
    and "process_collections ident strong penv opt all names del = (f, del')"
  shows "list_all (gentle nst) (deletionTasks del')"
  using assms(3,4)
proof (induction names arbitrary: del)
  case (Cons name names)
  obtain f1 del1 where one: "process_collection ident strong penv opt all name del = (f1, del1)" by fastforce
  have "list_all (gentle nst) (deletionTasks del1)"
  proof -
    have "list_all (gentle nst) (fst (collection_tasks (dry opt) ids coll))"
      if "unmarshal penv b = Some coll" "expand_all ident load ss = Some ids" for b coll load ss ids
      using collection_tasks_gentle assms(2) [OF that(1)] expand_all_ids [where P = "usable_id nst", OF that(2) assms(1)] by blast
    then show ?thesis
      using one Cons.prems(1)
      by (auto simp: process_collection_def Let_def list_all_append split: if_splits sum.splits option.splits prod.splits)
        fastforce+
  qed
  then show ?case using Cons one by (auto split: option.splits)
qed simp

section \<open>The tasks of an exhaustive collection\<close>

text \<open>Which listed files are chunks, and the first copy of a chunk in a listing.\<close>

definition plain_file :: "string \<Rightarrow> bool" where
  "plain_file f \<longleftrightarrow> f \<noteq> [] \<and> \<not> is_directory f"

definition special_file :: "string \<Rightarrow> bool" where
  "special_file f \<longleftrightarrow> has_suffix f ''.tmp'' \<or> has_suffix f ''.fsl''"

definition chunk_file :: "string \<Rightarrow> bool" where
  "chunk_file f \<longleftrightarrow> plain_file f \<and> \<not> special_file f \<and> hex_id (chunkIDFromListedPath f)"

definition first_copy :: "string list \<Rightarrow> string \<Rightarrow> string option" where
  "first_copy files x = find (\<lambda>f. chunk_file f \<and> chunkIDFromListedPath f = x) files"

definition scan_task :: "string list \<Rightarrow> string list \<Rightarrow> chunk_task \<Rightarrow> string \<Rightarrow> bool" where
  "scan_task files kept t f \<longleftrightarrow> f \<in> set files \<and> plain_file f \<and> filePath t = chunkDir @ f
     \<and> (special_file f \<and> (operation t = ChunkOperationDelete \<or> operation t = ChunkOperationResurrect \<and> task_id t \<in> set kept)
        \<or> chunk_file f \<and> chunkIDFromListedPath f \<notin> set kept \<and> operation t \<in> {ChunkOperationDelete, ChunkOperationFossilize}
        \<or> chunk_file f \<and> operation t = ChunkOperationDelete
            \<and> (\<exists>g. first_copy files (chunkIDFromListedPath f) = Some g \<and> g \<noteq> f))"

lemma find_appended: "find P (xs @ ys) = (case find P xs of Some x \<Rightarrow> Some x | None \<Rightarrow> find P ys)"
  by (induction xs) auto

lemma scan_task_more: "scan_task files kept t f \<Longrightarrow> scan_task (files @ [g]) kept t f"
  by (auto simp: scan_task_def first_copy_def find_appended)

definition scan_inv :: "string list \<Rightarrow> string list \<Rightarrow> prune_scan \<Rightarrow> bool" where
  "scan_inv kept files sc \<longleftrightarrow>
     set (uniqueFiles sc) = set files
   \<and> (\<forall>x \<in> set kept. x \<in> set (metChunks sc) \<longleftrightarrow> first_copy files x \<noteq> None)
   \<and> (\<forall>t \<in> set (queued sc). \<exists>f. scan_task files kept t f)
   \<and> (\<forall>g \<in> set (Fossils (collection sc)). \<exists>f \<in> set files. plain_file f \<and> has_suffix f ''.fsl'' \<and> g = chunkDir @ f)
   \<and> (\<forall>f \<in> set (Temporaries (collection sc)). f \<in> set files \<and> plain_file f \<and> has_suffix f ''.tmp'')"

text \<open>
  What one file does: nothing, one task, one entry of the collection, or it is the first copy of a
  referenced chunk.
\<close>

lemma scan_file_cases:
  assumes "file \<notin> set (uniqueFiles sc)"
  defines "sc0 \<equiv> sc\<lparr>uniqueFiles := file # uniqueFiles sc\<rparr>" and "x \<equiv> chunkIDFromListedPath file"
  obtains (none) "scan_file opt ref kept file sc = sc0" "chunk_file file \<Longrightarrow> x \<in> set kept \<Longrightarrow> x \<in> set (metChunks sc)"
  | (task) t where "scan_file opt ref kept file sc = enqueue t sc0" "plain_file file" "filePath t = chunkDir @ file"
      "chunk_file file \<Longrightarrow> x \<in> set kept \<Longrightarrow> x \<in> set (metChunks sc)"
      "special_file file \<and> (operation t = ChunkOperationDelete \<or> operation t = ChunkOperationResurrect \<and> task_id t \<in> set kept)
        \<or> chunk_file file \<and> x \<notin> set kept \<and> operation t \<in> {ChunkOperationDelete, ChunkOperationFossilize}
        \<or> chunk_file file \<and> x \<in> set kept \<and> x \<in> set (metChunks sc) \<and> operation t = ChunkOperationDelete"
  | (fossil) "scan_file opt ref kept file sc = sc0\<lparr>collection := AddFossil (chunkDir @ file) (collection sc)\<rparr>"
      "plain_file file" "has_suffix file ''.fsl''" "\<not> chunk_file file"
  | (temporary) "scan_file opt ref kept file sc = sc0\<lparr>collection := AddTemporary file (collection sc)\<rparr>"
      "plain_file file" "has_suffix file ''.tmp''" "\<not> chunk_file file"
  | (first) "scan_file opt ref kept file sc = sc0\<lparr>metChunks := x # metChunks sc\<rparr>" "chunk_file file" "x \<in> set kept" "x \<notin> set (metChunks sc)"
proof -
  have pt: "operation (path_task op c p) = op" "task_id (path_task op c p) = c" "filePath (path_task op c p) = p" for op c p
    by (simp_all add: path_task_def)
  note res = that
  consider (dir) "\<not> plain_file file" | (tmp) "plain_file file" "has_suffix file ''.tmp''"
    | (fsl) "plain_file file" "\<not> has_suffix file ''.tmp''" "has_suffix file ''.fsl''"
    | (odd) "plain_file file" "\<not> special_file file" "\<not> hex_id x" | (chunk) "chunk_file file"
    unfolding chunk_file_def special_file_def x_def by blast
  then show ?thesis
  proof cases
    case dir
    then have "scan_file opt ref kept file sc = sc0" using assms(1) by (auto simp: scan_file_def sc0_def plain_file_def)
    moreover have "\<not> chunk_file file" using dir by (simp add: chunk_file_def)
    ultimately show ?thesis using none by blast
  next
    case tmp
    have nc: "\<not> chunk_file file" "special_file file" using tmp by (simp_all add: chunk_file_def special_file_def)
    have eq: "scan_file opt ref kept file sc = (if dry opt then sc0
        else if exclusive opt then enqueue (path_task ChunkOperationDelete [] (chunkDir @ file)) sc0
        else sc0\<lparr>collection := AddTemporary file (collection sc)\<rparr>)"
      using assms(1) tmp by (simp add: scan_file_def sc0_def plain_file_def Let_def)
    consider "dry opt" | "\<not> dry opt" "exclusive opt" | "\<not> dry opt" "\<not> exclusive opt" by blast
    then show ?thesis
    proof cases
      case 1
      then show ?thesis using none eq nc by simp
    next
      case 2
      then show ?thesis using task [of "path_task ChunkOperationDelete [] (chunkDir @ file)"] eq nc tmp by (simp add: pt)
    next
      case 3
      then show ?thesis using temporary eq nc tmp by simp
    qed
  next
    case fsl
    have nc: "\<not> chunk_file file" "special_file file" using fsl by (simp_all add: chunk_file_def special_file_def)
    let ?c = "TrimSuffix x ''.fsl''"
    have eq: "scan_file opt ref kept file sc = (if file \<in> set ref \<or> dry opt then sc0
        else if ?c \<in> set kept then enqueue (path_task ChunkOperationResurrect ?c (chunkDir @ file)) sc0
        else if exclusive opt then enqueue (path_task ChunkOperationDelete ?c (chunkDir @ file)) sc0
        else sc0\<lparr>collection := AddFossil (chunkDir @ file) (collection sc)\<rparr>)"
      using assms(1) fsl by (simp add: scan_file_def sc0_def x_def plain_file_def Let_def)
    consider "file \<in> set ref \<or> dry opt" | "\<not> (file \<in> set ref \<or> dry opt)" "?c \<in> set kept"
      | "\<not> (file \<in> set ref \<or> dry opt)" "?c \<notin> set kept" "exclusive opt"
      | "\<not> (file \<in> set ref \<or> dry opt)" "?c \<notin> set kept" "\<not> exclusive opt" by blast
    then show ?thesis
    proof cases
      case 1
      then show ?thesis using none eq nc by simp
    next
      case 2
      then show ?thesis using task [of "path_task ChunkOperationResurrect ?c (chunkDir @ file)"] eq nc fsl by (simp add: pt)
    next
      case 3
      then show ?thesis using task [of "path_task ChunkOperationDelete ?c (chunkDir @ file)"] eq nc fsl by (simp add: pt)
    next
      case 4
      then show ?thesis using fossil eq nc fsl by simp
    qed
  next
    case odd
    then have "scan_file opt ref kept file sc = sc0"
      using assms(1) by (simp add: scan_file_def sc0_def x_def plain_file_def special_file_def Let_def)
    moreover have "\<not> chunk_file file" using odd by (simp add: chunk_file_def x_def)
    ultimately show ?thesis using none by blast
  next
    case chunk
    have pl: "plain_file file" using chunk by (simp add: chunk_file_def)
    have eq: "scan_file opt ref kept file sc = (if x \<notin> set kept
          then (if dry opt then sc0 else enqueue (fossilizeChunk x (chunkDir @ file) (exclusive opt)) sc0)
          else if x \<in> set (metChunks sc)
          then (if dry opt then sc0 else enqueue (path_task ChunkOperationDelete x (chunkDir @ file)) sc0)
          else sc0\<lparr>metChunks := x # metChunks sc\<rparr>)"
      using assms(1) chunk by (simp add: scan_file_def sc0_def x_def chunk_file_def plain_file_def special_file_def Let_def)
    consider "x \<notin> set kept" "dry opt" | "x \<notin> set kept" "\<not> dry opt" | "x \<in> set kept" "x \<in> set (metChunks sc)" "dry opt"
      | "x \<in> set kept" "x \<in> set (metChunks sc)" "\<not> dry opt" | "x \<in> set kept" "x \<notin> set (metChunks sc)" by blast
    then show ?thesis
    proof cases
      case 1
      then show ?thesis using none eq by simp
    next
      case 2
      then show ?thesis using task [of "fossilizeChunk x (chunkDir @ file) (exclusive opt)"] eq chunk pl
        by (simp add: fossilizeChunk_def pt)
    next
      case 3
      then show ?thesis using none eq by simp
    next
      case 4
      then show ?thesis using task [of "path_task ChunkOperationDelete x (chunkDir @ file)"] eq chunk pl by (simp add: pt)
    next
      case 5
      then show ?thesis using first eq chunk by simp
    qed
  qed
qed

lemma first_copy_some: "first_copy files x \<noteq> None \<longleftrightarrow> (\<exists>f \<in> set files. chunk_file f \<and> chunkIDFromListedPath f = x)"
  by (auto simp: first_copy_def find_None_iff)

lemma scan_inv_step:
  assumes "scan_inv kept files sc"
  shows "scan_inv kept (files @ [file]) (scan_file opt ref kept file sc)"
proof -
  have inv: "set (uniqueFiles sc) = set files" "\<And>y. y \<in> set kept \<Longrightarrow> y \<in> set (metChunks sc) \<longleftrightarrow> first_copy files y \<noteq> None"
    "\<And>t. t \<in> set (queued sc) \<Longrightarrow> \<exists>f. scan_task files kept t f"
    "\<And>g. g \<in> set (Fossils (collection sc)) \<Longrightarrow> \<exists>f \<in> set files. plain_file f \<and> has_suffix f ''.fsl'' \<and> g = chunkDir @ f"
    "\<And>f. f \<in> set (Temporaries (collection sc)) \<Longrightarrow> f \<in> set files \<and> plain_file f \<and> has_suffix f ''.tmp''"
    using assms unfolding scan_inv_def by blast+
  have q: "\<exists>f. scan_task (files @ [file]) kept t f" if "t \<in> set (queued sc)" for t using inv(3) [OF that] scan_task_more by blast
  have fc: "first_copy (files @ [file]) y \<noteq> None \<longleftrightarrow> first_copy files y \<noteq> None \<or> chunk_file file \<and> chunkIDFromListedPath file = y" for y
    unfolding first_copy_some by auto
  show ?thesis
  proof (cases "file \<in> set (uniqueFiles sc)")
    case True
    then have "first_copy (files @ [file]) y \<noteq> None \<longleftrightarrow> first_copy files y \<noteq> None" for y
      using inv(1) unfolding first_copy_some by auto
    then show ?thesis using True inv q unfolding scan_inv_def by (auto simp: scan_file_def)
  next
    case False
    let ?x = "chunkIDFromListedPath file"
    show ?thesis
    proof (cases rule: scan_file_cases [OF False, of opt ref kept, case_names none task fossil temporary first])
      case none
      then show ?thesis using inv q fc unfolding scan_inv_def by auto
    next
      case (task t)
      have "scan_task (files @ [file]) kept t file"
      proof -
        have "\<exists>g. first_copy (files @ [file]) ?x = Some g \<and> g \<noteq> file" if known: "?x \<in> set kept" "?x \<in> set (metChunks sc)"
        proof -
          obtain g where g: "first_copy files ?x = Some g" using inv(2) known by auto
          then have "g \<in> set files" by (auto simp: first_copy_def find_Some_iff)
          then have "g \<noteq> file" using False inv(1) by auto
          then show ?thesis using g by (simp add: first_copy_def find_appended)
        qed
        then show ?thesis using task unfolding scan_task_def by auto
      qed
      then show ?thesis using task inv q fc unfolding scan_inv_def by (auto simp: enqueue_def)
    next
      case fossil
      then show ?thesis using inv q fc unfolding scan_inv_def by (auto simp: AddFossil_def)
    next
      case temporary
      then show ?thesis using inv q fc unfolding scan_inv_def by (auto simp: AddTemporary_def)
    next
      case first
      then show ?thesis using inv q fc unfolding scan_inv_def by auto
    qed
  qed
qed

lemma scan_inv_all:
  assumes "Fossils coll = []" and "Temporaries coll = []"
  shows "scan_inv kept files (fold (scan_file opt ref kept) files \<lparr>uniqueFiles = [], metChunks = [], queued = [], collection = coll\<rparr>)"
proof (induction files rule: rev_induct)
  case Nil
  then show ?case using assms by (simp add: scan_inv_def first_copy_def)
next
  case (snoc f fs)
  then show ?case using scan_inv_step by simp
qed

text \<open>
  In a tidy storage the files of \<^verbatim>\<open>chunks/\<close> named like a chunk lie where the chunk is looked for.
\<close>

definition tidy_disk :: "nesting \<Rightarrow> disk \<Rightarrow> bool" where
  "tidy_disk nst d \<longleftrightarrow> list_all (\<lambda>(p, n). n = DirNode \<or> \<not> has_prefix p chunkDir \<or> \<not> chunk_file (drop (length chunkDir) p)
     \<or> p \<in> set (chunk_paths nst (chunkIDFromListedPath (drop (length chunkDir) p)) False)) d"

text \<open>The files listed are those of the disk.\<close>

lemma chunk_listing_files:
  assumes "storage env = file_storage c" and "disk_ok (store s)" and "exhaustive opt"
    and "chunk_listing env opt s = Some (Inr files)"
  shows "plain_file f \<Longrightarrow> f \<in> set files \<longleftrightarrow> (\<exists>b. (chunkDir @ f, FileNode b) \<in> set (store s))"
proof -
  assume f: "plain_file f"
  have pl: "plain_path ''chunks''" by code_simp
  have cd: "chunkDir = ''chunks'' @ ''/''" by (simp add: chunkDir_def)
  have "\<forall>b. node_at (store s) ''chunks'' \<noteq> Some (FileNode b)"
  proof (intro allI notI)
    fix b
    assume "node_at (store s) ''chunks'' = Some (FileNode b)"
    then have "fs_ListFiles (store s) chunkDir = Inl ''not a directory''"
      using path_clean_slash [OF pl] by (simp add: cd fs_ListFiles_def)
    then have "ListAllFiles (file_storage c) (store s) chunkDir = Some (Inl ''LIST_FILES'')"
      unfolding ListAllFiles_def by (subst list_tree.simps) (simp add: file_storage_def)
    then show False using assms(1,3,4) by (simp add: chunk_listing_def)
  qed
  from ListAllFiles_tree [OF assms(2) pl this, of c, folded cd]
  obtain r where "ListAllFiles (file_storage c) (store s) chunkDir = Some (Inr r)"
    "mset r = mset (map (listed_node (Suc (length ''chunks''))) (below (store s) chunkDir))" by blast
  moreover have "Suc (length ''chunks'') = 7" by simp
  ultimately have r: "ListAllFiles (file_storage c) (store s) chunkDir = Some (Inr r)"
    "mset r = mset (map (listed_node 7) (below (store s) chunkDir))" by (simp_all only:)
  have files: "files = map fst r" using r(1) assms(1,3,4) by (simp add: chunk_listing_def)
  have sr: "set r = listed_node 7 ` set (below (store s) chunkDir)" using arg_cong [OF r(2), of set_mset] by simp
  have len: "length chunkDir = 7" by (simp add: chunkDir_def)
  have dir: "is_directory (p @ ''/'')" for p by (simp add: is_directory_def)
  show "f \<in> set files \<longleftrightarrow> (\<exists>b. (chunkDir @ f, FileNode b) \<in> set (store s))"
  proof
    assume "f \<in> set files"
    then obtain p n where p: "(p, n) \<in> set (store s)" "has_prefix p chunkDir" "f = fst (listed_node 7 (p, n))"
      unfolding files set_map sr below_def by auto
    then have "p = chunkDir @ drop 7 p" using len by (auto simp: has_prefix_iff)
    then show "\<exists>b. (chunkDir @ f, FileNode b) \<in> set (store s)"
      using p f dir by (cases n) (auto simp: plain_file_def)
  next
    assume "\<exists>b. (chunkDir @ f, FileNode b) \<in> set (store s)"
    then obtain b where "(chunkDir @ f, FileNode b) \<in> set (below (store s) chunkDir)" by (auto simp: below_def)
    then have "listed_node 7 (chunkDir @ f, FileNode b) \<in> set r" unfolding sr by blast
    then show "f \<in> set files" unfolding files using len by force
  qed
qed

lemma tidy_node:
  assumes "disk_ok d"
  shows "tidy_disk nst d \<longleftrightarrow> (\<forall>p b. node_at d p = Some (FileNode b) \<and> has_prefix p chunkDir \<and> chunk_file (drop (length chunkDir) p)
    \<longrightarrow> p \<in> set (chunk_paths nst (chunkIDFromListedPath (drop (length chunkDir) p)) False))"
proof -
  have mem: "(p, FileNode b) \<in> set d \<longleftrightarrow> node_at d p = Some (FileNode b)" for p b
  proof -
    have "distinct (map fst d)" using assms by (simp add: disk_ok_def)
    moreover have "(''.'', FileNode b) \<notin> set d" using disk_ok_root [OF assms] by force
    ultimately show ?thesis by (auto simp: node_at_def)
  qed
  have "tidy_disk nst d \<longleftrightarrow> (\<forall>p b. (p, FileNode b) \<in> set d \<and> has_prefix p chunkDir \<and> chunk_file (drop (length chunkDir) p)
      \<longrightarrow> p \<in> set (chunk_paths nst (chunkIDFromListedPath (drop (length chunkDir) p)) False))"
    unfolding tidy_disk_def list_all_iff by (auto, metis fs_node.exhaust)
  then show ?thesis unfolding mem .
qed

lemma tidy_mono:
  assumes "disk_ok d" and "disk_ok d'" and "tidy_disk nst d"
    and "\<And>p b. node_at d' p = Some (FileNode b) \<Longrightarrow> plain_path p
      \<Longrightarrow> (\<exists>b'. node_at d p = Some (FileNode b')) \<or> (\<exists>x. usable_id nst x \<and> p \<in> set (chunk_paths nst x False))"
  shows "tidy_disk nst d'"
  unfolding tidy_node [OF assms(2)]
proof (intro allI impI)
  fix p b
  assume p: "node_at d' p = Some (FileNode b) \<and> has_prefix p chunkDir \<and> chunk_file (drop (length chunkDir) p)"
  then have "p \<noteq> ''.''" by (auto simp: node_at_def)
  then have pl: "plain_path p" using disk_okD(1) [OF assms(2)] p by blast
  show "p \<in> set (chunk_paths nst (chunkIDFromListedPath (drop (length chunkDir) p)) False)"
    using assms(4) [OF conjunct1 [OF p] pl]
  proof (elim disjE exE conjE)
    fix b'
    assume "node_at d p = Some (FileNode b')"
    then show ?thesis using p assms(3) unfolding tidy_node [OF assms(1)] by blast
  next
    fix x
    assume x: "usable_id nst x" "p \<in> set (chunk_paths nst x False)"
    then show ?thesis using fs.chunk_paths_id [OF usable_proper [OF x(1)] x(2)] by (simp add: fossil_suffix_def)
  qed
qed

lemma delete_node: "plain_path p \<Longrightarrow> plain_path q \<Longrightarrow> node_at (snd (fs_DeleteFile d q)) p = Some n \<Longrightarrow> node_at d p = Some n"
  by (auto simp: fs_DeleteFile_def path_clean_plain plain_not_dot node_at_delete Let_def
      split: option.splits fs_node.splits if_splits)

lemma move_node: "plain_path p \<Longrightarrow> plain_path q \<Longrightarrow> plain_path q' \<Longrightarrow> node_at (snd (fs_MoveFile d q q')) p = Some n
    \<Longrightarrow> node_at d p = Some n \<or> p = q'"
  by (auto simp: fs_MoveFile_def path_clean_plain plain_not_dot node_at_delete node_at_update Let_def
      split: option.splits fs_node.splits if_splits)

lemma Run_tidy:
  assumes "storage env = file_storage c" and "gentle (levels env) t" and "disk_ok (store s)" and "tidy_disk (levels env) (store s)"
  shows "tidy_disk (levels env) (store (snd (Run env t s)))"
proof -
  have ok: "disk_ok (store (snd (Run env t s)))" by (rule Run_disk_ok [OF assms(1) gentle_prune_task [OF assms(2)] assms(3)])
  have pl: "plain_path (filePath t)" and ne: "filePath t \<noteq> []" using assms(2) by (auto simp: gentle_def)
  have st: "DeleteFile (storage env) = fs_DeleteFile" "MoveFile (storage env) = fs_MoveFile"
    using assms(1) by (simp_all add: file_storage_def)
  have loc: "locate_chunk env t s = Inr (filePath t)" by (rule fs.located_path [OF ne])
  show ?thesis
  proof (rule tidy_mono [OF assms(3) ok assms(4)])
    fix p b
    assume n: "node_at (store (snd (Run env t s))) p = Some (FileNode b)" and p: "plain_path p"
    show "(\<exists>b'. node_at (store s) p = Some (FileNode b')) \<or> (\<exists>x. usable_id (levels env) x \<and> p \<in> set (chunk_paths (levels env) x False))"
    proof (cases "operation t = ChunkOperationDelete")
      case True
      then have "node_at (snd (fs_DeleteFile (store s) (filePath t))) p = Some (FileNode b)"
        using n loc by (simp add: Run_def delete_chunk_def st)
      then show ?thesis using delete_node [OF p pl] by blast
    next
      case False
      then have op: "operation t = ChunkOperationResurrect" and u: "usable_id (levels env) (task_id t)"
        using assms(2) by (auto simp: gentle_def)
      have n': "node_at (store (snd (resurrect_chunk env t s))) p = Some (FileNode b)" using n op by (simp add: Run_def)
      show ?thesis
      proof (cases "find_chunk env s (task_id t) False")
        case (Inl e)
        then show ?thesis using n' by (simp add: resurrect_chunk_def)
      next
        case (Inr r)
        obtain cp ex k where r: "r = (cp, ex, k)" by (cases r)
        show ?thesis
        proof (cases ex)
          case True
          then have "node_at (snd (fs_DeleteFile (store s) (filePath t))) p = Some (FileNode b)"
            using n' Inr r by (simp add: resurrect_chunk_def st)
          then show ?thesis using delete_node [OF p pl] by blast
        next
          case False
          have cp: "cp \<in> set (chunk_paths (levels env) (task_id t) False)"
            using fs.find_chunk_missing [OF assms(1) usable_proper [OF u], of s False cp k] Inr r False by simp
          have "node_at (snd (fs_MoveFile (store s) (filePath t) cp)) p = Some (FileNode b)"
            using n' Inr r False by (simp add: resurrect_chunk_def st split: prod.splits option.splits)
          then show ?thesis using move_node [OF p pl chunk_path_plain [OF u cp]] u cp by blast
        qed
      qed
    qed
  qed
qed

lemma run_tasks_tidy:
  assumes "storage env = file_storage c" and "list_all (gentle (levels env)) ts" and "disk_ok (store s)" and "tidy_disk (levels env) (store s)"
  shows "tidy_disk (levels env) (store (snd (run_tasks env ts s)))"
  using assms(2-)
proof (induction ts arbitrary: s)
  case (Cons t ts)
  obtain f s' where r: "Run env t s = (f, s')" by fastforce
  have "disk_ok (store s')" using Run_disk_ok [OF assms(1) gentle_prune_task, of t s] Cons.prems r by simp
  moreover have "tidy_disk (levels env) (store s')" using Run_tidy [OF assms(1), of t s] Cons.prems r by simp
  ultimately show ?case using Cons r by (simp split: option.split)
qed simp

text \<open>One copy of every referenced chunk is spared by all tasks.\<close>

lemma chunk_path_file:
  assumes "usable_id nst x" and "p \<in> set (chunk_paths nst x False)"
  shows "\<exists>f. p = chunkDir @ f \<and> chunk_file f \<and> chunkIDFromListedPath f = x"
proof -
  note x = usable_proper [OF assms(1)]
  obtain l q where q: "nested_path l x = Some q" "p = q"
  proof -
    obtain l where "l \<in> set (readLevels nst)" "p = the (nested_path l x)"
      using assms(2) by (auto simp: chunk_paths_def fossil_suffix_def)
    moreover from this obtain q where "nested_path l x = Some q" using x unfolding fs.proper_id_def by blast
    ultimately show ?thesis using that by simp
  qed
  then have "p = chunkDir @ drop (length chunkDir) p" using nested_path_chunks by (metis append_take_drop_id)
  moreover define f where "f = drop (length chunkDir) p"
  ultimately have pf: "p = chunkDir @ f" by simp
  have i: "chunkIDFromListedPath f = x" using fs.chunk_paths_id [OF x assms(2)] by (simp add: f_def fossil_suffix_def)
  have h: "hex_id x" using assms(1) by (simp add: usable_id_def)
  have ne: "f \<noteq> []" using i h by (auto simp: chunkIDFromListedPath_def remove_char_def hex_id_def)
  have "\<not> is_directory f"
  proof
    assume "is_directory f"
    then obtain g where "f = g @ ''/''" by (metis append_butlast_last_id is_directory_def)
    then have "p = (chunkDir @ g) @ CHR ''/'' # []" using pf by simp
    then have "plain_path ((chunkDir @ g) @ CHR ''/'' # [])" using chunk_path_plain [OF assms] by simp
    then have "plain_path []" unfolding plain_path_append by blast
    then show False using plain_path_nonempty by blast
  qed
  moreover have "\<not> special_file f"
    using chunk_path_no_dot [OF assms] dot_suffix [of f "''.tmp''"] dot_suffix [of f "''.fsl''"] pf by (auto simp: special_file_def)
  ultimately show ?thesis using pf i h ne by (auto simp: chunk_file_def plain_file_def)
qed

lemma exhaustive_spares:
  assumes "storage env = file_storage c" and "disk_ok (store s)" and "tidy_disk (levels env) (store s)" and "exhaustive opt"
    and "chunk_listing env opt s = Some (Inr files)" and "list_all (usable_id (levels env)) kept" and "x \<in> set kept"
    and "on_disk (levels env) (store s) x False" and "scan_inv kept files sc"
  shows "\<exists>p \<in> set (chunk_paths (levels env) x False). node_at (store s) p \<noteq> None \<and> list_all (fs.spares (levels env) x p) (queued sc)"
    and "list_all (prune_task (levels env)) (queued sc)"
proof -
  have u: "usable_id (levels env) x" using assms(6,7) by (simp add: list_all_iff)
  note listed = chunk_listing_files [OF assms(1,2,4,5)]
  have node: "node_at (store s) (chunkDir @ f) = Some (FileNode b) \<and> plain_path (chunkDir @ f)" if f: "(chunkDir @ f, FileNode b) \<in> set (store s)" for f b
  proof -
    have "chunkDir @ f \<in> set (map fst (store s))" using f by force
    then have "plain_path (chunkDir @ f)" using assms(2) unfolding disk_ok_def list_all_iff by blast
    then show ?thesis using f assms(2) plain_not_dot by (auto simp: node_at_def disk_ok_def)
  qed
  have task: "\<exists>f b. scan_task files kept t f \<and> node_at (store s) (chunkDir @ f) = Some (FileNode b) \<and> plain_path (chunkDir @ f)"
    if t: "t \<in> set (queued sc)" for t
  proof -
    obtain f where f: "scan_task files kept t f" using assms(9) t unfolding scan_inv_def by blast
    then have "plain_file f" "f \<in> set files" by (simp_all add: scan_task_def)
    then obtain b where "(chunkDir @ f, FileNode b) \<in> set (store s)" using listed by blast
    then show ?thesis using f node by blast
  qed
  have dot: "CHR ''.'' \<in> set f" if "special_file f" for f
    using that dot_suffix [of f "''.tmp''"] dot_suffix [of f "''.fsl''"] by (auto simp: special_file_def)
  have gentle: "gentle (levels env) t"
    if f: "scan_task files kept t f" "plain_path (chunkDir @ f)" "special_file f" for t f
    using f dot [OF f(3)] assms(6) by (auto simp: scan_task_def chunk_file_def gentle_def list_all_iff)
  show "list_all (prune_task (levels env)) (queued sc)"
    unfolding list_all_iff
  proof
    fix t
    assume "t \<in> set (queued sc)"
    then obtain f where f: "scan_task files kept t f" "plain_path (chunkDir @ f)" using task by blast
    show "prune_task (levels env) t"
    proof (cases "special_file f")
      case True
      then show ?thesis using gentle f gentle_prune_task by blast
    next
      case False
      then show ?thesis using f plain_fossil [OF f(2)] by (auto simp: scan_task_def prune_task_def chunkDir_def)
    qed
  qed
  obtain p0 where p0: "p0 \<in> set (chunk_paths (levels env) x False)" "node_at (store s) p0 \<noteq> None"
    using assms(8) by (auto simp: on_disk_def list_ex_iff)
  obtain p where p: "p \<in> set (chunk_paths (levels env) x False)" "node_at (store s) p \<noteq> None"
    "(\<exists>f. p = chunkDir @ f \<and> first_copy files x = Some f) \<or> node_at (store s) p = Some DirNode"
  proof (cases "node_at (store s) p0 = Some DirNode")
    case True
    then show ?thesis using that p0 by blast
  next
    case False
    obtain f0 where f0: "p0 = chunkDir @ f0" "chunk_file f0" "chunkIDFromListedPath f0 = x" using chunk_path_file [OF u p0(1)] by blast
    obtain b where b: "node_at (store s) p0 = Some (FileNode b)" using False p0(2) by (metis fs_node.exhaust option.exhaust)
    then have "(chunkDir @ f0, FileNode b) \<in> set (store s)"
      using f0(1) plain_not_dot [OF chunk_path_plain [OF u p0(1)]] by (simp add: node_at_def map_of_SomeD)
    then have "f0 \<in> set files" using listed f0(2) by (auto simp: chunk_file_def)
    then obtain f1 where f1: "first_copy files x = Some f1" using f0(2,3) first_copy_some [of files x] by blast
    then have f1': "chunk_file f1" "chunkIDFromListedPath f1 = x" "f1 \<in> set files" by (auto simp: first_copy_def find_Some_iff)
    then obtain b1 where b1: "(chunkDir @ f1, FileNode b1) \<in> set (store s)" using listed by (auto simp: chunk_file_def)
    have "chunkDir @ f1 \<in> set (chunk_paths (levels env) x False)"
      using assms(3) f1' node [OF b1] unfolding tidy_node [OF assms(2)] by (metis append_eq_conv_conj has_prefix_append)
    then show ?thesis using that node [OF b1] f1 by blast
  qed
  have "fs.spares (levels env) x p t" if t: "t \<in> set (queued sc)" for t
  proof -
    obtain f b where f: "scan_task files kept t f" "node_at (store s) (chunkDir @ f) = Some (FileNode b)" "plain_path (chunkDir @ f)"
      using task [OF t] by blast
    show ?thesis
    proof (cases "special_file f")
      case True
      then show ?thesis using gentle f gentle_spares [OF _ u p(1)] by blast
    next
      case False
      have ne: "chunkDir @ f \<noteq> p"
      proof
        assume eq: "chunkDir @ f = p"
        then have f1: "first_copy files x = Some f" using p(3) f(2) by auto
        then have "chunkIDFromListedPath f = x" by (auto simp: first_copy_def find_Some_iff)
        then show False using f(1) False f1 assms(7) by (auto simp: scan_task_def)
      qed
      have "CHR ''.'' \<in> set ((chunkDir @ f) @ ''.fsl'')" by simp
      then have "(chunkDir @ f) @ ''.fsl'' \<noteq> p" using chunk_path_no_dot [OF u p(1)] by blast
      then show ?thesis using f False ne plain_fossil [OF f(3)] by (auto simp: scan_task_def fs.spares_def chunkDir_def)
    qed
  qed
  then show "\<exists>p \<in> set (chunk_paths (levels env) x False). node_at (store s) p \<noteq> None \<and> list_all (fs.spares (levels env) x p) (queued sc)"
    using p(1,2) by (auto simp: list_all_iff)
qed

end
