(* ===== verification/Prune_Correct.thy ===== *)
theory Prune_Correct
  imports Prune_Safety
begin

text \<open>
  The correctness of the prune command on a local storage: what survives a whole run, and what the
  deletion of a fossil collection does to its fossils.
\<close>

section \<open>Loading the snapshots\<close>

text \<open>Reading snapshot files from a local storage leaves it as it is, and the snapshots have the id of their directory.\<close>

lemma downloadFile_store:
  assumes "storage env = file_storage c" and "downloadFile env False path key s = (r, s')"
  shows "store s' = store s"
proof -
  have d: "snd (fs_DownloadFile e path) = e" for e by (simp add: fs_DownloadFile_def split: option.split fs_node.split)
  obtain q u where q: "DownloadFile (storage env) (store s) path = (q, u)" by fastforce
  have "u = store s" using d [of "store s"] q assms(1) by (simp add: file_storage_def)
  then show ?thesis using assms(2) q
    by (auto simp: downloadFile_def save_cached_file_def Let_def split: option.splits sum.splits coding_error.splits prod.splits if_splits)
qed

lemma downloadSnapshot_store:
  assumes "storage env = file_storage c" and "downloadSnapshot parse env False i revision listed s = (r, s')"
  shows "store s' = store s" and "r = Inr snap \<Longrightarrow> ID snap = i"
  using assms(2) downloadFile_store [OF assms(1)]
  by (auto simp: downloadSnapshot_def Let_def split: option.splits sum.splits prod.splits)

lemma downloadSnapshots_store:
  assumes "storage env = file_storage c"
  shows "downloadSnapshots parse env False i revisions listed s = (r, s')
    \<Longrightarrow> store s' = store s \<and> (\<forall>snaps. r = Inr snaps \<longrightarrow> list_all (\<lambda>snap. ID snap = i) snaps)"
proof (induction revisions arbitrary: s r s')
  case (Cons revision revisions)
  obtain r1 s1 where one: "downloadSnapshot parse env False i revision listed s = (r1, s1)" by fastforce
  obtain r2 s2 where two: "downloadSnapshots parse env False i revisions listed s1 = (r2, s2)" by fastforce
  show ?case
    using Cons.prems Cons.IH [OF two] downloadSnapshot_store [OF assms one] one two by (auto split: sum.splits)
qed simp

lemma load_ids_store:
  assumes "storage env = file_storage c"
  shows "load_ids parse env ids s = (r, s')
    \<Longrightarrow> store s' = store s \<and> (\<forall>all. r = Inr all \<longrightarrow> list_all (\<lambda>(i, ss). i \<in> set ids \<and> list_all (\<lambda>snap. ID snap = i) ss) all)"
proof (induction ids arbitrary: s r s')
  case (Cons i ids)
  show ?case
  proof (cases "ListSnapshotRevisions (storage env) (store s) i")
    case (Inr revisions)
    obtain r1 s1 where one: "downloadSnapshots parse env False i revisions True s = (r1, s1)" by fastforce
    obtain r2 s2 where two: "load_ids parse env ids s1 = (r2, s2)" by fastforce
    have a: "store s1 = store s" "\<And>snaps. r1 = Inr snaps \<Longrightarrow> list_all (\<lambda>snap. ID snap = i) snaps"
      using downloadSnapshots_store [OF assms one] by auto
    have b: "store s2 = store s1" "\<And>all. r2 = Inr all \<Longrightarrow> list_all (\<lambda>(i, ss). i \<in> set ids \<and> list_all (\<lambda>snap. ID snap = i) ss) all"
      using Cons.IH [OF two] by auto
    show ?thesis
    proof (cases r1)
      case (Inl f)
      then show ?thesis using Cons.prems one Inr a by auto
    next
      case r1: (Inr snaps)
      show ?thesis
      proof (cases r2)
        case (Inl f)
        then show ?thesis using Cons.prems one two Inr r1 a b by auto
      next
        case r2: (Inr all)
        have "r = Inr (if snaps = [] then all else (i, snaps) # all)" "s' = s2"
          using Cons.prems one two Inr r1 r2 by simp_all
        then show ?thesis using a b r1 r2 by (auto simp: list_all_iff split: if_splits)
      qed
    qed
  qed (use Cons.prems in auto)
qed simp

text \<open>Ids are names of directories, so the paths of the snapshot files are plain.\<close>

lemma listed_ids_plain:
  assumes "disk_ok d" and "ListSnapshotIDs (file_storage c) d = Inr ids" and "i \<in> set ids"
  shows "plain_path (''snapshots/'' @ i) \<and> CHR ''/'' \<notin> set i"
proof -
  have pl: "plain_path ''snapshots''" by code_simp
  obtain dirs where dirs: "fs_ListFiles d ''snapshots/'' = Inr dirs" and ids: "i \<in> set (map (\<lambda>(dir, _). butlast dir) (filter (\<lambda>(dir, _). is_directory dir) dirs))"
    using assms(2,3) by (auto simp: ListSnapshotIDs_def file_storage_def bindE_Inr)
  have clean: "path_clean ''snapshots/'' = ''snapshots''" using path_clean_slash [OF pl] by simp
  show ?thesis
  proof (cases "node_at d ''snapshots''")
    case None
    then show ?thesis using dirs ids clean by (simp add: fs_ListFiles_def)
  next
    case (Some n)
    then have dir: "node_at d ''snapshots'' = Some DirNode" using dirs clean by (cases n) (simp_all add: fs_ListFiles_def)
    have "mset dirs = mset (map (listed_node 10) (filter (\<lambda>(p, _). direct ''snapshots/'' p) d))"
      using ListFiles_dir [OF assms(1) pl dir] dirs by (simp add: eval_nat_numeral)
    then have sd: "set dirs = set (map (listed_node 10) (filter (\<lambda>(p, _). direct ''snapshots/'' p) d))" by (rule mset_eq_setD)
    obtain fl z where fl: "(fl, z) \<in> set dirs" "is_directory fl" "i = butlast fl" using ids by auto
    then obtain p n where p: "(p, n) \<in> set d" "direct ''snapshots/'' p" "(fl, z) = listed_node 10 (p, n)" using fl(1) unfolding sd by auto
    have pp: "p = ''snapshots/'' @ drop 10 p" using p(2) by (auto simp: direct_def has_prefix_iff)
    have ns: "CHR ''/'' \<notin> set (drop 10 p)" using p(2) by (simp add: direct_def eval_nat_numeral)
    have "n = DirNode"
    proof (cases n)
      case (FileNode b)
      then have "is_directory (drop 10 p)" using p(3) fl(2) by simp
      then show ?thesis using ns unfolding is_directory_def by (metis last_in_set)
    qed simp
    then have "i = drop 10 p" using p(3) fl(3) by simp
    moreover have "plain_path p"
    proof -
      have "p \<in> set (map fst d)" using p(1) by force
      then show ?thesis using assms(1) unfolding disk_ok_def list_all_iff by blast
    qed
    ultimately show ?thesis using pp ns by simp
  qed
qed

lemma Itoa_plain: "plain_name (Itoa r)"
proof -
  have d: "c \<noteq> CHR ''/'' \<and> c \<noteq> CHR ''.''" if "c \<in> set (decimal n)" for c n
  proof -
    obtain k where "k < 10" "c = digit k" using decimal_digits [OF \<open>c \<in> set (decimal n)\<close>] by blast
    then show ?thesis using digit_not_sign [of k] by simp
  qed
  have sub: "set (Itoa r) \<subseteq> insert (CHR ''-'') (set (decimal (nat r)) \<union> set (decimal (nat (- r))))"
    unfolding Itoa_def by (cases "r < 0") (auto simp del: decimal.simps)
  have "CHR ''/'' \<noteq> CHR ''-''" "CHR ''.'' \<noteq> CHR ''-''" by simp_all
  then have "CHR ''/'' \<notin> set (Itoa r)" "CHR ''.'' \<notin> set (Itoa r)" using sub d by blast+
  moreover have "Itoa r \<noteq> []" unfolding Itoa_def by (cases "r < 0") (simp_all del: decimal.simps)
  moreover have "Itoa r \<noteq> CHR ''.'' # t" for t
  proof
    assume "Itoa r = CHR ''.'' # t"
    then have "CHR ''.'' \<in> set (Itoa r)" by (simp only: list.set_intros)
    then show False using \<open>CHR ''.'' \<notin> set (Itoa r)\<close> by blast
  qed
  ultimately show ?thesis unfolding plain_name_def by simp
qed

lemma snapshotPath_plain:
  assumes "plain_path (''snapshots/'' @ i)"
  shows "plain_path (snapshotPath i r)"
proof -
  have "snapshotPath i r = (''snapshots/'' @ i) @ CHR ''/'' # Itoa r" by (simp add: snapshotPath_def snapshotDir_def)
  then show ?thesis using assms plain_name_path [OF Itoa_plain] by (simp only: plain_path_append simp_thms)
qed

definition plain_ids :: "snapshot_map \<Rightarrow> bool" where
  "plain_ids all \<longleftrightarrow> list_all (\<lambda>(_, ss). list_all (\<lambda>s. plain_path (''snapshots/'' @ ID s)) ss) all"

lemma load_all_store:
  assumes "storage env = file_storage c" and "disk_ok (store s)" and "load_all parse env s = (r, s')"
  shows "store s' = store s" and "r = Inr all \<Longrightarrow> plain_ids all"
proof -
  have "store s' = store s \<and> (\<forall>all. r = Inr all \<longrightarrow> plain_ids all)"
  proof (cases "ListSnapshotIDs (storage env) (store s)")
    case (Inr ids)
    have "plain_path (''snapshots/'' @ i)" if "i \<in> set ids" for i
      using listed_ids_plain [OF assms(2), of c ids i] Inr assms(1) that by simp
    moreover have "store s' = store s \<and> (\<forall>all. r = Inr all \<longrightarrow> list_all (\<lambda>(i, ss). i \<in> set ids \<and> list_all (\<lambda>snap. ID snap = i) ss) all)"
      using load_ids_store [OF assms(1), of parse ids s r s'] assms(3) Inr by (simp add: load_all_def)
    moreover have "plain_ids all" if all: "list_all (\<lambda>(i, ss). i \<in> set ids \<and> list_all (\<lambda>snap. ID snap = i) ss) all"
      and ids: "\<And>i. i \<in> set ids \<Longrightarrow> plain_path (''snapshots/'' @ i)" for all
      unfolding plain_ids_def list_all_iff
    proof (clarify)
      fix i ss snap
      assume m: "(i, ss) \<in> set all" "snap \<in> set ss"
      then have "i \<in> set ids" "ID snap = i" using all unfolding list_all_iff by auto
      then show "plain_path (''snapshots/'' @ ID snap)" using ids by (simp only:)
    qed
    ultimately show ?thesis by blast
  qed (use assms(3) in \<open>auto simp: load_all_def\<close>)
  then show "store s' = store s" "r = Inr all \<Longrightarrow> plain_ids all" by blast+
qed

section \<open>Deleting snapshot files spares the chunks\<close>

lemma chunk_not_snapshot:
  assumes "usable_id nst x" and "p \<in> set (chunk_paths nst x False)"
  shows "p \<noteq> snapshotPath i r"
proof -
  obtain f where "p = chunkDir @ f" using chunk_path_file [OF assms] by blast
  then show ?thesis by (simp add: chunkDir_def snapshotPath_def snapshotDir_def)
qed

lemma delete_snapshots_spares:
  assumes "storage env = file_storage c" and "usable_id (levels env) x" and "p \<in> set (chunk_paths (levels env) x False)"
  shows "list_all (\<lambda>s. plain_path (''snapshots/'' @ ID s)) ss \<Longrightarrow> delete_snapshots env ss s = (f, s')
    \<Longrightarrow> node_at (store s') p = node_at (store s) p"
proof (induction ss arbitrary: s)
  case (Cons snap ss)
  let ?q = "snapshotPath (ID snap) (Revision snap)"
  have q: "plain_path ?q" using Cons.prems(1) by (intro snapshotPath_plain) simp
  obtain r t where d: "fs_DeleteFile (store s) ?q = (r, t)" by fastforce
  have "node_at t p = node_at (store s) p"
    using fs.delete_other [OF chunk_path_plain [OF assms(2,3)] q, of c "store s"] chunk_not_snapshot [OF assms(2,3), of "ID snap" "Revision snap"] d
    by (simp add: file_storage_def)
  then show ?case
    using Cons d assms(1) by (auto simp: file_storage_def delete_cached_def split: option.splits)
qed simp

lemma clean_snapshot_files_store: "clean_snapshot_files parse env names fls (chunks, s) = Inr (chunks', s') \<Longrightarrow> store s' = store s"
proof (induction fls arbitrary: chunks s)
  case (Cons fl fls)
  then obtain chunks1 s1 where one: "clean_snapshot_file parse env names fl (chunks, s) = Inr (chunks1, s1)"
    "clean_snapshot_files parse env names fls (chunks1, s1) = Inr (chunks', s')" by (auto simp: bindE_Inr)
  then have "store s1 = store s"
    by (auto simp: clean_snapshot_file_def delete_cached_def Let_def split: if_splits sum.splits option.splits bool.splits)
  then show ?case using Cons.IH [OF one(2)] by simp
qed simp

lemma CleanSnapshotCache_store:
  assumes "CleanSnapshotCache parse load env latest all s = Some (f, s')"
  shows "store s' = store s"
proof -
  have chunk: "store (fold (clean_chunk_file chunks) fls s) = store s" for chunks fls s
    by (induction fls arbitrary: s) (simp_all add: clean_chunk_file_def delete_cached_def)
  have two: "store t' = store t" if "map_option (\<lambda>r. case r of Inl f \<Rightarrow> (Some f, t) | Inr files \<Rightarrow> (None, fold (clean_chunk_file chunks) files t)) l = Some (g, t')"
    for t t' chunks l g
    using that chunk by (cases "the l") auto
  have one: "store t' = store t"
    if "(case bindE r (\<lambda>files. clean_snapshot_files parse env names files (chunks, t)) of
           Inl f \<Rightarrow> Some (Some f, t)
         | Inr (chunks, s) \<Rightarrow> map_option (\<lambda>r. case r of Inl f \<Rightarrow> (Some f, s) | Inr files \<Rightarrow> (None, fold (clean_chunk_file chunks) files s)) (l s))
        = Some (g, t')" for r names chunks t l g t'
  proof (cases "bindE r (\<lambda>files. clean_snapshot_files parse env names files (chunks, t))")
    case (Inr cs)
    obtain chunks1 s1 where cs: "cs = (chunks1, s1)" by (cases cs)
    then have "store s1 = store t" using Inr clean_snapshot_files_store by (auto simp: bindE_Inr)
    moreover have "map_option (\<lambda>r. case r of Inl f \<Rightarrow> (Some f, s1) | Inr files \<Rightarrow> (None, fold (clean_chunk_file chunks1) files s1)) (l s1) = Some (g, t')"
      using that by (simp only: Inr cs sum.case prod.case)
    ultimately show ?thesis using two by metis
  qed (use that in simp)
  show ?thesis
    using assms one by (auto simp: CleanSnapshotCache_def Let_def bind_eq_Some_conv split: if_splits option.splits)
qed

lemma prune_finish_spares:
  assumes "storage env = file_storage c" and "usable_id (levels env) x" and "p \<in> set (chunk_paths (levels env) x False)"
    and "plain_ids all" and "prune_finish parse penv env opt all maxNumber coll s = Some (r, s')"
  shows "node_at (store s') p = node_at (store s) p"
proof -
  obtain f1 s1 where one: "save_collection penv opt maxNumber (record_deleted (deletedSnapshots all) (fold AddFossil (fossils s) coll)) s = (f1, s1)"
    by fastforce
  have s1: "store s1 = store s" using one by (auto simp: save_collection_def split: if_splits prod.splits option.splits)
  obtain f2 s2 where two: "delete_snapshots env (if dry opt then [] else deletedSnapshots all) s1 = (f2, s2)" by fastforce
  have "list_all (\<lambda>s. plain_path (''snapshots/'' @ ID s)) (if dry opt then [] else deletedSnapshots all)"
    using assms(4) by (auto simp: deletedSnapshots_def plain_ids_def list_all_iff simp del: append_Cons)
  from delete_snapshots_spares [OF assms(1-3) this two] have s2: "node_at (store s2) p = node_at (store s) p" using s1 by simp
  have "store s' = store s1 \<or> store s' = store s2"
    using assms(5) one two CleanSnapshotCache_store
    by (fastforce simp: prune_finish_def Let_def split: option.splits)
  then show ?thesis using s1 s2 by auto
qed

section \<open>A whole run\<close>

lemma apply_retention_ids: "map ID (apply_retention days now excl tgs ps lastTime ss) = map ID ss"
  by (induction ss arbitrary: ps lastTime) (auto simp: flagged_def split: list.split prod.split)

lemma select_ids:
  "list_all (\<lambda>(_, ss). list_all (\<lambda>s. P (ID s)) ss) (select_snapshots opt days now policies all)
    \<longleftrightarrow> list_all (\<lambda>(_, ss). list_all (\<lambda>s. P (ID s)) ss) all"
proof -
  have m: "list_all P (map ID ss) \<longleftrightarrow> list_all (\<lambda>s. P (ID s)) ss" for P ss by (simp add: list.pred_map comp_def)
  have r: "list_all (\<lambda>s. P (ID s)) (apply_retention days now excl tgs ps l ss) \<longleftrightarrow> list_all (\<lambda>s. P (ID s)) ss" for excl tgs ps l ss
    unfolding m [symmetric] apply_retention_ids ..
  have f: "list_all (\<lambda>s. P (ID s)) (map (\<lambda>s. if Q s then flagged s else s) ss) \<longleftrightarrow> list_all (\<lambda>s. P (ID s)) ss" for Q ss
    by (induction ss) (simp_all add: flagged_def)
  show ?thesis unfolding select_snapshots_def list.pred_map comp_def
    by (rule arg_cong [of _ _ "\<lambda>Q. list_all Q all"]) (auto simp only: fun_eq_iff split_beta r f fst_conv snd_conv split: if_split)
qed

lemma select_plain: "plain_ids all \<Longrightarrow> plain_ids (select_snapshots opt days now policies all)"
  unfolding plain_ids_def by (simp only: select_ids [of "\<lambda>i. plain_path (''snapshots/'' @ i)"])

lemma expand_all_mem:
  assumes "expand_all ident load ss = Some ids" and "s \<in> set ss" and "GetSnapshotChunks ident load k s = Some r" and "x \<in> set (fst r)"
  shows "x \<in> set ids"
proof -
  have "map_option fst (GetSnapshotChunks ident load False s) = Some (fst r)"
    using assms(3) by (auto simp: GetSnapshotChunks_def)
  then show ?thesis using assms(1,2,4)
  proof (induction ss arbitrary: ids)
    case (Cons t ss)
    then show ?case by (auto simp: expand_all_def split: option.splits)
  qed simp
qed

lemma list_all_order: "mset (order ts) = mset ts \<Longrightarrow> list_all P (order ts) \<longleftrightarrow> list_all P ts"
  by (metis list_all_iff mset_eq_setD)

lemma drain_keeps:
  assumes "storage env = file_storage c" and "usable_id (levels env) x" and "\<And>ts. mset (order ts) = mset ts"
    and "list_all (gentle (levels env)) ts" and "on_disk (levels env) (store s) x False" and "drain env order ts r s = (r', s')"
  shows "on_disk (levels env) (store s') x False"
proof -
  obtain f t where run: "run_tasks env (order ts) s = (f, t)" by fastforce
  have "list_all (gentle (levels env)) (order ts)" using assms(4) list_all_order [of order ts, OF assms(3)] by blast
  from run_gentle [OF assms(1,2) this assms(5) run] show ?thesis
    using assms(6) run by (auto simp: drain_def split: option.splits)
qed

text \<open>The tasks of the collection step leave one copy of every chunk of a kept snapshot alone.\<close>

lemma prune_tasks_spare:
  assumes "storage env = file_storage c" and "disk_ok (store s)" and "exhaustive opt \<Longrightarrow> tidy_disk (levels env) (store s)"
    and "chunk_listing env opt s = Some (Inr fls)" and "\<And>h. usable_id (levels env) (ident h)"
    and "prune_tasks ident penv opt ref all fls coll = Inr (ts, coll')" and "Fossils coll = []" and "Temporaries coll = []"
    and "sn \<in> set (keptSnapshots all)" and "GetSnapshotChunks ident (sequence penv) k sn = Some r" and "x \<in> set (fst r)"
    and "on_disk (levels env) (store s) x False"
  shows "\<exists>p \<in> set (chunk_paths (levels env) x False). node_at (store s) p \<noteq> None \<and> list_all (fs.spares (levels env) x p) ts"
proof -
  have u: "usable_id (levels env) x" using assms(5,10,11) by (auto simp: GetSnapshotChunks_def own_chunks_def)
  obtain kept where kept: "kept_chunks ident (sequence penv) opt all = Inr kept"
    using assms(6) by (auto simp: prune_tasks_def pruneSnapshotsExhaustive_def pruneSnapshotsNonExhaustive_def bindE_Inr split: if_splits)
  then have ex: "expand_all ident (sequence penv) (keptSnapshots all) = Some kept"
    by (auto simp: kept_chunks_def split: if_splits option.splits)
  have xk: "x \<in> set kept" by (rule expand_all_mem [OF ex assms(9-11)])
  show ?thesis
  proof (cases "exhaustive opt")
    case True
    define sc where "sc = fold (scan_file opt ref kept) fls \<lparr>uniqueFiles = [], metChunks = [], queued = [], collection = coll\<rparr>"
    have "ts = queued sc" using assms(6) kept True by (simp add: prune_tasks_def pruneSnapshotsExhaustive_def sc_def Let_def)
    moreover have "scan_inv kept fls sc" unfolding sc_def by (rule scan_inv_all [OF assms(7,8)])
    moreover have "list_all (usable_id (levels env)) kept" by (rule expand_all_ids [where P = "usable_id (levels env)", OF ex assms(5)])
    ultimately show ?thesis using exhaustive_spares(1) [OF assms(1,2) assms(3) [OF True] True assms(4) _ xk assms(12)] by blast
  next
    case False
    then obtain targets where t: "expand_all ident (sequence penv) (deletedSnapshots all) = Some targets"
      "ts = (if dry opt then [] else map (\<lambda>chunk. fossilizeChunk chunk [] (exclusive opt)) (filter (\<lambda>c. c \<notin> set kept) (remdups targets)))"
      using assms(6) kept by (auto simp: prune_tasks_def pruneSnapshotsNonExhaustive_def bindE_Inr split: option.splits)
    have tu: "list_all (usable_id (levels env)) targets" by (rule expand_all_ids [where P = "usable_id (levels env)", OF t(1) assms(5)])
    have "list_all (fs.spares (levels env) x p) ts" for p
      unfolding t(2) using tu xk usable_proper
      by (auto simp: list_all_iff fossilizeChunk_def path_task_def fs.spares_def)
    then show ?thesis using assms(12) by (auto simp: on_disk_def list_ex_iff)
  qed
qed

lemma prune_collect_keeps:
  assumes "storage env = file_storage c" and "disk_ok (store s)" and "exhaustive opt \<Longrightarrow> tidy_disk (levels env) (store s)"
    and "\<And>h. usable_id (levels env) (GetChunkIDFromHash (lib env) (opConfig env) h)" and "\<And>ts. mset (order ts) = mset ts"
    and "list_all (gentle (levels env)) (deletionTasks del)" and "plain_ids all"
    and "sn \<in> set (keptSnapshots all)" and "GetSnapshotChunks (GetChunkIDFromHash (lib env) (opConfig env)) (sequence penv) k sn = Some g"
    and "x \<in> set (fst g)" and "on_disk (levels env) (store s) x False"
    and "prune_collect parse penv env opt order early all del s = Some (r, s')"
  shows "on_disk (levels env) (store s') x False"
proof -
  let ?ident = "GetChunkIDFromHash (lib env) (opConfig env)" and ?ts = "order (deletionTasks del)"
  have u: "usable_id (levels env) x" using assms(4,9,10) by (auto simp: GetSnapshotChunks_def own_chunks_def)
  have gt: "list_all (gentle (levels env)) ?ts" using assms(6) list_all_order [of order "deletionTasks del", OF assms(5)] by blast
  then have g1: "list_all (gentle (levels env)) (take early ?ts)" and g2: "list_all (gentle (levels env)) (drop early ?ts)"
    by (auto simp: list_all_iff dest: in_set_takeD in_set_dropD)
  obtain f1 s1 where run1: "run_tasks env (take early ?ts) s = (f1, s1)" by fastforce
  have k1: "on_disk (levels env) (store s1) x False" by (rule run_gentle [OF assms(1) u g1 assms(11) run1])
  have ok1: "disk_ok (store s1)"
    using run_tasks_disk_ok [OF assms(1) _ assms(2), of "take early ?ts"] g1 gentle_prune_task run1
    by (auto simp: list_all_iff)
  have td1: "exhaustive opt \<Longrightarrow> tidy_disk (levels env) (store s1)"
    using run_tasks_tidy [OF assms(1) g1 assms(2) assms(3)] run1 by simp
  show ?thesis
  proof (cases "CreateFossilCollection all")
    case None
    then show ?thesis
      using assms(12) drain_keeps [OF assms(1) u assms(5,6,11)] by (simp add: prune_collect_def)
  next
    case (Some coll)
    then have coll: "Fossils coll = []" "Temporaries coll = []" by (auto simp: CreateFossilCollection_def split: if_splits)
    show ?thesis
    proof (cases f1)
      case f1: (Some f)
      then show ?thesis using assms(12) Some run1 k1 by (simp add: prune_collect_def)
    next
      case None
      obtain lr where lr: "chunk_listing env opt s1 = Some lr"
        using assms(12) Some run1 None by (auto simp: prune_collect_def bind_eq_Some_conv)
      show ?thesis
      proof (cases "bindE lr (\<lambda>fls. prune_tasks ?ident penv opt (referencedFossils del) all fls coll)")
        case (Inl f)
        then have "drain env order (drop early ?ts) (Inl f) s1 = (r, s')"
          using assms(12) Some run1 None lr by (simp add: prune_collect_def Let_def)
        from drain_keeps [OF assms(1) u assms(5) g2 k1 this] show ?thesis .
      next
        case (Inr tc)
        obtain ts coll' where tc: "tc = (ts, coll')" by (cases tc)
        obtain fls where fls: "lr = Inr fls" "prune_tasks ?ident penv opt (referencedFossils del) all fls coll = Inr (ts, coll')"
          using Inr tc by (auto simp: bindE_Inr)
        obtain p where p: "p \<in> set (chunk_paths (levels env) x False)" "node_at (store s1) p \<noteq> None"
          "list_all (fs.spares (levels env) x p) ts"
          using prune_tasks_spare [OF assms(1) ok1 td1 lr [unfolded fls(1)] assms(4) fls(2) coll assms(8-10) k1] by blast
        have sp: "list_all (fs.spares (levels env) x p) (order (drop early ?ts @ ts))"
          using p(3) g2 gentle_spares [OF _ u p(1)] list_all_order [of order "drop early ?ts @ ts", OF assms(5)]
          by (auto simp: list_all_iff)
        obtain f2 s2 where run2: "run_tasks env (order (drop early ?ts @ ts)) s1 = (f2, s2)" by fastforce
        have n2: "node_at (store s2) p = node_at (store s1) p" by (rule run_spares_on_disk [OF assms(1) u p(1,2) sp run2])
        have "node_at (store s') p = node_at (store s2) p"
        proof (cases f2)
          case f2: (Some f)
          then show ?thesis using assms(12) Some run1 None lr Inr tc run2 by (simp add: prune_collect_def Let_def)
        next
          case f2: None
          then have "prune_finish parse penv env opt all (maxCollectionNumber del) coll' s2 = Some (r, s')"
            using assms(12) Some run1 None lr Inr tc run2 by (simp add: prune_collect_def Let_def)
          from prune_finish_spares [OF assms(1) u p(1) assms(7) this] show ?thesis .
        qed
        then show ?thesis using n2 p(2) on_diskI [OF p(1)] by simp
      qed
    qed
  qed
qed

text \<open>
  C6. A prune never loses a chunk that a remaining snapshot references.  Whatever the options, exhaustive
  or not, exclusive or not, with any fossil collections left by earlier runs, in whatever order the workers
  run the tasks, and even when an error ends the run: a chunk of a snapshot that is not selected for
  deletion that was on the storage as a chunk is still there as a chunk.  For an exhaustive prune the
  files named like chunks must lie where chunks are looked for.
\<close>

theorem prune_keeps_referenced_chunks:
  assumes "storage env = file_storage c" and "disk_ok (store s)" and "exhaustive opt \<Longrightarrow> tidy_disk (levels env) (store s)"
    and "\<And>h. usable_id (levels env) (GetChunkIDFromHash (lib env) (opConfig env) h)" and "\<And>ts. mset (order ts) = mset ts"
    and "\<And>b coll. unmarshal penv b = Some coll \<Longrightarrow> collection_ok coll"
    and "retention_policies opt = Inr policies" and "load_all parse env s = (Inr all, s0)"
    and "sn \<in> set (keptSnapshots (select_snapshots opt (daysBetween penv) (clock penv) policies all))"
    and "GetSnapshotChunks (GetChunkIDFromHash (lib env) (opConfig env)) (sequence penv) k sn = Some g" and "x \<in> set (fst g)"
    and "on_disk (levels env) (store s) x False"
    and "PruneSnapshots parse penv env opt order early s = Some (r, s')"
  shows "on_disk (levels env) (store s') x False"
proof -
  let ?ident = "GetChunkIDFromHash (lib env) (opConfig env)"
  have u: "usable_id (levels env) x" using assms(4,10,11) by (auto simp: GetSnapshotChunks_def own_chunks_def)
  have s0: "store s0 = store s" and ids: "plain_ids all" using load_all_store [OF assms(1,2,8)] by simp_all
  obtain f0 d where d: "fs_CreateDirectory (cache s0) collectionDir = (f0, d)" by fastforce
  show ?thesis
  proof (cases f0)
    case (Some e)
    then show ?thesis using assms(7,8,12,13) d s0 by (auto simp: PruneSnapshots_def)
  next
    case None
    show ?thesis
    proof (cases "fs_ListFiles d collectionDir")
      case (Inl e)
      then show ?thesis using assms(7,8,12,13) d s0 None by (auto simp: PruneSnapshots_def)
    next
      case (Inr collections)
      obtain f del where del: "process_collections ?ident (IsStrongConsistent (storage env)) penv opt all (map fst collections)
          \<lparr>deletionTasks = [], maxCollectionNumber = 0, referencedFossils = [], cacheDisk = d\<rparr> = (f, del)" by fastforce
      have gt: "list_all (gentle (levels env)) (deletionTasks del)"
        by (rule process_collections_gentle [where nst = "levels env", OF assms(4,6) _ del]) simp_all
      define s1 where "s1 = s0\<lparr>cache := cacheDisk del\<rparr>"
      let ?sel = "select_snapshots opt (daysBetween penv) (clock penv) policies all"
      have s1: "store s1 = store s" by (simp add: s1_def s0)
      have disk: "on_disk (levels env) (store s1) x False" "disk_ok (store s1)" "exhaustive opt \<Longrightarrow> tidy_disk (levels env) (store s1)"
        using assms(2,3,12) s1 by simp_all
      have cases: "(\<exists>r0. drain env order (deletionTasks del) r0 s1 = (r, s')) \<or> prune_collect parse penv env opt order early ?sel del s1 = Some (r, s')"
        using assms(7,8,13) d None Inr del
        by (auto simp: PruneSnapshots_def Let_def s1_def split: option.splits if_splits)
      then show ?thesis
      proof (elim disjE exE)
        fix r0
        assume "drain env order (deletionTasks del) r0 s1 = (r, s')"
        from drain_keeps [OF assms(1) u assms(5) gt disk(1) this] show ?thesis .
      next
        assume "prune_collect parse penv env opt order early ?sel del s1 = Some (r, s')"
        from prune_collect_keeps [OF assms(1) disk(2,3) assms(4,5) gt select_plain [OF ids] assms(9-11) disk(1) this]
        show ?thesis .
      qed
    qed
  qed
qed

section \<open>An example run\<close>

definition prune_lib :: chunk_lib where
  "prune_lib = copy_lib\<lparr>blake2 := \<lambda>k d. 65 # take 1 d\<rparr>"

definition prune_oenv :: "disk operator_env" where
  "prune_oenv = example_env\<lparr>levels := \<lparr>readLevels = [0], writeLevel = 0\<rparr>, lib := prune_lib, snapshotCache := Some \<lparr>readLevels = [0], writeLevel = 0\<rparr>\<rparr>"

definition prune_snapshot :: "int \<Rightarrow> string list \<Rightarrow> snapshot" where
  "prune_snapshot r hs = empty_snapshot\<lparr>ID := ''r'', Revision := r, ChunkSequence := hs\<rparr>"

definition prune_parse :: "bytes \<Rightarrow> string + (string \<times> json) list" where
  "prune_parse b = Inr (MarshalJSON (if b = [1] then prune_snapshot 1 [''a'', ''b''] else prune_snapshot 2 [''b'']))"

definition prune_penv :: prune_env where
  "prune_penv = \<lparr>sequence = Some, unmarshal = \<lambda>_. None, marshal = \<lambda>_. [9], clock = 0, endClock = 0, daysBetween = \<lambda>a b. 0\<rparr>"

definition prune_opt :: prune_options where
  "prune_opt = \<lparr>selfID = ''r'', snapshotID = [], revisionsToBeDeleted = [1], tags = [], retentions = [], exhaustive = True,
     exclusive = False, ignoredIDs = [], dry = False, deleteOnly = False, collectOnly = False\<rparr>"

definition prune_disk :: disk where
  "prune_disk = [(''chunks'', DirNode), (''chunks/4161'', FileNode [1]), (''chunks/4162'', FileNode [2]), (''chunks/x.tmp'', FileNode []),
     (''snapshots'', DirNode), (''snapshots/r'', DirNode), (''snapshots/r/1'', FileNode [76, 90, 52, 32, 1, 1]),
     (''snapshots/r/2'', FileNode [76, 90, 52, 32, 1, 2])]"

definition prune_run :: "((fatal + bool) \<times> disk operator_state) option" where
  "prune_run = PruneSnapshots prune_parse prune_penv prune_oenv prune_opt rev 0 (example_state prune_disk)"

lemma prune_run_result:
  "map_option (\<lambda>(r, s). (r, map fst (store s), map fst (cache s))) prune_run
    = Some (Inr True, [''chunks'', ''chunks/4162'', ''chunks/x.tmp'', ''snapshots'', ''snapshots/r'', ''snapshots/r/2'', ''chunks/4161.fsl''],
        [''fossils'', ''fossils/1''])"
  by code_simp

lemma prune_ids_usable: "usable_id (levels prune_oenv) (GetChunkIDFromHash (lib prune_oenv) (opConfig prune_oenv) h)"
proof -
  have hd: "hex_digit n \<in> set ''0123456789abcdef''" if "n < 16" for n
  proof -
    have "list_all (\<lambda>n. hex_digit n \<in> set ''0123456789abcdef'') [0..<16]" by code_simp
    then show ?thesis using that unfolding list_all_iff set_upt by (meson atLeastLessThan_iff le0)
  qed
  have "set (hex_encode s) \<subseteq> set ''0123456789abcdef''" for s
  proof -
    have "set (hex_encode s) \<subseteq> hex_digit ` {..<16}"
      by (force simp: hex_encode_def less_mult_imp_div_less)
    then show ?thesis using hd by blast
  qed
  moreover have "hex_encode (c # s) \<noteq> []" for c s by (simp add: hex_encode_def)
  ultimately have "hex_id (hex_encode (c # s))" for c s unfolding hex_id_def by blast
  moreover have "\<exists>c t. GetChunkIDFromHash (lib prune_oenv) (opConfig prune_oenv) h = hex_encode (c # t)"
    by (simp add: GetChunkIDFromHash_def prune_oenv_def example_env_def NewKeyedHasher_def prune_lib_def CreateConfig_def string_of_def) blast
  ultimately have x: "hex_id (GetChunkIDFromHash (lib prune_oenv) (opConfig prune_oenv) h)" by auto
  then have "GetChunkIDFromHash (lib prune_oenv) (opConfig prune_oenv) h \<noteq> []" by (simp add: hex_id_def)
  moreover have "levels prune_oenv = \<lparr>readLevels = [0], writeLevel = 0\<rparr>" by (simp add: prune_oenv_def)
  ultimately show ?thesis using x by (simp add: usable_id_def)
qed

lemma prune_keeps_referenced_chunks_witness:
  "on_disk (levels prune_oenv) (store (snd (the prune_run))) ''4162'' False"
proof -
  let ?all = "[(''r'', [prune_snapshot 1 [''a'', ''b''], prune_snapshot 2 [''b'']])]"
  have a: "storage prune_oenv = file_storage False" by (simp add: prune_oenv_def example_env_def)
  have b: "disk_ok (store (example_state prune_disk))" by code_simp
  have c: "tidy_disk (levels prune_oenv) (store (example_state prune_disk))" by code_simp
  have e: "mset (rev ts) = mset ts" for ts :: "chunk_task list" by simp
  have f: "unmarshal prune_penv bs = Some coll \<Longrightarrow> collection_ok coll" for bs coll by (simp add: prune_penv_def)
  have g: "retention_policies prune_opt = Inr []" by code_simp
  have h: "load_all prune_parse prune_oenv (example_state prune_disk) = (Inr ?all, example_state prune_disk)" by code_simp
  have i: "prune_snapshot 2 [''b''] \<in> set (keptSnapshots (select_snapshots prune_opt (daysBetween prune_penv) (clock prune_penv) [] ?all))"
    by (simp add: select_snapshots_def prune_opt_def keptSnapshots_def prune_snapshot_def flagged_def empty_snapshot_def)
  have j: "GetSnapshotChunks (GetChunkIDFromHash (lib prune_oenv) (opConfig prune_oenv)) (sequence prune_penv) False (prune_snapshot 2 [''b''])
      = Some ([''4162'', ''4162''], prune_snapshot 2 [''b''])" by code_simp
  have k: "on_disk (levels prune_oenv) (store (example_state prune_disk)) ''4162'' False" by code_simp
  have "prune_run \<noteq> None" using prune_run_result by auto
  then have l: "PruneSnapshots prune_parse prune_penv prune_oenv prune_opt rev 0 (example_state prune_disk)
      = Some (fst (the prune_run), snd (the prune_run))" by (simp add: prune_run_def)
  show ?thesis
    by (rule prune_keeps_referenced_chunks [OF a b c prune_ids_usable e f g h i j _ k l]) simp_all
qed

end
