(* ===== verification/Fossil_Deletion.thy ===== *)
theory Fossil_Deletion
  imports Prune_Correct
begin

text \<open>
  The second step of a prune: what happens to the fossils of a collection, and why no snapshot loses a
  chunk although backups may have run during the first step.
\<close>

section \<open>A resurrection that succeeds\<close>

lemma move_result:
  assumes "plain_path q" and "plain_path p" and "fs_MoveFile d q p = (None, d')"
  shows "node_at d' p \<noteq> None" and "q \<noteq> p \<Longrightarrow> node_at d' q = None" and "node_at d' p \<noteq> Some DirNode"
  using assms
  by (auto simp: fs_MoveFile_def path_clean_plain plain_not_dot node_at_delete node_at_update Let_def
      split: option.splits fs_node.splits if_splits)

lemma resurrected:
  assumes "storage env = file_storage c" and "usable_id (levels env) (task_id t)" and "plain_path (filePath t)"
    and "resurrect_chunk env t s = (None, s')" and "CHR ''.'' \<in> set (filePath t)"
  shows "on_disk (levels env) (store s') (task_id t) False"
proof -
  note x = usable_proper [OF assms(2)]
  obtain p ex n where f: "find_chunk env s (task_id t) False = Inr (p, ex, n)"
    using assms(4) by (auto simp: resurrect_chunk_def split: sum.splits)
  show ?thesis
  proof (cases ex)
    case True
    then have p: "p \<in> set (chunk_paths (levels env) (task_id t) False)" "node_at (store s) p \<noteq> None"
      using fs.find_chunk_found [OF assms(1) x, of s False p n] f by simp_all
    have "filePath t \<noteq> p" using assms(5) chunk_path_no_dot [OF assms(2) p(1)] by blast
    then have "node_at (store s') p = node_at (store s) p"
      using fs.delete_other [OF chunk_path_plain [OF assms(2) p(1)] assms(3), of c "store s"] f True assms(1,4)
      by (auto simp: resurrect_chunk_def)
    then show ?thesis using on_diskI [OF p(1)] p(2) by simp
  next
    case False
    then have p: "p \<in> set (chunk_paths (levels env) (task_id t) False)"
      using fs.find_chunk_missing [OF assms(1) x, of s False p n] f by simp
    then have "fs_MoveFile (store s) (filePath t) p = (None, store s')"
      using f False assms(1,4) by (auto simp: resurrect_chunk_def file_storage_def split: prod.splits option.splits)
    then show ?thesis using move_result(1) [OF assms(3) chunk_path_plain [OF assms(2) p]] on_diskI [OF p] by blast
  qed
qed

text \<open>When all tasks succeed, every chunk to be resurrected is there at the end.\<close>

lemma run_resurrects:
  assumes "storage env = file_storage c"
  shows "list_all (gentle (levels env)) ts \<Longrightarrow> run_tasks env ts s = (None, s') \<Longrightarrow> t \<in> set ts
    \<Longrightarrow> operation t = ChunkOperationResurrect \<Longrightarrow> on_disk (levels env) (store s') (task_id t) False"
proof (induction ts arbitrary: s)
  case (Cons u ts)
  obtain s1 where s1: "Run env u s = (None, s1)" "run_tasks env ts s1 = (None, s')"
    using Cons.prems(2) by (auto split: prod.splits option.splits)
  show ?case
  proof (cases "t = u")
    case True
    have g: "gentle (levels env) t" using Cons.prems(1) True by simp
    then have x: "usable_id (levels env) (task_id t)" "plain_path (filePath t)" "CHR ''.'' \<in> set (filePath t)"
      using Cons.prems(4) by (auto simp: gentle_def)
    have "resurrect_chunk env t s = (None, s1)" using s1(1) True Cons.prems(4) by (simp add: Run_def)
    from resurrected [OF assms x(1,2) this x(3)] have "on_disk (levels env) (store s1) (task_id t) False" .
    then show ?thesis using run_gentle [OF assms x(1) _ _ s1(2)] Cons.prems(1) by simp
  next
    case False
    then show ?thesis using Cons.IH [OF _ s1(2)] Cons.prems by simp
  qed
qed simp

text \<open>And every file a task names is gone.\<close>

lemma Run_gone:
  assumes "storage env = file_storage c" and "gentle (levels env) t" and "plain_path q" and "CHR ''.'' \<in> set q"
  shows "node_at (store s) q = None \<Longrightarrow> node_at (store (snd (Run env t s))) q = None"
    and "filePath t = q \<Longrightarrow> node_at (store s) q \<noteq> Some DirNode \<Longrightarrow> Run env t s = (None, s') \<Longrightarrow> node_at (store s') q = None"
    and "node_at (store s) q \<noteq> Some DirNode \<Longrightarrow> node_at (store (snd (Run env t s))) q \<noteq> Some DirNode"
proof -
  have pl: "plain_path (filePath t)" and ne: "filePath t \<noteq> []" using assms(2) by (auto simp: gentle_def)
  have st: "DeleteFile (storage env) = fs_DeleteFile" "MoveFile (storage env) = fs_MoveFile"
    using assms(1) by (simp_all add: file_storage_def)
  have loc: "locate_chunk env t s = Inr (filePath t)" by (rule fs.located_path [OF ne])
  have del: "node_at (snd (fs_DeleteFile d (filePath t))) q = n \<Longrightarrow> n \<noteq> None \<Longrightarrow> node_at d q = n" for d n
    using delete_node [OF assms(3) pl] by (metis option.exhaust)
  have gone: "node_at (snd (fs_DeleteFile d q)) q = None" if nodir: "node_at d q \<noteq> Some DirNode" for d
  proof (cases "node_at d q")
    case None
    then show ?thesis by (simp add: fs_DeleteFile_def path_clean_plain [OF assms(3)])
  next
    case (Some n)
    then obtain b where "node_at d q = Some (FileNode b)" using nodir by (cases n) auto
    then show ?thesis using node_at_delete [OF plain_not_dot [OF assms(3)], of q d]
      by (simp add: fs_DeleteFile_def path_clean_plain [OF assms(3)])
  qed
  have what: "Run env t s = (None, s\<lparr>store := snd (fs_DeleteFile (store s) (filePath t))\<rparr>)
      \<or> (\<exists>f. Run env t s = (Some f, s))
      \<or> (\<exists>p e d. plain_path p \<and> CHR ''.'' \<notin> set p \<and> fs_MoveFile (store s) (filePath t) p = (e, d)
            \<and> Run env t s = (case e of None \<Rightarrow> None | Some _ \<Rightarrow> Some (LogError ''FOSSIL_RESURRECT''), s\<lparr>store := d\<rparr>))"
  proof (cases "operation t = ChunkOperationDelete")
    case True
    then show ?thesis using loc by (simp add: Run_def delete_chunk_def st)
  next
    case False
    then have op: "operation t = ChunkOperationResurrect" and u: "usable_id (levels env) (task_id t)"
      using assms(2) by (auto simp: gentle_def)
    show ?thesis
    proof (cases "find_chunk env s (task_id t) False")
      case (Inr r)
      obtain p ex n where r: "r = (p, ex, n)" by (cases r)
      show ?thesis
      proof (cases ex)
        case True
        then show ?thesis using Inr r op by (simp add: Run_def resurrect_chunk_def st)
      next
        case False
        then have p: "p \<in> set (chunk_paths (levels env) (task_id t) False)"
          using fs.find_chunk_missing [OF assms(1) usable_proper [OF u], of s False p n] Inr r by simp
        obtain e d where m: "fs_MoveFile (store s) (filePath t) p = (e, d)" by fastforce
        have "Run env t s = (case e of None \<Rightarrow> None | Some _ \<Rightarrow> Some (LogError ''FOSSIL_RESURRECT''), s\<lparr>store := d\<rparr>)"
          using Inr r False op m by (simp add: Run_def resurrect_chunk_def st split: option.split)
        then show ?thesis using chunk_path_plain [OF u p] chunk_path_no_dot [OF u p] m by blast
      qed
    qed (simp add: Run_def resurrect_chunk_def op)
  qed
  have moved: "node_at d q = Some n" if "plain_path p" "CHR ''.'' \<notin> set p" "fs_MoveFile d (filePath t) p = (e, d')" "node_at d' q = Some n"
    for p e d d' n
  proof -
    have "node_at d q = Some n \<or> q = p" using move_node [OF assms(3) pl that(1), of d n] that(3,4) by simp
    then show ?thesis using that(2) assms(4) by blast
  qed
  have old: "node_at (store s) q = Some n" if n: "node_at (store (snd (Run env t s))) q = Some n" for n
    using what
  proof (elim disjE exE conjE)
    assume "Run env t s = (None, s\<lparr>store := snd (fs_DeleteFile (store s) (filePath t))\<rparr>)"
    then have "node_at (snd (fs_DeleteFile (store s) (filePath t))) q = Some n" using n by simp
    then show ?thesis by (rule delete_node [OF assms(3) pl])
  next
    fix f
    assume "Run env t s = (Some f, s)"
    then show ?thesis using n by simp
  next
    fix p e d
    assume p: "plain_path p" "CHR ''.'' \<notin> set p" "fs_MoveFile (store s) (filePath t) p = (e, d)"
      and r: "Run env t s = (case e of None \<Rightarrow> None | Some _ \<Rightarrow> Some (LogError ''FOSSIL_RESURRECT''), s\<lparr>store := d\<rparr>)"
    show ?thesis using moved [OF p] n r by simp
  qed
  show "node_at (store s) q = None \<Longrightarrow> node_at (store (snd (Run env t s))) q = None"
    using old by (cases "node_at (store (snd (Run env t s))) q") auto
  show "node_at (store s) q \<noteq> Some DirNode \<Longrightarrow> node_at (store (snd (Run env t s))) q \<noteq> Some DirNode"
    using old by blast
  have emptied: "node_at d' (filePath t) = None"
    if "plain_path p" "CHR ''.'' \<notin> set p" "fs_MoveFile d (filePath t) p = (None, d')" for p d d'
  proof -
    have "CHR ''.'' \<in> set (filePath t)" using assms(2) by (simp add: gentle_def)
    then have "filePath t \<noteq> p" using that(2) by blast
    then show ?thesis using move_result(2) [OF pl that(1,3)] by simp
  qed
  show "filePath t = q \<Longrightarrow> node_at (store s) q \<noteq> Some DirNode \<Longrightarrow> Run env t s = (None, s') \<Longrightarrow> node_at (store s') q = None"
    using what gone [of "store s"] emptied
    by (elim disjE exE conjE) (auto split: option.splits)
qed

lemma run_tasks_gone:
  assumes "storage env = file_storage c" and "plain_path q" and "CHR ''.'' \<in> set q"
  shows "list_all (gentle (levels env)) ts \<Longrightarrow> run_tasks env ts s = (None, s') \<Longrightarrow> node_at (store s) q \<noteq> Some DirNode
    \<Longrightarrow> q \<in> filePath ` set ts \<or> node_at (store s) q = None \<Longrightarrow> node_at (store s') q = None"
proof (induction ts arbitrary: s)
  case (Cons u ts)
  obtain s1 where s1: "Run env u s = (None, s1)" "run_tasks env ts s1 = (None, s')"
    using Cons.prems(2) by (auto split: prod.splits option.splits)
  note g = Run_gone [OF assms(1) _ assms(2,3), of u s, unfolded s1(1) snd_conv]
  show ?case
    using Cons.IH [OF _ s1(2)] Cons.prems g by auto
qed simp

section \<open>Two steps are safe\<close>

text \<open>The backups of one id run one after another.\<close>

definition one_at_a_time :: "snapshot list \<Rightarrow> bool" where
  "one_at_a_time ss \<longleftrightarrow> sorted_wrt (\<lambda>s t. EndTime s \<le> StartTime t) ss"

lemma not_fresh_before:
  assumes "one_at_a_time (ss @ s # ss')" and "StartTime s \<le> collectionEndTime coll + extraTime strong"
  shows "list_all (\<lambda>t. is_new coll i t \<longrightarrow> \<not> ends_after strong coll t) ss"
  using assms by (auto simp: one_at_a_time_def sorted_wrt_append list_all_iff ends_after_def)

lemma collection_tasks_all:
  assumes "snd (collection_tasks False newChunks coll) = None"
  shows "fst (collection_tasks False newChunks coll) = map (fossil_task newChunks) (Fossils coll) @ map (path_task ChunkOperationDelete []) (Temporaries coll)"
proof (cases "takeWhile (\<lambda>f. length chunkDir \<le> length f) (Fossils coll) = Fossils coll")
  case True
  then show ?thesis unfolding collection_tasks_def Let_def True by simp
next
  case False
  then have "snd (collection_tasks False newChunks coll) = Some RuntimePanic"
    unfolding collection_tasks_def Let_def by (simp only: if_False snd_conv)
  with assms show ?thesis by simp
qed

text \<open>
  C7. Two-step fossil collection is safe.  When a fossil collection is deletable and its tasks, run in any
  order, succeed, every chunk of every snapshot of an id that counts is a chunk again: the chunks that were
  there stay, and of the fossils, those that a new snapshot references come back, including the snapshots
  of backups that were running while the fossils were collected.  What is assumed of backups is that those
  of one id run one after another, and that one that began after the collection has found or uploaded its
  chunks as chunks.
\<close>

theorem two_step_collection_safe:
  assumes "storage env = file_storage c" and "\<And>h. usable_id (levels env) (ident h)" and "collection_ok coll"
    and "IsDeletable now strong ignored all coll = (True, news)" and "expand_all ident load news = Some newChunks"
    and "snd (collection_tasks False newChunks coll) = None" and "mset ts = mset (fst (collection_tasks False newChunks coll))"
    and "run_tasks env ts s = (None, s')"
    and "(i, ss) \<in> set all" and "i \<notin> set ignored" and "one_at_a_time ss" and "sn \<in> set ss"
    and "GetSnapshotChunks ident load k sn = Some g" and "x \<in> set (fst g)"
    and "collectionEndTime coll + extraTime strong < StartTime sn \<Longrightarrow> on_disk (levels env) (store s) x False"
    and "on_disk (levels env) (store s) x False \<or> is_new coll i sn \<and> list_ex (\<lambda>f. fossil_chunk f = x) (Fossils coll)"
  shows "on_disk (levels env) (store s') x False"
proof -
  have u: "usable_id (levels env) x" using assms(2,13,14) by (auto simp: GetSnapshotChunks_def own_chunks_def)
  have nu: "list_all (usable_id (levels env)) newChunks" by (rule expand_all_ids [where P = "usable_id (levels env)", OF assms(5,2)])
  have gt: "list_all (gentle (levels env)) ts"
    using collection_tasks_gentle [OF assms(3) nu, of False] mset_eq_setD [OF assms(7)] by (simp add: list_all_iff)
  show ?thesis
  proof (cases "on_disk (levels env) (store s) x False")
    case True
    then show ?thesis by (rule run_gentle [OF assms(1) u gt _ assms(8)])
  next
    case False
    then obtain f where f: "f \<in> set (Fossils coll)" "fossil_chunk f = x" and new: "is_new coll i sn"
      using assms(16) by (auto simp: list_ex_iff)
    obtain ss1 ss2 where ss: "ss = ss1 @ sn # ss2" using assms(12) split_list by fast
    have "StartTime sn \<le> collectionEndTime coll + extraTime strong" using False assms(15) by force
    then have "list_all (\<lambda>t. is_new coll i t \<longrightarrow> \<not> ends_after strong coll t) ss1"
      using not_fresh_before assms(11) unfolding ss by blast
    then have "sn \<in> set news" using IsDeletable_new [OF assms(4) _ assms(10) new] assms(9) unfolding ss by blast
    then have "x \<in> set newChunks" by (rule expand_all_mem [OF assms(5) _ assms(13,14)])
    then have r: "operation (fossil_task newChunks f) = ChunkOperationResurrect" "task_id (fossil_task newChunks f) = x"
      using f(2) by (simp_all add: fossil_task_def path_task_def)
    have "fossil_task newChunks f \<in> set ts"
      using f(1) collection_tasks_all [OF assms(6)] mset_eq_setD [OF assms(7)] by simp
    from run_resurrects [OF assms(1) gt assms(8) this r(1)] show ?thesis unfolding r(2) .
  qed
qed

text \<open>
  After a deletable collection has been processed without error none of its fossils and temporary
  files is left on the storage under its path, whether it was deleted or resurrected.
\<close>

theorem collection_emptied:
  assumes "storage env = file_storage c" and "collection_ok coll" and "list_all (usable_id (levels env)) newChunks"
    and "snd (collection_tasks False newChunks coll) = None" and "mset ts = mset (fst (collection_tasks False newChunks coll))"
    and "list_all (\<lambda>f. node_at (store s) f \<noteq> Some DirNode) (Fossils coll @ Temporaries coll)"
    and "run_tasks env ts s = (None, s')"
  shows "list_all (\<lambda>f. node_at (store s') f = None) (Fossils coll @ Temporaries coll)"
  unfolding list_all_iff
proof
  fix f
  assume f: "f \<in> set (Fossils coll @ Temporaries coll)"
  have gt: "list_all (gentle (levels env)) ts"
    using collection_tasks_gentle [OF assms(2,3), of False] mset_eq_setD [OF assms(5)] by (simp add: list_all_iff)
  have "plain_path f" "CHR ''.'' \<in> set f" "node_at (store s) f \<noteq> Some DirNode"
    using assms(2,6) f unfolding collection_ok_def list_all_iff by blast+
  moreover have "f \<in> filePath ` set ts"
  proof -
    have set_ts: "set ts = fossil_task newChunks ` set (Fossils coll) \<union> path_task ChunkOperationDelete [] ` set (Temporaries coll)"
      using mset_eq_setD [OF assms(5)] unfolding collection_tasks_all [OF assms(4)] by simp
    have path: "filePath (fossil_task newChunks f) = f" "filePath (path_task ChunkOperationDelete [] f) = f"
      by (simp_all add: fossil_task_def path_task_def Let_def)
    have "fossil_task newChunks f \<in> set ts \<or> path_task ChunkOperationDelete [] f \<in> set ts" using f unfolding set_ts set_append Un_iff by blast
    then show ?thesis using path by (auto intro: rev_image_eqI)
  qed
  ultimately show "node_at (store s') f = None" by (intro run_tasks_gone [OF assms(1) _ _ gt assms(7)] disjI1)
qed

section \<open>Examples\<close>

text \<open>
  Snapshot 2 of \<open>r\<close> was being made while the fossils of \<open>a\<close> and \<open>b\<close> were collected, and references \<open>b\<close>.
\<close>

definition deletion_collection :: fossil_collection where
  "deletion_collection = \<lparr>collectionEndTime = 100, LastRevisions = [(''r'', 1), (''q'', 1)], DeletedRevisions = [],
     Fossils = [''chunks/4161.fsl'', ''chunks/4162.fsl''], Temporaries = [''chunks/x.tmp'']\<rparr>"

definition deletion_snapshot :: snapshot where
  "deletion_snapshot = empty_snapshot\<lparr>ID := ''r'', Revision := 2, StartTime := 90, EndTime := 110, ChunkSequence := [''b'']\<rparr>"

definition deletion_disk :: disk where
  "deletion_disk = [(''chunks'', DirNode), (''chunks/4161.fsl'', FileNode [1]), (''chunks/4162.fsl'', FileNode [2]), (''chunks/x.tmp'', FileNode []),
     (''snapshots'', DirNode), (''snapshots/q'', DirNode), (''snapshots/q/1'', FileNode [76, 90, 52, 32, 1, 1]),
     (''snapshots/r'', DirNode), (''snapshots/r/2'', FileNode [76, 90, 52, 32, 1, 2])]"

definition deletion_tasks :: "chunk_task list" where
  "deletion_tasks = rev (fst (collection_tasks False [''4162'', ''4162''] deletion_collection))"

definition deletion_run :: "disk outcome" where
  "deletion_run = run_tasks prune_oenv deletion_tasks (example_state deletion_disk)"

lemma deletion_run_ok: "fst deletion_run = None"
  by code_simp

lemma two_step_collection_safe_witness: "on_disk (levels prune_oenv) (store (snd deletion_run)) ''4162'' False"
proof -
  let ?ident = "GetChunkIDFromHash (lib prune_oenv) (opConfig prune_oenv)"
  have a: "storage prune_oenv = file_storage False" by (simp add: prune_oenv_def example_env_def)
  have b: "collection_ok deletion_collection" by code_simp
  have d: "IsDeletable 200 True [] [(''r'', [deletion_snapshot])] deletion_collection = (True, [deletion_snapshot])" by code_simp
  have e: "expand_all ?ident Some [deletion_snapshot] = Some [''4162'', ''4162'']" by code_simp
  have f: "snd (collection_tasks False [''4162'', ''4162''] deletion_collection) = None" by code_simp
  have g: "mset deletion_tasks = mset (fst (collection_tasks False [''4162'', ''4162''] deletion_collection))"
    by (simp add: deletion_tasks_def)
  have h: "run_tasks prune_oenv deletion_tasks (example_state deletion_disk) = (None, snd deletion_run)"
    using deletion_run_ok by (metis deletion_run_def prod.collapse)
  have j: "GetSnapshotChunks ?ident Some False deletion_snapshot = Some ([''4162'', ''4162''], deletion_snapshot)" by code_simp
  have k: "\<not> collectionEndTime deletion_collection + extraTime True < StartTime deletion_snapshot" by code_simp
  have l: "is_new deletion_collection ''r'' deletion_snapshot \<and> list_ex (\<lambda>f. fossil_chunk f = ''4162'') (Fossils deletion_collection)" by code_simp
  show ?thesis
    by (rule two_step_collection_safe [OF a prune_ids_usable b d e f g h, where i = "''r''" and ss = "[deletion_snapshot]", OF _ _ _ _ j])
      (use k l in \<open>simp_all add: one_at_a_time_def\<close>)
qed

lemma collection_emptied_witness: "node_at (store (snd deletion_run)) ''chunks/4161.fsl'' = None"
proof -
  have a: "storage prune_oenv = file_storage False" by (simp add: prune_oenv_def example_env_def)
  have b: "collection_ok deletion_collection" by code_simp
  have c: "list_all (usable_id (levels prune_oenv)) [''4162'', ''4162'']" by code_simp
  have f: "snd (collection_tasks False [''4162'', ''4162''] deletion_collection) = None" by code_simp
  have g: "mset deletion_tasks = mset (fst (collection_tasks False [''4162'', ''4162''] deletion_collection))"
    by (simp add: deletion_tasks_def)
  have n: "list_all (\<lambda>f. node_at (store (example_state deletion_disk)) f \<noteq> Some DirNode) (Fossils deletion_collection @ Temporaries deletion_collection)"
    by code_simp
  have h: "run_tasks prune_oenv deletion_tasks (example_state deletion_disk) = (None, snd deletion_run)"
    using deletion_run_ok by (metis deletion_run_def prod.collapse)
  show ?thesis using collection_emptied [OF a b c f g n h] by (simp add: deletion_collection_def)
qed

text \<open>
  The same storage pruned in exclusive mode, while \<open>q\<close> has no new snapshot: the collection is not deletable,
  so no new snapshots are returned, and the exclusive run deletes all its fossils.
\<close>

definition exclusive_parse :: "bytes \<Rightarrow> string + (string \<times> json) list" where
  "exclusive_parse b = Inr (MarshalJSON (if b = [1] then empty_snapshot\<lparr>ID := ''q'', Revision := 1, EndTime := 50\<rparr> else deletion_snapshot))"

definition exclusive_run :: "((fatal + bool) \<times> disk operator_state) option" where
  "exclusive_run = PruneSnapshots exclusive_parse (prune_penv\<lparr>unmarshal := \<lambda>_. Some deletion_collection, clock := 200\<rparr>) prune_oenv
     (prune_opt\<lparr>exclusive := True, deleteOnly := True\<rparr>) id 0
     ((example_state deletion_disk)\<lparr>cache := [(''fossils'', DirNode), (''fossils/1'', FileNode [9])]\<rparr>)"


end
