(* ===== verification/Retention.thy ===== *)
theory Retention
  imports Prune
begin

text \<open>
  What the retention policies of \<^verbatim>\<open>PruneSnapshots\<close> select: which snapshots of an id they may flag, and which
  ones they always keep.
\<close>

section \<open>The policies that still apply\<close>

lemma skip_policies_cases:
  "skip_policies age ps lastTime = (ps', lastTime') \<Longrightarrow>
     set ps' \<subseteq> set ps \<and> (lastTime' = 0 \<or> lastTime' = lastTime) \<and> (ps' \<noteq> [] \<longrightarrow> Age (hd ps') \<le> age)"
  by (induction age ps lastTime rule: skip_policies.induct) (auto split: if_splits)

text \<open>The policy in force for a snapshot: the first one whose age it has reached.\<close>

lemma skip_policies_dropWhile: "fst (skip_policies age ps lastTime) = dropWhile (\<lambda>p. age < Age p) ps"
  by (induction age ps lastTime rule: skip_policies.induct) auto

lemma skip_policies_same: "skip_policies age ps lastTime = (ps, lastTime') \<Longrightarrow> ps \<noteq> [] \<Longrightarrow> lastTime' = lastTime"
proof (induction age ps lastTime rule: skip_policies.induct)
  case (2 age p ps lastTime)
  have "length (fst (skip_policies age ps 0)) \<le> length ps" unfolding skip_policies_dropWhile by (rule length_dropWhile_le)
  then show ?case using 2 by (auto split: if_splits)
qed simp

section \<open>What is flagged\<close>

lemma apply_retention_unfold:
  assumes "\<not> (\<not> excl \<and> ss = [])" and "\<not> (tgs \<noteq> [] \<and> Tag s \<notin> set tgs)"
    and "skip_policies (days (StartTime s) now) ps lastTime = (qs, t)"
  shows "apply_retention days now excl tgs ps lastTime (s # ss) = (case qs of [] \<Rightarrow> s # ss
    | p # ps' \<Rightarrow> if Interval p = 0 \<or> t \<noteq> 0 \<and> days t (StartTime s) < Interval p
                then flagged s # apply_retention days now excl tgs qs t ss
                else s # apply_retention days now excl tgs qs (StartTime s) ss)"
  by (simp only: apply_retention.simps assms if_False prod.case) (auto split: list.split)

text \<open>One round: the remaining snapshots are left alone, or treated with fewer policies and a time that stays, is forgotten, or is that of a snapshot just kept.\<close>

lemma apply_retention_round:
  obtains (stop) "apply_retention days now excl tgs ps lastTime (s # ss) = s # ss"
  | (next_one) s' qs t where "apply_retention days now excl tgs ps lastTime (s # ss) = s' # apply_retention days now excl tgs qs t ss"
      and "set qs \<subseteq> set ps" and "t = 0 \<or> t = lastTime \<or> t = StartTime s \<and> s' = s" and "excl \<or> ss \<noteq> []"
proof (cases "\<not> excl \<and> ss = [] \<or> tgs \<noteq> [] \<and> Tag s \<notin> set tgs")
  case True
  then show ?thesis using stop next_one [of s ps lastTime] by (cases "\<not> excl \<and> ss = []") auto
next
  case False
  obtain qs t where qs: "skip_policies (days (StartTime s) now) ps lastTime = (qs, t)" by fastforce
  note c = skip_policies_cases [OF qs]
  have round: "\<not> (\<not> excl \<and> ss = [])" "\<not> (tgs \<noteq> [] \<and> Tag s \<notin> set tgs)" using False by simp_all
  note eq = apply_retention_unfold [where days = days, OF round qs]
  show ?thesis
  proof (cases qs)
    case Nil
    then show ?thesis using stop eq by simp
  next
    case (Cons p ps')
    consider "apply_retention days now excl tgs ps lastTime (s # ss) = flagged s # apply_retention days now excl tgs qs t ss"
      | "apply_retention days now excl tgs ps lastTime (s # ss) = s # apply_retention days now excl tgs qs (StartTime s) ss"
      using eq unfolding Cons by (simp split: if_splits)
    then show ?thesis
      by cases (use next_one [of "flagged s" qs t] next_one [of s qs "StartTime s"] c round(1) in auto)
  qed
qed

lemma length_apply_retention [simp]: "length (apply_retention days now excl tgs ps lastTime ss) = length ss"
proof (induction ss arbitrary: ps lastTime)
  case (Cons s ss)
  show ?case by (rule apply_retention_round [of days now excl tgs ps lastTime s ss]) (simp_all add: Cons.IH)
qed simp

text \<open>What justifies flagging the \<open>j\<close>-th snapshot: its tag, its age, and a neighbour that is kept.\<close>

definition justified ::
  "(int \<Rightarrow> int \<Rightarrow> int) \<Rightarrow> int \<Rightarrow> string list \<Rightarrow> retention_policy list \<Rightarrow> int \<Rightarrow> snapshot list \<Rightarrow> snapshot list \<Rightarrow> nat \<Rightarrow> bool" where
  "justified days now tgs ps lastTime ss kept j \<longleftrightarrow>
     (tgs = [] \<or> Tag (ss ! j) \<in> set tgs) \<and>
     (\<exists>p\<in>set ps. Age p \<le> days (StartTime (ss ! j)) now \<and>
        (Interval p = 0 \<or> lastTime \<noteq> 0 \<and> days lastTime (StartTime (ss ! j)) < Interval p \<or>
         (\<exists>k<j. kept ! k = ss ! k \<and> days (StartTime (ss ! k)) (StartTime (ss ! j)) < Interval p)))"

lemma justified_Cons:
  assumes "justified days now tgs ps' lastTime' ss kept j" and "set ps' \<subseteq> set ps"
    and "lastTime' = 0 \<or> lastTime' = lastTime \<or> lastTime' = StartTime s \<and> s' = s"
  shows "justified days now tgs ps lastTime (s # ss) (s' # kept) (Suc j)"
proof -
  obtain p where p: "p \<in> set ps'" "Age p \<le> days (StartTime (ss ! j)) now"
    "Interval p = 0 \<or> lastTime' \<noteq> 0 \<and> days lastTime' (StartTime (ss ! j)) < Interval p \<or>
     (\<exists>k<j. kept ! k = ss ! k \<and> days (StartTime (ss ! k)) (StartTime (ss ! j)) < Interval p)" and "tgs = [] \<or> Tag (ss ! j) \<in> set tgs"
    using assms(1) by (auto simp: justified_def)
  moreover have "\<exists>k<Suc j. (s' # kept) ! k = (s # ss) ! k \<and> days (StartTime ((s # ss) ! k)) (StartTime (ss ! j)) < Interval p"
    if "s' = s" "days (StartTime s) (StartTime (ss ! j)) < Interval p" using that by (intro exI [of _ 0]) simp
  moreover have "\<exists>k<Suc j. (s' # kept) ! k = (s # ss) ! k \<and> days (StartTime ((s # ss) ! k)) (StartTime (ss ! j)) < Interval p"
    if "k < j" "kept ! k = ss ! k" "days (StartTime (ss ! k)) (StartTime (ss ! j)) < Interval p" for k
    using that by (intro exI [of _ "Suc k"]) simp
  ultimately show ?thesis unfolding justified_def using assms(2,3) by (intro conjI bexI [of _ p]) auto
qed

lemma flagged_head:
  assumes "\<not> Flag s" and "Flag (hd (apply_retention days now excl tgs ps lastTime (s # ss)))"
  shows "(excl \<or> ss \<noteq> []) \<and> justified days now tgs ps lastTime (s # ss) kept 0"
proof -
  have a: "\<not> (\<not> excl \<and> ss = [])" "\<not> (tgs \<noteq> [] \<and> Tag s \<notin> set tgs)" using assms by (auto split: if_splits)
  obtain qs t where qs: "skip_policies (days (StartTime s) now) ps lastTime = (qs, t)" by fastforce
  note eq = apply_retention_unfold [where days = days, OF a qs]
  obtain p ps' where p: "qs = p # ps'" using assms unfolding eq by (cases qs) auto
  have "Interval p = 0 \<or> t \<noteq> 0 \<and> days t (StartTime s) < Interval p" using assms unfolding eq p by (auto split: if_splits)
  then show ?thesis using a skip_policies_cases [OF qs] unfolding justified_def p by auto
qed

lemma apply_retention_flags:
  "j < length ss \<Longrightarrow> \<not> Flag (ss ! j) \<Longrightarrow> Flag (apply_retention days now excl tgs ps lastTime ss ! j) \<Longrightarrow>
     (excl \<or> Suc j < length ss) \<and> justified days now tgs ps lastTime ss (apply_retention days now excl tgs ps lastTime ss) j"
proof (induction ss arbitrary: j ps lastTime)
  case (Cons s ss)
  show ?case
  proof (cases j)
    case 0
    have "apply_retention days now excl tgs ps lastTime (s # ss) \<noteq> []" by (metis length_apply_retention length_0_conv list.distinct(1))
    then show ?thesis
      using 0 Cons.prems flagged_head [of s days now excl tgs ps lastTime ss "apply_retention days now excl tgs ps lastTime (s # ss)"]
      by (simp add: hd_conv_nth del: apply_retention.simps)
  next
    case (Suc i)
    show ?thesis
    proof (cases rule: apply_retention_round [of days now excl tgs ps lastTime s ss])
      case stop
      then show ?thesis using Cons.prems by simp
    next
      case (next_one s' qs t)
      then show ?thesis using Cons.IH [of i qs t] Cons.prems Suc justified_Cons [of days now tgs qs t ss _ i ps lastTime s s']
        by (simp del: apply_retention.simps)
    qed
  qed
qed simp

section \<open>The options together\<close>

lemma map_of_map_key: "map_of (map (\<lambda>(i, x). (i, f i x)) xs) i = map_option (f i) (map_of xs i)"
  by (induction xs) auto

text \<open>
  C9. What \<^verbatim>\<open>PruneSnapshots\<close> deletes.  A snapshot selected for deletion belongs to the id asked for, if one was,
  and either is a revision asked for, or has a tag asked for, or falls under a retention policy: it has
  reached the policy's age, and the policy keeps nothing that old, or keeps an earlier snapshot of the same
  id that is closer than the policy's interval.  Without \<open>-exclusive\<close> a retention policy never selects the
  last snapshot of an id.
\<close>

theorem select_snapshots_only:
  assumes "map_of (select_snapshots opt days now policies all) i = Some kept" and "map_of all i = Some ss"
    and "j < length ss" and "\<not> Flag (ss ! j)" and "Flag (kept ! j)"
  shows "(snapshotID opt = [] \<or> i = snapshotID opt) \<and>
    (if revisionsToBeDeleted opt \<noteq> [] then Revision (ss ! j) \<in> set (revisionsToBeDeleted opt)
     else (tags opt = [] \<or> Tag (ss ! j) \<in> set (tags opt)) \<and>
       (if policies = [] then tags opt \<noteq> []
        else (exclusive opt \<or> j + 1 < length ss) \<and>
          list_ex (\<lambda>p. Age p \<le> days (StartTime (ss ! j)) now \<and>
            (Interval p = 0 \<or>
             list_ex (\<lambda>k. kept ! k = ss ! k \<and> days (StartTime (ss ! k)) (StartTime (ss ! j)) < Interval p) [0..<j])) policies))"
proof -
  have k: "kept = (if snapshotID opt \<noteq> [] \<and> i \<noteq> snapshotID opt then ss
      else if revisionsToBeDeleted opt \<noteq> [] then map (\<lambda>s. if Revision s \<in> set (revisionsToBeDeleted opt) then flagged s else s) ss
      else if policies \<noteq> []
      then (if length ss \<le> 1 then ss else apply_retention days now (exclusive opt) (tags opt) policies 0 ss)
      else if tags opt \<noteq> [] then map (\<lambda>s. if Tag s \<in> set (tags opt) then flagged s else s) ss
      else ss)"
    using assms(1) unfolding select_snapshots_def map_of_map_key assms(2) by simp
  have r: "kept = apply_retention days now (exclusive opt) (tags opt) policies 0 ss \<Longrightarrow>
    (exclusive opt \<or> Suc j < length ss) \<and> justified days now (tags opt) policies 0 ss kept j"
    using apply_retention_flags [OF assms(3,4)] assms(5) by simp
  show ?thesis
    using k r assms(3-5) by (auto simp: justified_def list_ex_iff split: if_splits)
qed

section \<open>Example\<close>

text \<open>One snapshot every seven days is kept of those older than ten days; days are the unit of time here.\<close>

definition retention_options :: prune_options where
  "retention_options = \<lparr>selfID = ''r'', snapshotID = [], revisionsToBeDeleted = [], tags = [], retentions = [''7:10''],
     exhaustive = False, exclusive = False, ignoredIDs = [], dry = False, deleteOnly = False, collectOnly = False\<rparr>"

definition retention_snapshots :: "snapshot list" where
  "retention_snapshots = map (\<lambda>(r, t). empty_snapshot\<lparr>ID := ''r'', Revision := r, StartTime := t\<rparr>) [(1, 60), (2, 65), (3, 68), (4, 90), (5, 91)]"

lemma retention_policies_example: "retention_policies retention_options = Inr [\<lparr>Age = 10, Interval = 7\<rparr>]"
  by code_simp

lemma select_snapshots_only_witness:
  "(\<lambda>s t. t - s) (StartTime (retention_snapshots ! 0)) (StartTime (retention_snapshots ! 1)) < 7
     \<and> list_ex (\<lambda>p. Age p \<le> (100 :: int) - StartTime (retention_snapshots ! 1)) [\<lparr>Age = 10, Interval = 7\<rparr>]"
proof -
  let ?days = "\<lambda>s t. t - s :: int" and ?ps = "[\<lparr>Age = 10, Interval = 7\<rparr>]" and ?all = "[(''r'', retention_snapshots)]"
  let ?kept = "apply_retention ?days 100 False [] ?ps 0 retention_snapshots"
  have a: "map_of (select_snapshots retention_options ?days 100 ?ps ?all) ''r'' = Some ?kept" by code_simp
  have b: "map_of ?all ''r'' = Some retention_snapshots" by simp
  have c: "1 < length retention_snapshots" "\<not> Flag (retention_snapshots ! 1)" "Flag (?kept ! 1)" by code_simp+
  show ?thesis
    using select_snapshots_only [OF a b c] by (simp add: retention_options_def)
qed

end
