(* ===== verification/Upload_Snapshot.thy ===== *)
theory Upload_Snapshot
  imports Backup Snapshot_Files File_Listing
begin

text \<open>
  The last part of a backup (\<^verbatim>\<open>UploadSnapshot\<close> in \<^verbatim>\<open>src/src/duplicacy_backupmanager.go\<close>): the entries of
  the list, the chunk hashes and the chunk lengths become chunks of metadata, and the snapshot names them.
  The reverse is \<^verbatim>\<open>ListRemoteFiles\<close> (\<^verbatim>\<open>src/src/duplicacy_snapshot.go\<close>) and
  \<^verbatim>\<open>DownloadSnapshotSequences\<close> (\<^verbatim>\<open>src/src/duplicacy_snapshotmanager.go\<close>).
\<close>

section \<open>Numbering the chunks in the order of the entries\<close>

text \<open>
  The chunks of a snapshot are those of its entries, in the order of the entries.  An entry is stored with
  the distance of its first chunk to the last chunk of the file before it, and that of its last chunk to its
  first.  An index out of range panics.
\<close>

record renumbering =
  rnHashes :: "string list"
  rnLengths :: "int list"
  rnLastChunk :: int
  rnLastEndChunk :: int

definition start_renumbering :: renumbering where
  "start_renumbering = \<lparr>rnHashes = [], rnLengths = [], rnLastChunk = -1, rnLastEndChunk = 0\<rparr>"

definition renumber_entry :: "snapshot \<Rightarrow> entry \<Rightarrow> renumbering \<Rightarrow> (entry \<times> renumbering) option" where
  "renumber_entry s e rn =
     (if IsFile e \<and> 0 < Size e
      then
        let fresh = StartChunk e \<noteq> rnLastChunk rn;
            delta = StartChunk e - int (length (rnHashes rn)) + 1 - (if fresh then 1 else 0);
            added = (if fresh then [StartChunk e] else []) @ [StartChunk e + 1..EndChunk e];
            first = StartChunk e - delta;
            final = EndChunk e - delta
        in if list_all (\<lambda>i. 0 \<le> i \<and> nat i < length (ChunkHashes s) \<and> nat i < length (ChunkLengths s)) added
           then Some (e\<lparr>StartChunk := first - rnLastEndChunk rn, EndChunk := final - first\<rparr>,
                  \<lparr>rnHashes = rnHashes rn @ map (\<lambda>i. ChunkHashes s ! nat i) added,
                   rnLengths = rnLengths rn @ map (\<lambda>i. ChunkLengths s ! nat i) added,
                   rnLastChunk = EndChunk e, rnLastEndChunk = final\<rparr>)
           else None
      else Some (e, rn))"

fun renumber_entries :: "snapshot \<Rightarrow> entry list \<Rightarrow> renumbering \<Rightarrow> (entry list \<times> renumbering) option" where
  "renumber_entries s [] rn = Some ([], rn)"
| "renumber_entries s (e # es) rn =
     (case renumber_entry s e rn of
        None \<Rightarrow> None
      | Some (e', rn) \<Rightarrow> map_option (\<lambda>(es', rn). (e' # es', rn)) (renumber_entries s es rn))"

section \<open>Metadata chunks\<close>

text \<open>The chunks the metadata chunk maker makes of some pieces of data and a final flush.\<close>

definition metadata_chunks :: "(bytes \<Rightarrow> bytes) \<Rightarrow> config \<Rightarrow> int \<Rightarrow> bytes list \<Rightarrow> (create_error + bytes list) option" where
  "metadata_chunks sha cfg metadataChunkSize datas =
     (case CreateMetaDataChunkMaker sha cfg metadataChunkSize of
        Inl e \<Rightarrow> Some (Inl e)
      | Inr m \<Rightarrow> map_option (\<lambda>(_, cs, _). Inr cs) (AddFiles False (\<lambda>_. []) m (map (\<lambda>d. [Data d]) datas)))"

text \<open>\<^verbatim>\<open>MarshalSequence\<close>, before the JSON package makes bytes of it.\<close>

definition MarshalSequence :: "string \<Rightarrow> snapshot \<Rightarrow> json" where
  "MarshalSequence sequenceType s =
     (if sequenceType = ''chunks'' then JArray (map JString (encodeSequence (ChunkHashes s)))
      else JArray (map JNumber (ChunkLengths s)))"

text \<open>
  A metadata chunk is uploaded unless its id is in the cache of known chunks; its hash goes to the
  sequence either way.
\<close>

definition upload_metadata ::
  "(bytes \<Rightarrow> string) \<Rightarrow> (bytes \<Rightarrow> string) \<Rightarrow> nat \<Rightarrow> string set \<Rightarrow> bytes list \<Rightarrow> string list \<times> string set \<times> (nat \<times> bytes \<times> bool) list" where
  "upload_metadata getHash getID index known cs =
     (let (known, ops) = upload_chunks getID (\<lambda>_. False) index known cs
      in (map getHash cs, known, ops))"

text \<open>What is outside the repository or belongs to other components.\<close>

record metadata_env =
  me_codec :: codec
  me_json :: "json \<Rightarrow> bytes"
  me_sha :: "bytes \<Rightarrow> bytes"
  me_config :: config
  me_chunkSize :: int
  me_hash :: "bytes \<Rightarrow> string"
  me_id :: "bytes \<Rightarrow> string"

datatype snapshot_failure = ReadFailure list_error | IndexPanic | BadChunkSize create_error

text \<open>The sequences one after another; the result is the snapshot, and for each chunk its index and whether it is given to the operator.\<close>

fun store_sequences ::
  "metadata_env \<Rightarrow> (string \<times> (snapshot \<Rightarrow> bytes list)) list \<Rightarrow> nat \<Rightarrow> string set \<Rightarrow> snapshot
     \<Rightarrow> (snapshot_failure + (snapshot \<times> (nat \<times> bytes \<times> bool) list)) option" where
  "store_sequences me [] index known s = Some (Inr (s, []))"
| "store_sequences me ((sequenceType, pieces) # ts) index known s =
     (case metadata_chunks (me_sha me) (me_config me) (me_chunkSize me) (pieces s) of
        None \<Rightarrow> None
      | Some (Inl e) \<Rightarrow> Some (Inl (BadChunkSize e))
      | Some (Inr cs) \<Rightarrow>
          (case upload_metadata (me_hash me) (me_id me) index known cs of
             (sq, known, ops) \<Rightarrow>
               map_option (map_sum id (\<lambda>(s, ops'). (s, ops @ ops')))
                 (store_sequences me ts (index + length cs) known (SetSequence sequenceType sq s))))"

definition snapshot_sequences ::
  "metadata_env \<Rightarrow> entry_list \<Rightarrow> string set \<Rightarrow> snapshot \<Rightarrow> (snapshot_failure + (snapshot \<times> (nat \<times> bytes \<times> bool) list)) option" where
  "snapshot_sequences me el known s =
     (case ReadEntries (me_codec me) el of
        Inl e \<Rightarrow> Some (Inl (ReadFailure e))
      | Inr es \<Rightarrow>
          (case renumber_entries s es start_renumbering of
             None \<Rightarrow> Some (Inl IndexPanic)
           | Some (es', rn) \<Rightarrow>
               store_sequences me
                 [(''files'', \<lambda>_. map (\<lambda>e. bytes_of (marshal (me_codec me) (EncodeMsgpack e))) es'),
                  (''chunks'', \<lambda>s. [me_json me (MarshalSequence ''chunks'' s)]),
                  (''lengths'', \<lambda>s. [me_json me (MarshalSequence ''lengths'' s)])]
                 0 known (s\<lparr>ChunkHashes := rnHashes rn, ChunkLengths := rnLengths rn\<rparr>)))"

section \<open>Reading it back\<close>

text \<open>
  \<^verbatim>\<open>ListRemoteFiles\<close>: the entries given to the callback, as long as it asks for more, and what ended the
  listing.  The old format is a JSON list, which \<open>old\<close> reads.
\<close>

definition place_entry :: "int \<Rightarrow> entry \<Rightarrow> entry \<times> int" where
  "place_entry lastEndChunk e =
     (if IsFile e
      then (let start = StartChunk e + lastEndChunk; final = EndChunk e + start
            in (e\<lparr>StartChunk := start, EndChunk := final\<rparr>, final))
      else (e, lastEndChunk))"

lemma DecodeMsgpack_shorter: "DecodeMsgpack ts = Inr (e, ts') \<Longrightarrow> length ts' < length ts"
proof -
  have s: "DecodeString ts = Inr (x, ts') \<Longrightarrow> length ts' < length ts" for x and ts ts' :: "item list"
    by (auto elim!: DecodeString.elims)
  have i: "DecodeInt ts = Inr (x, ts') \<Longrightarrow> length ts' < length ts" for x and ts ts' :: "item list"
    by (auto elim!: DecodeInt.elims)
  have a: "decode_attributes n as ts = Inr (as', ts') \<Longrightarrow> length ts' \<le> length ts" for n as as' and ts ts' :: "item list"
    by (induction n as ts rule: decode_attributes.induct) (fastforce simp: bindE_Inr dest: s)+
  show "DecodeMsgpack ts = Inr (e, ts') \<Longrightarrow> length ts' < length ts"
    unfolding DecodeMsgpack_def by (auto simp: bindE_Inr split: if_splits dest!: s i a)
qed

function remote_entries :: "int list \<Rightarrow> int \<Rightarrow> item list \<Rightarrow> entry list \<times> fatal option" where
  "remote_entries lengths lastEndChunk ts =
     (if ts = [] then ([], None)
      else case DecodeMsgpack ts of
             Inl err \<Rightarrow> ([], Some (LogError ''SNAPSHOT_PARSE''))
           | Inr (e, ts') \<Rightarrow>
               (case place_entry lastEndChunk e of
                  (e, lastEndChunk) \<Rightarrow>
                    if check e lengths \<noteq> None then ([], Some (LogError ''SNAPSHOT_ENTRY''))
                    else (case remote_entries lengths lastEndChunk ts' of (es, r) \<Rightarrow> (e # es, r))))"
  by pat_completeness auto

termination
  by (relation "measure (\<lambda>(lengths, lastEndChunk, ts). length ts)") (auto dest: DecodeMsgpack_shorter)

declare remote_entries.simps [simp del]

text \<open>
  What the decoders read from a sequence reader: an empty chunk after the first would end the stream.
\<close>

definition sequence_content :: "(string \<Rightarrow> bytes) \<Rightarrow> sequence_reader \<Rightarrow> bytes" where
  "sequence_content fetch r = sr_buffer r @ concat (takeWhile (\<lambda>b. b \<noteq> []) (map fetch (sr_rest r)))"

definition ListRemoteFiles ::
  "(string \<Rightarrow> bytes) \<Rightarrow> (string \<Rightarrow> item list) \<Rightarrow> (bytes \<Rightarrow> entry list option) \<Rightarrow> snapshot \<Rightarrow> entry list \<times> fatal option" where
  "ListRemoteFiles fetch parseItems old s =
     (case NewSequenceReader fetch (FileSequence s) of
        None \<Rightarrow> ([], Some RuntimePanic)
      | Some r \<Rightarrow>
          if Version s = 0 \<or> GetFirstByte r = 91
          then (case old (sequence_content fetch r) of
                  None \<Rightarrow> ([], Some (LogError ''SNAPSHOT_PARSE''))
                | Some es \<Rightarrow> (sort_by ByName_Less es, None))
          else if Version s = 1 then remote_entries (ChunkLengths s) 0 (parseItems (string_of (sequence_content fetch r)))
          else ([], Some (LogError ''SNAPSHOT_VERSION'')))"

definition LoadLengths :: "(bytes \<Rightarrow> int list option) \<Rightarrow> bytes \<Rightarrow> snapshot \<Rightarrow> string + snapshot" where
  "LoadLengths parseInts description s =
     (case parseInts description of None \<Rightarrow> Inl ''json'' | Some ls \<Rightarrow> Inr (s\<lparr>ChunkLengths := ls\<rparr>))"

text \<open>The chunks of a sequence may arrive in any order (\<open>DownloadSequence_any_order\<close>).\<close>

definition DownloadSnapshotSequence ::
  "(string \<Rightarrow> bytes) \<Rightarrow> (bytes \<Rightarrow> string + json list) \<Rightarrow> (bytes \<Rightarrow> int list option) \<Rightarrow> string \<Rightarrow> snapshot \<Rightarrow> fatal + snapshot" where
  "DownloadSnapshotSequence fetch parseStrings parseInts sequenceType s =
     (let sq = (if sequenceType = ''lengths'' then LengthSequence s else ChunkSequence s);
          content = DownloadSequence fetch [0..<length sq] sq
      in if content = [] then Inl (LogError ''SNAPSHOT_PARSE'')
         else case (if sequenceType = ''lengths'' then LoadLengths parseInts content s else LoadChunks parseStrings content s) of
                Inl _ \<Rightarrow> Inl (LogError ''SNAPSHOT_PARSE'')
              | Inr s \<Rightarrow> Inr s)"

definition DownloadSnapshotSequences ::
  "(string \<Rightarrow> bytes) \<Rightarrow> (bytes \<Rightarrow> string + json list) \<Rightarrow> (bytes \<Rightarrow> int list option) \<Rightarrow> snapshot \<Rightarrow> fatal + snapshot" where
  "DownloadSnapshotSequences fetch parseStrings parseInts s =
     bindE (DownloadSnapshotSequence fetch parseStrings parseInts ''chunks'' s)
       (DownloadSnapshotSequence fetch parseStrings parseInts ''lengths'')"

definition ClearSnapshotSequences :: "snapshot \<Rightarrow> snapshot" where
  "ClearSnapshotSequences s = s\<lparr>ChunkHashes := [], ChunkLengths := []\<rparr>"

section \<open>Entries at another place\<close>

text \<open>An entry whose chunk range is moved by \<open>d\<close> denotes the same bytes in chunks that are moved with it.\<close>

definition shifted :: "int \<Rightarrow> entry \<Rightarrow> entry" where
  "shifted d e = e\<lparr>StartChunk := StartChunk e + d, EndChunk := EndChunk e + d\<rparr>"

lemma shifted_fields [simp]:
  "StartChunk (shifted d e) = StartChunk e + d" "EndChunk (shifted d e) = EndChunk e + d"
  "Path (shifted d e) = Path e" "Size (shifted d e) = Size e" "Hash (shifted d e) = Hash e" "Mode (shifted d e) = Mode e"
  "StartOffset (shifted d e) = StartOffset e" "EndOffset (shifted d e) = EndOffset e" "IsFile (shifted d e) = IsFile e"
  by (simp_all add: shifted_def IsFile_def)

lemma upto_shift: "[i + d..j + d] = map (\<lambda>k. k + d) [i..j :: int]"
proof (induction "nat (j + 1 - i)" arbitrary: i)
  case 0
  then show ?case by (subst (1 2) upto.simps) simp
next
  case (Suc n)
  have "[i + 1 + d..j + d] = map (\<lambda>k. k + d) [i + 1..j]" by (rule Suc.hyps) (use Suc.hyps(2) in simp)
  then show ?case using Suc.hyps(2) by (subst (1 2) upto.simps) (simp add: add.commute add.left_commute)
qed

lemma chunk_bounds_shifted:
  "chunk_start (shifted d e) (k + d) = chunk_start e k"
  "len' (k + d) = len k \<Longrightarrow> chunk_end (shifted d e) len' (k + d) = chunk_end e len k"
  by (simp_all add: chunk_start_def chunk_end_def)

lemma file_size_shifted:
  assumes "\<And>k. StartChunk e \<le> k \<Longrightarrow> k \<le> EndChunk e \<Longrightarrow> len' (k + d) = len k"
  shows "file_size (shifted d e) len' = file_size e len"
  unfolding file_size_sum shifted_fields upto_shift map_map
  by (intro arg_cong [of _ _ sum_list] map_cong) (use assms in \<open>simp_all add: chunk_bounds_shifted\<close>)

lemma check_shifted:
  assumes "check_with n len e = None" and "IsFile e \<and> Size e \<noteq> 0 \<Longrightarrow> 0 \<le> StartChunk e + d \<and> EndChunk e + d < int n'"
    and "IsFile e \<and> Size e \<noteq> 0 \<Longrightarrow> (\<And>k. StartChunk e \<le> k \<Longrightarrow> k \<le> EndChunk e \<Longrightarrow> len' (k + d) = len k)"
  shows "check_with n' len' (shifted d e) = None"
proof (cases "IsFile e \<and> Size e \<noteq> 0")
  case True
  note c = check_with_None [OF assms(1) conjunct1 [OF True] conjunct2 [OF True]]
  have "file_size (shifted d e) len' = file_size e len" by (rule file_size_shifted) (rule assms(3) [OF True])
  moreover have "len' (StartChunk e + d) = len (StartChunk e)" "len' (EndChunk e + d) = len (EndChunk e)"
    using assms(3) [OF True] c(4) by auto
  ultimately show ?thesis using c assms(2) [OF True] True by (simp add: check_with_def)
next
  case False
  then show ?thesis using assms(1) by (auto simp: check_with_def split: if_splits)
qed

lemma entry_slice_shifted:
  assumes "\<And>k. StartChunk e \<le> k \<Longrightarrow> k \<le> EndChunk e \<Longrightarrow> content' (k + d) = content k"
  shows "entry_slice content' (shifted d e) = entry_slice content e"
  unfolding entry_slice_def shifted_fields upto_shift map_map
  by (intro arg_cong [of _ _ concat] map_cong) (use assms in \<open>simp_all add: chunk_bounds_shifted(1) chunk_end_def\<close>)

section \<open>The numbering is undone by the listing\<close>

text \<open>An entry that may be stored: it has passed the check, and an empty file has no chunks.\<close>

definition listable :: "snapshot \<Rightarrow> entry \<Rightarrow> bool" where
  "listable s e \<longleftrightarrow> check e (ChunkLengths s) = None \<and> canonical e
     \<and> (IsFile e \<and> Size e = 0 \<longrightarrow> StartChunk e = 0 \<and> EndChunk e = 0)"

definition renumber_inv :: "snapshot \<Rightarrow> renumbering \<Rightarrow> bool" where
  "renumber_inv s rn \<longleftrightarrow> length (rnLengths rn) = length (rnHashes rn)
     \<and> (if rnHashes rn = [] then rnLastChunk rn = -1 \<and> rnLastEndChunk rn = 0
        else rnLastEndChunk rn = int (length (rnHashes rn)) - 1
          \<and> last (rnHashes rn) = ChunkHashes s ! nat (rnLastChunk rn) \<and> last (rnLengths rn) = ChunkLengths s ! nat (rnLastChunk rn))"

lemma nth_block:
  assumes "length xs = p" and "i \<le> k" and "k \<le> j"
  shows "(xs @ map f [i..j]) ! nat (k + (int p - i)) = f k"
proof -
  have n: "nat (k + (int p - i)) = p + nat (k - i)" using assms by linarith
  show ?thesis unfolding n using assms by (simp add: nth_append)
qed

lemma renumbered_file:
  assumes "renumber_inv s rn" and "length (ChunkHashes s) = length (ChunkLengths s)"
    and "IsFile e" and "0 < Size e" and "check e (ChunkLengths s) = None"
  defines "fresh \<equiv> StartChunk e \<noteq> rnLastChunk rn"
  defines "p \<equiv> (if fresh then length (rnHashes rn) else length (rnHashes rn) - 1)"
  defines "d \<equiv> int p - StartChunk e"
  defines "is \<equiv> [StartChunk e..EndChunk e]"
  shows "renumber_entry s e rn = Some (e\<lparr>StartChunk := int p - rnLastEndChunk rn, EndChunk := EndChunk e - StartChunk e\<rparr>,
      \<lparr>rnHashes = take p (rnHashes rn) @ map (\<lambda>i. ChunkHashes s ! nat i) is,
       rnLengths = take p (rnLengths rn) @ map (\<lambda>i. ChunkLengths s ! nat i) is,
       rnLastChunk = EndChunk e, rnLastEndChunk = EndChunk e + d\<rparr>)"
    and "\<exists>hs. take p (rnHashes rn) @ map (\<lambda>i. ChunkHashes s ! nat i) is = rnHashes rn @ hs"
    and "\<exists>ls. take p (rnLengths rn) @ map (\<lambda>i. ChunkLengths s ! nat i) is = rnLengths rn @ ls"
    and "p \<le> length (rnHashes rn)"
proof -
  note c = check_with_None [OF assms(5) [unfolded check_def] assms(3)]
  have c': "0 \<le> StartChunk e" "EndChunk e < int (length (ChunkLengths s))" "StartChunk e \<le> EndChunk e" using c assms(4) by simp_all
  have is': "is = StartChunk e # [StartChunk e + 1..EndChunk e]" unfolding is_def using c'(3) by (simp add: upto.simps)
  have ne: "\<not> fresh \<Longrightarrow> rnHashes rn \<noteq> []" using assms(1) c'(1) by (auto simp: fresh_def renumber_inv_def)
  have li: "length (rnLengths rn) = length (rnHashes rn)" using assms(1) by (simp add: renumber_inv_def)
  have ne': "\<not> fresh \<Longrightarrow> rnLengths rn \<noteq> []" using ne li by (metis length_0_conv)
  have h: "take p (rnHashes rn) @ map (\<lambda>i. ChunkHashes s ! nat i) is
      = rnHashes rn @ map (\<lambda>i. ChunkHashes s ! nat i) ((if fresh then [StartChunk e] else []) @ [StartChunk e + 1..EndChunk e])"
    and l: "take p (rnLengths rn) @ map (\<lambda>i. ChunkLengths s ! nat i) is
      = rnLengths rn @ map (\<lambda>i. ChunkLengths s ! nat i) ((if fresh then [StartChunk e] else []) @ [StartChunk e + 1..EndChunk e])"
  proof -
    have "take p (rnHashes rn) @ [ChunkHashes s ! nat (StartChunk e)] = rnHashes rn"
      "take p (rnLengths rn) @ [ChunkLengths s ! nat (StartChunk e)] = rnLengths rn" if "\<not> fresh"
      using ne [OF that] ne' [OF that] that assms(1) li append_butlast_last_id [of "rnHashes rn"] append_butlast_last_id [of "rnLengths rn"]
      by (auto simp: p_def renumber_inv_def butlast_conv_take fresh_def)
    then show "take p (rnHashes rn) @ map (\<lambda>i. ChunkHashes s ! nat i) is
        = rnHashes rn @ map (\<lambda>i. ChunkHashes s ! nat i) ((if fresh then [StartChunk e] else []) @ [StartChunk e + 1..EndChunk e])"
      "take p (rnLengths rn) @ map (\<lambda>i. ChunkLengths s ! nat i) is
        = rnLengths rn @ map (\<lambda>i. ChunkLengths s ! nat i) ((if fresh then [StartChunk e] else []) @ [StartChunk e + 1..EndChunk e])"
      unfolding is' by (cases fresh; simp add: p_def li; metis append.assoc append_Cons append_Nil)+
  qed
  show "\<exists>hs. take p (rnHashes rn) @ map (\<lambda>i. ChunkHashes s ! nat i) is = rnHashes rn @ hs"
    "\<exists>ls. take p (rnLengths rn) @ map (\<lambda>i. ChunkLengths s ! nat i) is = rnLengths rn @ ls"
    unfolding h l by blast+
  show "p \<le> length (rnHashes rn)" by (simp add: p_def)
  have delta: "StartChunk e - int (length (rnHashes rn)) + 1 - (if fresh then 1 else 0) = - d"
    using ne by (cases "rnHashes rn") (auto simp: d_def p_def)
  have range: "list_all (\<lambda>i. 0 \<le> i \<and> nat i < length (ChunkHashes s) \<and> nat i < length (ChunkLengths s))
      ((if fresh then [StartChunk e] else []) @ [StartChunk e + 1..EndChunk e])"
    using c' assms(2) by (auto simp: list_all_iff)
  show "renumber_entry s e rn = Some (e\<lparr>StartChunk := int p - rnLastEndChunk rn, EndChunk := EndChunk e - StartChunk e\<rparr>,
      \<lparr>rnHashes = take p (rnHashes rn) @ map (\<lambda>i. ChunkHashes s ! nat i) is,
       rnLengths = take p (rnLengths rn) @ map (\<lambda>i. ChunkLengths s ! nat i) is,
       rnLastChunk = EndChunk e, rnLastEndChunk = EndChunk e + d\<rparr>)"
    unfolding renumber_entry_def h l fresh_def [symmetric] Let_def delta
    using range assms(3,4) by (simp add: d_def)
qed

lemma normalised_fields [simp]:
  "StartChunk (normalised e) = StartChunk e" "EndChunk (normalised e) = EndChunk e" "Size (normalised e) = Size e"
  "Path (normalised e) = Path e" "Hash (normalised e) = Hash e" "StartOffset (normalised e) = StartOffset e"
  "EndOffset (normalised e) = EndOffset e" "IsFile (normalised e) = IsFile e"
  by (simp_all add: normalised_def IsFile_def)

lemma shifted_normalised: "shifted d (normalised e) = normalised (shifted d e)"
  by (simp add: shifted_def normalised_def)

lemma place_normalised: "place_entry k (normalised e) = apfst normalised (place_entry k e)"
  by (auto simp: place_entry_def normalised_def IsFile_def Let_def)

lemma canonical_upd [simp]: "canonical (e\<lparr>StartChunk := i, EndChunk := j\<rparr>) = canonical e"
  by (simp add: canonical_def)

lemma bounds_normalised [simp]: "chunk_start (normalised e) i = chunk_start e i" "chunk_end (normalised e) len i = chunk_end e len i"
  by (simp_all add: chunk_end_def chunk_start_def)

lemma check_normalised [simp]: "check_with n len (normalised e) = check_with n len e"
  by (simp add: check_with_def file_size_def)

text \<open>The entry as it is listed again, with the chunks it refers to instead of their numbers.\<close>

definition moved :: "snapshot \<Rightarrow> string list \<Rightarrow> int list \<Rightarrow> int \<Rightarrow> entry \<Rightarrow> bool" where
  "moved s hs ls d e \<longleftrightarrow> (IsFile e \<and> 0 < Size e \<longrightarrow> 0 \<le> StartChunk e + d \<and> EndChunk e + d < int (length hs) \<and> length ls = length hs
     \<and> (\<forall>k. StartChunk e \<le> k \<longrightarrow> k \<le> EndChunk e \<longrightarrow> hs ! nat (k + d) = ChunkHashes s ! nat k \<and> ls ! nat (k + d) = ChunkLengths s ! nat k))"

lemma renumber_step:
  assumes "renumber_inv s rn" and "length (ChunkHashes s) = length (ChunkLengths s)" and "listable s e"
  obtains e' rn' d hs ls where "renumber_entry s e rn = Some (e', rn')" and "renumber_inv s rn'" and "canonical e'"
    and "rnHashes rn' = rnHashes rn @ hs" and "rnLengths rn' = rnLengths rn @ ls"
    and "place_entry (rnLastEndChunk rn) e' = (shifted d e, rnLastEndChunk rn')" and "moved s (rnHashes rn') (rnLengths rn') d e"
proof (cases "IsFile e \<and> 0 < Size e")
  case True
  define p where "p = (if StartChunk e \<noteq> rnLastChunk rn then length (rnHashes rn) else length (rnHashes rn) - 1)"
  define e' where "e' = e\<lparr>StartChunk := int p - rnLastEndChunk rn, EndChunk := EndChunk e - StartChunk e\<rparr>"
  define rn' where "rn' = \<lparr>rnHashes = take p (rnHashes rn) @ map (\<lambda>i. ChunkHashes s ! nat i) [StartChunk e..EndChunk e],
       rnLengths = take p (rnLengths rn) @ map (\<lambda>i. ChunkLengths s ! nat i) [StartChunk e..EndChunk e],
       rnLastChunk = EndChunk e, rnLastEndChunk = EndChunk e + (int p - StartChunk e)\<rparr>"
  have chk: "check e (ChunkLengths s) = None" and can: "canonical e" using assms(3) by (simp_all add: listable_def)
  note r = renumbered_file [OF assms(1,2) conjunct1 [OF True] conjunct2 [OF True] chk, folded p_def]
  note c = check_with_None [OF chk [unfolded check_def] conjunct1 [OF True]]
  have se: "StartChunk e \<le> EndChunk e" "0 \<le> StartChunk e" using c True by simp_all
  have li: "length (rnLengths rn) = length (rnHashes rn)" using assms(1) by (simp add: renumber_inv_def)
  have lp: "length (take p (rnHashes rn)) = p" "length (take p (rnLengths rn)) = p" using r(4) li by simp_all
  have lst: "last (map f [StartChunk e..EndChunk e]) = f (EndChunk e)" for f :: "int \<Rightarrow> 'x"
    using se(1) by (simp add: last_map upto_rec2)
  obtain hs where hs: "rnHashes rn' = rnHashes rn @ hs" using r(2) unfolding rn'_def by auto
  obtain ls where ls: "rnLengths rn' = rnLengths rn @ ls" using r(3) unfolding rn'_def by auto
  show ?thesis
  proof (rule that [of e' rn' hs ls "int p - StartChunk e"])
    show "renumber_entry s e rn = Some (e', rn')" unfolding e'_def rn'_def by (rule r(1))
    show "renumber_inv s rn'" using se lp by (simp add: renumber_inv_def rn'_def lst)
    show "canonical e'" using can by (simp add: e'_def)
    show "place_entry (rnLastEndChunk rn) e' = (shifted (int p - StartChunk e) e, rnLastEndChunk rn')"
      using True by (simp add: place_entry_def e'_def rn'_def shifted_def IsFile_def Let_def algebra_simps)
    show "moved s (rnHashes rn') (rnLengths rn') (int p - StartChunk e) e"
      using se lp by (simp add: moved_def rn'_def nth_block)
  qed (fact hs ls)+
next
  case False
  let ?d = "if IsFile e then rnLastEndChunk rn else 0"
  have "0 \<le> Size e" "canonical e" "IsFile e \<Longrightarrow> Size e = 0 \<Longrightarrow> StartChunk e = 0 \<and> EndChunk e = 0"
    using assms(3) by (auto simp: listable_def check_def check_with_def split: if_splits)
  then have 1: "place_entry (rnLastEndChunk rn) e = (shifted ?d e, rnLastEndChunk rn)"
    using False by (cases "IsFile e") (simp_all add: place_entry_def shifted_def Let_def)
  have 2: "renumber_entry s e rn = Some (e, rn)" "moved s (rnHashes rn) (rnLengths rn) ?d e"
    using False by (auto simp: renumber_entry_def moved_def)
  show ?thesis by (rule that [OF 2(1) assms(1) \<open>canonical e\<close> _ _ 1 2(2)]) simp_all
qed

lemma moved_append: "moved s hs ls d e \<Longrightarrow> moved s (hs @ hs') (ls @ ls') d e \<or> length ls \<noteq> length hs \<or> length ls' \<noteq> length hs'"
  by (auto simp: moved_def nth_append)

text \<open>What the listing of the numbered entries delivers.\<close>

lemma remote_entries_renumbered:
  assumes "length (ChunkHashes s) = length (ChunkLengths s)" and "list_all (listable s) es" and "renumber_inv s rn"
  shows "\<exists>es' rn' hs ls. renumber_entries s es rn = Some (es', rn') \<and> renumber_inv s rn'
    \<and> rnHashes rn' = rnHashes rn @ hs \<and> rnLengths rn' = rnLengths rn @ ls
    \<and> (\<exists>out. remote_entries (rnLengths rn') (rnLastEndChunk rn) (concat (map EncodeMsgpack es')) = (out, None)
      \<and> list_all2 (\<lambda>e e''. \<exists>d. e'' = shifted d (normalised e) \<and> moved s (rnHashes rn') (rnLengths rn') d e) es out)"
  using assms(2,3)
proof (induction es arbitrary: rn)
  case Nil
  then show ?case by (simp add: remote_entries.simps)
next
  case (Cons e es)
  obtain e1 rn1 d hs1 ls1 where 1: "renumber_entry s e rn = Some (e1, rn1)" "renumber_inv s rn1" "canonical e1"
    "rnHashes rn1 = rnHashes rn @ hs1" "rnLengths rn1 = rnLengths rn @ ls1"
    "place_entry (rnLastEndChunk rn) e1 = (shifted d e, rnLastEndChunk rn1)" "moved s (rnHashes rn1) (rnLengths rn1) d e"
    by (rule renumber_step [OF Cons.prems(2) assms(1), of e]) (use Cons.prems(1) in auto)
  obtain es' rn' hs ls out where 2: "renumber_entries s es rn1 = Some (es', rn')" "renumber_inv s rn'"
    "rnHashes rn' = rnHashes rn1 @ hs" "rnLengths rn' = rnLengths rn1 @ ls"
    "remote_entries (rnLengths rn') (rnLastEndChunk rn1) (concat (map EncodeMsgpack es')) = (out, None)"
    "list_all2 (\<lambda>e e''. \<exists>d. e'' = shifted d (normalised e) \<and> moved s (rnHashes rn') (rnLengths rn') d e) es out"
    using Cons.IH [OF _ 1(2)] Cons.prems(1) by auto
  have m: "moved s (rnHashes rn') (rnLengths rn') d e"
    using moved_append [OF 1(7), of hs ls] 1(2) 2(2-4) by (auto simp: renumber_inv_def)
  have l: "length (rnLengths rn') = length (rnHashes rn')" using 2(2) by (simp add: renumber_inv_def)
  have chk: "check e (ChunkLengths s) = None" using Cons.prems(1) by (simp add: listable_def)
  then have pos: "IsFile e \<and> Size e \<noteq> 0 \<Longrightarrow> IsFile e \<and> 0 < Size e" by (auto simp: check_def check_with_def split: if_splits)
  have "check (shifted d e) (rnLengths rn') = None"
    unfolding check_def
    by (rule check_shifted [OF chk [unfolded check_def]]) (use m pos l in \<open>auto simp: moved_def\<close>)
  moreover have "EncodeMsgpack e1 @ concat (map EncodeMsgpack es') \<noteq> []" by (simp add: EncodeMsgpack_def)
  ultimately have "remote_entries (rnLengths rn') (rnLastEndChunk rn) (concat (map EncodeMsgpack (e1 # es'))) = (shifted d (normalised e) # out, None)"
    using 2(5) by (subst remote_entries.simps)
      (simp add: DecodeMsgpack_encoded [OF 1(3)] place_normalised 1(6) shifted_normalised check_def)
  then show ?case using 1(1,4,5) 2 m by auto
qed

section \<open>The whole way\<close>

lemma CreateMetaDataChunkMaker_ok:
  assumes "CreateMetaDataChunkMaker sha cfg n = Inr m" and "4 \<le> n"
  shows "maker_inv m" "pending m = []"
proof -
  have "0 < n div 4" "n div 4 < n * 4" using assms(2) by linarith+
  then show "maker_inv m" "pending m = []"
    using assms by (auto simp: CreateMetaDataChunkMaker_def CreateFileChunkMaker_def startNewChunk_def maker_inv_def ring_inv_def pending_def
        nat_mult_distrib split: if_splits)
qed

lemma metadata_chunks_ok:
  assumes "CreateMetaDataChunkMaker sha cfg n = Inr m" and "4 \<le> n"
  shows "\<exists>cs. metadata_chunks sha cfg n datas = Some (Inr cs) \<and> concat cs = concat datas \<and> [] \<notin> set cs"
proof -
  note ok = CreateMetaDataChunkMaker_ok [OF assms]
  obtain m' where r: "AddFiles False (\<lambda>_. []) m (map (\<lambda>d. [Data d]) datas) = Some (m',
     maker_chunks m (pending m @ concat (map reader_data (map (\<lambda>d. [Data d]) datas))),
     map (file_result False (\<lambda>_. []) 0 []) (map (\<lambda>d. [Data d]) datas) @ [add_result.Returned 0 [] []])"
    using AddFiles_chunks [OF ok(1)] by blast
  have d: "pending m @ concat (map reader_data (map (\<lambda>d. [Data d]) datas)) = concat datas"
    using ok(2) by (simp add: comp_def)
  show ?thesis
    unfolding metadata_chunks_def assms(1) sum.case r [unfolded d] using ok(1)
    by (simp add: spec_chunks_concat spec_chunks_nonempty maker_inv_def)
qed

lemma upload_metadata_fields:
  "upload_metadata getHash getID index known cs = (sq, known', ops) \<Longrightarrow>
     sq = map getHash cs \<and> map (\<lambda>op. fst (snd op)) ops = cs"
  by (auto simp: upload_metadata_def split: prod.splits dest: upload_chunks_order)

text \<open>Storing sequences one by one.\<close>

lemma store_sequences_Cons:
  assumes "CreateMetaDataChunkMaker (me_sha me) (me_config me) (me_chunkSize me) = Inr m" and "4 \<le> me_chunkSize me"
  obtains cs known' ops index' where "concat cs = concat (pieces s)" and "[] \<notin> set cs" and "map (\<lambda>op. fst (snd op)) ops = cs"
    and "store_sequences me ((sequenceType, pieces) # ts) index known s =
        map_option (map_sum id (\<lambda>(s, ops'). (s, ops @ ops')))
          (store_sequences me ts index' known' (SetSequence sequenceType (map (me_hash me) cs) s))"
proof -
  obtain cs where cs: "metadata_chunks (me_sha me) (me_config me) (me_chunkSize me) (pieces s) = Some (Inr cs)"
    "concat cs = concat (pieces s)" "[] \<notin> set cs" using metadata_chunks_ok [OF assms] by blast
  obtain sq known' ops where u: "upload_metadata (me_hash me) (me_id me) index known cs = (sq, known', ops)" by (metis prod_cases3)
  show ?thesis by (rule that [of cs ops "index + length cs" known']) (use cs u upload_metadata_fields [OF u] in simp_all)
qed

declare store_sequences.simps(2) [simp del]

lemma MarshalSequence_upd [simp]:
  "MarshalSequence k (s\<lparr>FileSequence := x\<rparr>) = MarshalSequence k s" "MarshalSequence k (s\<lparr>ChunkSequence := x\<rparr>) = MarshalSequence k s"
  by (simp_all add: MarshalSequence_def)

lemma stored_sequences:
  assumes "CreateMetaDataChunkMaker (me_sha me) (me_config me) (me_chunkSize me) = Inr m" and "4 \<le> me_chunkSize me"
  obtains fs cs ls ops where "store_sequences me [(''files'', \<lambda>_. datas), (''chunks'', \<lambda>s. [me_json me (MarshalSequence ''chunks'' s)]),
      (''lengths'', \<lambda>s. [me_json me (MarshalSequence ''lengths'' s)])] 0 known s = Some (Inr (s\<lparr>FileSequence := map (me_hash me) fs,
        ChunkSequence := map (me_hash me) cs, LengthSequence := map (me_hash me) ls\<rparr>, ops))"
    and "map (\<lambda>op. fst (snd op)) ops = fs @ cs @ ls" and "concat fs = concat datas" and "[] \<notin> set fs"
    and "concat cs = me_json me (MarshalSequence ''chunks'' s)" and "concat ls = me_json me (MarshalSequence ''lengths'' s)"
proof -
  let ?s1 = "\<lambda>fs. s\<lparr>FileSequence := map (me_hash me) fs\<rparr>" and ?s2 = "\<lambda>fs cs. s\<lparr>FileSequence := map (me_hash me) fs, ChunkSequence := map (me_hash me) cs\<rparr>"
  let ?t3 = "[(''lengths'', \<lambda>s. [me_json me (MarshalSequence ''lengths'' s)])]"
  let ?t2 = "(''chunks'', \<lambda>s. [me_json me (MarshalSequence ''chunks'' s)]) # ?t3"
  obtain fs k1 o1 i1 where 1: "concat fs = concat datas" "[] \<notin> set fs" "map (\<lambda>op. fst (snd op)) o1 = fs"
    "store_sequences me ((''files'', \<lambda>_. datas) # ?t2) 0 known s = map_option (map_sum id (\<lambda>(s, ops'). (s, o1 @ ops')))
       (store_sequences me ?t2 i1 k1 (SetSequence ''files'' (map (me_hash me) fs) s))"
    by (rule store_sequences_Cons [OF assms, of "\<lambda>_. datas" s]) blast
  obtain cs k2 o2 i2 where 2: "concat cs = concat [me_json me (MarshalSequence ''chunks'' (?s1 fs))]" "map (\<lambda>op. fst (snd op)) o2 = cs"
    "store_sequences me ?t2 i1 k1 (?s1 fs) = map_option (map_sum id (\<lambda>(s, ops'). (s, o2 @ ops')))
       (store_sequences me ?t3 i2 k2 (SetSequence ''chunks'' (map (me_hash me) cs) (?s1 fs)))"
    by (rule store_sequences_Cons [OF assms, of "\<lambda>s. [me_json me (MarshalSequence ''chunks'' s)]" "?s1 fs"]) blast
  obtain ls k3 o3 i3 where 3: "concat ls = concat [me_json me (MarshalSequence ''lengths'' (?s2 fs cs))]" "map (\<lambda>op. fst (snd op)) o3 = ls"
    "store_sequences me ?t3 i2 k2 (?s2 fs cs) = map_option (map_sum id (\<lambda>(s, ops'). (s, o3 @ ops')))
       (store_sequences me [] i3 k3 (SetSequence ''lengths'' (map (me_hash me) ls) (?s2 fs cs)))"
    by (rule store_sequences_Cons [OF assms, of "\<lambda>s. [me_json me (MarshalSequence ''lengths'' s)]" "?s2 fs cs"]) blast
  show ?thesis
    by (rule that [where fs = fs and cs = cs and ls = ls and ops = "o1 @ o2 @ o3"]) (use 1 2 3 in \<open>simp_all add: SetSequence_def\<close>)
qed

text \<open>A stored sequence is fetched again.\<close>

definition fetched :: "(string \<Rightarrow> bytes) \<Rightarrow> (bytes \<Rightarrow> string) \<Rightarrow> bytes list \<Rightarrow> bool" where
  "fetched fetch hash cs \<longleftrightarrow> list_all (\<lambda>c. fetch (hash c) = c) cs"

lemma map_fetched: "fetched fetch hash cs \<Longrightarrow> map fetch (map hash cs) = cs"
  by (induction cs) (simp_all add: fetched_def)

lemma DownloadSequence_fetched:
  assumes "fetched fetch hash cs"
  shows "DownloadSequence fetch [0..<length cs] (map hash cs) = concat cs"
proof -
  have "DownloadSequence fetch [0..<length (map hash cs)] (map hash cs) = concat (map fetch (map hash cs))"
    by (rule DownloadSequence_any_order) simp
  then show ?thesis using map_fetched [OF assms] by simp
qed

lemma sequence_content_fetched:
  assumes "fetched fetch hash cs" and "[] \<notin> set cs" and "cs \<noteq> []"
  shows "\<exists>r. NewSequenceReader fetch (map hash cs) = Some r \<and> sequence_content fetch r = concat cs \<and> sr_buffer r = hd cs"
proof (cases cs)
  case (Cons c cs')
  have "map fetch (map hash cs') = cs'" "fetch (hash c) = c" using assms(1) by (auto simp: Cons fetched_def simp del: map_map intro!: map_fetched)
  moreover have "takeWhile (\<lambda>b. b \<noteq> []) cs' = cs'" using assms(2) by (auto simp: Cons)
  ultimately show ?thesis by (simp add: Cons NewSequenceReader_def sequence_content_def del: map_map takeWhile_eq_all_conv)
qed (use assms(3) in simp)

text \<open>An entry as it is listed: with the chunks it refers to in place of their numbers.\<close>

definition listed_entry :: "snapshot \<Rightarrow> entry \<Rightarrow> entry \<times> (string \<times> int) list" where
  "listed_entry s e = ((normalised e)\<lparr>StartChunk := 0, EndChunk := 0\<rparr>,
     if IsFile e \<and> 0 < Size e then map (\<lambda>k. (ChunkHashes s ! nat k, ChunkLengths s ! nat k)) [StartChunk e..EndChunk e] else [])"

lemma listed_entry_moved:
  assumes "moved s (ChunkHashes s') (ChunkLengths s') d e"
  shows "listed_entry s' (shifted d (normalised e)) = listed_entry s e"
  using assms by (auto simp: listed_entry_def moved_def upto_shift comp_def shifted_def normalised_def IsFile_def)

text \<open>What the packages for msgpack and JSON promise: a stream of values is read back, and no text is empty.\<close>

definition codecs_ok :: "metadata_env \<Rightarrow> (bytes \<Rightarrow> string + json list) \<Rightarrow> (bytes \<Rightarrow> int list option) \<Rightarrow> bool" where
  "codecs_ok me parseStrings parseInts \<longleftrightarrow>
     (\<forall>es. parse (me_codec me) (concat (map (\<lambda>e. marshal (me_codec me) (EncodeMsgpack e)) es)) = concat (map EncodeMsgpack es))
     \<and> (\<forall>e. \<exists>c cs. marshal (me_codec me) (EncodeMsgpack e) = c # cs \<and> c \<noteq> CHR ''['')
     \<and> (\<forall>hs. parseStrings (me_json me (JArray (map JString hs))) = Inr (map JString hs))
     \<and> (\<forall>ls. parseInts (me_json me (JArray (map JNumber ls))) = Some ls)
     \<and> (\<forall>j. me_json me j \<noteq> [])"

lemma string_of_append: "string_of [] = []" "string_of (x @ y) = string_of x @ string_of y"
  by (simp_all add: string_of_def)

lemma first_nonempty: "[] \<notin> set fs \<Longrightarrow> fs \<noteq> [] \<Longrightarrow> hd fs \<noteq> [] \<and> hd (hd fs) = hd (concat fs)"
  by (cases fs) auto

lemma first_byte: "c \<noteq> CHR ''['' \<Longrightarrow> (word_of_nat (of_char c) :: byte) \<noteq> 91"
proof
  assume "c \<noteq> CHR ''[''" and "(word_of_nat (of_char c) :: byte) = 91"
  then have "unat (word_of_nat (of_char c) :: byte) = 91" by simp
  then have "(of_char c :: nat) = 91" by (simp add: unat_of_nat)
  then have "c = char_of (91 :: nat)" by (metis char_of_char)
  moreover have "char_of (91 :: nat) = CHR ''[''" by code_simp
  ultimately show False using \<open>c \<noteq> CHR ''[''\<close> by simp
qed

lemma DownloadSnapshotSequences_stored:
  assumes "codecs_ok me parseStrings parseInts" and "ChunkSequence s = map hash cs" and "LengthSequence s = map hash ls"
    and "fetched fetch hash cs" and "fetched fetch hash ls"
    and "concat cs = me_json me (MarshalSequence ''chunks'' t)" and "concat ls = me_json me (MarshalSequence ''lengths'' t)"
  shows "DownloadSnapshotSequences fetch parseStrings parseInts s = Inr (s\<lparr>ChunkHashes := ChunkHashes t, ChunkLengths := ChunkLengths t\<rparr>)"
proof -
  have ne: "me_json me j \<noteq> []" for j using assms(1) by (simp add: codecs_ok_def)
  have p: "parseStrings (me_json me (MarshalSequence ''chunks'' t)) = Inr (map JString (encodeSequence (ChunkHashes t)))"
    "parseInts (me_json me (MarshalSequence ''lengths'' t)) = Some (ChunkLengths t)"
    using assms(1) by (simp_all add: codecs_ok_def MarshalSequence_def)
  have "DownloadSnapshotSequence fetch parseStrings parseInts ''chunks'' s = Inr (s\<lparr>ChunkHashes := ChunkHashes t\<rparr>)"
    using DownloadSequence_fetched [OF assms(4)] assms(2,6) ne p(1)
    by (simp add: DownloadSnapshotSequence_def Let_def LoadChunks_def hashes_of_encoded del: map_map)
  moreover have "DownloadSnapshotSequence fetch parseStrings parseInts ''lengths'' (s\<lparr>ChunkHashes := ChunkHashes t\<rparr>)
      = Inr (s\<lparr>ChunkHashes := ChunkHashes t, ChunkLengths := ChunkLengths t\<rparr>)"
    using DownloadSequence_fetched [OF assms(5)] assms(3,7) ne p(2)
    by (simp add: DownloadSnapshotSequence_def Let_def LoadLengths_def)
  ultimately show ?thesis by (simp add: DownloadSnapshotSequences_def)
qed

lemma remote_entries_checked:
  "remote_entries lengths l ts = (out, r) \<Longrightarrow> list_all (\<lambda>e. check e lengths = None) out"
  by (induction lengths l ts arbitrary: out r rule: remote_entries.induct)
    (subst (asm) remote_entries.simps, auto split: if_splits sum.splits prod.splits)

lemma renumber_entries_pairs:
  assumes "renumber_entries s es rn = Some (es', rn')" and "length (rnHashes rn) = length (rnLengths rn)"
  shows "length (rnHashes rn') = length (rnLengths rn')
    \<and> set (zip (rnHashes rn') (rnLengths rn')) \<subseteq> set (zip (rnHashes rn) (rnLengths rn)) \<union> set (zip (ChunkHashes s) (ChunkLengths s))"
  using assms
proof (induction es arbitrary: rn es')
  case (Cons e es)
  obtain e1 rn1 es1 where 1: "renumber_entry s e rn = Some (e1, rn1)" "renumber_entries s es rn1 = Some (es1, rn')"
    using Cons.prems(1) by (auto split: option.splits)
  have z: "zip (map f xs) (map g xs) = map (\<lambda>i. (f i, g i)) xs" for f :: "int \<Rightarrow> string" and g :: "int \<Rightarrow> int" and xs
    by (induction xs) simp_all
  obtain added where a: "rnHashes rn1 = rnHashes rn @ map (\<lambda>i. ChunkHashes s ! nat i) added"
    "rnLengths rn1 = rnLengths rn @ map (\<lambda>i. ChunkLengths s ! nat i) added"
    and r: "\<forall>i \<in> set added. nat i < length (ChunkHashes s) \<and> nat i < length (ChunkLengths s)"
  proof (cases "IsFile e \<and> 0 < Size e")
    case True
    then show thesis
      using 1(1) that [of "(if StartChunk e \<noteq> rnLastChunk rn then [StartChunk e] else []) @ [StartChunk e + 1..EndChunk e]"]
      by (auto simp: renumber_entry_def Let_def list_all_iff split: if_splits)
  next
    case False
    then show thesis using 1(1) that [of "[]"] by (auto simp: renumber_entry_def)
  qed
  have "(ChunkHashes s ! nat i, ChunkLengths s ! nat i) \<in> set (zip (ChunkHashes s) (ChunkLengths s))" if "i \<in> set added" for i
    using r that by (auto simp: in_set_zip)
  then have "length (rnHashes rn1) = length (rnLengths rn1)
    \<and> set (zip (rnHashes rn1) (rnLengths rn1)) \<subseteq> set (zip (rnHashes rn) (rnLengths rn)) \<union> set (zip (ChunkHashes s) (ChunkLengths s))"
    using Cons.prems(2) by (auto simp: a z)
  then show ?case using Cons.IH [OF 1(2)] by blast
qed simp

lemma stored_and_listed:
  assumes "ReadEntries (me_codec me) el = Inr es" and "es \<noteq> []" and "list_all (listable s) es"
    and "length (ChunkHashes s) = length (ChunkLengths s)" and "Version s = 1"
    and "CreateMetaDataChunkMaker (me_sha me) (me_config me) (me_chunkSize me) = Inr m" and "4 \<le> me_chunkSize me"
    and "codecs_ok me parseStrings parseInts"
  shows "\<exists>s' ops. snapshot_sequences me el known s = Some (Inr (s', ops)) \<and>
    (\<forall>fetch. fetched fetch (me_hash me) (map (\<lambda>op. fst (snd op)) ops) \<longrightarrow>
      (\<exists>s'' out. DownloadSnapshotSequences fetch parseStrings parseInts (ClearSnapshotSequences s') = Inr s''
        \<and> ListRemoteFiles fetch (parse (me_codec me)) old s'' = (out, None)
        \<and> map (listed_entry s'') out = map (listed_entry s) es
        \<and> list_all (\<lambda>e. check e (ChunkLengths s'') = None) out
        \<and> length (ChunkHashes s'') = length (ChunkLengths s'')
        \<and> set (zip (ChunkHashes s'') (ChunkLengths s'')) \<subseteq> set (zip (ChunkHashes s) (ChunkLengths s))))"
proof -
  let ?hash = "me_hash me" and ?put = "\<lambda>e. bytes_of (marshal (me_codec me) (EncodeMsgpack e))"
  obtain es' rn out where rn: "renumber_entries s es start_renumbering = Some (es', rn)"
    and listed: "remote_entries (rnLengths rn) 0 (concat (map EncodeMsgpack es')) = (out, None)"
    and moved: "list_all2 (\<lambda>e e''. \<exists>d. e'' = shifted d (normalised e) \<and> moved s (rnHashes rn) (rnLengths rn) d e) es out"
    using remote_entries_renumbered [OF assms(4,3), of start_renumbering]
    by (auto simp: start_renumbering_def renumber_inv_def)
  let ?t = "s\<lparr>ChunkHashes := rnHashes rn, ChunkLengths := rnLengths rn\<rparr>"
  let ?ts = "[(''files'', \<lambda>_. map ?put es'), (''chunks'', \<lambda>s. [me_json me (MarshalSequence ''chunks'' s)]),
      (''lengths'', \<lambda>s. [me_json me (MarshalSequence ''lengths'' s)])]"
  have eq: "snapshot_sequences me el known s = store_sequences me ?ts 0 known ?t" by (simp add: snapshot_sequences_def assms(1) rn)
  obtain fs cs ls ops where st: "store_sequences me ?ts 0 known ?t = Some (Inr (?t\<lparr>FileSequence := map ?hash fs,
        ChunkSequence := map ?hash cs, LengthSequence := map ?hash ls\<rparr>, ops))"
    and ops: "map (\<lambda>op. fst (snd op)) ops = fs @ cs @ ls" and fs: "concat fs = concat (map ?put es')" "[] \<notin> set fs"
    and cl: "concat cs = me_json me (MarshalSequence ''chunks'' ?t)" "concat ls = me_json me (MarshalSequence ''lengths'' ?t)"
    by (rule stored_sequences [OF assms(6,7)])
  let ?s'' = "?t\<lparr>FileSequence := map ?hash fs, ChunkSequence := map ?hash cs, LengthSequence := map ?hash ls\<rparr>"
  have "es' \<noteq> []" using rn assms(2) by (cases es) (auto split: option.splits)
  then obtain e0 es0 where e0: "es' = e0 # es0" by (cases es') auto
  have "DownloadSnapshotSequences fetch parseStrings parseInts (ClearSnapshotSequences ?s'') = Inr ?s''
        \<and> ListRemoteFiles fetch (parse (me_codec me)) old ?s'' = (out, None)"
    if f: "fetched fetch ?hash (map (\<lambda>op. fst (snd op)) ops)" for fetch
  proof -
    have f': "fetched fetch ?hash fs" "fetched fetch ?hash cs" "fetched fetch ?hash ls"
      using f by (simp_all add: ops fetched_def)
    have "DownloadSnapshotSequences fetch parseStrings parseInts (ClearSnapshotSequences ?s'') = Inr ?s''"
      using DownloadSnapshotSequences_stored [OF assms(8) _ _ f'(2,3) cl, of "ClearSnapshotSequences ?s''"]
      by (simp add: ClearSnapshotSequences_def)
    moreover have "ListRemoteFiles fetch (parse (me_codec me)) old ?s'' = (out, None)"
    proof -
      obtain c r where c: "marshal (me_codec me) (EncodeMsgpack e0) = c # r" "c \<noteq> CHR ''[''"
        using assms(8) unfolding codecs_ok_def by metis
      have ne: "fs \<noteq> []" using fs(1) by (auto simp: e0 c(1) bytes_of_def)
      obtain r where r: "NewSequenceReader fetch (map ?hash fs) = Some r" "sequence_content fetch r = concat fs" "sr_buffer r = hd fs"
        using sequence_content_fetched [OF f'(1) fs(2) ne] by blast
      have h: "hd fs \<noteq> []" "hd (hd fs) = hd (concat fs)" using first_nonempty [OF fs(2) ne] by blast+
      have "hd (concat fs) = word_of_nat (of_char c)" by (simp add: fs(1) e0 c(1) bytes_of_def)
      moreover have "GetFirstByte r = hd (hd fs)" using h(1) by (simp add: GetFirstByte_def r(3) split: list.split)
      ultimately have "GetFirstByte r \<noteq> 91" using first_byte [OF c(2)] h(2) by simp
      moreover have "string_of (concat fs) = concat (map (\<lambda>e. marshal (me_codec me) (EncodeMsgpack e)) es')"
        unfolding fs(1) by (induction es') (simp_all add: string_of_append)
      ultimately show ?thesis
        using listed assms(5,8) r(1,2) by (simp add: ListRemoteFiles_def codecs_ok_def)
    qed
    ultimately show ?thesis by blast
  qed
  moreover have "map (listed_entry ?s'') out = map (listed_entry s) es"
    using moved listed_entry_moved [of s ?s''] by (induction es out rule: list_all2_induct) auto
  moreover have "list_all (\<lambda>e. check e (ChunkLengths ?s'') = None) out" using remote_entries_checked [OF listed] by simp
  moreover have "length (ChunkHashes ?s'') = length (ChunkLengths ?s'')
      \<and> set (zip (ChunkHashes ?s'') (ChunkLengths ?s'')) \<subseteq> set (zip (ChunkHashes s) (ChunkLengths s))"
    using renumber_entries_pairs [OF rn] by (simp add: start_renumbering_def)
  ultimately show ?thesis unfolding eq using st by blast
qed

text \<open>
  C25. A snapshot that was uploaded is listed again.  Storing the entries of the list succeeds, and whoever
  fetches the metadata chunks by the hashes the snapshot names, in any number of pieces, gets back the chunk
  hashes and lengths, and then every entry with all its fields and with a chunk range that names, under the
  snapshot's own numbering, the same chunks as before, however the entries interleave preserved and new ones.
\<close>

theorem uploaded_snapshot_listed:
  assumes "ReadEntries (me_codec me) el = Inr es" and "es \<noteq> []" and "list_all (listable s) es"
    and "length (ChunkHashes s) = length (ChunkLengths s)" and "Version s = 1"
    and "CreateMetaDataChunkMaker (me_sha me) (me_config me) (me_chunkSize me) = Inr m" and "4 \<le> me_chunkSize me"
    and "codecs_ok me parseStrings parseInts"
  shows "\<exists>s' ops. snapshot_sequences me el known s = Some (Inr (s', ops)) \<and>
    (\<forall>fetch. fetched fetch (me_hash me) (map (\<lambda>op. fst (snd op)) ops) \<longrightarrow>
      (\<exists>s'' out. DownloadSnapshotSequences fetch parseStrings parseInts (ClearSnapshotSequences s') = Inr s''
        \<and> ListRemoteFiles fetch (parse (me_codec me)) old s'' = (out, None)
        \<and> map (listed_entry s'') out = map (listed_entry s) es))"
  using stored_and_listed [OF assms, of known old] by meson

section \<open>An instance of the parameters\<close>

text \<open>A simple self-delimiting code for items: a tag, the characters each after a comma, and a full stop.\<close>

definition escape :: "string \<Rightarrow> string" where
  "escape s = concat (map (\<lambda>c. [CHR '','', c]) s) @ ''.''"

fun unescape :: "string \<Rightarrow> string \<times> string" where
  "unescape (t # c # r) = (if t = CHR '','' then apfst (Cons c) (unescape r) else ([], c # r))"
| "unescape r = ([], [])"

lemma unescape_escape: "unescape (escape s @ r) = (s, r)"
  by (induction s; cases r) (simp_all add: escape_def)

lemma unescape_shorter: "length (snd (unescape s)) \<le> length s"
  by (induction s rule: unescape.induct) auto

text \<open>Numbers in unary.\<close>

definition put_int :: "int \<Rightarrow> string" where
  "put_int i = (if i < 0 then CHR ''-'' # replicate (nat (- i)) (CHR ''1'') else replicate (nat i) (CHR ''1''))"

definition get_int :: "string \<Rightarrow> int" where
  "get_int s = (case s of c # r \<Rightarrow> if c = CHR ''-'' then - int (length r) else int (length s) | [] \<Rightarrow> 0)"

lemma get_put_int: "get_int (put_int i) = i"
  by (cases "nat i") (auto simp: put_int_def get_int_def)

fun put_item :: "item \<Rightarrow> string" where
  "put_item (IStr s) = CHR ''s'' # escape s"
| "put_item (IInt i) = CHR ''i'' # escape (put_int i)"
| "put_item (IBytes s) = CHR ''b'' # escape s"

function get_items :: "string \<Rightarrow> item list" where
  "get_items [] = []"
| "get_items (t # s) =
     (let x = fst (unescape s)
      in (if t = CHR ''i'' then IInt (get_int x) else if t = CHR ''s'' then IStr x else IBytes x) # get_items (snd (unescape s)))"
  by pat_completeness auto

termination
  by (relation "measure length") (auto simp: le_imp_less_Suc unescape_shorter)

definition put_items :: "item list \<Rightarrow> string" where
  "put_items ts = concat (map put_item ts)"

lemma get_put_items: "get_items (put_items ts) = ts"
proof (induction ts)
  case (Cons t ts)
  then show ?case by (cases t) (simp_all add: put_items_def unescape_escape get_put_int)
qed (simp add: put_items_def)

text \<open>The same code for lists of strings and numbers.\<close>

definition put_json :: "json \<Rightarrow> bytes" where
  "put_json j = bytes_of (CHR ''['' # put_items (case j of
     JArray js \<Rightarrow> map (\<lambda>j. case j of JString s \<Rightarrow> IStr s | JNumber i \<Rightarrow> IInt i | _ \<Rightarrow> IBytes []) js | _ \<Rightarrow> []))"

definition get_strings :: "bytes \<Rightarrow> string + json list" where
  "get_strings b = Inr (map (\<lambda>t. case t of IStr s \<Rightarrow> JString s | _ \<Rightarrow> JOther) (get_items (tl (string_of b))))"

definition get_ints :: "bytes \<Rightarrow> int list option" where
  "get_ints b = Some (map (\<lambda>t. case t of IInt i \<Rightarrow> i | _ \<Rightarrow> 0) (get_items (tl (string_of b))))"

definition plain_codec :: codec where
  "plain_codec = \<lparr>marshal = put_items, parse = get_items, sha256 = id\<rparr>"

definition plain_metadata :: metadata_env where
  "plain_metadata = \<lparr>me_codec = plain_codec, me_json = put_json, me_sha = (\<lambda>bs. replicate 32 0), me_config = sample_config 2 4 8,
     me_chunkSize = 4, me_hash = string_of, me_id = string_of\<rparr>"

lemma plain_codecs_ok: "codecs_ok plain_metadata get_strings get_ints"
proof -
  have c: "concat (map (\<lambda>e. put_items (EncodeMsgpack e)) es) = put_items (concat (map EncodeMsgpack es))" for es
    by (induction es) (simp_all add: put_items_def)
  have h: "\<exists>c cs. put_items (EncodeMsgpack e) = c # cs \<and> c \<noteq> CHR ''[''" for e
    by (simp add: put_items_def EncodeMsgpack_def)
  have j: "get_strings (put_json (JArray (map JString hs))) = Inr (map JString hs)"
    "get_ints (put_json (JArray (map JNumber ls))) = Some ls" for hs ls
    by (simp_all add: get_strings_def get_ints_def put_json_def get_put_items comp_def)
  have f: "me_codec plain_metadata = plain_codec" "marshal plain_codec = put_items" "parse plain_codec = get_items"
    "me_json plain_metadata = put_json" by (simp_all add: plain_metadata_def plain_codec_def)
  show ?thesis
    unfolding codecs_ok_def f c get_put_items by (intro conjI allI refl h j) (simp add: put_json_def bytes_of_def)
qed

text \<open>A file over two chunks, one that shares its second chunk, an empty one, and one in the first chunk.\<close>

definition listing_example :: snapshot where
  "listing_example = (CreateEmptySnapshot 0 ''r'')\<lparr>ChunkHashes := [''p'', ''q''], ChunkLengths := [5, 4]\<rparr>"

definition listing_entries :: "entry list" where
  "listing_entries =
     [(CreateEntry ''a'' 7 0 0)\<lparr>StartChunk := 0, EndChunk := 1, EndOffset := 2\<rparr>,
      (CreateEntry ''b'' 2 0 0)\<lparr>StartChunk := 1, StartOffset := 2, EndChunk := 1, EndOffset := 4\<rparr>,
      CreateEntry ''c'' 0 0 0,
      (CreateEntry ''d'' 5 0 0)\<lparr>StartChunk := 0, EndChunk := 0, EndOffset := 5\<rparr>]"

definition listing_list :: entry_list where
  "listing_list = (CreateEntryList ''r'' [] 10)\<lparr>entries := listing_entries, PreservedChunkHashes := [''p'', ''q''], PreservedChunkLengths := [5, 4]\<rparr>"

lemma listing_maker:
  "CreateMetaDataChunkMaker (me_sha plain_metadata) (me_config plain_metadata) (me_chunkSize plain_metadata)
     = Inr (projr (CreateMetaDataChunkMaker (\<lambda>bs. replicate 32 0) (sample_config 2 4 8) 4))"
proof -
  have "grow_size 4 1 = 4" by (simp add: grow_size.simps)
  then show ?thesis using sample_maker_created by (simp add: plain_metadata_def CreateMetaDataChunkMaker_def)
qed

lemma uploaded_snapshot_listed_witness:
  "\<exists>s' ops s'' out. snapshot_sequences plain_metadata listing_list {} listing_example = Some (Inr (s', ops))
     \<and> DownloadSnapshotSequences bytes_of get_strings get_ints (ClearSnapshotSequences s') = Inr s''
     \<and> ListRemoteFiles bytes_of get_items (\<lambda>_. None) s'' = (out, None)
     \<and> map (snd \<circ> listed_entry s'') out = [[(''p'', 5), (''q'', 4)], [(''q'', 4)], [], [(''p'', 5)]]"
proof -
  have a: "ReadEntries (me_codec plain_metadata) listing_list = Inr listing_entries"
    unfolding plain_metadata_def plain_codec_def by code_simp
  have b: "listing_entries \<noteq> []" "list_all (listable listing_example) listing_entries"
    "length (ChunkHashes listing_example) = length (ChunkLengths listing_example)" "Version listing_example = 1" by code_simp+
  have n: "4 \<le> me_chunkSize plain_metadata" by (simp add: plain_metadata_def)
  have p: "parse (me_codec plain_metadata) = get_items" "me_hash plain_metadata = string_of"
    by (simp_all add: plain_metadata_def plain_codec_def)
  have e: "map (snd \<circ> listed_entry listing_example) listing_entries = [[(''p'', 5), (''q'', 4)], [(''q'', 4)], [], [(''p'', 5)]]" by code_simp
  obtain s' ops where r: "snapshot_sequences plain_metadata listing_list {} listing_example = Some (Inr (s', ops))"
    and l: "\<forall>fetch. fetched fetch string_of (map (\<lambda>op. fst (snd op)) ops) \<longrightarrow>
      (\<exists>s'' out. DownloadSnapshotSequences fetch get_strings get_ints (ClearSnapshotSequences s') = Inr s''
        \<and> ListRemoteFiles fetch get_items (\<lambda>_. None) s'' = (out, None)
        \<and> map (listed_entry s'') out = map (listed_entry listing_example) listing_entries)"
    using uploaded_snapshot_listed [OF a b listing_maker n plain_codecs_ok, of "{}" "\<lambda>_. None"] unfolding p by blast
  have "fetched bytes_of string_of (map (\<lambda>op. fst (snd op)) ops)" by (simp add: fetched_def list_all_iff)
  then obtain s'' out where x: "DownloadSnapshotSequences bytes_of get_strings get_ints (ClearSnapshotSequences s') = Inr s''"
    "ListRemoteFiles bytes_of get_items (\<lambda>_. None) s'' = (out, None)"
    "map (listed_entry s'') out = map (listed_entry listing_example) listing_entries" using l by blast
  have "map (snd \<circ> listed_entry s'') out = map snd (map (listed_entry s'') out)" by simp
  also have "\<dots> = [[(''p'', 5), (''q'', 4)], [(''q'', 4)], [], [(''p'', 5)]]" unfolding x(3) using e by simp
  finally show ?thesis using r x(1,2) by (intro exI conjI)
qed

end
