(* ===== verification/Snapshot_Commit.thy ===== *)
theory Snapshot_Commit
  imports Upload_Snapshot Prune_Correct
begin

text \<open>
  The order of a backup's uploads (\<^verbatim>\<open>UploadSnapshot\<close> in \<^verbatim>\<open>src/src/duplicacy_backupmanager.go\<close>): all
  metadata chunks are on the storage before the snapshot file that names them appears.
\<close>

section \<open>Uploading a snapshot\<close>

text \<open>
  The metadata chunks are uploaded by the workers in an order of their own, then the snapshot file, unless
  the run is dry.  \<open>created\<close> are the directories made so far.
\<close>

definition operator_metadata :: "codec \<Rightarrow> (json \<Rightarrow> bytes) \<Rightarrow> (bytes \<Rightarrow> bytes) \<Rightarrow> int \<Rightarrow> 's operator_env \<Rightarrow> metadata_env" where
  "operator_metadata c json sha n env =
     (let hash = \<lambda>b. string_of (NewKeyedHasher (lib env) (opConfig env) (HashKey (opConfig env)) b)
      in \<lparr>me_codec = c, me_json = json, me_sha = sha, me_config = opConfig env, me_chunkSize = n,
          me_hash = hash, me_id = \<lambda>b. GetChunkIDFromHash (lib env) (opConfig env) (hash b)\<rparr>)"

text \<open>The tasks of the chunks given to the operator, chunks of metadata or of file data.\<close>

definition chunk_tasks :: "'s operator_env \<Rightarrow> bool \<Rightarrow> (nat \<times> bytes \<times> bool) list \<Rightarrow> chunk_task list option" where
  "chunk_tasks env metadata ops =
     those (map (\<lambda>(i, b, _). upload_task (lib env) (opConfig env) (Write b (Reset True (CreateChunk True))) (int i) metadata)
       (filter (\<lambda>(_, _, new). new) ops))"

text \<open>A size that is not a power of two is an error, a negative one panics.\<close>

fun create_failure :: "create_error \<Rightarrow> fatal" where
  "create_failure (InvalidChunkSize n) = LogError ''CHUNK_SIZE''"
| "create_failure (NegativeLength n) = RuntimePanic"

definition UploadSnapshot ::
  "metadata_env \<Rightarrow> ((string \<times> json) list \<Rightarrow> bytes) \<Rightarrow> 's operator_env \<Rightarrow> (chunk_task list \<Rightarrow> chunk_task list) \<Rightarrow> string list
     \<Rightarrow> entry_list \<Rightarrow> string set \<Rightarrow> snapshot \<Rightarrow> 's operator_state \<Rightarrow> ((fatal + snapshot) \<times> 's operator_state) option" where
  "UploadSnapshot me render env order created el known snap s =
     map_option (\<lambda>r. case r of
         Inl (ReadFailure _) \<Rightarrow> (Inl (LogError ''SNAPSHOT_UPLOAD''), s)
       | Inl IndexPanic \<Rightarrow> (Inl RuntimePanic, s)
       | Inl (BadChunkSize e) \<Rightarrow> (Inl (create_failure e), s)
       | Inr (snap, ops) \<Rightarrow>
           (case chunk_tasks env True ops of
              None \<Rightarrow> (Inl RuntimePanic, s)
            | Some tasks \<Rightarrow>
                (case run_tasks env (order tasks) s of
                   (Some f, s) \<Rightarrow> (Inl f, s)
                 | (None, s) \<Rightarrow>
                     if dryRun (opConfig env) then (Inr snap, s)
                     else (let path = snapshotPath (ID snap) (Revision snap) in
                           case upload_file env created path path (render (MarshalJSON snap)) s of
                             (Some f, _, s) \<Rightarrow> (Inl f, s)
                           | (None, _, s) \<Rightarrow> (Inr snap, s)))))
       (snapshot_sequences me el known snap)"

section \<open>Uploads only add to the storage\<close>

lemma upload_target_path:
  assumes "storage env = file_storage c" and "usable_id (levels env) (task_id t)" and "upload_target env t s = Inr (p, ex)"
  shows "p \<in> set (chunk_paths (levels env) (task_id t) False)" and "ex \<Longrightarrow> on_disk (levels env) (store s) (task_id t) False"
proof -
  note x = usable_proper [OF assms(2)]
  have "p \<in> set (chunk_paths (levels env) (task_id t) False) \<and> (ex \<longrightarrow> on_disk (levels env) (store s) (task_id t) False)"
  proof (cases "skipChunkCheck env")
    case True
    then show ?thesis using assms(3) fs.ChunkPath_proper [OF x] by (auto simp: upload_target_def)
  next
    case False
    then obtain n where f: "find_chunk env s (task_id t) False = Inr (p, ex, n)"
      using assms(3) by (auto simp: upload_target_def bindE_def split: sum.splits)
    show ?thesis
    proof (cases ex)
      case True
      then show ?thesis
        using fs.find_chunk_found [OF assms(1) x, of s False p n] f by (auto simp: on_disk_def list_ex_iff)
    next
      case False
      then show ?thesis using fs.find_chunk_missing [OF assms(1) x, of s False p n] f by simp
    qed
  qed
  then show "p \<in> set (chunk_paths (levels env) (task_id t) False)" "ex \<Longrightarrow> on_disk (levels env) (store s) (task_id t) False" by blast+
qed

lemma cache_upload_store: "cache_upload env t s = Inr s' \<Longrightarrow> store s' = store s"
  by (auto simp: cache_upload_def split: option.splits if_splits sum.splits prod.splits bool.splits storage_error.splits)

lemma uploaded_node:
  assumes "fs_UploadFile d p b = (None, d')" and "plain_path p"
  shows "node_at d' p \<noteq> None"
  using fs_UploadFile_keeps(3) [OF assms, of "''.''"] by (simp add: node_at_def)

lemma UploadChunk_store:
  assumes "storage env = file_storage c" and "usable_id (levels env) (task_id t)" and "UploadChunk env t s = (r, s')"
  shows "store s' = store s \<or> (\<exists>p b. p \<in> set (chunk_paths (levels env) (task_id t) False) \<and> store s' = snd (fs_UploadFile (store s) p b))"
    and "r = None \<Longrightarrow> \<not> dryRun (opConfig env) \<Longrightarrow> on_disk (levels env) (store s') (task_id t) False"
proof -
  have "(store s' = store s \<or> (\<exists>p b. p \<in> set (chunk_paths (levels env) (task_id t) False) \<and> store s' = snd (fs_UploadFile (store s) p b)))
    \<and> (r = None \<longrightarrow> \<not> dryRun (opConfig env) \<longrightarrow> on_disk (levels env) (store s') (task_id t) False)"
  proof (cases "cache_upload env t s")
    case (Inl f)
    then show ?thesis using assms(3) by (auto simp: UploadChunk_def)
  next
    case (Inr s1)
    have st: "store s1 = store s" by (rule cache_upload_store [OF Inr])
    show ?thesis
    proof (cases "upload_target env t s1")
      case (Inl e)
      then show ?thesis using assms(3) Inr st by (auto simp: UploadChunk_def)
    next
      case target: (Inr pe)
      obtain p ex where pe: "pe = (p, ex)" by (cases pe)
      note tp = upload_target_path [OF assms(1,2) target [unfolded pe]]
      have pl: "plain_path p" by (rule chunk_path_plain [OF assms(2) tp(1)])
      show ?thesis
      proof (cases ex)
        case True
        then show ?thesis using assms(3) Inr target pe tp st by (auto simp: UploadChunk_def complete_def)
      next
        case False
        show ?thesis
        proof (cases "stored_form env t")
          case (Inl f)
          then show ?thesis using assms(3) \<open>cache_upload env t s = Inr s1\<close> target pe False st by (auto simp: UploadChunk_def)
        next
          case (Inr chunk)
          obtain ru d where up: "fs_UploadFile (store s1) p (GetBytes chunk) = (ru, d)" by fastforce
          have ops: "UploadFile (storage env) = fs_UploadFile" using assms(1) by (simp add: file_storage_def)
          have "dryRun (opConfig env) \<and> store s' = store s1 \<or>
              \<not> dryRun (opConfig env) \<and> store s' = d \<and> (r = None \<longrightarrow> ru = None)"
            using assms(3) \<open>cache_upload env t s = Inr s1\<close> target pe False Inr up
            by (auto simp: UploadChunk_def Let_def complete_def ops split: if_splits option.splits)
          moreover have "d = snd (fs_UploadFile (store s) p (GetBytes chunk))" using up st by simp
          moreover have "ru = None \<Longrightarrow> on_disk (levels env) d (task_id t) False"
            using uploaded_node [of "store s1" p "GetBytes chunk" d] up tp(1) pl by (auto simp: on_disk_def list_ex_iff)
          ultimately show ?thesis using tp(1) st by metis
        qed
      qed
    qed
  qed
  then show "store s' = store s \<or> (\<exists>p b. p \<in> set (chunk_paths (levels env) (task_id t) False) \<and> store s' = snd (fs_UploadFile (store s) p b))"
    "r = None \<Longrightarrow> \<not> dryRun (opConfig env) \<Longrightarrow> on_disk (levels env) (store s') (task_id t) False" by blast+
qed

text \<open>Uploading chunks keeps what is on the disk, and makes no snapshot file.\<close>

definition upload_ok :: "nesting \<Rightarrow> chunk_task \<Rightarrow> bool" where
  "upload_ok nst t \<longleftrightarrow> operation t = ChunkOperationUpload \<and> usable_id nst (task_id t)"

lemma upload_keeps:
  assumes "storage env = file_storage c" and "upload_ok (levels env) t" and "Run env t s = (r, s')"
  shows "node_at (store s) q \<noteq> None \<Longrightarrow> node_at (store s') q \<noteq> None"
    and "plain_path (snapshotPath i k) \<Longrightarrow> node_at (store s) (snapshotPath i k) = None \<Longrightarrow> node_at (store s') (snapshotPath i k) = None"
    and "r = None \<Longrightarrow> \<not> dryRun (opConfig env) \<Longrightarrow> on_disk (levels env) (store s') (task_id t) False"
proof -
  have u: "usable_id (levels env) (task_id t)" and run: "UploadChunk env t s = (r, s')"
    using assms(2,3) by (simp_all add: upload_ok_def Run_def)
  note up = UploadChunk_store [OF assms(1) u run]
  show "r = None \<Longrightarrow> \<not> dryRun (opConfig env) \<Longrightarrow> on_disk (levels env) (store s') (task_id t) False" by (rule up(2))
  show "node_at (store s) q \<noteq> None \<Longrightarrow> node_at (store s') q \<noteq> None"
    using up(1) fs_UploadFile_keeps(2) [OF _ chunk_path_plain [OF u]] by (metis option.exhaust prod.collapse)
  show "node_at (store s') (snapshotPath i k) = None" if pl: "plain_path (snapshotPath i k)" and none: "node_at (store s) (snapshotPath i k) = None"
  proof (rule ccontr)
    assume some: "node_at (store s') (snapshotPath i k) \<noteq> None"
    then obtain p b where p: "p \<in> set (chunk_paths (levels env) (task_id t) False)" "store s' = snd (fs_UploadFile (store s) p b)"
      using up(1) none by auto
    then have "snapshotPath i k = p \<or> (\<exists>r. p = snapshotPath i k @ CHR ''/'' # r)"
      using fs_UploadFile_new [OF prod.collapse [symmetric] chunk_path_plain [OF u p(1)] pl none] some by simp
    moreover obtain f where "p = chunkDir @ f" using chunk_path_file [OF u p(1)] by blast
    ultimately show False by (auto simp: chunkDir_def snapshotPath_def snapshotDir_def)
  qed
qed

lemma run_uploads:
  assumes "storage env = file_storage c"
  shows "list_all (upload_ok (levels env)) ts \<Longrightarrow> run_tasks env ts s = (r, s') \<Longrightarrow>
     (\<forall>q. node_at (store s) q \<noteq> None \<longrightarrow> node_at (store s') q \<noteq> None)
     \<and> (plain_path (snapshotPath i k) \<longrightarrow> node_at (store s) (snapshotPath i k) = None \<longrightarrow> node_at (store s') (snapshotPath i k) = None)
     \<and> (r = None \<longrightarrow> \<not> dryRun (opConfig env) \<longrightarrow> list_all (\<lambda>t. on_disk (levels env) (store s') (task_id t) False) ts)"
proof (induction ts arbitrary: s)
  case (Cons t ts)
  obtain r1 s1 where 1: "Run env t s = (r1, s1)" by fastforce
  have ok: "upload_ok (levels env) t" "list_all (upload_ok (levels env)) ts" using Cons.prems(1) by simp_all
  note up = upload_keeps [OF assms ok(1) 1]
  show ?case
  proof (cases r1)
    case None
    then have "run_tasks env ts s1 = (r, s')" using Cons.prems(2) 1 by simp
    note IH = Cons.IH [OF ok(2) this]
    have "on_disk (levels env) (store s1) x False \<Longrightarrow> on_disk (levels env) (store s') x False" for x
      using IH unfolding on_disk_def list_ex_iff by blast
    then show ?thesis using IH up None by auto
  next
    case (Some f)
    then show ?thesis using up Cons.prems(2) 1 by auto
  qed
qed simp

section \<open>The chunks a snapshot names\<close>

lemma upload_chunks_cache:
  "upload_chunks getID keepAlive i known cs = (known', ops) \<Longrightarrow> x \<in> known' \<Longrightarrow> x \<in> known \<or> (\<exists>k c. (k, c, True) \<in> set ops \<and> getID c = x)"
proof (induction cs arbitrary: i known known' ops)
  case (Cons c cs)
  obtain found ops1 where f: "found \<longleftrightarrow> getID c \<in> known \<and> \<not> keepAlive i"
    and r: "upload_chunks getID keepAlive (Suc i) (if found then known else insert (getID c) known) cs = (known', ops1)"
    and ops: "ops = (i, c, \<not> found) # ops1"
    using Cons.prems(1) by (rule upload_chunks_Cons)
  show ?case using Cons.IH [OF r Cons.prems(2)] ops by (auto split: if_splits)
qed simp

text \<open>Every hash a stored sequence names is that of a known chunk or of one given to the operator.\<close>

definition accounted :: "(string \<Rightarrow> string) \<Rightarrow> metadata_env \<Rightarrow> string set \<Rightarrow> (nat \<times> bytes \<times> bool) list \<Rightarrow> string \<Rightarrow> bool" where
  "accounted ident me known ops i \<longleftrightarrow> i \<in> known \<or> (\<exists>k c. (k, c, True) \<in> set ops \<and> me_id me c = i)"

lemma own_chunks_SetSequence:
  "i \<in> set (own_chunks ident (SetSequence k sq s)) \<Longrightarrow> i \<in> set (own_chunks ident s) \<or> i \<in> ident ` set sq"
  by (auto simp: own_chunks_def MetadataSequences_def SetSequence_def split: if_splits)

lemma map_sum_Inr: "map_sum f g z = Inr y \<longleftrightarrow> (\<exists>w. z = Inr w \<and> y = g w)"
  by (cases z) auto

lemma store_sequences_accounted:
  assumes "\<And>c. me_id me c = ident (me_hash me c)"
  shows "store_sequences me ts i known s = Some (Inr (s', ops)) \<Longrightarrow> x \<in> set (own_chunks ident s') \<Longrightarrow>
    x \<in> set (own_chunks ident s) \<or> accounted ident me known ops x"
proof (induction ts arbitrary: i known s ops)
  case (Cons u ts)
  obtain k f where u: "u = (k, f)" by (cases u)
  obtain cs sq known1 ops1 ops2 where up: "upload_metadata (me_hash me) (me_id me) i known cs = (sq, known1, ops1)"
    and rest: "store_sequences me ts (i + length cs) known1 (SetSequence k sq s) = Some (Inr (s', ops2))" and ops: "ops = ops1 @ ops2"
    using Cons.prems(1) unfolding u by (auto simp: store_sequences.simps map_sum_Inr split: option.splits sum.splits prod.splits)
  obtain r where uc: "upload_chunks (me_id me) (\<lambda>_. False) i known cs = (known1, ops1)" "sq = map (me_hash me) cs"
    using up by (auto simp: upload_metadata_def split: prod.splits)
  have named: "accounted ident me known ops1 y" if "y \<in> ident ` set sq" for y
    using that upload_chunks_kept [OF uc(1)] assms by (auto simp: uc(2) accounted_def)
  have known: "accounted ident me known ops1 y" if "y \<in> known1" for y
    using upload_chunks_cache [OF uc(1) that] by (simp add: accounted_def)
  show ?case
    using Cons.IH [OF rest Cons.prems(2)] own_chunks_SetSequence [of x ident k sq s] named [of x] known [of x]
    by (auto simp: accounted_def ops)
qed simp

lemma snapshot_sequences_accounted:
  assumes "snapshot_sequences me el known s = Some (Inr (s', ops))" and "\<And>c. me_id me c = ident (me_hash me c)"
    and "MetadataSequences s = [[], [], []]" and "x \<in> set (own_chunks ident s')"
  shows "accounted ident me known ops x"
proof -
  obtain ts s0 where "store_sequences me ts 0 known s0 = Some (Inr (s', ops))" and "own_chunks ident s0 = []"
    using assms(1,3) unfolding snapshot_sequences_def
    by (auto simp: own_chunks_def MetadataSequences_def split: sum.splits option.splits)
  then show ?thesis using store_sequences_accounted [OF assms(2) _ assms(4)] by fastforce
qed

lemma those_map_Some: "those (map f xs) = Some ys \<Longrightarrow> list_all2 (\<lambda>x y. f x = Some y) xs ys"
  by (induction xs arbitrary: ys) (auto split: option.splits)

lemma chunk_tasks_all2:
  assumes "chunk_tasks env metadata ops = Some ts"
  shows "list_all2 (\<lambda>op t. operation t = ChunkOperationUpload \<and> task_id t = GetChunkIDFromHash (lib env) (opConfig env)
      (string_of (NewKeyedHasher (lib env) (opConfig env) (HashKey (opConfig env)) (fst (snd op))))) (filter (\<lambda>(_, _, new). new) ops) ts"
proof -
  have "list_all2 (\<lambda>op t. upload_task (lib env) (opConfig env) (fold Write [fst (snd op)] (Reset True (CreateChunk True))) (int (fst op)) metadata = Some t)
      (filter (\<lambda>(_, _, new). new) ops) ts"
    using those_map_Some [OF assms(1) [unfolded chunk_tasks_def]] by (simp add: case_prod_unfold)
  then show ?thesis
  proof (rule list_all2_mono)
    fix op :: "nat \<times> bytes \<times> bool" and t
    assume u: "upload_task (lib env) (opConfig env) (fold Write [fst (snd op)] (Reset True (CreateChunk True))) (int (fst op)) metadata = Some t"
    show "operation t = ChunkOperationUpload \<and> task_id t = GetChunkIDFromHash (lib env) (opConfig env)
      (string_of (NewKeyedHasher (lib env) (opConfig env) (HashKey (opConfig env)) (fst (snd op))))"
      using upload_task_fresh(1-3) [OF u] by simp
  qed
qed

lemma chunk_tasks_ids:
  assumes "chunk_tasks env metadata ops = Some ts" and "(k, b, True) \<in> set ops"
  shows "\<exists>t. t \<in> set ts \<and> task_id t = GetChunkIDFromHash (lib env) (opConfig env) (string_of (NewKeyedHasher (lib env) (opConfig env) (HashKey (opConfig env)) b))"
proof -
  have "(k, b, True) \<in> set (filter (\<lambda>(_, _, new). new) ops)" using assms(2) by simp
  then obtain j where j: "j < length (filter (\<lambda>(_, _, new). new) ops)" "filter (\<lambda>(_, _, new). new) ops ! j = (k, b, True)"
    by (meson in_set_conv_nth)
  note l = chunk_tasks_all2 [OF assms(1)]
  show ?thesis using list_all2_nthD [OF l j(1)] list_all2_lengthD [OF l] j by (intro exI [of _ "ts ! j"]) simp
qed

lemma chunk_tasks_ok:
  assumes "chunk_tasks env metadata ops = Some ts" and "\<And>h. usable_id (levels env) (GetChunkIDFromHash (lib env) (opConfig env) h)"
  shows "list_all (upload_ok (levels env)) ts"
  unfolding list_all_length
proof (intro allI impI)
  fix j
  assume j: "j < length ts"
  note l = chunk_tasks_all2 [OF assms(1)]
  show "upload_ok (levels env) (ts ! j)"
    using list_all2_nthD2 [OF l j] assms(2) by (simp add: upload_ok_def case_prod_unfold)
qed

section \<open>The snapshot file comes last\<close>

lemma mkdir_keeps: "node_at d q \<noteq> None \<Longrightarrow> node_at (snd (fs_CreateDirectory d x)) q \<noteq> None"
  by (auto simp: fs_CreateDirectory_def Let_def node_at_def update_conv' split: if_splits)

lemma upload_file_keeps:
  assumes "storage env = file_storage c" and "plain_path p" and "upload_file env created p key content s = (r, created', s')"
    and "node_at (store s) q \<noteq> None"
  shows "node_at (store s') q \<noteq> None"
proof -
  have st: "UploadFile (storage env) = fs_UploadFile" "CreateDirectory (storage env) = fs_CreateDirectory"
    using assms(1) by (simp_all add: file_storage_def)
  obtain ok created0 s0 where en: "ensure_directory env created p s = (ok, created0, s0)" by (cases "ensure_directory env created p s") auto
  have s0: "node_at (store s0) q \<noteq> None"
    using en assms(4) mkdir_keeps [of "store s" q] by (auto simp: ensure_directory_def st split: option.splits if_splits prod.splits) (metis snd_conv)+
  have "store (save_cached_file env p content s0) = store s0" by (simp add: save_cached_file_def)
  then have "store s' = store s0 \<or> (\<exists>b. store s' = snd (fs_UploadFile (store s0) p b))"
    using assms(3) unfolding upload_file_def en
    by (auto simp: st Let_def split: bool.splits prod.splits option.splits coding_error.splits) (metis snd_conv)+
  then show ?thesis using s0 fs_UploadFile_keeps(2) [OF _ assms(2)] by (metis option.exhaust prod.collapse)
qed

lemma UploadSnapshot_cases:
  assumes "UploadSnapshot me render env order created el known snap0 s = Some (r, s1)"
    and "snapshot_sequences me el known snap0 = Some (Inr (snap, ops))"
  obtains (none) "store s1 = store s"
  | (run) tasks f where "chunk_tasks env True ops = Some tasks" and "run_tasks env (order tasks) s = (f, s1)" and "f \<noteq> None \<or> dryRun (opConfig env)"
  | (written) tasks s2 f created' where "chunk_tasks env True ops = Some tasks" and "run_tasks env (order tasks) s = (None, s2)" and "\<not> dryRun (opConfig env)"
      and "upload_file env created (snapshotPath (ID snap) (Revision snap)) (snapshotPath (ID snap) (Revision snap)) (render (MarshalJSON snap)) s2 = (f, created', s1)"
  using assms by (auto simp: UploadSnapshot_def Let_def split: option.splits prod.splits if_splits)

lemma written_chunks:
  assumes "storage env = file_storage c" and "\<And>h. usable_id (levels env) (GetChunkIDFromHash (lib env) (opConfig env) h)"
    and "\<And>ts. mset (order ts) = mset ts" and "MetadataSequences snap0 = [[], [], []]"
    and "\<And>i. i \<in> known \<Longrightarrow> on_disk (levels env) (store s) i False"
    and "snapshot_sequences (operator_metadata cdc json sha n env) el known snap0 = Some (Inr (snap, ops))"
    and "plain_path p" and "chunk_tasks env True ops = Some tasks" and "run_tasks env (order tasks) s = (None, s2)"
    and "\<not> dryRun (opConfig env)" and "upload_file env created p p content s2 = (f, created', s1)"
  shows "list_all (\<lambda>i. on_disk (levels env) (store s1) i False) (own_chunks (GetChunkIDFromHash (lib env) (opConfig env)) snap)"
    and "on_disk (levels env) (store s) i False \<Longrightarrow> on_disk (levels env) (store s1) i False"
proof -
  let ?ident = "GetChunkIDFromHash (lib env) (opConfig env)" and ?me = "operator_metadata cdc json sha n env"
  let ?hash = "\<lambda>b. string_of (NewKeyedHasher (lib env) (opConfig env) (HashKey (opConfig env)) b)"
  have id: "me_id ?me b = ?ident (me_hash ?me b)" and hash: "me_hash ?me b = ?hash b" for b
    by (simp_all add: operator_metadata_def)
  have ok: "list_all (upload_ok (levels env)) (order tasks)"
    using chunk_tasks_ok [OF assms(8,2)] mset_eq_setD [OF assms(3) [of tasks]] by (simp add: list_all_iff)
  note up = run_uploads [OF assms(1) ok assms(9)]
  have first: "on_disk (levels env) (store s2) i False" if "on_disk (levels env) (store s) i False" for i
    using that up unfolding on_disk_def list_ex_iff by blast
  have keep: "on_disk (levels env) (store s1) i False" if "on_disk (levels env) (store s2) i False" for i
    using that upload_file_keeps [OF assms(1,7,11)] unfolding on_disk_def list_ex_iff by blast
  have "on_disk (levels env) (store s2) i False" if "i \<in> set (own_chunks ?ident snap)" for i
  proof -
    have "accounted ?ident ?me known ops i" by (rule snapshot_sequences_accounted [OF assms(6) id assms(4) that])
    then consider "i \<in> known" | k b where "(k, b, True) \<in> set ops" "?ident (?hash b) = i"
      by (auto simp: accounted_def id hash)
    then show ?thesis
    proof cases
      case 1
      then show ?thesis using assms(5) first by blast
    next
      case 2
      obtain t where t: "t \<in> set tasks" "task_id t = i" using chunk_tasks_ids [OF assms(8) 2(1)] 2(2) by auto
      then have "t \<in> set (order tasks)" using mset_eq_setD [OF assms(3) [of tasks]] by simp
      then show ?thesis using up assms(10) t(2) by (auto simp: list_all_iff)
    qed
  qed
  then show "list_all (\<lambda>i. on_disk (levels env) (store s1) i False) (own_chunks ?ident snap)" using keep by (simp add: list_all_iff)
  show "on_disk (levels env) (store s) i False \<Longrightarrow> on_disk (levels env) (store s1) i False" using first keep by blast
qed

lemma written_after_chunks:
  assumes "storage env = file_storage c" and "\<And>h. usable_id (levels env) (GetChunkIDFromHash (lib env) (opConfig env) h)"
    and "\<And>ts. mset (order ts) = mset ts" and "MetadataSequences snap0 = [[], [], []]"
    and "\<And>i. i \<in> known \<Longrightarrow> on_disk (levels env) (store s) i False"
    and "snapshot_sequences (operator_metadata cdc json sha n env) el known snap0 = Some (Inr (snap, ops))"
    and "UploadSnapshot (operator_metadata cdc json sha n env) render env order created el known snap0 s = Some (r, s1)"
    and "plain_path (snapshotPath (ID snap) (Revision snap))" and "node_at (store s) (snapshotPath (ID snap) (Revision snap)) = None"
    and "node_at (store s1) (snapshotPath (ID snap) (Revision snap)) \<noteq> None"
  shows "list_all (\<lambda>i. on_disk (levels env) (store s1) i False) (own_chunks (GetChunkIDFromHash (lib env) (opConfig env)) snap)"
proof -
  have ok: "list_all (upload_ok (levels env)) (order ts)" if "chunk_tasks env True ops = Some ts" for ts
    using chunk_tasks_ok [OF that assms(2)] mset_eq_setD [OF assms(3) [of ts]] by (simp add: list_all_iff)
  from assms(7,6) show ?thesis
  proof (cases rule: UploadSnapshot_cases)
    case none
    then show ?thesis using assms(9,10) by simp
  next
    case (run tasks f)
    then show ?thesis using run_uploads [where i = "ID snap" and k = "Revision snap", OF assms(1) ok [OF run(1)] run(2)] assms(8-10) by simp
  next
    case (written tasks s2 f created')
    show ?thesis by (rule written_chunks(1) [OF assms(1-6,8) written(1,2,3,4)])
  qed
qed

text \<open>
  The snapshot file comes last.  If a run of \<^verbatim>\<open>UploadSnapshot\<close> on a local storage leaves the snapshot file
  there, however the run ended and in whatever order the workers uploaded the chunks, then every metadata
  chunk the snapshot names is on the storage, provided that the chunks taken for known are.
\<close>

theorem snapshot_file_comes_last:
  assumes "storage env = file_storage c" and "\<And>h. usable_id (levels env) (GetChunkIDFromHash (lib env) (opConfig env) h)"
    and "\<And>ts. mset (order ts) = mset ts" and "MetadataSequences snap0 = [[], [], []]"
    and "\<And>i. i \<in> known \<Longrightarrow> on_disk (levels env) (store s) i False"
    and "snapshot_sequences (operator_metadata cdc json sha n env) el known snap0 = Some (Inr (snap, ops))"
    and "UploadSnapshot (operator_metadata cdc json sha n env) render env order created el known snap0 s = Some (r, s1)"
    and "plain_path (snapshotPath (ID snap) (Revision snap))" and "node_at (store s) (snapshotPath (ID snap) (Revision snap)) = None"
    and "node_at (store s1) (snapshotPath (ID snap) (Revision snap)) \<noteq> None"
  shows "list_all (\<lambda>i. on_disk (levels env) (store s1) i False) (own_chunks (GetChunkIDFromHash (lib env) (opConfig env)) snap)"
  using written_after_chunks [OF assms] .

section \<open>Example\<close>

text \<open>A storage in which all chunks have the same id, which is known.\<close>

definition commit_env :: "disk operator_env" where
  "commit_env = prune_oenv\<lparr>lib := copy_lib\<lparr>blake2 := \<lambda>k d. [65]\<rparr>, opConfig := sample_config 2 4 8\<rparr>"

definition commit_disk :: disk where
  "commit_disk = [(''chunks'', DirNode), (''chunks/41'', FileNode [1]), (''snapshots'', DirNode)]"

definition commit_me :: metadata_env where
  "commit_me = operator_metadata plain_codec put_json (\<lambda>bs. replicate 32 0) 4 commit_env"

lemma commit_ident: "GetChunkIDFromHash (lib commit_env) (opConfig commit_env) h = ''41''"
proof -
  have "lib commit_env = copy_lib\<lparr>blake2 := \<lambda>k d. [65]\<rparr>" "opConfig commit_env = sample_config 2 4 8"
    by (simp_all add: commit_env_def)
  moreover have "hex_encode (string_of [65]) = ''41''" by code_simp
  ultimately show ?thesis by (simp add: GetChunkIDFromHash_def NewKeyedHasher_def sample_config_def)
qed

lemma known_chunks_not_uploaded:
  assumes "\<And>c. getID c = x" and "x \<in> known"
  shows "upload_chunks getID (\<lambda>_. False) i known cs = (known', ops) \<Longrightarrow> known' = known \<and> filter (\<lambda>(_, _, new). new) ops = []"
  by (induction cs arbitrary: i known' ops) (use assms in \<open>auto simp: Let_def split: prod.splits\<close>)

lemma known_sequences_not_uploaded:
  assumes "\<And>c. me_id me c = x" and "x \<in> known"
  shows "store_sequences me ts i known s = Some (Inr (s', ops)) \<Longrightarrow> filter (\<lambda>(_, _, new). new) ops = []"
proof (induction ts arbitrary: i s ops)
  case (Cons u ts)
  obtain k f where u: "u = (k, f)" by (cases u)
  obtain cs sq known1 ops1 ops2 where up: "upload_metadata (me_hash me) (me_id me) i known cs = (sq, known1, ops1)"
    and rest: "store_sequences me ts (i + length cs) known1 (SetSequence k sq s) = Some (Inr (s', ops2))" and ops: "ops = ops1 @ ops2"
    using Cons.prems(1) unfolding u by (auto simp: store_sequences.simps map_sum_Inr split: option.splits sum.splits prod.splits)
  have "known1 = known \<and> filter (\<lambda>(_, _, new). new) ops1 = []"
    using up known_chunks_not_uploaded [of "me_id me" x known, OF assms] by (auto simp: upload_metadata_def split: prod.splits)
  then show ?case using Cons.IH rest ops by simp
qed simp

lemma commit_snapshot_of:
  assumes "ReadEntries plain_codec el = Inr es" and "list_all (listable s) es" and "length (ChunkHashes s) = length (ChunkLengths s)"
    and "''41'' \<in> known"
  obtains snap ops where "snapshot_sequences commit_me el known s = Some (Inr (snap, ops))"
    and "ID snap = ID s" and "Revision snap = Revision s" and "chunk_tasks commit_env True ops = Some []"
proof -
  have a: "ReadEntries (me_codec commit_me) el = Inr es" using assms(1) by (simp add: commit_me_def operator_metadata_def)
  have m: "CreateMetaDataChunkMaker (me_sha commit_me) (me_config commit_me) (me_chunkSize commit_me)
     = Inr (projr (CreateMetaDataChunkMaker (\<lambda>bs. replicate 32 0) (sample_config 2 4 8) 4))"
    using listing_maker by (simp add: commit_me_def operator_metadata_def commit_env_def plain_metadata_def)
  have n: "4 \<le> me_chunkSize commit_me" by (simp add: commit_me_def operator_metadata_def)
  obtain es' rn where rn: "renumber_entries s es start_renumbering = Some (es', rn)"
    using remote_entries_renumbered [OF assms(3,2), of start_renumbering] by (auto simp: start_renumbering_def renumber_inv_def)
  let ?t = "s\<lparr>ChunkHashes := rnHashes rn, ChunkLengths := rnLengths rn\<rparr>"
  obtain fs cs ls ops where st: "snapshot_sequences commit_me el known s = Some (Inr (?t\<lparr>FileSequence := map (me_hash commit_me) fs,
        ChunkSequence := map (me_hash commit_me) cs, LengthSequence := map (me_hash commit_me) ls\<rparr>, ops))"
    and st': "store_sequences commit_me [(''files'', \<lambda>_. map (\<lambda>e. bytes_of (codec.marshal (me_codec commit_me) (EncodeMsgpack e))) es'),
       (''chunks'', \<lambda>s. [me_json commit_me (MarshalSequence ''chunks'' s)]), (''lengths'', \<lambda>s. [me_json commit_me (MarshalSequence ''lengths'' s)])]
       0 known ?t = Some (Inr (?t\<lparr>FileSequence := map (me_hash commit_me) fs,
        ChunkSequence := map (me_hash commit_me) cs, LengthSequence := map (me_hash commit_me) ls\<rparr>, ops))"
    by (rule stored_sequences [OF m n, of "map (\<lambda>e. bytes_of (codec.marshal (me_codec commit_me) (EncodeMsgpack e))) es'" known ?t]) (rule that, simp_all add: snapshot_sequences_def a rn)
  have "me_id commit_me c = ''41''" for c using commit_ident by (simp add: commit_me_def operator_metadata_def)
  then have "filter (\<lambda>(_, _, new). new) ops = []" using known_sequences_not_uploaded [OF _ assms(4) st'] by simp
  then have "chunk_tasks commit_env True ops = Some []" by (simp add: chunk_tasks_def)
  then show ?thesis by (rule that [OF st, rotated 2]) simp_all
qed

lemma commit_snapshot:
  obtains snap ops where "snapshot_sequences commit_me listing_list {''41''} listing_example = Some (Inr (snap, ops))"
    and "ID snap = ''r''" and "Revision snap = 0" and "chunk_tasks commit_env True ops = Some []"
proof -
  have "ReadEntries plain_codec listing_list = Inr listing_entries" unfolding plain_codec_def by code_simp
  moreover have "list_all (listable listing_example) listing_entries"
    "length (ChunkHashes listing_example) = length (ChunkLengths listing_example)" by code_simp+
  ultimately show ?thesis
    by (rule commit_snapshot_of [of _ _ _ "{''41''}"]) (auto intro: that simp: listing_example_def CreateEmptySnapshot_def empty_snapshot_def)
qed

definition commit_result :: "fatal option \<times> string list \<times> disk operator_state" where
  "commit_result = upload_file commit_env [] (snapshotPath ''r'' 0) (snapshotPath ''r'' 0) [1] (example_state commit_disk)"

lemma commit_result_ok: "fst commit_result = None \<and> node_at (store (snd (snd commit_result))) (snapshotPath ''r'' 0) \<noteq> None"
  by code_simp

lemma snapshot_file_comes_last_witness:
  "\<exists>snap s1. UploadSnapshot commit_me (\<lambda>_. [1]) commit_env rev [] listing_list {''41''} listing_example (example_state commit_disk) = Some (Inr snap, s1)
     \<and> node_at (store s1) (snapshotPath ''r'' 0) \<noteq> None
     \<and> list_all (\<lambda>i. on_disk (levels commit_env) (store s1) i False) (own_chunks (GetChunkIDFromHash (lib commit_env) (opConfig commit_env)) snap)"
proof -
  obtain snap ops where sq: "snapshot_sequences commit_me listing_list {''41''} listing_example = Some (Inr (snap, ops))"
    and snap: "ID snap = ''r''" "Revision snap = 0" and ts: "chunk_tasks commit_env True ops = Some []" by (rule commit_snapshot)
  let ?s = "example_state commit_disk" and ?s1 = "snd (snd commit_result)"
  have d: "\<not> dryRun (opConfig commit_env)" by (simp add: commit_env_def sample_config_def)
  have u: "UploadSnapshot commit_me (\<lambda>_. [1]) commit_env rev [] listing_list {''41''} listing_example ?s = Some (Inr snap, ?s1)"
    using commit_result_ok d
    by (cases commit_result) (simp add: UploadSnapshot_def sq ts snap Let_def commit_result_def split: prod.split)
  have a: "storage commit_env = file_storage False" by (simp add: commit_env_def prune_oenv_def example_env_def)
  have us: "usable_id (levels commit_env) (GetChunkIDFromHash (lib commit_env) (opConfig commit_env) h)" for h
    unfolding commit_ident by code_simp
  have m: "MetadataSequences listing_example = [[], [], []]" by code_simp
  have k: "on_disk (levels commit_env) (store ?s) i False" if "i \<in> {''41''}" for i
  proof -
    have "on_disk (levels commit_env) (store ?s) ''41'' False" by code_simp
    then show ?thesis using that by simp
  qed
  have p: "plain_path (snapshotPath (ID snap) (Revision snap))" "node_at (store ?s) (snapshotPath (ID snap) (Revision snap)) = None"
    unfolding snap by code_simp+
  have n: "node_at (store ?s1) (snapshotPath (ID snap) (Revision snap)) \<noteq> None" using commit_result_ok unfolding snap by blast
  have "mset (rev ts) = mset ts" for ts :: "chunk_task list" by simp
  then have "list_all (\<lambda>i. on_disk (levels commit_env) (store ?s1) i False) (own_chunks (GetChunkIDFromHash (lib commit_env) (opConfig commit_env)) snap)"
    using snapshot_file_comes_last [OF a us _ m k sq [unfolded commit_me_def] u [unfolded commit_me_def] p n] by blast
  then show ?thesis using u commit_result_ok by blast
qed

end
