(* ===== verification/Backup_Run.thy ===== *)
theory Backup_Run
  imports Snapshot_Commit
begin

text \<open>
  A whole backup (\<^verbatim>\<open>Backup\<close> in \<^verbatim>\<open>src/src/duplicacy_backupmanager.go\<close>): which chunks are known, what the files
  are compared with, packing and uploading, the fields of the new snapshot, and its upload.
\<close>

section \<open>What a backup starts from\<close>

definition hash_mode :: "bool \<Rightarrow> snapshot \<Rightarrow> bool" where
  "hash_mode quickMode remote \<longleftrightarrow> Revision remote = 0 \<or> \<not> quickMode"

text \<open>The ids of the chunks in a listing of the chunk directory; directories and fossils do not count.\<close>

definition listed_chunk_ids :: "(string \<times> int) list \<Rightarrow> string set" where
  "listed_chunk_ids files =
     set (map chunkIDFromListedPath (filter (\<lambda>f. f \<noteq> [] \<and> last f \<noteq> CHR ''/'' \<and> \<not> has_suffix f ''.fsl'') (map fst files)))"

text \<open>
  The chunk cache: the chunks of the last snapshot, or for an initial backup to a storage that lists fast,
  all chunks there are; an error of that listing is ignored.
\<close>

definition known_chunks ::
  "(string list \<Rightarrow> string list option) \<Rightarrow> 's operator_env \<Rightarrow> bool \<Rightarrow> snapshot \<Rightarrow> 's \<Rightarrow> (fatal + string set \<times> snapshot) option" where
  "known_chunks load env fast remote d =
     (if 0 < Revision remote
      then Some (case GetSnapshotChunks (GetChunkIDFromHash (lib env) (opConfig env)) load True remote of
                   None \<Rightarrow> Inl (LogError ''SNAPSHOT_CHUNK'')
                 | Some (ids, remote) \<Rightarrow> Inr (set ids, remote))
      else if fast \<and> Revision remote = 0
      then map_option (\<lambda>r. Inr (case r of Inl _ \<Rightarrow> {} | Inr files \<Rightarrow> listed_chunk_ids files, remote)) (ListAllFiles (storage env) d ''chunks/'')
      else Some (Inr ({}, remote)))"

text \<open>
  The incomplete snapshot of a run that was interrupted, if there is one: it is discarded when it is checked
  and a chunk of it is missing, but it is only checked for an initial backup to a storage that lists fast.
\<close>

definition usable_incomplete ::
  "(string \<Rightarrow> string) \<Rightarrow> bool \<Rightarrow> snapshot \<Rightarrow> string set \<Rightarrow> entry_list option \<Rightarrow> entry_list option" where
  "usable_incomplete getChunkID fast remote known incomplete =
     (case incomplete of
        None \<Rightarrow> None
      | Some el \<Rightarrow> if fast \<and> Revision remote = 0 \<and> \<not> CheckChunks getChunkID el known then None else Some el)"

text \<open>
  The chunks and the entries the local files are compared with.  \<open>delivered\<close> are the entries that reading an
  incomplete list delivers, and \<open>listing\<close> those of the last snapshot, with what ended that listing.
\<close>

definition compare_base ::
  "(entry_list \<Rightarrow> entry list) \<Rightarrow> entry list \<times> fatal option \<Rightarrow> bool \<Rightarrow> snapshot \<Rightarrow> entry_list option
     \<Rightarrow> remote_chunks \<times> entry list \<times> fatal option" where
  "compare_base delivered listing hashMode remote incomplete =
     (case incomplete of
        Some el \<Rightarrow> (\<lparr>rcHashes = PreservedChunkHashes el @ UploadedChunkHashes el,
                     rcLengths = PreservedChunkLengths el @ UploadedChunkLengths el\<rparr>, delivered el, None)
      | None \<Rightarrow> (\<lparr>rcHashes = ChunkHashes remote, rcLengths = ChunkLengths remote\<rparr>,
                 if hashMode then ([], None) else listing))"

section \<open>The new snapshot\<close>

record backup_options =
  boSnapshotID :: string
  boQuickMode :: bool
  boTag :: string
  boShadowCopy :: bool
  boEnumOnly :: bool
  boMetadataChunkSize :: int
  boMaximumInMemoryEntries :: int

definition snapshot_options :: "bool \<Rightarrow> bool \<Rightarrow> string" where
  "snapshot_options hashMode shadowCopy =
     (let options = (if hashMode then ''-hash'' else [])
      in if shadowCopy then (if options = [] then ''-vss'' else options @ '' -vss'') else options)"

text \<open>The size of a file that was skipped is -1 in the sum.\<close>

definition finish_snapshot :: "string \<Rightarrow> bool \<Rightarrow> bool \<Rightarrow> int \<Rightarrow> int \<Rightarrow> nat \<Rightarrow> entry_list \<Rightarrow> snapshot \<Rightarrow> snapshot" where
  "finish_snapshot tag hashMode shadowCopy now preserved skippedFiles el local = local\<lparr>
     EndTime := now, Tag := tag, Options := snapshot_options hashMode shadowCopy,
     FileSize := preserved + (\<Sum>me \<leftarrow> ModifiedEntries el. mSize me),
     NumberOfFiles := NumberOfEntries el - int skippedFiles,
     ChunkHashes := PreservedChunkHashes el @ UploadedChunkHashes el,
     ChunkLengths := PreservedChunkLengths el @ UploadedChunkLengths el\<rparr>"

section \<open>A backup\<close>

text \<open>
  What a backup uses beside the storage: the packages, the clock, the order in which the workers take the
  tasks (\<open>beOrder\<close>) and report the chunks (\<open>beReports\<close>), how many tasks they finished when a failing read ended
  the process (\<open>beFinished\<close>), and whether the platform is Windows.
\<close>

record 's backup_env =
  beEnv :: "'s operator_env"
  beCodec :: codec
  beJSON :: "json \<Rightarrow> bytes"
  beRender :: "(string \<times> json) list \<Rightarrow> bytes"
  beParse :: "bytes \<Rightarrow> string + (string \<times> json) list"
  beLoad :: "string list \<Rightarrow> string list option"
  beSHA :: "bytes \<Rightarrow> bytes"
  beFileHash :: "bytes \<Rightarrow> string"
  beDelivered :: "entry_list \<Rightarrow> entry list"
  beToken :: string
  beStart :: int
  beEnd :: int
  beFastListing :: bool
  beWindows :: bool
  beKeepAlive :: "nat \<Rightarrow> bool"
  beOrder :: "chunk_task list \<Rightarrow> chunk_task list"
  beReports :: "(nat \<times> string \<times> int) list \<Rightarrow> (nat \<times> string \<times> int) list"
  beFinished :: nat
  beCreated :: "string list"

text \<open>The local files: their entries, how many were skipped while listing, and the reader of each.\<close>

record local_files =
  lfEntries :: "entry list"
  lfSkipped :: nat
  lfOpen :: "string \<Rightarrow> reader option"

text \<open>The chunks a packing run emits before a read that fails ends it.\<close>

fun emitted_chunks ::
  "bool \<Rightarrow> (bytes \<Rightarrow> string) \<Rightarrow> (string \<Rightarrow> reader option) \<Rightarrow> chunk_maker \<Rightarrow> modified_entry list \<Rightarrow> bytes list" where
  "emitted_chunks w fh openFile m [] = []"
| "emitted_chunks w fh openFile m (me # mes) =
     (case openFile (mPath me) of
        None \<Rightarrow> emitted_chunks w fh openFile m mes
      | Some rd \<Rightarrow>
          (case AddData w fh m (Some rd) of
             None \<Rightarrow> []
           | Some (m, out, Panicked _) \<Rightarrow> out
           | Some (m, out, _) \<Rightarrow> out @ emitted_chunks w fh openFile m mes))"

text \<open>
  Packing and uploading: the chunks of the modified files are numbered, and those that are not known are
  uploaded; every chunk is reported to the entry list with its number.
\<close>

definition pack_and_upload ::
  "'s backup_env \<Rightarrow> local_files \<Rightarrow> string set \<Rightarrow> entry_list \<Rightarrow> 's operator_state
     \<Rightarrow> ((fatal + entry_list \<times> nat \<times> string set) \<times> 's operator_state) option" where
  "pack_and_upload be lf known el s =
     (let env = beEnv be; upload = upload_chunks (data_id env) (beKeepAlive be) 0 known in
      case CreateFileChunkMaker (beSHA be) (opConfig env) of
        Inl e \<Rightarrow> Some (Inl (create_failure e), s)
      | Inr m \<Rightarrow>
          (case pack_all (beWindows be) (beFileHash be) (lfOpen lf) m (ModifiedEntries el) of
             None \<Rightarrow> None
           | Some (PackPanic _) \<Rightarrow>
               (let ops = snd (upload (emitted_chunks (beWindows be) (beFileHash be) (lfOpen lf) m (ModifiedEntries el))) in
                case chunk_tasks env False ops of
                  None \<Rightarrow> Some (Inl RuntimePanic, s)
                | Some tasks \<Rightarrow> Some (Inl (LogError ''CHUNK_MAKER''), snd (run_tasks env (take (beFinished be) (beOrder be tasks)) s)))
           | Some (Packed _ cs ms skipped) \<Rightarrow>
               (case upload cs of
                  (known, ops) \<Rightarrow>
                    (case chunk_tasks env False ops of
                       None \<Rightarrow> Some (Inl RuntimePanic, s)
                     | Some tasks \<Rightarrow>
                         (case run_tasks env (beOrder be tasks) s of
                            (Some f, s) \<Rightarrow> Some (Inl f, s)
                          | (None, s) \<Rightarrow>
                              Some (Inr (finish_list el ms (beReports be (chunk_reports (data_hash env) cs)), length skipped, known), s))))))"

text \<open>
  The whole run.  \<open>latest\<close> is the last snapshot with its sequences, \<open>listing\<close> its entries, \<open>incomplete\<close> the list a
  run that was interrupted left behind.  The result is the new snapshot, or \<open>None\<close> when the files were only to be
  enumerated.
\<close>

definition commit_backup ::
  "'s backup_env \<Rightarrow> backup_options \<Rightarrow> bool \<Rightarrow> int \<Rightarrow> snapshot \<Rightarrow> nat \<Rightarrow> entry_list \<times> nat \<times> string set \<Rightarrow> 's operator_state
     \<Rightarrow> ((fatal + snapshot option) \<times> 's operator_state) option" where
  "commit_backup be opts hashMode preserved remote skippedBefore uploaded s =
     (case uploaded of
        (el, skippedFiles, known) \<Rightarrow>
          (let env = beEnv be;
               local = (CreateEmptySnapshot (beStart be) (boSnapshotID opts))\<lparr>Revision := Revision remote + 1\<rparr>;
               snap = finish_snapshot (boTag opts) hashMode (boShadowCopy opts) (beEnd be) preserved (skippedBefore + skippedFiles) el local
           in case UploadSnapshot (operator_metadata (beCodec be) (beJSON be) (beSHA be) (boMetadataChunkSize opts) env) (beRender be) env
                     (beOrder be) (beCreated be) el known snap s of
                None \<Rightarrow> None
              | Some (Inl f, s) \<Rightarrow> Some (Inl f, s)
              | Some (Inr snap, s) \<Rightarrow>
                  if dryRun (opConfig env) then Some (Inr (Some snap), s)
                  else map_option (\<lambda>(f, s). (case f of Some f \<Rightarrow> Inl f | None \<Rightarrow> Inr (Some snap), s))
                         (CleanSnapshotCache (beParse be) (beLoad be) env (Some snap) None s)))"

definition Backup ::
  "'s backup_env \<Rightarrow> backup_options \<Rightarrow> local_files \<Rightarrow> snapshot option \<Rightarrow> entry list \<times> fatal option \<Rightarrow> entry_list option
     \<Rightarrow> 's operator_state \<Rightarrow> ((fatal + snapshot option) \<times> 's operator_state) option" where
  "Backup be opts lf latest listing incomplete s =
     (let env = beEnv be;
          ident = GetChunkIDFromHash (lib env) (opConfig env);
          remote = (case latest of None \<Rightarrow> CreateEmptySnapshot (beStart be) (boSnapshotID opts) | Some r \<Rightarrow> r);
          hashMode = hash_mode (boQuickMode opts) remote
      in case known_chunks (beLoad be) env (beFastListing be) remote (store s) of
           None \<Rightarrow> None
         | Some (Inl f) \<Rightarrow> Some (Inl f, s)
         | Some (Inr (known, remote)) \<Rightarrow>
             (let incomplete = usable_incomplete ident (beFastListing be) remote known (if hashMode then incomplete else None) in
              case compare_base (beDelivered be) listing hashMode remote incomplete of
                (rc, rs, Some f) \<Rightarrow> Some (Inl f, s)
              | (rc, rs, None) \<Rightarrow>
                  (let st = compare_files (beCodec be) rc
                              (CreateEntryList (boSnapshotID opts) (beToken be) (boMaximumInMemoryEntries opts)) (lfEntries lf) rs;
                       el = localEntryList st
                   in if boEnumOnly opts then Some (Inr None, s)
                      else if NumberOfEntries el = 0 then Some (Inl (LogError ''SNAPSHOT_EMPTY''), s)
                      else (case pack_and_upload be lf known el s of
                              None \<Rightarrow> None
                            | Some (Inl f, s) \<Rightarrow> Some (Inl f, s)
                            | Some (Inr uploaded, s) \<Rightarrow>
                                commit_backup be opts hashMode (preservedFileSize st) remote (lfSkipped lf) uploaded s))))"

section \<open>The chunks of the entry list\<close>

text \<open>A chunk range that \<^verbatim>\<open>Entry.check\<close> accepts.\<close>

definition range_ok :: "string list \<Rightarrow> entry \<Rightarrow> bool" where
  "range_ok hashes r \<longleftrightarrow> (0 < Size r \<longrightarrow> 0 \<le> StartChunk r \<and> StartChunk r \<le> EndChunk r \<and> EndChunk r < int (length hashes))"

definition list_chunks_ok :: "string list \<Rightarrow> entry_list \<Rightarrow> bool" where
  "list_chunks_ok hashes el \<longleftrightarrow> set (PreservedChunkHashes el) \<subseteq> set hashes \<and> UploadedChunkHashes el = [] \<and> UploadedChunkLengths el = []"

lemma preserve_chunk_ok:
  "list_chunks_ok (rcHashes rc) (localEntryList st) \<Longrightarrow> 0 \<le> i \<Longrightarrow> i < int (length (rcHashes rc))
     \<Longrightarrow> list_chunks_ok (rcHashes rc) (localEntryList (preserve_chunk rc st i))"
  by (simp add: list_chunks_ok_def preserve_chunk_def AddPreservedChunk_def nat_less_iff)

lemma preserve_chunks_ok:
  "list_chunks_ok (rcHashes rc) (localEntryList st) \<Longrightarrow> \<forall>i \<in> set is. 0 \<le> i \<and> i < int (length (rcHashes rc))
     \<Longrightarrow> list_chunks_ok (rcHashes rc) (localEntryList (foldl (preserve_chunk rc) st is))"
  by (induction "is" arbitrary: st) (simp_all add: preserve_chunk_ok)

lemma compare_entry_ok:
  assumes "list_chunks_ok (rcHashes rc) (localEntryList st)" and "\<And>r. matched = Some r \<Longrightarrow> range_ok (rcHashes rc) r"
    and "compare_entry rc st l matched = (l', st')"
  shows "list_chunks_ok (rcHashes rc) (localEntryList st')"
proof (cases "\<exists>r. matched = Some r \<and> IsSameAs l r \<and> IsFile l \<and> 0 < Size l")
  case True
  then obtain r where r: "matched = Some r" "IsSameAs l r" "IsFile l" "0 < Size l" by blast
  then have rg: "0 \<le> StartChunk r" "StartChunk r \<le> EndChunk r" "EndChunk r < int (length (rcHashes rc))"
    using assms(2) by (simp_all add: range_ok_def IsSameAs_def)
  let ?st1 = "if lastPreservedChunk st \<noteq> StartChunk r then preserve_chunk rc st (StartChunk r) else st"
  have "localEntryList st' = localEntryList (foldl (preserve_chunk rc) ?st1 [StartChunk r + 1..EndChunk r])"
    using r assms(3) by (auto simp: compare_entry_def preserve_entry_def Let_def split: if_splits)
  moreover have "StartChunk r < int (length (rcHashes rc)) \<or> lastPreservedChunk st = StartChunk r"
    using rg by auto
  then have "list_chunks_ok (rcHashes rc) (localEntryList ?st1)" using assms(1) rg by (auto intro: preserve_chunk_ok)
  ultimately show ?thesis using preserve_chunks_ok rg by auto
next
  case False
  then show ?thesis using assms(1,3) by (auto simp: compare_entry_def mark_modified_def split: option.splits if_splits)
qed

lemma compare_loop_ok:
  assumes "list_chunks_ok (rcHashes rc) (localEntryList st)" and "list_all (range_ok (rcHashes rc)) (held remote @ rs)"
  shows "list_chunks_ok (rcHashes rc) (localEntryList (compare_loop c rc st ls remote rs))"
  using assms
proof (induction ls arbitrary: st remote rs)
  case (Cons l ls)
  obtain result remote1 rs1 where a: "advance_remote l remote rs = (result, remote1, rs1)" by (cases "advance_remote l remote rs")
  obtain D where "held remote @ rs = D @ held remote1 @ rs1" using advance_remote_spec [OF a] by blast
  then have ok: "list_all (range_ok (rcHashes rc)) (held remote1 @ rs1)" using Cons.prems(2) by (simp only: list_all_append)
  obtain l1 st1 where e: "compare_entry rc st l (if result = 0 then remote1 else None) = (l1, st1)" by fastforce
  have "list_chunks_ok (rcHashes rc) (localEntryList st1)"
    by (rule compare_entry_ok [OF Cons.prems(1) _ e]) (use ok in \<open>auto split: if_splits\<close>)
  then have "list_chunks_ok (rcHashes rc) (localEntryList (st1\<lparr>localEntryList := AddEntry c (localEntryList st1) l1\<rparr>))"
    by (simp add: list_chunks_ok_def AddEntry_fields)
  moreover have "list_all (range_ok (rcHashes rc)) (held (if result = 0 then None else remote1) @ rs1)" using ok by auto
  ultimately have "list_chunks_ok (rcHashes rc) (localEntryList (compare_loop c rc
      (st1\<lparr>localEntryList := AddEntry c (localEntryList st1) l1\<rparr>) ls (if result = 0 then None else remote1) rs1))"
    by (rule Cons.IH)
  then show ?case by (simp add: a e)
qed simp

lemma compare_files_ok:
  assumes "list_all (range_ok (rcHashes rc)) rs"
  shows "list_chunks_ok (rcHashes rc) (localEntryList (compare_files c rc (CreateEntryList i tok n) ls rs))"
  unfolding compare_files_def by (rule compare_loop_ok) (simp_all add: assms list_chunks_ok_def CreateEntryList_def)

section \<open>A snapshot never names a chunk that is not there\<close>

lemma renumber_entries_hashes:
  "renumber_entries s es rn = Some (es', rn') \<Longrightarrow> set (rnHashes rn') \<subseteq> set (rnHashes rn) \<union> set (ChunkHashes s)"
proof (induction es arbitrary: rn es')
  case (Cons e es)
  obtain e1 rn1 es1 where 1: "renumber_entry s e rn = Some (e1, rn1)" "renumber_entries s es rn1 = Some (es1, rn')"
    using Cons.prems by (auto split: option.splits)
  have "set (rnHashes rn1) \<subseteq> set (rnHashes rn) \<union> set (ChunkHashes s)"
    using 1(1) by (auto simp: renumber_entry_def Let_def list_all_iff split: if_splits)
  then show ?case using Cons.IH [OF 1(2)] by blast
qed simp

lemma store_sequences_fields:
  "store_sequences me ts i known s = Some (Inr (s', ops)) \<Longrightarrow> ChunkHashes s' = ChunkHashes s \<and> ID s' = ID s \<and> Revision s' = Revision s"
proof (induction ts arbitrary: i known s ops)
  case (Cons u ts)
  obtain k f where u: "u = (k, f)" by (cases u)
  obtain cs sq known1 ops1 ops2 where "upload_metadata (me_hash me) (me_id me) i known cs = (sq, known1, ops1)"
    and "store_sequences me ts (i + length cs) known1 (SetSequence k sq s) = Some (Inr (s', ops2))"
    using Cons.prems unfolding u by (auto simp: store_sequences.simps map_sum_Inr split: option.splits sum.splits prod.splits)
  then show ?case using Cons.IH by (fastforce simp: SetSequence_def)
qed simp

lemma snapshot_sequences_fields:
  assumes "snapshot_sequences me el known s = Some (Inr (s', ops))"
  shows "set (ChunkHashes s') \<subseteq> set (ChunkHashes s)" "ID s' = ID s" "Revision s' = Revision s"
proof -
  obtain es where e: "ReadEntries (me_codec me) el = Inr es"
    using assms by (cases "ReadEntries (me_codec me) el") (simp_all add: snapshot_sequences_def del: store_sequences.simps)
  obtain es' rn where r: "renumber_entries s es start_renumbering = Some (es', rn)"
  proof (cases "renumber_entries s es start_renumbering")
    case None
    then show thesis using assms by (simp add: snapshot_sequences_def e del: store_sequences.simps)
  qed auto
  note q = assms [unfolded snapshot_sequences_def e r sum.case option.case prod.case]
  show "set (ChunkHashes s') \<subseteq> set (ChunkHashes s)" "ID s' = ID s" "Revision s' = Revision s"
    using store_sequences_fields [OF q] renumber_entries_hashes [OF r]
    by (simp_all add: start_renumbering_def del: store_sequences.simps renumber_entries.simps)
qed

lemma snapshot_sequences_hashes:
  assumes "snapshot_sequences me el known s = Some (Inr (s', ops))" and "ReadEntries (me_codec me) el = Inr es"
    and "renumber_entries s es start_renumbering = Some (es', rn)"
  shows "ChunkHashes s' = rnHashes rn"
  using store_sequences_fields [OF assms(1) [unfolded snapshot_sequences_def assms(2,3) sum.case option.case prod.case]]
  by (simp del: store_sequences.simps)

lemma upload_chunks_covers:
  "upload_chunks getID keepAlive i known cs = (known', ops) \<Longrightarrow> known \<union> getID ` set cs \<subseteq> known'"
proof (induction cs arbitrary: i known known' ops)
  case (Cons c cs)
  obtain found ops1 where f: "found \<longleftrightarrow> getID c \<in> known \<and> \<not> keepAlive i"
    and r: "upload_chunks getID keepAlive (Suc i) (if found then known else insert (getID c) known) cs = (known', ops1)"
    using Cons.prems(1) by (rule upload_chunks_Cons)
  have "insert (getID c) known \<subseteq> (if found then known else insert (getID c) known)" using f by auto
  then show ?case using Cons.IH [OF r] by auto
qed simp

lemma pack_and_upload_present:
  assumes "storage (beEnv be) = file_storage c" and "\<And>h. usable_id (levels (beEnv be)) (GetChunkIDFromHash (lib (beEnv be)) (opConfig (beEnv be)) h)"
    and "\<And>ts. mset (beOrder be ts) = mset ts" and "\<And>rs. mset (beReports be rs) = mset rs" and "\<not> dryRun (opConfig (beEnv be))"
    and "\<And>i. i \<in> known \<Longrightarrow> on_disk (levels (beEnv be)) (store s) i False"
    and "UploadedChunkHashes el = []" and "UploadedChunkLengths el = []"
    and "pack_and_upload be lf known el s = Some (Inr (el', n, known'), s')"
  shows "i \<in> known' \<Longrightarrow> on_disk (levels (beEnv be)) (store s') i False"
    and "h \<in> set (UploadedChunkHashes el') \<Longrightarrow> GetChunkIDFromHash (lib (beEnv be)) (opConfig (beEnv be)) h \<in> known'"
    and "PreservedChunkHashes el' = PreservedChunkHashes el"
    and "on_disk (levels (beEnv be)) (store s) i False \<Longrightarrow> on_disk (levels (beEnv be)) (store s') i False"
proof -
  let ?env = "beEnv be"
  obtain m m' cs ms sk ops tasks where
      pk: "pack_all (beWindows be) (beFileHash be) (lfOpen lf) m (ModifiedEntries el) = Some (Packed m' cs ms sk)"
    and up: "upload_chunks (data_id ?env) (beKeepAlive be) 0 known cs = (known', ops)"
    and tk: "chunk_tasks ?env False ops = Some tasks" and rn: "run_tasks ?env (beOrder be tasks) s = (None, s')"
    and el': "el' = finish_list el ms (beReports be (chunk_reports (data_hash ?env) cs))"
    using assms(9) unfolding pack_and_upload_def Let_def
    by (auto split: sum.splits option.splits pack_result.splits prod.splits)
  have ok: "list_all (upload_ok (levels ?env)) (beOrder be tasks)"
    using chunk_tasks_ok [OF tk assms(2)] mset_eq_setD [OF assms(3) [of tasks]] by (simp add: list_all_iff)
  note run = run_uploads [OF assms(1) ok rn]
  have keep: "on_disk (levels ?env) (store s') i False" if "on_disk (levels ?env) (store s) i False" for i
    using that run unfolding on_disk_def list_ex_iff by blast
  then show "on_disk (levels ?env) (store s) i False \<Longrightarrow> on_disk (levels ?env) (store s') i False" .
  show "on_disk (levels ?env) (store s') i False" if i: "i \<in> known'"
    using upload_chunks_cache [OF up i]
  proof
    assume "i \<in> known"
    then show ?thesis using keep assms(6) by blast
  next
    assume "\<exists>k b. (k, b, True) \<in> set ops \<and> data_id ?env b = i"
    then obtain t where "t \<in> set tasks" "task_id t = i" using chunk_tasks_ids [OF tk] by (auto simp: data_id_def data_hash_def)
    then show ?thesis using run assms(5) mset_eq_setD [OF assms(3) [of tasks]] by (auto simp: list_all_iff)
  qed
  have "UploadedChunkHashes el' = map (data_hash ?env) cs"
    unfolding el' finish_list_def by (rule chunk_reports_any_order(1)) (use assms(4,7,8) in simp_all)
  then show "GetChunkIDFromHash (lib ?env) (opConfig ?env) h \<in> known'" if "h \<in> set (UploadedChunkHashes el')"
    using that upload_chunks_covers [OF up] by (auto simp: data_id_def)
  show "PreservedChunkHashes el' = PreservedChunkHashes el" by (simp add: el' finish_list_def)
qed

lemma UploadSnapshot_success:
  assumes "UploadSnapshot me render env order created el known snap0 s = Some (Inr snap, s1)" and "\<not> dryRun (opConfig env)"
  obtains ops tasks s2 created' where "snapshot_sequences me el known snap0 = Some (Inr (snap, ops))"
    and "chunk_tasks env True ops = Some tasks" and "run_tasks env (order tasks) s = (None, s2)"
    and "upload_file env created (snapshotPath (ID snap) (Revision snap)) (snapshotPath (ID snap) (Revision snap)) (render (MarshalJSON snap)) s2
      = (None, created', s1)"
proof -
  obtain r where r: "snapshot_sequences me el known snap0 = Some r" using assms(1) by (auto simp: UploadSnapshot_def)
  obtain snap1 ops where ok: "r = Inr (snap1, ops)"
  proof (cases r)
    case (Inl e)
    then show thesis using assms(1) r by (cases e) (simp_all add: UploadSnapshot_def)
  qed auto
  note u = assms(1) [unfolded UploadSnapshot_def r ok option.map sum.case prod.case Let_def]
  obtain tasks where t: "chunk_tasks env True ops = Some tasks" using u by (cases "chunk_tasks env True ops") simp_all
  obtain s2 where s2: "run_tasks env (order tasks) s = (None, s2)" using u t by (auto split: prod.splits option.splits)
  show thesis using u t s2 assms(2) that [of ops tasks s2] by (auto simp: r ok split: prod.splits option.splits)
qed

lemma commit_backup_present:
  assumes "storage (beEnv be) = file_storage c" and "\<And>h. usable_id (levels (beEnv be)) (GetChunkIDFromHash (lib (beEnv be)) (opConfig (beEnv be)) h)"
    and "\<And>ts. mset (beOrder be ts) = mset ts" and "\<not> dryRun (opConfig (beEnv be))"
    and "\<And>i. i \<in> known \<Longrightarrow> on_disk (levels (beEnv be)) (store s) i False"
    and "plain_path (snapshotPath (boSnapshotID opts) (Revision remote + 1))"
    and "commit_backup be opts hashMode preserved remote k (el, n, known) s = Some (Inr (Some snap), s')"
  shows "i \<in> set (own_chunks (GetChunkIDFromHash (lib (beEnv be)) (opConfig (beEnv be))) snap) \<Longrightarrow> on_disk (levels (beEnv be)) (store s') i False"
    and "on_disk (levels (beEnv be)) (store s) i False \<Longrightarrow> on_disk (levels (beEnv be)) (store s') i False"
    and "set (ChunkHashes snap) \<subseteq> set (PreservedChunkHashes el) \<union> set (UploadedChunkHashes el)"
proof -
  let ?env = "beEnv be"
  define snap0 where "snap0 = finish_snapshot (boTag opts) hashMode (boShadowCopy opts) (beEnd be) preserved (k + n) el
      ((CreateEmptySnapshot (beStart be) (boSnapshotID opts))\<lparr>Revision := Revision remote + 1\<rparr>)"
  let ?me = "operator_metadata (beCodec be) (beJSON be) (beSHA be) (boMetadataChunkSize opts) ?env"
  have snap0: "ID snap0 = boSnapshotID opts" "Revision snap0 = Revision remote + 1" "MetadataSequences snap0 = [[], [], []]"
    "ChunkHashes snap0 = PreservedChunkHashes el @ UploadedChunkHashes el"
    by (simp_all add: snap0_def finish_snapshot_def CreateEmptySnapshot_def empty_snapshot_def MetadataSequences_def)
  obtain s1 where up: "UploadSnapshot ?me (beRender be) ?env (beOrder be) (beCreated be) el known snap0 s = Some (Inr snap, s1)"
    and cl: "CleanSnapshotCache (beParse be) (beLoad be) ?env (Some snap) None s1 = Some (None, s')"
    using assms(4,7) unfolding commit_backup_def Let_def snap0_def by (auto split: sum.splits option.splits)
  note st = CleanSnapshotCache_store [OF cl]
  from up assms(4) obtain ops tasks s2 created' where sq: "snapshot_sequences ?me el known snap0 = Some (Inr (snap, ops))"
    and w: "chunk_tasks ?env True ops = Some tasks" "run_tasks ?env (beOrder be tasks) s = (None, s2)"
      "upload_file ?env (beCreated be) (snapshotPath (ID snap) (Revision snap)) (snapshotPath (ID snap) (Revision snap)) (beRender be (MarshalJSON snap)) s2
      = (None, created', s1)"
    by (rule UploadSnapshot_success)
  note f = snapshot_sequences_fields [OF sq]
  have pl: "plain_path (snapshotPath (ID snap) (Revision snap))" using assms(6) by (simp add: f snap0)
  note wr = written_chunks [OF assms(1-3) snap0(3) assms(5) sq pl w(1,2) assms(4) w(3)]
  show "on_disk (levels ?env) (store s') i False" if "i \<in> set (own_chunks (GetChunkIDFromHash (lib ?env) (opConfig ?env)) snap)"
    using wr(1) that by (simp add: st list_all_iff)
  show "on_disk (levels ?env) (store s) i False \<Longrightarrow> on_disk (levels ?env) (store s') i False" using wr(2) by (simp add: st)
  show "set (ChunkHashes snap) \<subseteq> set (PreservedChunkHashes el) \<union> set (UploadedChunkHashes el)" using f(1) by (simp add: snap0(4))
qed

lemma known_chunks_base:
  assumes "known_chunks load env fast remote d = Some (Inr (known, remote'))" and "0 < Revision remote \<or> ChunkHashes remote = []"
  shows "GetChunkIDFromHash (lib env) (opConfig env) ` set (ChunkHashes remote') \<subseteq> known" and "Revision remote' = Revision remote"
  using assms by (auto simp: known_chunks_def GetSnapshotChunks_def split: if_splits option.splits)

lemma compare_base_known:
  assumes "compare_base delivered listing hashMode remote incomplete = (rc, rs, f)"
    and "getChunkID ` set (ChunkHashes remote) \<subseteq> known" and "list_all (range_ok (ChunkHashes remote)) (fst listing)"
    and "\<And>el. incomplete = Some el \<Longrightarrow> CheckChunks getChunkID el known
      \<and> list_all (range_ok (PreservedChunkHashes el @ UploadedChunkHashes el)) (delivered el)"
  shows "getChunkID ` set (rcHashes rc) \<subseteq> known" and "list_all (range_ok (rcHashes rc)) rs"
  using assms by (fastforce simp: compare_base_def CheckChunks_def split: option.splits if_splits)+


section \<open>Example\<close>

text \<open>A second backup in which no file has changed.\<close>

definition second_env :: "disk backup_env" where
  "second_env = \<lparr>beEnv = commit_env, beCodec = plain_codec, beJSON = put_json, beRender = (\<lambda>_. [1]), beParse = (\<lambda>_. Inl []), beLoad = (\<lambda>_. None),
     beSHA = (\<lambda>bs. replicate 32 0), beFileHash = string_of, beDelivered = entries, beToken = ''t'', beStart = 0, beEnd = 1,
     beFastListing = False, beWindows = False, beKeepAlive = (\<lambda>_. False), beOrder = rev, beReports = rev, beFinished = 0, beCreated = []\<rparr>"

definition second_options :: backup_options where
  "second_options = \<lparr>boSnapshotID = ''r'', boQuickMode = True, boTag = [], boShadowCopy = False, boEnumOnly = False,
     boMetadataChunkSize = 4, boMaximumInMemoryEntries = 10\<rparr>"

definition second_files :: local_files where
  "second_files = \<lparr>lfEntries = [CreateEntry ''a'' 7 0 0, CreateEntry ''b'' 2 0 0, CreateEntry ''c'' 0 0 0, CreateEntry ''d'' 5 0 0],
     lfSkipped = 0, lfOpen = (\<lambda>_. None)\<rparr>"

definition second_latest :: snapshot where
  "second_latest = listing_example\<lparr>Revision := 1\<rparr>"

definition second_state :: "disk operator_state" where
  "second_state = (example_state commit_disk)\<lparr>cache := [(''fossils'', DirNode)]\<rparr>"

definition second_compared :: compare_state where
  "second_compared = compare_files plain_codec \<lparr>rcHashes = [''p'', ''q''], rcLengths = [5, 4]\<rparr> (CreateEntryList ''r'' ''t'' 10)
     (lfEntries second_files) listing_entries"

definition second_base :: snapshot where
  "second_base = finish_snapshot [] False False 1 (preservedFileSize second_compared) 0 (localEntryList second_compared)
     ((CreateEmptySnapshot 0 ''r'')\<lparr>Revision := 2\<rparr>)"

lemma second_compared_facts:
  "ModifiedEntries (localEntryList second_compared) = []" "NumberOfEntries (localEntryList second_compared) \<noteq> 0"
  "ReadEntries plain_codec (localEntryList second_compared) = Inr (entries (localEntryList second_compared))"
  "list_all (listable second_base) (entries (localEntryList second_compared))"
  "length (ChunkHashes second_base) = length (ChunkLengths second_base)" "ChunkHashes second_base = [''p'', ''q'', ''p'']"
  "FileSize second_base = 14" "NumberOfFiles second_base = 4"
  by code_simp+

lemma second_known:
  "known_chunks (beLoad second_env) commit_env False second_latest d = Some (Inr ({''41''}, second_latest))"
proof -
  have f: "Revision second_latest = 1" "ChunkHashes second_latest = [''p'', ''q'']" "MetadataSequences second_latest = [[], [], []]"
    by code_simp+
  then show ?thesis
    by (simp add: known_chunks_def GetSnapshotChunks_def loaded_hashes_def own_chunks_def commit_ident)
qed

lemma second_packed:
  "pack_and_upload second_env second_files {''41''} (localEntryList second_compared) second_state
     = Some (Inr (localEntryList second_compared, 0, {''41''}), second_state)"
proof -
  let ?el = "localEntryList second_compared" and ?cfg = "sample_config 2 4 8"
  have b: "0 < MinimumChunkSize ?cfg" "MinimumChunkSize ?cfg < MaximumChunkSize ?cfg" by (simp_all add: sample_config_def)
  note m = CreateFileChunkMaker_ok [OF b sample_maker_created]
  obtain m' sk where p: "pack_all False string_of (lfOpen second_files) sample_maker [] = Some (Packed m' (maker_chunks sample_maker []) [] sk)"
    using pack_all_spec [OF m(1), of False "lfOpen second_files" "[]" string_of] m(2) by (auto simp: no_panic_def)
  have "[] \<notin> set (maker_chunks sample_maker [])" by (rule spec_chunks_nonempty) (use m b in auto)
  moreover have "concat (maker_chunks sample_maker []) = []" by (rule spec_chunks_concat)
  ultimately have cs: "maker_chunks sample_maker [] = []" by (cases "maker_chunks sample_maker []") auto
  have sk: "sk = []" using p by (auto split: option.splits pack_result.splits prod.splits simp: pack_all_def)
  have e: "beEnv second_env = commit_env" "beSHA second_env = (\<lambda>bs. replicate 32 0)" "beWindows second_env = False"
    "beFileHash second_env = string_of" "beOrder second_env = rev" "beReports second_env = rev" "opConfig commit_env = ?cfg"
    by (simp_all add: second_env_def commit_env_def)
  have "finish_list ?el [] [] = ?el" using second_compared_facts(1) by (simp add: finish_list_def add_uploads_def)
  then show ?thesis
    by (simp add: pack_and_upload_def e sample_maker_created second_compared_facts(1) p cs sk chunk_tasks_def chunk_reports_def)
qed

definition second_written :: "fatal option \<times> string list \<times> disk operator_state" where
  "second_written = upload_file commit_env [] (snapshotPath ''r'' 2) (snapshotPath ''r'' 2) [1] second_state"

lemma second_written_ok:
  "fst second_written = None \<and> node_at (store (snd (snd second_written))) (snapshotPath ''r'' 2) \<noteq> None
   \<and> fs_GetFileInfo (cache (snd (snd second_written))) ''fossils'' = Inr (True, True, 0)"
  by code_simp


end
