(* ===== verification/Remote_Files.thy ===== *)
theory Remote_Files
  imports Upload_Snapshot
begin

text \<open>
  Checking a snapshot and retrieving its files (\<^verbatim>\<open>VerifySnapshot\<close>, \<^verbatim>\<open>walkSnapshotEntries\<close>,
  \<^verbatim>\<open>checkRemoteEntry\<close>, \<^verbatim>\<open>RetrieveFile\<close>, \<^verbatim>\<open>FindFile\<close> and \<^verbatim>\<open>PrintFile\<close> in
  \<^verbatim>\<open>src/src/duplicacy_snapshotmanager.go\<close>).
\<close>

section \<open>Checking the entries\<close>

datatype remote_entry_error =
    Misordered string string
  | StartsBefore string int
  | EndsBeyond string int nat
  | EndsBeforeStart string int int
  | OffsetsReversed string int int int
  | WrongSize string int int

text \<open>The replacement character, in UTF-8.\<close>

definition replacement_character :: string where
  "replacement_character = [char_of (239 :: nat), char_of (191 :: nat), char_of (189 :: nat)]"

fun contains :: "string \<Rightarrow> string \<Rightarrow> bool" where
  "contains pat [] \<longleftrightarrow> pat = []"
| "contains pat (c # s) \<longleftrightarrow> has_prefix (c # s) pat \<or> contains pat s"

definition checkRemoteEntry :: "snapshot \<Rightarrow> entry \<Rightarrow> entry option \<Rightarrow> nat \<Rightarrow> remote_entry_error option" where
  "checkRemoteEntry s e lastEntry numberOfChunks =
     (let order = (case lastEntry of None \<Rightarrow> None
                   | Some l \<Rightarrow> if Compare l e \<ge> 0 \<and> \<not> contains replacement_character (Path l) then Some (Misordered (Path l) (Path e)) else None)
      in if order \<noteq> None then order
      else if \<not> IsFile e \<or> Size e = 0 then None
      else if StartChunk e < 0 then Some (StartsBefore (Path e) (StartChunk e))
      else if EndChunk e \<ge> int numberOfChunks then Some (EndsBeyond (Path e) (EndChunk e) numberOfChunks)
      else if EndChunk e < StartChunk e then Some (EndsBeforeStart (Path e) (StartChunk e) (EndChunk e))
      else if StartChunk e = EndChunk e \<and> StartOffset e > EndOffset e
      then Some (OffsetsReversed (Path e) (StartOffset e) (EndOffset e) (StartChunk e))
      else let total = file_size e (\<lambda>i. ChunkLengths s ! nat i)
           in if Size e \<noteq> total then Some (WrongSize (Path e) (Size e) total) else None)"

datatype walk_error = LengthsDiffer nat nat | EntryError remote_entry_error

text \<open>The walk over the entries a listing delivers; it stops at the first that is not accepted.\<close>

fun walk_entries :: "snapshot \<Rightarrow> bool \<Rightarrow> entry option \<Rightarrow> entry list \<Rightarrow> entry list \<Rightarrow> remote_entry_error + entry list" where
  "walk_entries s collectFiles lastEntry [] found = Inr found"
| "walk_entries s collectFiles lastEntry (e # es) found =
     (case checkRemoteEntry s e lastEntry (length (ChunkHashes s)) of
        Some err \<Rightarrow> Inl err
      | None \<Rightarrow> walk_entries s collectFiles (Some e) es
                  (found @ (if collectFiles \<and> IsFile e \<and> Size e \<noteq> 0 then [e\<lparr>Attributes := None\<rparr>] else [])))"

text \<open>
  \<open>listing\<close> is what \<^verbatim>\<open>ListRemoteFiles\<close> delivers and what ends it.  An error that stops the walk is found
  before the listing ends.
\<close>

definition walkSnapshotEntries :: "entry list \<times> fatal option \<Rightarrow> snapshot \<Rightarrow> bool \<Rightarrow> fatal + (walk_error + entry list)" where
  "walkSnapshotEntries listing s collectFiles =
     (if length (ChunkHashes s) \<noteq> length (ChunkLengths s)
      then Inr (Inl (LengthsDiffer (length (ChunkHashes s)) (length (ChunkLengths s))))
      else case walk_entries s collectFiles None (fst listing) [] of
             Inl err \<Rightarrow> Inr (Inl (EntryError err))
           | Inr found \<Rightarrow> (case snd listing of Some f \<Rightarrow> Inl f | None \<Rightarrow> Inr (Inr found)))"

section \<open>Retrieving a file\<close>

text \<open>
  \<open>download\<close> gives the content of a chunk, or \<open>None\<close> for a broken one; \<open>getHash\<close> is the hash of a chunk's
  content.  A slice beyond the content of a chunk panics.  The last chunk is kept in \<open>lastChunk\<close>, which is
  missing altogether (\<open>None\<close>) or may hold one.
\<close>

record retrieval =
  rtOutput :: bytes
  rtHashed :: bytes
  rtLast :: "bytes option option"

definition next_chunk ::
  "(string \<Rightarrow> bytes option) \<Rightarrow> (bytes \<Rightarrow> string) \<Rightarrow> string \<Rightarrow> bytes option option \<Rightarrow> bytes option \<times> bytes option option" where
  "next_chunk download getHash h lastChunk =
     (case lastChunk of
        None \<Rightarrow> (download h, None)
      | Some None \<Rightarrow> (download h, Some (download h))
      | Some (Some b) \<Rightarrow> if getHash b = h then (Some b, lastChunk) else (download h, Some (download h)))"

fun retrieve_chunks ::
  "(string \<Rightarrow> bytes option) \<Rightarrow> (bytes \<Rightarrow> string) \<Rightarrow> snapshot \<Rightarrow> entry \<Rightarrow> int list \<Rightarrow> retrieval \<Rightarrow> fatal + (bool \<times> retrieval)" where
  "retrieve_chunks download getHash s e [] rt = Inr (True, rt)"
| "retrieve_chunks download getHash s e (i # is) rt =
     (if i < 0 \<or> length (ChunkLengths s) \<le> nat i \<or> length (ChunkHashes s) \<le> nat i then Inl RuntimePanic
      else
        let h = ChunkHashes s ! nat i;
            start = chunk_start e i;
            final = chunk_end e (\<lambda>i. ChunkLengths s ! nat i) i
        in case next_chunk download getHash h (rtLast rt) of
             (None, l) \<Rightarrow> if l = None then Inl RuntimePanic else Inr (False, rt\<lparr>rtLast := Some None\<rparr>)
           | (Some b, l) \<Rightarrow>
               if 0 \<le> start \<and> start \<le> final \<and> final \<le> int (length b)
               then let piece = subslice (nat start) (nat final) b
                    in retrieve_chunks download getHash s e is
                         \<lparr>rtOutput = rtOutput rt @ piece,
                          rtHashed = rtHashed rt @ (if has_prefix (Hash e) ''#'' then bytes_of (hex_encode h) else piece), rtLast = l\<rparr>
               else Inl RuntimePanic)"

text \<open>\<open>fileHash\<close> is the file hasher; its sum is compared without regard to case.\<close>

definition to_lower :: "string \<Rightarrow> string" where
  "to_lower s = map (\<lambda>c. let n = of_char c :: nat in if 65 \<le> n \<and> n \<le> 90 then char_of (n + 32) else c) s"

definition hash_matches :: "(bytes \<Rightarrow> string) \<Rightarrow> bool \<Rightarrow> bytes \<Rightarrow> entry \<Rightarrow> bool" where
  "hash_matches fileHash skipFileHash hashed e \<longleftrightarrow>
     to_lower ((if has_prefix (Hash e) ''#'' then ''#'' else []) @ fileHash hashed) = to_lower (Hash e) \<or> skipFileHash"

definition RetrieveFile ::
  "(string \<Rightarrow> bytes option) \<Rightarrow> (bytes \<Rightarrow> string) \<Rightarrow> (bytes \<Rightarrow> string) \<Rightarrow> bool \<Rightarrow> snapshot \<Rightarrow> entry \<Rightarrow> bytes option option
     \<Rightarrow> fatal + (bool \<times> bytes \<times> bytes option option)" where
  "RetrieveFile download getHash fileHash skipFileHash s e lastChunk =
     (if Size e = 0 then Inr (True, [], lastChunk)
      else case retrieve_chunks download getHash s e [StartChunk e..EndChunk e] \<lparr>rtOutput = [], rtHashed = [], rtLast = lastChunk\<rparr> of
             Inl f \<Rightarrow> Inl f
           | Inr (whole, rt) \<Rightarrow>
               Inr (whole \<and> hash_matches fileHash skipFileHash (rtHashed rt) e, rtOutput rt, rtLast rt))"

definition FindFile :: "entry list \<times> fatal option \<Rightarrow> string \<Rightarrow> bool \<Rightarrow> fatal + entry option" where
  "FindFile listing path suppressError =
     (case find (\<lambda>e. Path e = path) (fst listing) of
        Some e \<Rightarrow> Inr (Some e)
      | None \<Rightarrow> (case snd listing of
                   Some f \<Rightarrow> Inl f
                 | None \<Rightarrow> if suppressError then Inr None else Inl (LogError ''SNAPSHOT_FIND'')))"

section \<open>Verifying a snapshot\<close>

fun verify_files ::
  "(string \<Rightarrow> bytes option) \<Rightarrow> (bytes \<Rightarrow> string) \<Rightarrow> (bytes \<Rightarrow> string) \<Rightarrow> bool \<Rightarrow> snapshot \<Rightarrow> entry list \<Rightarrow> bytes option option \<Rightarrow> nat
     \<Rightarrow> fatal + nat" where
  "verify_files download getHash fileHash skipFileHash s [] lastChunk corruptedFiles = Inr corruptedFiles"
| "verify_files download getHash fileHash skipFileHash s (e # es) lastChunk corruptedFiles =
     bindE (RetrieveFile download getHash fileHash skipFileHash s e lastChunk) (\<lambda>(ok, _, lastChunk).
       verify_files download getHash fileHash skipFileHash s es lastChunk (if ok then corruptedFiles else corruptedFiles + 1))"

definition VerifySnapshot ::
  "(string \<Rightarrow> bytes option) \<Rightarrow> (bytes \<Rightarrow> string) \<Rightarrow> (bytes \<Rightarrow> string) \<Rightarrow> bool \<Rightarrow> entry list \<times> fatal option \<Rightarrow> snapshot \<Rightarrow> fatal + bool" where
  "VerifySnapshot download getHash fileHash skipFileHash listing s =
     bindE (walkSnapshotEntries listing s True) (\<lambda>r.
       case r of
         Inl _ \<Rightarrow> Inl (LogError ''SNAPSHOT_CHECK'')
       | Inr files \<Rightarrow> bindE (verify_files download getHash fileHash skipFileHash s (sort_by ByChunk_Less files) (Some None) 0)
                      (\<lambda>corruptedFiles. Inr (corruptedFiles = 0)))"

section \<open>What the checks guarantee\<close>

text \<open>Chunks that are delivered have the hash that was asked for, and the length the snapshot records.\<close>

definition chunks_intact :: "(string \<Rightarrow> bytes option) \<Rightarrow> (bytes \<Rightarrow> string) \<Rightarrow> snapshot \<Rightarrow> bool" where
  "chunks_intact download getHash s \<longleftrightarrow>
     (\<forall>h b. download h = Some b \<longrightarrow> getHash b = h) \<and> length (ChunkHashes s) = length (ChunkLengths s)
     \<and> (\<forall>n \<in> set (ChunkLengths s). 0 \<le> n)
     \<and> (\<forall>i < length (ChunkHashes s). \<forall>b. download (ChunkHashes s ! i) = Some b \<longrightarrow> int (length b) = ChunkLengths s ! i)"

definition chunk_of :: "(string \<Rightarrow> bytes option) \<Rightarrow> snapshot \<Rightarrow> int \<Rightarrow> bytes option" where
  "chunk_of download s i = download (ChunkHashes s ! nat i)"

text \<open>An entry that passed \<^verbatim>\<open>Entry.check\<close> and has offsets that are not negative.\<close>

definition sound_entry :: "snapshot \<Rightarrow> entry \<Rightarrow> bool" where
  "sound_entry s e \<longleftrightarrow> check e (ChunkLengths s) = None \<and> 0 \<le> StartOffset e \<and> 0 \<le> EndOffset e"

text \<open>The bytes of a file, what its hasher is fed with, and when the file is whole.\<close>

definition file_bytes :: "(string \<Rightarrow> bytes option) \<Rightarrow> snapshot \<Rightarrow> entry \<Rightarrow> bytes" where
  "file_bytes download s e = entry_slice (\<lambda>i. the (chunk_of download s i)) e"

definition hashed_bytes :: "(string \<Rightarrow> bytes option) \<Rightarrow> snapshot \<Rightarrow> entry \<Rightarrow> bytes" where
  "hashed_bytes download s e =
     (if has_prefix (Hash e) ''#'' then concat (map (\<lambda>i. bytes_of (hex_encode (ChunkHashes s ! nat i))) [StartChunk e..EndChunk e])
      else file_bytes download s e)"

definition available :: "(string \<Rightarrow> bytes option) \<Rightarrow> snapshot \<Rightarrow> entry \<Rightarrow> bool" where
  "available download s e \<longleftrightarrow> list_all (\<lambda>i. chunk_of download s i \<noteq> None) [StartChunk e..EndChunk e]"

definition whole_file :: "(string \<Rightarrow> bytes option) \<Rightarrow> (bytes \<Rightarrow> string) \<Rightarrow> bool \<Rightarrow> snapshot \<Rightarrow> entry \<Rightarrow> bool" where
  "whole_file download fileHash skipFileHash s e \<longleftrightarrow>
     available download s e \<and> hash_matches fileHash skipFileHash (hashed_bytes download s e) e"

text \<open>The kept chunk is one that was delivered.\<close>

definition kept_ok :: "(string \<Rightarrow> bytes option) \<Rightarrow> (bytes \<Rightarrow> string) \<Rightarrow> bytes option option \<Rightarrow> bool" where
  "kept_ok download getHash l \<longleftrightarrow> (\<forall>b. l = Some (Some b) \<longrightarrow> download (getHash b) = Some b)"

lemma next_chunk_is_download:
  assumes "chunks_intact download getHash s" and "kept_ok download getHash l"
  obtains l' where "next_chunk download getHash h l = (download h, l')" and "kept_ok download getHash l'" and "l' = None \<longleftrightarrow> l = None"
proof -
  have d: "kept_ok download getHash (Some (download h))"
    using assms(1) by (auto simp: chunks_intact_def kept_ok_def)
  have "\<exists>l'. next_chunk download getHash h l = (download h, l') \<and> kept_ok download getHash l' \<and> (l' = None \<longleftrightarrow> l = None)"
  proof (cases l)
    case None
    then show ?thesis by (simp add: next_chunk_def kept_ok_def)
  next
    case (Some c)
    then show ?thesis using d assms(2) by (cases c) (auto simp: next_chunk_def kept_ok_def)
  qed
  then show thesis using that by blast
qed

text \<open>The slices of an entry, chunk by chunk.\<close>

definition piece_of :: "(string \<Rightarrow> bytes option) \<Rightarrow> snapshot \<Rightarrow> entry \<Rightarrow> int \<Rightarrow> bytes" where
  "piece_of download s e i = subslice (nat (chunk_start e i)) (nat (chunk_end e (\<lambda>i. ChunkLengths s ! nat i) i)) (the (chunk_of download s i))"

definition hashed_piece :: "(string \<Rightarrow> bytes option) \<Rightarrow> snapshot \<Rightarrow> entry \<Rightarrow> int \<Rightarrow> bytes" where
  "hashed_piece download s e i =
     (if has_prefix (Hash e) ''#'' then bytes_of (hex_encode (ChunkHashes s ! nat i)) else piece_of download s e i)"

definition in_range :: "snapshot \<Rightarrow> entry \<Rightarrow> int \<Rightarrow> bool" where
  "in_range s e i \<longleftrightarrow> 0 \<le> i \<and> nat i < length (ChunkHashes s) \<and> 0 \<le> chunk_start e i
     \<and> chunk_start e i \<le> chunk_end e (\<lambda>i. ChunkLengths s ! nat i) i \<and> chunk_end e (\<lambda>i. ChunkLengths s ! nat i) i \<le> ChunkLengths s ! nat i"

lemma retrieve_chunks_spec:
  assumes "chunks_intact download getHash s" and "list_all (in_range s e) is" and "kept_ok download getHash (rtLast rt)"
    and "rtLast rt \<noteq> None \<or> list_all (\<lambda>i. chunk_of download s i \<noteq> None) is"
  shows "\<exists>rt'. retrieve_chunks download getHash s e is rt = Inr (list_all (\<lambda>i. chunk_of download s i \<noteq> None) is, rt')
    \<and> kept_ok download getHash (rtLast rt') \<and> (rtLast rt' = None \<longleftrightarrow> rtLast rt = None)
    \<and> (list_all (\<lambda>i. chunk_of download s i \<noteq> None) is \<longrightarrow> rtOutput rt' = rtOutput rt @ concat (map (piece_of download s e) is)
        \<and> rtHashed rt' = rtHashed rt @ concat (map (hashed_piece download s e) is))"
  using assms(2-4)
proof (induction "is" arbitrary: rt)
  case (Cons i ks)
  let ?h = "ChunkHashes s ! nat i" and ?len = "\<lambda>i. ChunkLengths s ! nat i"
  have r: "0 \<le> i" "nat i < length (ChunkHashes s)" "nat i < length (ChunkLengths s)" "0 \<le> chunk_start e i"
    "chunk_start e i \<le> chunk_end e ?len i" "chunk_end e ?len i \<le> ChunkLengths s ! nat i"
    using Cons.prems(1) assms(1) by (simp_all add: in_range_def chunks_intact_def)
  obtain l where l: "next_chunk download getHash ?h (rtLast rt) = (download ?h, l)" "kept_ok download getHash l" "l = None \<longleftrightarrow> rtLast rt = None"
    by (rule next_chunk_is_download [OF assms(1) Cons.prems(2)])
  show ?case
  proof (cases "download ?h")
    case None
    then have "\<not> list_all (\<lambda>i. chunk_of download s i \<noteq> None) (i # ks)" by (simp add: chunk_of_def)
    moreover from this have "rtLast rt \<noteq> None" using Cons.prems(3) by metis
    moreover have "retrieve_chunks download getHash s e (i # ks) rt = Inr (False, rt\<lparr>rtLast := Some None\<rparr>)"
      using r l(1,3) None \<open>rtLast rt \<noteq> None\<close> by (simp add: Let_def)
    ultimately show ?thesis by (intro exI [of _ "rt\<lparr>rtLast := Some None\<rparr>"]) (auto simp: kept_ok_def simp del: retrieve_chunks.simps)
  next
    case (Some b)
    have len: "int (length b) = ChunkLengths s ! nat i" using assms(1) r(2) Some by (simp add: chunks_intact_def)
    define rt1 where "rt1 = \<lparr>rtOutput = rtOutput rt @ piece_of download s e i, rtHashed = rtHashed rt @ hashed_piece download s e i, rtLast = l\<rparr>"
    have step: "retrieve_chunks download getHash s e (i # ks) rt = retrieve_chunks download getHash s e ks rt1"
      using r l(1) Some len by (simp add: Let_def rt1_def piece_of_def hashed_piece_def chunk_of_def)
    have "rtLast rt1 \<noteq> None \<or> list_all (\<lambda>i. chunk_of download s i \<noteq> None) ks" using Cons.prems(3) l(3) by (auto simp: rt1_def)
    with Cons.IH [of rt1] Cons.prems(1) l(2) obtain rt' where
      "retrieve_chunks download getHash s e ks rt1 = Inr (list_all (\<lambda>i. chunk_of download s i \<noteq> None) ks, rt')"
      "kept_ok download getHash (rtLast rt')" "rtLast rt' = None \<longleftrightarrow> rtLast rt1 = None"
      "list_all (\<lambda>i. chunk_of download s i \<noteq> None) ks \<Longrightarrow> rtOutput rt' = rtOutput rt1 @ concat (map (piece_of download s e) ks)
        \<and> rtHashed rt' = rtHashed rt1 @ concat (map (hashed_piece download s e) ks)"
      by (auto simp: rt1_def)
    moreover have "chunk_of download s i \<noteq> None" using Some by (simp add: chunk_of_def)
    ultimately show ?thesis using step l(3) by (intro exI [of _ rt']) (simp add: rt1_def)
  qed
qed simp

lemma sound_entry_in_range:
  assumes "sound_entry s e" and "IsFile e" and "Size e \<noteq> 0" and "chunks_intact download getHash s"
  shows "list_all (in_range s e) [StartChunk e..EndChunk e]"
proof -
  have c: "check_with (length (ChunkLengths s)) (\<lambda>i. ChunkLengths s ! nat i) e = None"
    using assms(1) by (simp add: sound_entry_def check_def)
  have "slices_ok (\<lambda>i. ChunkLengths s ! nat i) e"
    by (rule check_with_slices [OF c assms(2,3)]) (use assms(1,4) in \<open>auto simp: sound_entry_def chunks_intact_def nat_less_iff\<close>)
  then show ?thesis
    using check_with_None(2,3) [OF c assms(2,3)] assms(4)
    by (auto simp: slices_ok_def list_all_iff in_range_def chunks_intact_def nat_less_iff)
qed

lemma file_bytes_pieces:
  assumes "available download s e" and "list_all (in_range s e) [StartChunk e..EndChunk e]" and "chunks_intact download getHash s"
  shows "concat (map (piece_of download s e) [StartChunk e..EndChunk e]) = file_bytes download s e"
    and "concat (map (hashed_piece download s e) [StartChunk e..EndChunk e]) = hashed_bytes download s e"
proof -
  have "piece_of download s e i = subslice (nat (chunk_start e i))
      (nat (chunk_end e (\<lambda>i. int (length (the (chunk_of download s i)))) i)) (the (chunk_of download s i))"
    if i: "i \<in> set [StartChunk e..EndChunk e]" for i
  proof -
    obtain b where b: "download (ChunkHashes s ! nat i) = Some b" "nat i < length (ChunkHashes s)"
    proof -
      have "chunk_of download s i \<noteq> None" "in_range s e i" using i assms(1,2) unfolding available_def list_all_iff by blast+
      then show thesis using that by (auto simp: in_range_def chunk_of_def)
    qed
    then have "int (length b) = ChunkLengths s ! nat i" using assms(3) by (simp add: chunks_intact_def)
    then show ?thesis using b(1) by (simp add: piece_of_def chunk_of_def chunk_end_def)
  qed
  then show 1: "concat (map (piece_of download s e) [StartChunk e..EndChunk e]) = file_bytes download s e"
    unfolding file_bytes_def entry_slice_def by (intro arg_cong [of _ _ concat] map_cong) auto
  show "concat (map (hashed_piece download s e) [StartChunk e..EndChunk e]) = hashed_bytes download s e"
  proof (cases "has_prefix (Hash e) ''#''")
    case True
    then have "hashed_piece download s e = (\<lambda>i. bytes_of (hex_encode (ChunkHashes s ! nat i)))" by (simp add: fun_eq_iff hashed_piece_def)
    then show ?thesis using True by (simp add: hashed_bytes_def)
  next
    case False
    then have "hashed_piece download s e = piece_of download s e" by (simp add: fun_eq_iff hashed_piece_def)
    then show ?thesis using False 1 by (simp add: hashed_bytes_def)
  qed
qed

lemma RetrieveFile_spec:
  assumes "chunks_intact download getHash s" and "sound_entry s e" and "IsFile e" and "Size e \<noteq> 0"
    and "kept_ok download getHash l" and "l \<noteq> None \<or> available download s e"
  shows "\<exists>out l'. RetrieveFile download getHash fileHash skipFileHash s e l = Inr (whole_file download fileHash skipFileHash s e, out, l')
    \<and> kept_ok download getHash l' \<and> (l' = None \<longleftrightarrow> l = None) \<and> (available download s e \<longrightarrow> out = file_bytes download s e)"
proof -
  note r = sound_entry_in_range [OF assms(2-4,1)]
  obtain rt where rt: "retrieve_chunks download getHash s e [StartChunk e..EndChunk e] \<lparr>rtOutput = [], rtHashed = [], rtLast = l\<rparr>
      = Inr (available download s e, rt)" "kept_ok download getHash (rtLast rt)" "rtLast rt = None \<longleftrightarrow> l = None"
    "available download s e \<Longrightarrow> rtOutput rt = concat (map (piece_of download s e) [StartChunk e..EndChunk e])
        \<and> rtHashed rt = concat (map (hashed_piece download s e) [StartChunk e..EndChunk e])"
    using retrieve_chunks_spec [OF assms(1) r, of "\<lparr>rtOutput = [], rtHashed = [], rtLast = l\<rparr>"] assms(5,6)
    unfolding available_def by auto
  show ?thesis
    using rt file_bytes_pieces [OF _ r assms(1)] assms(4)
    by (intro exI [of _ "rtOutput rt"] exI [of _ "rtLast rt"]) (auto simp: RetrieveFile_def whole_file_def)
qed

section \<open>Verifying a snapshot\<close>

text \<open>The order the walk accepts.\<close>

definition may_follow :: "entry \<Rightarrow> entry \<Rightarrow> bool" where
  "may_follow l e \<longleftrightarrow> Compare l e < 0 \<or> contains replacement_character (Path l)"

lemma checkRemoteEntry_after_check:
  assumes "check e (ChunkLengths s) = None" and "length (ChunkHashes s) = length (ChunkLengths s)"
  shows "checkRemoteEntry s e lastEntry (length (ChunkHashes s)) = None \<longleftrightarrow> (\<forall>l. lastEntry = Some l \<longrightarrow> may_follow l e)"
proof (cases "IsFile e \<and> Size e \<noteq> 0")
  case True
  note c = check_with_None [OF assms(1) [unfolded check_def] conjunct1 [OF True] conjunct2 [OF True]]
  have "\<not> (StartChunk e = EndChunk e \<and> StartOffset e > EndOffset e)"
    using c(1,7) by (auto simp: file_size_def chunk_start_def chunk_end_def)
  then show ?thesis
    using c assms(2) by (cases lastEntry) (auto simp: checkRemoteEntry_def Let_def may_follow_def)
next
  case False
  then show ?thesis by (cases lastEntry) (auto simp: checkRemoteEntry_def Let_def may_follow_def)
qed

definition hashed_files :: "entry list \<Rightarrow> entry list" where
  "hashed_files es = filter (\<lambda>e. IsFile e \<and> Size e \<noteq> 0) es"

lemma walk_entries_spec:
  assumes "list_all (\<lambda>e. check e (ChunkLengths s) = None) es" and "length (ChunkHashes s) = length (ChunkLengths s)"
  shows "if successively may_follow (case lastEntry of None \<Rightarrow> es | Some l \<Rightarrow> l # es)
    then walk_entries s True lastEntry es found = Inr (found @ map (\<lambda>e. e\<lparr>Attributes := None\<rparr>) (hashed_files es))
    else \<exists>err. walk_entries s True lastEntry es found = Inl err"
  using assms(1)
proof (induction es arbitrary: lastEntry found)
  case Nil
  then show ?case by (simp add: hashed_files_def split: option.split)
next
  case (Cons e es)
  note c = checkRemoteEntry_after_check [OF _ assms(2), of e lastEntry]
  let ?found = "found @ (if IsFile e \<and> Size e \<noteq> 0 then [e\<lparr>Attributes := None\<rparr>] else [])"
  show ?case
  proof (cases "checkRemoteEntry s e lastEntry (length (ChunkHashes s))")
    case None
    then have "successively may_follow (case lastEntry of None \<Rightarrow> e # es | Some l \<Rightarrow> l # e # es) = successively may_follow (e # es)"
      using c Cons.prems by (auto split: option.split)
    then show ?thesis using None Cons.IH [of "Some e" ?found] Cons.prems by (simp add: hashed_files_def split: if_splits)
  next
    case (Some err)
    then have "\<not> successively may_follow (case lastEntry of None \<Rightarrow> e # es | Some l \<Rightarrow> l # e # es)"
      using c Cons.prems by auto
    then show ?thesis using Some by simp
  qed
qed

lemma without_attributes [simp]:
  "sound_entry s (e\<lparr>Attributes := a\<rparr>) = sound_entry s e" "IsFile (e\<lparr>Attributes := a\<rparr>) = IsFile e"
  "whole_file download fileHash skipFileHash s (e\<lparr>Attributes := a\<rparr>) = whole_file download fileHash skipFileHash s e"
proof -
  have b: "chunk_start (e\<lparr>Attributes := a\<rparr>) = chunk_start e" "chunk_end (e\<lparr>Attributes := a\<rparr>) = chunk_end e"
    "IsFile (e\<lparr>Attributes := a\<rparr>) = IsFile e"
    by (simp_all add: fun_eq_iff chunk_start_def chunk_end_def IsFile_def)
  show "sound_entry s (e\<lparr>Attributes := a\<rparr>) = sound_entry s e" "IsFile (e\<lparr>Attributes := a\<rparr>) = IsFile e"
    by (simp_all add: sound_entry_def check_def check_with_def file_size_def b)
  show "whole_file download fileHash skipFileHash s (e\<lparr>Attributes := a\<rparr>) = whole_file download fileHash skipFileHash s e"
    by (simp add: whole_file_def available_def hash_matches_def hashed_bytes_def file_bytes_def entry_slice_def b)
qed

lemma verify_files_spec:
  assumes "chunks_intact download getHash s" and "list_all (\<lambda>e. sound_entry s e \<and> IsFile e \<and> Size e \<noteq> 0) es"
    and "kept_ok download getHash l" and "l \<noteq> None"
  shows "verify_files download getHash fileHash skipFileHash s es l n
    = Inr (n + length (filter (\<lambda>e. \<not> whole_file download fileHash skipFileHash s e) es))"
  using assms(2-)
proof (induction es arbitrary: l n)
  case (Cons e es)
  obtain out l' where "RetrieveFile download getHash fileHash skipFileHash s e l = Inr (whole_file download fileHash skipFileHash s e, out, l')"
    "kept_ok download getHash l'" "l' \<noteq> None"
    using RetrieveFile_spec [OF assms(1), of e l fileHash skipFileHash] Cons.prems by auto
  then show ?case using Cons.IH [of l'] Cons.prems(1) by simp
qed simp


text \<open>Two chunks; a file over both of them, one whose hash is wrong, an empty one and a directory.\<close>

definition verify_snapshot :: snapshot where
  "verify_snapshot = (CreateEmptySnapshot 0 ''r'')\<lparr>ChunkHashes := [''abcde'', ''wxyz''], ChunkLengths := [5, 4]\<rparr>"

definition verify_entries :: "entry list" where
  "verify_entries =
     [(CreateEntry ''a'' 6 0 0)\<lparr>Hash := ''BCDEwx'', StartChunk := 0, StartOffset := 1, EndChunk := 1, EndOffset := 2\<rparr>,
      (CreateEntry ''b'' 2 0 0)\<lparr>Hash := ''zz'', StartChunk := 1, StartOffset := 2, EndChunk := 1, EndOffset := 4\<rparr>,
      CreateEntry ''c'' 0 0 0]"

definition verify_download :: "string \<Rightarrow> bytes option" where
  "verify_download h = (if h \<in> set (ChunkHashes verify_snapshot) then Some (bytes_of h) else None)"


end
