(* ===== verification/Backup_Restore.thy ===== *)
theory Backup_Restore
  imports Backup_Run Remote_Files
begin

text \<open>
  The round trip of the data: what a backup packs, uploads and describes in its snapshot is what someone who
  reads the snapshot back and retrieves its files gets (\<^verbatim>\<open>Backup\<close>, \<^verbatim>\<open>UploadSnapshot\<close>, \<^verbatim>\<open>ListRemoteFiles\<close> and
  \<^verbatim>\<open>RetrieveFile\<close>).
\<close>

section \<open>Entries read from the list\<close>

text \<open>A complete entry as the comparison leaves it: an empty file, a directory or a link has no chunks.\<close>

definition settled_entry :: "nat \<Rightarrow> (nat \<Rightarrow> int) \<Rightarrow> entry \<Rightarrow> bool" where
  "settled_entry n len e \<longleftrightarrow> check_with n (\<lambda>i. len (nat i)) e = None \<and> 0 \<le> StartOffset e \<and> 0 \<le> EndOffset e
     \<and> (\<not> IsFile e \<or> Size e = 0 \<longrightarrow> Size e = 0 \<and> StartChunk e = 0 \<and> EndChunk e = 0 \<and> StartOffset e = 0 \<and> EndOffset e = 0)"

lemma fill_chunks_offset:
  "fill_chunks lens index E off = (j, E', off') \<Longrightarrow> 0 \<le> off \<Longrightarrow> 0 \<le> off'"
  by (induction lens index E off rule: fill_chunks.induct) (subst (asm) fill_chunks.simps, auto split: if_splits)

lemma fillAndSendEntry_sound:
  assumes "fillAndSendEntry el e = Inr (r, el')" and "0 \<le> uploadedChunkOffset el"
  shows "0 \<le> uploadedChunkOffset el' \<and> checkEntry el' = checkEntry el
    \<and> (\<forall>e'. r = Some e' \<longrightarrow> checkEntry el e' = None \<and> Attributes e' = Attributes e \<and> Mode e' = Mode e
      \<and> (IsComplete e \<and> e' = e \<or> \<not> IsComplete e \<and> 0 < Size e' \<and> 0 \<le> StartOffset e' \<and> 0 \<le> EndOffset e'))"
proof (cases "IsComplete e")
  case True
  then show ?thesis using assms by (auto simp: fillAndSendEntry_def split: option.splits)
next
  case False
  let ?m = "ModifiedEntries el ! modifiedEntryIndex el"
  show ?thesis
  proof (cases "mSize ?m \<le> 0")
    case True
    have "checkEntry (el\<lparr>modifiedEntryIndex := k\<rparr>) = checkEntry el" for k by (rule checkEntry_cong) simp_all
    then show ?thesis using assms False True by (auto simp: fillAndSendEntry_def Let_def split: if_splits)
  next
    case pos: False
    obtain j E b where fc: "fill_chunks (UploadedChunkLengths el) (uploadedChunkIndex el)
        (int (uploadedChunkIndex el) + int (length (PreservedChunkHashes el))) (uploadedChunkOffset el + mSize ?m) = (j, E, b)"
      by (cases "fill_chunks (UploadedChunkLengths el) (uploadedChunkIndex el)
        (int (uploadedChunkIndex el) + int (length (PreservedChunkHashes el))) (uploadedChunkOffset el + mSize ?m)")
    have b: "0 \<le> b" by (rule fill_chunks_offset [OF fc]) (use assms(2) pos in simp)
    have ck: "checkEntry (el\<lparr>modifiedEntryIndex := k, uploadedChunkIndex := x, uploadedChunkOffset := y\<rparr>) = checkEntry el"
      "checkEntry (el\<lparr>modifiedEntryIndex := k, uploadedChunkOffset := y, uploadedChunkIndex := x\<rparr>) = checkEntry el" for k x y
      by (rule checkEntry_cong; simp)+
    show ?thesis
      using assms False pos fc b by (auto simp: fillAndSendEntry_def Let_def ck split: if_splits option.splits)
  qed
qed

lemma fill_entries_sound:
  assumes "fill_entries el es out = Inr xs" and "0 \<le> uploadedChunkOffset el" and "checkEntry el = chk"
    and "\<forall>e \<in> set es. canonical e \<and> (IsComplete e \<longrightarrow> P e) \<and> (\<not> IsComplete e \<longrightarrow> IsFile e)"
    and "\<forall>e \<in> set out. chk e = None \<and> canonical e \<and> (P e \<or> IsFile e \<and> 0 < Size e \<and> 0 \<le> StartOffset e \<and> 0 \<le> EndOffset e)"
  shows "\<forall>e \<in> set xs. chk e = None \<and> canonical e \<and> (P e \<or> IsFile e \<and> 0 < Size e \<and> 0 \<le> StartOffset e \<and> 0 \<le> EndOffset e)"
  using assms
proof (induction es arbitrary: el out)
  case (Cons e es)
  obtain r el1 where f: "fillAndSendEntry el e = Inr (r, el1)"
    and rest: "fill_entries el1 es (out @ (case r of Some e \<Rightarrow> [e] | None \<Rightarrow> [])) = Inr xs"
    using Cons.prems(1) by (auto simp: bindE_Inr)
  note s = fillAndSendEntry_sound [OF f Cons.prems(2)]
  have "chk e' = None \<and> canonical e' \<and> (P e' \<or> IsFile e' \<and> 0 < Size e' \<and> 0 \<le> StartOffset e' \<and> 0 \<le> EndOffset e')" if "r = Some e'" for e'
    using s that Cons.prems(3,4) by (auto simp: canonical_def IsFile_def)
  then have o: "\<forall>e \<in> set (out @ (case r of Some e \<Rightarrow> [e] | None \<Rightarrow> [])). chk e = None \<and> canonical e
      \<and> (P e \<or> IsFile e \<and> 0 < Size e \<and> 0 \<le> StartOffset e \<and> 0 \<le> EndOffset e)"
    using Cons.prems(5) by (auto split: option.splits)
  show ?case by (rule Cons.IH [OF rest _ _ _ o]) (use s Cons.prems(3,4) in auto)
qed simp

text \<open>Reading the list after a backup gives entries that can be stored in a snapshot.\<close>

lemma ReadEntries_sound:
  assumes "ReadEntries c el = Inr out" and "holds c el es" and "\<forall>e \<in> set es. storable c e"
    and "\<forall>e \<in> set es. if IsComplete e then P e else IsFile e"
  shows "\<forall>e \<in> set out. checkEntry el e = None \<and> canonical e \<and> (P e \<or> IsFile e \<and> 0 < Size e \<and> 0 \<le> StartOffset e \<and> 0 \<le> EndOffset e)"
proof -
  have "fill_entries (rewind el) es [] = Inr out" using assms(1) ReadEntries_holds [OF assms(2,3)] by simp
  then show ?thesis
    by (rule fill_entries_sound) (use assms(3,4) in \<open>auto simp: rewind_def storable_def intro!: checkEntry_cong split: if_splits\<close>)
qed

section \<open>The bytes a relisted entry denotes\<close>

lemma map_upto_eq:
  assumes "map f [i..j] = map g [i'..j' :: int]" and "i \<le> j"
  shows "j' - i' = j - i" and "i \<le> k \<Longrightarrow> k \<le> j \<Longrightarrow> g (k + (i' - i)) = f k"
proof -
  have len: "length [i..j] = length [i'..j']" using arg_cong [OF assms(1), of length] by simp
  then show d: "j' - i' = j - i" using assms(2) by auto
  show "g (k + (i' - i)) = f k" if k: "i \<le> k" "k \<le> j"
  proof -
    have n: "nat (k - i) < length [i..j]" "nat (k - i) < length [i'..j']" using k len by auto
    have "map f [i..j] ! nat (k - i) = map g [i'..j'] ! nat (k - i)" using assms(1) by simp
    then have "f ([i..j] ! nat (k - i)) = g ([i'..j'] ! nat (k - i))" using n by (simp only: nth_map)
    then show ?thesis using k d by (simp add: nth_upto algebra_simps)
  qed
qed

lemma normalised_bytes [simp]:
  "entry_slice content (normalised e) = entry_slice content e" "StartChunk (normalised e) = StartChunk e" "EndChunk (normalised e) = EndChunk e"
  "Size (normalised e) = Size e" "Path (normalised e) = Path e" "Hash (normalised e) = Hash e" "IsFile (normalised e) = IsFile e"
  "StartOffset (normalised e) = StartOffset e" "EndOffset (normalised e) = EndOffset e"
proof -
  have "chunk_start (e\<lparr>Attributes := a\<rparr>) = chunk_start e" "chunk_end (e\<lparr>Attributes := a\<rparr>) = chunk_end e" for a
    by (simp_all add: fun_eq_iff chunk_start_def chunk_end_def)
  then show "entry_slice content (normalised e) = entry_slice content e" by (simp add: normalised_def entry_slice_def)
qed (simp_all add: normalised_def IsFile_def)

lemma listed_entry_fields:
  assumes "listed_entry s' e' = listed_entry s e"
  shows "Path e' = Path e" "Size e' = Size e" "Hash e' = Hash e" "IsFile e' = IsFile e" "StartOffset e' = StartOffset e" "EndOffset e' = EndOffset e"
proof -
  have r: "(normalised e')\<lparr>StartChunk := 0, EndChunk := 0\<rparr> = (normalised e)\<lparr>StartChunk := 0, EndChunk := 0\<rparr>"
    using assms by (simp add: listed_entry_def)
  have m: "Mode (normalised x) = Mode x" for x by (simp add: normalised_def)
  show "Path e' = Path e" "Size e' = Size e" "Hash e' = Hash e" "StartOffset e' = StartOffset e" "EndOffset e' = EndOffset e"
    using arg_cong [OF r, of Path] arg_cong [OF r, of Size] arg_cong [OF r, of Hash] arg_cong [OF r, of StartOffset] arg_cong [OF r, of EndOffset]
    by simp_all
  show "IsFile e' = IsFile e" using arg_cong [OF r, of Mode] m by (simp add: IsFile_def)
qed

lemma listed_entry_shift:
  assumes "listed_entry s' e' = listed_entry s e" and "IsFile e" and "0 < Size e" and "StartChunk e \<le> EndChunk e"
  obtains d where "normalised e' = shifted d (normalised e)"
    and "\<And>k. StartChunk e \<le> k \<Longrightarrow> k \<le> EndChunk e \<Longrightarrow> ChunkHashes s' ! nat (k + d) = ChunkHashes s ! nat k"
proof
  note f = listed_entry_fields [OF assms(1)]
  define d where "d = StartChunk e' - StartChunk e"
  have l: "map (\<lambda>k. (ChunkHashes s ! nat k, ChunkLengths s ! nat k)) [StartChunk e..EndChunk e]
      = map (\<lambda>k. (ChunkHashes s' ! nat k, ChunkLengths s' ! nat k)) [StartChunk e'..EndChunk e']"
    using assms(1-3) f(2,4) by (simp add: listed_entry_def)
  note m = map_upto_eq [OF l assms(4)]
  have r: "(normalised e')\<lparr>StartChunk := 0, EndChunk := 0\<rparr> = (normalised e)\<lparr>StartChunk := 0, EndChunk := 0\<rparr>"
    using assms(1) by (simp add: listed_entry_def)
  have "normalised e' = (normalised e')\<lparr>StartChunk := 0, EndChunk := 0\<rparr>\<lparr>StartChunk := StartChunk e', EndChunk := EndChunk e'\<rparr>"
    by (rule entry.equality) simp_all
  also have "\<dots> = shifted d (normalised e)"
    unfolding r using m(1) by (simp add: shifted_def d_def)
  finally show "normalised e' = shifted d (normalised e)" .
  show "ChunkHashes s' ! nat (k + d) = ChunkHashes s ! nat k" if "StartChunk e \<le> k" "k \<le> EndChunk e" for k
    using m(2) [OF that] by (simp add: d_def)
qed

lemma listed_entry_bytes:
  assumes "listed_entry s' e' = listed_entry s e" and "IsFile e" and "0 < Size e" and "StartChunk e \<le> EndChunk e"
  shows "file_bytes download s' e' = file_bytes download s e" and "available download s' e' = available download s e"
proof -
  obtain d where d: "normalised e' = shifted d (normalised e)"
    and c: "\<And>k. StartChunk e \<le> k \<Longrightarrow> k \<le> EndChunk e \<Longrightarrow> ChunkHashes s' ! nat (k + d) = ChunkHashes s ! nat k"
    using listed_entry_shift [OF assms] by blast
  have "entry_slice (\<lambda>i. the (chunk_of download s' i)) (shifted d (normalised e)) = entry_slice (\<lambda>i. the (chunk_of download s i)) (normalised e)"
    by (rule entry_slice_shifted) (simp add: chunk_of_def c)
  then show "file_bytes download s' e' = file_bytes download s e" by (simp add: file_bytes_def flip: d)
  have "StartChunk e' = StartChunk e + d" "EndChunk e' = EndChunk e + d" using arg_cong [OF d, of StartChunk] arg_cong [OF d, of EndChunk] by simp_all
  moreover have "list_all (\<lambda>i. chunk_of download s' i \<noteq> None) (map (\<lambda>k. k + d) [StartChunk e..EndChunk e])
      = list_all (\<lambda>i. chunk_of download s i \<noteq> None) [StartChunk e..EndChunk e]"
    unfolding list.pred_map by (intro list.pred_cong) (auto simp: chunk_of_def c)
  ultimately show "available download s' e' = available download s e" by (simp only: available_def upto_shift)
qed

section \<open>Restoring what was backed up\<close>

text \<open>What a reader of a snapshot gets for an entry.\<close>

definition restored ::
  "(string \<Rightarrow> bytes option) \<Rightarrow> (bytes \<Rightarrow> string) \<Rightarrow> (bytes \<Rightarrow> string) \<Rightarrow> bool \<Rightarrow> snapshot \<Rightarrow> entry \<Rightarrow> file_view" where
  "restored download getHash fileHash skipFileHash s e = (Path e, Size e, Hash e,
     case RetrieveFile download getHash fileHash skipFileHash s e None of Inl _ \<Rightarrow> [] | Inr (_, b, _) \<Rightarrow> b)"

lemma restored_view:
  assumes "chunks_intact download hash s''" and "listed_entry s'' e'' = listed_entry s e" and "check e'' (ChunkLengths s'') = None"
    and "check e (ChunkLengths s) = None" and "settled_entry n len e \<or> IsFile e \<and> 0 < Size e \<and> 0 \<le> StartOffset e \<and> 0 \<le> EndOffset e"
    and "ChunkHashes s = map hash chunks" and "length (ChunkLengths s) = length chunks" and "\<forall>b \<in> set chunks. download (hash b) = Some b"
  shows "restored download hash fileHash skipFileHash s'' e'' = view chunks e"
proof -
  note f = listed_entry_fields [OF assms(2)]
  show ?thesis
  proof (cases "IsFile e \<and> Size e \<noteq> 0")
    case True
    note c = check_with_None [OF assms(4) [unfolded check_def] conjunct1 [OF True] conjunct2 [OF True]]
    have off: "0 \<le> StartOffset e" "0 \<le> EndOffset e" using assms(5) by (auto simp: settled_entry_def)
    have ch: "chunk_of download s k = Some (nth_chunk chunks k)" if "StartChunk e \<le> k" "k \<le> EndChunk e" for k
    proof -
      have "nat k < length chunks" using that c(2,3) assms(7) by (simp add: nat_less_iff)
      then show ?thesis using assms(6,8) by (simp add: chunk_of_def)
    qed
    note b = listed_entry_bytes [OF assms(2) conjunct1 [OF True] c(1,4), of download]
    have av: "available download s'' e''" unfolding b(2) by (auto simp: available_def list_all_iff ch)
    have "sound_entry s'' e''" using assms(3) off f by (simp add: sound_entry_def)
    then obtain out l where r: "RetrieveFile download hash fileHash skipFileHash s'' e'' None = Inr (whole_file download fileHash skipFileHash s'' e'', out, l)"
      and out: "out = file_bytes download s'' e''"
      using RetrieveFile_spec [OF assms(1), of e'' None fileHash skipFileHash] True f av by (auto simp: kept_ok_def)
    have "entry_slice (\<lambda>i. the (chunk_of download s i)) (shifted 0 e) = entry_slice (nth_chunk chunks) e"
      by (rule entry_slice_shifted) (simp add: ch)
    then have "file_bytes download s e = entry_slice (nth_chunk chunks) e" by (simp add: file_bytes_def shifted_def)
    then have "out = entry_slice (nth_chunk chunks) e" using out b(1) by simp
    then show ?thesis by (simp add: restored_def view_def r f)
  next
    case False
    then have "Size e = 0 \<and> StartChunk e = 0 \<and> EndChunk e = 0 \<and> StartOffset e = 0 \<and> EndOffset e = 0"
      using assms(5) by (auto simp: settled_entry_def)
    then show ?thesis by (simp add: restored_def view_def RetrieveFile_def f entry_slice_def chunk_start_def chunk_end_def subslice_def)
  qed
qed

lemma checkEntry_is_check:
  "checkEntry el e = check e (PreservedChunkLengths el @ UploadedChunkLengths el)"
  unfolding checkEntry_def check_def by (rule arg_cong2 [where f = "\<lambda>n l. check_with n l e"]) (auto simp: getChunkLength_def nth_append)

lemma expected_nonempty:
  assumes "map mPath ms = map Path (filter (\<lambda>e. \<not> IsComplete e) es)" and "(\<exists>e \<in> set es. IsComplete e) \<or> (\<exists>m \<in> set ms. 0 < mSize m)"
  shows "expected chunks es ms ds \<noteq> []"
  using assms
proof (induction es arbitrary: ms ds)
  case (Cons e es)
  show ?case
  proof (cases "IsComplete e \<or> 0 < mSize (hd ms)")
    case False
    then obtain m ms' where "ms = m # ms'" using Cons.prems(1) by (cases ms) auto
    then show ?thesis using False Cons.IH [of ms' "tl ds"] Cons.prems by auto
  qed auto
qed simp

lemma chunks_intact_listed:
  assumes "length (ChunkHashes s'') = length (ChunkLengths s'')"
    and "set (zip (ChunkHashes s'') (ChunkLengths s'')) \<subseteq> set (zip (map hash chunks) (lengths_of chunks))"
    and "\<forall>b \<in> set chunks. download (hash b) = Some b" and "\<forall>h b. download h = Some b \<longrightarrow> hash b = h"
  shows "chunks_intact download hash s''"
proof -
  have p: "\<exists>b \<in> set chunks. h = hash b \<and> l = int (length b)" if "(h, l) \<in> set (zip (ChunkHashes s'') (ChunkLengths s''))" for h l
    using subsetD [OF assms(2) that] by (auto simp: in_set_zip)
  have q: "\<exists>b \<in> set chunks. ChunkHashes s'' ! i = hash b \<and> ChunkLengths s'' ! i = int (length b)" if "i < length (ChunkHashes s'')" for i
    by (rule p) (use that assms(1) in \<open>auto simp: in_set_zip\<close>)
  have "0 \<le> l" if "l \<in> set (ChunkLengths s'')" for l
    using that q assms(1) by (metis in_set_conv_nth of_nat_0_le_iff)
  moreover have "int (length b) = ChunkLengths s'' ! i" if "i < length (ChunkHashes s'')" "download (ChunkHashes s'' ! i) = Some b" for i b
    using q [OF that(1)] that(2) assms(3) by auto
  ultimately show ?thesis using assms(1,4) by (simp add: chunks_intact_def)
qed

text \<open>
  C1. What was backed up can be restored.  Pack the files of a list with any preserved and modified entries, report
  the chunks in any order, and store the entries and the chunk lists as metadata chunks.  Whoever then fetches
  the metadata by the hashes in the snapshot, and the file chunks by theirs, gets a list of files with the paths,
  sizes and hashes of the backup, and retrieving each of them delivers its bytes: those that were read for a
  modified file, and those of the last snapshot for a preserved one, however the files share chunks.
\<close>

theorem backup_can_be_restored:
  assumes "CreateFileChunkMaker sha cfg = Inr m" and "0 < MinimumChunkSize cfg" and "MinimumChunkSize cfg < MaximumChunkSize cfg"
    and "holds (me_codec me) el es" and "\<forall>e \<in> set es. storable (me_codec me) e"
    and "UploadedChunkHashes el = []" and "UploadedChunkLengths el = []"
    and "PreservedChunkLengths el = lengths_of pre" and "PreservedChunkHashes el = map hash pre"
    and "map mPath (ModifiedEntries el) = map Path (filter (\<lambda>e. \<not> IsComplete e) es)"
    and "\<forall>x \<in> set (ModifiedEntries el). mSize x = -1"
    and "\<forall>x \<in> set (ModifiedEntries el). \<forall>rd. openFile (mPath x) = Some rd \<longrightarrow> reader_fails rd = None"
    and "\<forall>e \<in> set es. if IsComplete e then settled_entry (length pre) (\<lambda>i. int (length (pre ! i))) e else IsFile e"
    and "(\<exists>e \<in> set es. IsComplete e) \<or> (\<exists>x \<in> set (ModifiedEntries el). file_data openFile x \<noteq> [])"
    and "codecs_ok me parseStrings parseInts"
    and "CreateMetaDataChunkMaker (me_sha me) (me_config me) (me_chunkSize me) = Inr mm" and "4 \<le> me_chunkSize me" and "Version local = 1"
  shows "\<exists>m' cs skipped. pack_all w fh openFile m (ModifiedEntries el)
        = Some (Packed m' cs (map (packed_entry fh openFile) (ModifiedEntries el)) skipped) \<and>
    (\<forall>reports known. mset reports = mset (chunk_reports hash cs) \<longrightarrow>
      (let el' = finish_list el (map (packed_entry fh openFile) (ModifiedEntries el)) reports in
       \<exists>s' ops. snapshot_sequences me el' known (finish_snapshot tag hashMode vss now preserved k el' local) = Some (Inr (s', ops)) \<and>
        (\<forall>fetch download. fetched fetch (me_hash me) (map (\<lambda>op. fst (snd op)) ops) \<longrightarrow>
          (\<forall>b \<in> set (pre @ cs). download (hash b) = Some b) \<longrightarrow> (\<forall>h b. download h = Some b \<longrightarrow> hash b = h) \<longrightarrow>
          (\<exists>s'' out. DownloadSnapshotSequences fetch parseStrings parseInts (ClearSnapshotSequences s') = Inr s''
            \<and> ListRemoteFiles fetch (parse (me_codec me)) old s'' = (out, None)
            \<and> map (restored download hash fileHash skipFileHash s'') out
              = expected (pre @ cs) es (map (packed_entry fh openFile) (ModifiedEntries el)) (map (file_data openFile) (ModifiedEntries el))))))"
proof -
  let ?ms = "map (packed_entry fh openFile) (ModifiedEntries el)" and ?ds = "map (file_data openFile) (ModifiedEntries el)"
  have len: "length (PreservedChunkHashes el) = length pre" by (simp add: assms(9))
  have chk: "\<forall>e \<in> set es. IsComplete e \<longrightarrow> check_with (length pre) (\<lambda>i. int (length (pre ! nat i))) e = None"
    using assms(13) by (auto simp: settled_entry_def)
  obtain m' cs sk where p: "pack_all w fh openFile m (ModifiedEntries el) = Some (Packed m' cs ?ms sk)"
    and r: "\<And>reports. mset reports = mset (chunk_reports hash cs) \<Longrightarrow> UploadedChunkHashes (finish_list el ?ms reports) = map hash cs
        \<and> UploadedChunkLengths (finish_list el ?ms reports) = lengths_of cs
        \<and> (\<exists>out. ReadEntries (me_codec me) (finish_list el ?ms reports) = Inr out \<and> map (view (pre @ cs)) out = expected (pre @ cs) es ?ms ?ds)"
    by (rule packed_list_reads [OF assms(1-8) len assms(10-12) chk, of w fh hash]) blast
  have ne: "expected (pre @ cs) es ?ms ?ds \<noteq> []"
  proof (rule expected_nonempty)
    show "map mPath ?ms = map Path (filter (\<lambda>e. \<not> IsComplete e) es)" using assms(10) by (simp add: comp_def)
    show "(\<exists>e \<in> set es. IsComplete e) \<or> (\<exists>m \<in> set ?ms. 0 < mSize m)"
      using assms(11,12,14) by (fastforce simp: packed_entry_def file_data_def split: option.splits)
  qed
  {
    fix reports known
    assume reports: "mset reports = mset (chunk_reports hash cs)"
    let ?el = "finish_list el ?ms reports" and ?s = "finish_snapshot tag hashMode vss now preserved k (finish_list el ?ms reports) local"
    obtain out1 where up: "UploadedChunkHashes ?el = map hash cs" "UploadedChunkLengths ?el = lengths_of cs"
      and out1: "ReadEntries (me_codec me) ?el = Inr out1" "map (view (pre @ cs)) out1 = expected (pre @ cs) es ?ms ?ds"
      using r [OF reports] by blast
    have pre: "PreservedChunkHashes ?el = map hash pre" "PreservedChunkLengths ?el = lengths_of pre" "holds (me_codec me) ?el es"
      using assms(4,8,9) by (simp_all add: finish_list_def)
    have s: "ChunkHashes ?s = map hash (pre @ cs)" "ChunkLengths ?s = lengths_of (pre @ cs)" "Version ?s = 1"
      using assms(18) by (simp_all add: finish_snapshot_def up pre)
    have ck: "checkEntry ?el e = check e (ChunkLengths ?s)" for e by (simp add: checkEntry_is_check s pre up)
    have sound: "\<forall>e \<in> set out1. check e (ChunkLengths ?s) = None \<and> canonical e
        \<and> (settled_entry (length pre) (\<lambda>i. int (length (pre ! i))) e \<or> IsFile e \<and> 0 < Size e \<and> 0 \<le> StartOffset e \<and> 0 \<le> EndOffset e)"
      using ReadEntries_sound [OF out1(1) pre(3) assms(5,13)] unfolding ck .
    have "list_all (listable ?s) out1" using sound by (auto simp: list_all_iff listable_def settled_entry_def)
    moreover have "out1 \<noteq> []" using out1(2) ne by auto
    ultimately obtain s' ops where st: "snapshot_sequences me ?el known ?s = Some (Inr (s', ops))"
      and relisted: "\<And>fetch. fetched fetch (me_hash me) (map (\<lambda>op. fst (snd op)) ops) \<Longrightarrow>
        \<exists>s'' out. DownloadSnapshotSequences fetch parseStrings parseInts (ClearSnapshotSequences s') = Inr s''
        \<and> ListRemoteFiles fetch (parse (me_codec me)) old s'' = (out, None) \<and> map (listed_entry s'') out = map (listed_entry ?s) out1
        \<and> list_all (\<lambda>e. check e (ChunkLengths s'') = None) out \<and> length (ChunkHashes s'') = length (ChunkLengths s'')
        \<and> set (zip (ChunkHashes s'') (ChunkLengths s'')) \<subseteq> set (zip (ChunkHashes ?s) (ChunkLengths ?s))"
      using stored_and_listed [OF out1(1) _ _ _ s(3) assms(16,17,15), of known old] s(1,2) by (auto simp del: map_append)
    have "\<exists>s'' out. DownloadSnapshotSequences fetch parseStrings parseInts (ClearSnapshotSequences s') = Inr s''
        \<and> ListRemoteFiles fetch (parse (me_codec me)) old s'' = (out, None)
        \<and> map (restored download hash fileHash skipFileHash s'') out = expected (pre @ cs) es ?ms ?ds"
      if f: "fetched fetch (me_hash me) (map (\<lambda>op. fst (snd op)) ops)" and d: "\<forall>b \<in> set (pre @ cs). download (hash b) = Some b"
        and h: "\<forall>h b. download h = Some b \<longrightarrow> hash b = h" for fetch download
    proof -
      obtain s'' out where o: "DownloadSnapshotSequences fetch parseStrings parseInts (ClearSnapshotSequences s') = Inr s''"
          "ListRemoteFiles fetch (parse (me_codec me)) old s'' = (out, None)"
        and l: "map (listed_entry s'') out = map (listed_entry ?s) out1" "list_all (\<lambda>e. check e (ChunkLengths s'') = None) out"
        and z: "length (ChunkHashes s'') = length (ChunkLengths s'')"
          "set (zip (ChunkHashes s'') (ChunkLengths s'')) \<subseteq> set (zip (ChunkHashes ?s) (ChunkLengths ?s))"
        using relisted [OF f] by blast
      have ci: "chunks_intact download hash s''" by (rule chunks_intact_listed [OF z(1) z(2) [unfolded s(1,2)] d h])
      have "map (restored download hash fileHash skipFileHash s'') out = map (view (pre @ cs)) out1"
      proof (rule nth_equalityI)
        show n: "length (map (restored download hash fileHash skipFileHash s'') out) = length (map (view (pre @ cs)) out1)"
          using arg_cong [OF l(1), of length] by simp
        fix i assume i: "i < length (map (restored download hash fileHash skipFileHash s'') out)"
        then have i1: "i < length out" "i < length out1" using n by simp_all
        have a: "listed_entry s'' (out ! i) = listed_entry ?s (out1 ! i)" using arg_cong [OF l(1), of "\<lambda>xs. xs ! i"] i1 by simp
        have b: "check (out ! i) (ChunkLengths s'') = None" using l(2) i1 by (simp add: list_all_length)
        have e: "check (out1 ! i) (ChunkLengths ?s) = None" and so: "settled_entry (length pre) (\<lambda>i. int (length (pre ! i))) (out1 ! i)
            \<or> IsFile (out1 ! i) \<and> 0 < Size (out1 ! i) \<and> 0 \<le> StartOffset (out1 ! i) \<and> 0 \<le> EndOffset (out1 ! i)"
          using sound i1 by simp_all
        from restored_view [OF ci a b e so s(1) _ d]
        have "restored download hash fileHash skipFileHash s'' (out ! i) = view (pre @ cs) (out1 ! i)" by (simp add: s(2))
        then show "map (restored download hash fileHash skipFileHash s'') out ! i = map (view (pre @ cs)) out1 ! i" using i1 by simp
      qed
      then show ?thesis using o out1(2) by metis
    qed
    then have "\<exists>s' ops. snapshot_sequences me ?el known ?s = Some (Inr (s', ops)) \<and>
        (\<forall>fetch download. fetched fetch (me_hash me) (map (\<lambda>op. fst (snd op)) ops) \<longrightarrow>
          (\<forall>b \<in> set (pre @ cs). download (hash b) = Some b) \<longrightarrow> (\<forall>h b. download h = Some b \<longrightarrow> hash b = h) \<longrightarrow>
          (\<exists>s'' out. DownloadSnapshotSequences fetch parseStrings parseInts (ClearSnapshotSequences s') = Inr s''
            \<and> ListRemoteFiles fetch (parse (me_codec me)) old s'' = (out, None)
            \<and> map (restored download hash fileHash skipFileHash s'') out = expected (pre @ cs) es ?ms ?ds))"
      using st by blast
  }
  then show ?thesis using p by (intro exI [of _ m'] exI [of _ cs] exI [of _ sk]) (simp only: Let_def, blast)
qed

text \<open>One preserved file inside the only chunk of the last snapshot, and a new file.\<close>

definition restore_entries :: "entry list" where
  "restore_entries =
     [(CreateEntry ''a'' 3 0 0)\<lparr>Hash := ''h'', StartChunk := 0, StartOffset := 1, EndChunk := 0, EndOffset := 4\<rparr>, CreateEntry ''b'' (-1) 0 0]"

definition restore_list :: entry_list where
  "restore_list = (CreateEntryList ''r'' [] 10)\<lparr>entries := restore_entries, ModifiedEntries := [\<lparr>mPath = ''b'', mSize = -1, mHash = []\<rparr>],
     PreservedChunkHashes := [string_of [1, 2, 3, 4, 5]], PreservedChunkLengths := [5]\<rparr>"

definition restore_open :: "string \<Rightarrow> reader option" where
  "restore_open p = Some [Data [6, 7], LastData [8]]"

lemma backup_can_be_restored_witness:
  "\<exists>m' cs skipped s' ops s'' out. pack_all False string_of restore_open sample_maker (ModifiedEntries restore_list)
      = Some (Packed m' cs [\<lparr>mPath = ''b'', mSize = 3, mHash = string_of [6, 7, 8]\<rparr>] skipped)
     \<and> snapshot_sequences plain_metadata
         (finish_list restore_list [\<lparr>mPath = ''b'', mSize = 3, mHash = string_of [6, 7, 8]\<rparr>] (rev (chunk_reports string_of cs))) {}
         (finish_snapshot [] True False 1 3 0
           (finish_list restore_list [\<lparr>mPath = ''b'', mSize = 3, mHash = string_of [6, 7, 8]\<rparr>] (rev (chunk_reports string_of cs)))
           (CreateEmptySnapshot 0 ''r'')) = Some (Inr (s', ops))
     \<and> DownloadSnapshotSequences bytes_of get_strings get_ints (ClearSnapshotSequences s') = Inr s''
     \<and> ListRemoteFiles bytes_of get_items (\<lambda>_. None) s'' = (out, None)
     \<and> map (restored (\<lambda>h. Some (bytes_of h)) string_of string_of False s'') out
       = [(''a'', 3, ''h'', [2, 3, 4]), (''b'', 3, string_of [6, 7, 8], [6, 7, 8])]"
proof -
  have f: "me_codec plain_metadata = plain_codec" "parse plain_codec = get_items" "me_hash plain_metadata = string_of"
    by (simp_all add: plain_metadata_def plain_codec_def)
  have b: "0 < MinimumChunkSize (sample_config 2 4 8)" "MinimumChunkSize (sample_config 2 4 8) < MaximumChunkSize (sample_config 2 4 8)"
    by (simp_all add: sample_config_def)
  have h: "holds (me_codec plain_metadata) restore_list restore_entries"
    by (simp add: holds_def restore_list_def CreateEntryList_def)
  have "codecs_ok plain_metadata get_strings get_ints" by (rule plain_codecs_ok)
  then have "parse plain_codec (concat (map (\<lambda>e. codec.marshal plain_codec (EncodeMsgpack e)) [e])) = concat (map EncodeMsgpack [e])" for e
    unfolding codecs_ok_def f by blast
  then have st: "\<forall>e \<in> set restore_entries. storable (me_codec plain_metadata) e"
    by (simp add: storable_def f restore_entries_def canonical_def CreateEntry_def)
  have se: "\<forall>e \<in> set restore_entries. if IsComplete e then settled_entry (length [[1, 2, 3, 4, 5 :: byte]]) (\<lambda>i. int (length ([[1, 2, 3, 4, 5 :: byte]] ! i))) e else IsFile e"
  proof -
    have "list_all (\<lambda>e. if IsComplete e then settled_entry 1 (\<lambda>i. int (length ([[1, 2, 3, 4, 5 :: byte]] ! i))) e else IsFile e) restore_entries"
      by code_simp
    then show ?thesis by (auto simp: list_all_iff split: if_splits)
  qed
  have el: "UploadedChunkHashes restore_list = []" "UploadedChunkLengths restore_list = []"
    "PreservedChunkLengths restore_list = lengths_of [[1, 2, 3, 4, 5]]" "PreservedChunkHashes restore_list = map string_of [[1, 2, 3, 4, 5]]"
    "map mPath (ModifiedEntries restore_list) = map Path (filter (\<lambda>e. \<not> IsComplete e) restore_entries)"
    "\<forall>x \<in> set (ModifiedEntries restore_list). mSize x = -1"
    "\<forall>x \<in> set (ModifiedEntries restore_list). \<forall>rd. restore_open (mPath x) = Some rd \<longrightarrow> reader_fails rd = None"
    by (simp_all add: restore_list_def CreateEntryList_def restore_entries_def CreateEntry_def IsComplete_def restore_open_def)
  have ex: "(\<exists>e \<in> set restore_entries. IsComplete e) \<or> (\<exists>x \<in> set (ModifiedEntries restore_list). file_data restore_open x \<noteq> [])"
    by (simp add: restore_entries_def CreateEntry_def IsComplete_def)
  have n: "4 \<le> me_chunkSize plain_metadata" "Version (CreateEmptySnapshot 0 ''r'') = 1"
    by (simp_all add: plain_metadata_def CreateEmptySnapshot_def empty_snapshot_def)
  have ms: "map (packed_entry string_of restore_open) (ModifiedEntries restore_list) = [\<lparr>mPath = ''b'', mSize = 3, mHash = string_of [6, 7, 8]\<rparr>]"
    "map (file_data restore_open) (ModifiedEntries restore_list) = [[6, 7, 8]]"
    by (simp_all add: restore_list_def packed_entry_def restore_open_def file_data_def)
  obtain m' cs skipped where p: "pack_all False string_of restore_open sample_maker (ModifiedEntries restore_list)
      = Some (Packed m' cs [\<lparr>mPath = ''b'', mSize = 3, mHash = string_of [6, 7, 8]\<rparr>] skipped)"
    and r: "\<And>reports. mset reports = mset (chunk_reports string_of cs) \<Longrightarrow>
      (let el' = finish_list restore_list [\<lparr>mPath = ''b'', mSize = 3, mHash = string_of [6, 7, 8]\<rparr>] reports in
       \<exists>s' ops. snapshot_sequences plain_metadata el' {} (finish_snapshot [] True False 1 3 0 el' (CreateEmptySnapshot 0 ''r'')) = Some (Inr (s', ops)) \<and>
        (\<forall>fetch download. fetched fetch string_of (map (\<lambda>op. fst (snd op)) ops) \<longrightarrow>
          (\<forall>b \<in> set ([[1, 2, 3, 4, 5]] @ cs). download (string_of b) = Some b) \<longrightarrow> (\<forall>h b. download h = Some b \<longrightarrow> string_of b = h) \<longrightarrow>
          (\<exists>s'' out. DownloadSnapshotSequences fetch get_strings get_ints (ClearSnapshotSequences s') = Inr s''
            \<and> ListRemoteFiles fetch get_items (\<lambda>_. None) s'' = (out, None)
            \<and> map (restored download string_of string_of False s'') out
              = expected ([[1, 2, 3, 4, 5]] @ cs) restore_entries [\<lparr>mPath = ''b'', mSize = 3, mHash = string_of [6, 7, 8]\<rparr>] [[6, 7, 8]])))"
    using backup_can_be_restored [OF sample_maker_created b h st el(1-7) se ex plain_codecs_ok listing_maker n,
        where w = False and fh = string_of and tag = "[]" and hashMode = True and vss = False and now = 1 and preserved = 3 and k = 0
          and old = "\<lambda>_. None" and fileHash = string_of and skipFileHash = False]
    unfolding ms f by blast
  have v: "expected ([[1, 2, 3, 4, 5]] @ cs) restore_entries [\<lparr>mPath = ''b'', mSize = 3, mHash = string_of [6, 7, 8]\<rparr>] [[6, 7, 8]]
      = [(''a'', 3, ''h'', [2, 3, 4]), (''b'', 3, string_of [6, 7, 8], [6, 7, 8])]"
    by (simp add: restore_entries_def CreateEntry_def IsComplete_def view_def entry_slice_def chunk_start_def chunk_end_def subslice_def)
  have "mset (rev (chunk_reports string_of cs)) = mset (chunk_reports string_of cs)" by simp
  from r [OF this, unfolded Let_def v] obtain s' ops where sq: "snapshot_sequences plain_metadata
         (finish_list restore_list [\<lparr>mPath = ''b'', mSize = 3, mHash = string_of [6, 7, 8]\<rparr>] (rev (chunk_reports string_of cs))) {}
         (finish_snapshot [] True False 1 3 0
           (finish_list restore_list [\<lparr>mPath = ''b'', mSize = 3, mHash = string_of [6, 7, 8]\<rparr>] (rev (chunk_reports string_of cs)))
           (CreateEmptySnapshot 0 ''r'')) = Some (Inr (s', ops))"
    and q: "\<And>fetch download. fetched fetch string_of (map (\<lambda>op. fst (snd op)) ops) \<Longrightarrow>
          \<forall>b \<in> set ([[1, 2, 3, 4, 5]] @ cs). download (string_of b) = Some b \<Longrightarrow> \<forall>h b. download h = Some b \<longrightarrow> string_of b = h \<Longrightarrow>
          \<exists>s'' out. DownloadSnapshotSequences fetch get_strings get_ints (ClearSnapshotSequences s') = Inr s''
            \<and> ListRemoteFiles fetch get_items (\<lambda>_. None) s'' = (out, None)
            \<and> map (restored download string_of string_of False s'') out = [(''a'', 3, ''h'', [2, 3, 4]), (''b'', 3, string_of [6, 7, 8], [6, 7, 8])]"
    by blast
  have "fetched bytes_of string_of (map (\<lambda>op. fst (snd op)) ops)" by (simp add: fetched_def list_all_iff)
  from q [OF this, of "\<lambda>h. Some (bytes_of h)"] obtain s'' out where
    "DownloadSnapshotSequences bytes_of get_strings get_ints (ClearSnapshotSequences s') = Inr s''"
    "ListRemoteFiles bytes_of get_items (\<lambda>_. None) s'' = (out, None)"
    "map (restored (\<lambda>h. Some (bytes_of h)) string_of string_of False s'') out
      = [(''a'', 3, ''h'', [2, 3, 4]), (''b'', 3, string_of [6, 7, 8], [6, 7, 8])]" by auto
  then show ?thesis using p sq by (intro exI conjI)
qed

end
