(* ===== verification/Chunk_Downloader.thy ===== *)
theory Chunk_Downloader
  imports Chunk_Operator Remote_Files
begin

text \<open>
  The chunk downloader of a restore (\<^verbatim>\<open>src/src/duplicacy_chunkdownloader.go\<close>): the list of the chunks the
  files need, in the order of the files, and the downloads under way, which arrive in any order.
\<close>

section \<open>State\<close>

text \<open>
  The fields of \<^verbatim>\<open>ChunkDownloadTask\<close> and \<^verbatim>\<open>ChunkDownloader\<close>.  \<open>completedTasks\<close> has the keys of the map.
  \<open>inFlight\<close> are the indices given to \<^verbatim>\<open>DownloadAsync\<close> whose chunks have not been received on the completion
  channel, in the order of the calls, and \<open>operatorState\<close> is the state of the chunk operator.
\<close>

record chunk_download_task =
  dtChunk :: "chunk_obj option"
  dtIndex :: nat
  dtHash :: string
  dtLength :: int
  dtNeeded :: bool
  dtDownloading :: bool

record 's chunk_downloader =
  taskList :: "chunk_download_task list"
  completedTasks :: "nat list"
  lastChunkIndex :: nat
  totalChunkSize :: int
  numberOfDownloadedChunks :: int
  numberOfDownloadingChunks :: int
  numberOfActiveChunks :: int
  inFlight :: "nat list"
  operatorState :: "'s operator_state"

text \<open>
  What does not change: the operator, the number of its threads, and which of the downloads under way is the
  next to arrive.  No index is ever in flight again once it has arrived, so that a choice that depends on the
  list alone covers every order of arrivals.
\<close>

record 's downloader_env =
  deOperator :: "'s operator_env"
  deThreads :: nat
  dePick :: "nat list \<Rightarrow> nat"

text \<open>A call ends the process or waits for a message that no one is going to send.\<close>

datatype stuck = Ended fatal | Blocked

definition CreateChunkDownloader :: "'s operator_state \<Rightarrow> 's chunk_downloader" where
  "CreateChunkDownloader s = \<lparr>taskList = [], completedTasks = [], lastChunkIndex = 0, totalChunkSize = 0,
     numberOfDownloadedChunks = 0, numberOfDownloadingChunks = 0, numberOfActiveChunks = 0, inFlight = [], operatorState = s\<rparr>"

section \<open>Adding files\<close>

text \<open>The state of the loop: the tasks, the last index of the snapshot that was added, and the total size.\<close>

definition add_chunk ::
  "snapshot \<Rightarrow> int \<Rightarrow> chunk_download_task list \<times> int \<times> int \<Rightarrow> stuck + chunk_download_task list \<times> int \<times> int" where
  "add_chunk snap i st =
     (case st of (tasks, lastIndex, sz) \<Rightarrow>
        if lastIndex \<noteq> i
        then (if i < 0 \<or> length (ChunkHashes snap) \<le> nat i \<or> length (ChunkLengths snap) \<le> nat i then Inl (Ended RuntimePanic)
              else Inr (tasks @ [\<lparr>dtChunk = None, dtIndex = length tasks, dtHash = ChunkHashes snap ! nat i,
                                  dtLength = ChunkLengths snap ! nat i, dtNeeded = False, dtDownloading = False\<rparr>],
                        i, sz + ChunkLengths snap ! nat i))
        else if tasks = [] then Inl (Ended RuntimePanic)
        else Inr (butlast tasks @ [(last tasks)\<lparr>dtNeeded := True\<rparr>], i, sz))"

fun add_chunks ::
  "snapshot \<Rightarrow> int list \<Rightarrow> chunk_download_task list \<times> int \<times> int \<Rightarrow> stuck + chunk_download_task list \<times> int \<times> int" where
  "add_chunks snap [] st = Inr st"
| "add_chunks snap (i # is) st = bindE (add_chunk snap i st) (add_chunks snap is)"

fun add_files ::
  "snapshot \<Rightarrow> entry list \<Rightarrow> chunk_download_task list \<times> int \<times> int
     \<Rightarrow> stuck + entry list \<times> chunk_download_task list \<times> int \<times> int" where
  "add_files snap [] st = Inr ([], st)"
| "add_files snap (e # es) st =
     (if Size e = 0 then bindE (add_files snap es st) (\<lambda>(es, st). Inr (e # es, st))
      else bindE (add_chunks snap [StartChunk e..EndChunk e] st) (\<lambda>st.
             let n = int (length (fst st));
                 e' = e\<lparr>StartChunk := n - (EndChunk e - StartChunk e) - 1, EndChunk := n - 1\<rparr>
             in bindE (add_files snap es st) (\<lambda>(es, st). Inr (e' # es, st))))"

definition downloader_AddFiles :: "snapshot \<Rightarrow> entry list \<Rightarrow> 's chunk_downloader \<Rightarrow> stuck + entry list \<times> 's chunk_downloader" where
  "downloader_AddFiles snap es d =
     bindE (add_files snap es ([], -1, 0)) (\<lambda>(es, tasks, _, sz). Inr (es, d\<lparr>taskList := tasks, totalChunkSize := sz\<rparr>))"

section \<open>Downloads\<close>

definition start_download :: "nat \<Rightarrow> 's chunk_downloader \<Rightarrow> 's chunk_downloader" where
  "start_download i d = d\<lparr>taskList := (taskList d)[i := (taskList d ! i)\<lparr>dtDownloading := True\<rparr>],
     numberOfDownloadingChunks := numberOfDownloadingChunks d + 1, numberOfActiveChunks := numberOfActiveChunks d + 1,
     inFlight := inFlight d @ [i]\<rparr>"

text \<open>\<^verbatim>\<open>Reclaim\<close>: the completed chunks before an index go back to the pool.\<close>

definition reclaim_chunk :: "nat \<Rightarrow> nat \<Rightarrow> 's chunk_downloader \<Rightarrow> 's chunk_downloader" where
  "reclaim_chunk index i d =
     (if i < index \<and> dtChunk (taskList d ! i) \<noteq> None
      then d\<lparr>taskList := (taskList d)[i := (taskList d ! i)\<lparr>dtChunk := None\<rparr>],
             completedTasks := removeAll i (completedTasks d), numberOfActiveChunks := numberOfActiveChunks d - 1\<rparr>
      else d)"

definition skipped_size :: "nat \<Rightarrow> nat \<Rightarrow> chunk_download_task list \<Rightarrow> int" where
  "skipped_size i j ts = sum_list (map (\<lambda>k. if dtDownloading (ts ! k) then 0 else dtLength (ts ! k)) [i..<j])"

definition Reclaim :: "nat \<Rightarrow> 's chunk_downloader \<Rightarrow> stuck + 's chunk_downloader" where
  "Reclaim index d =
     (if lastChunkIndex d \<ge> index then Inr d
      else let d = fold (reclaim_chunk index) (completedTasks d) d
           in if length (taskList d) < index then Inl (Ended RuntimePanic)
              else Inr (d\<lparr>totalChunkSize := totalChunkSize d - skipped_size (lastChunkIndex d) index (taskList d),
                          lastChunkIndex := index\<rparr>))"

text \<open>\<^verbatim>\<open>Prefetch\<close> starts the downloads that a file is known to need, up to the number of threads.\<close>

fun prefetch_chunks :: "nat \<Rightarrow> nat list \<Rightarrow> 's chunk_downloader \<Rightarrow> stuck + 's chunk_downloader" where
  "prefetch_chunks threads [] d = Inr d"
| "prefetch_chunks threads (i # is) d =
     (if length (taskList d) \<le> i then Inl (Ended RuntimePanic)
      else if dtNeeded (taskList d ! i) \<and> \<not> dtDownloading (taskList d ! i)
      then (if numberOfActiveChunks d \<ge> int threads then Inr d
            else prefetch_chunks threads is (start_download i d))
      else prefetch_chunks threads is d)"

definition file_chunks :: "entry \<Rightarrow> nat list" where
  "file_chunks e = map nat [StartChunk e..EndChunk e]"

definition Prefetch :: "'s downloader_env \<Rightarrow> entry \<Rightarrow> 's chunk_downloader \<Rightarrow> stuck + 's chunk_downloader" where
  "Prefetch env e d =
     (if StartChunk e < 0 \<and> StartChunk e \<le> EndChunk e then Inl (Ended RuntimePanic)
      else bindE (Reclaim (nat (StartChunk e)) d) (prefetch_chunks (deThreads env) (file_chunks e)))"

text \<open>The look-ahead of \<^verbatim>\<open>WaitForChunk\<close>, over the tasks after the one that is waited for.\<close>

fun look_ahead :: "nat \<Rightarrow> nat list \<Rightarrow> 's chunk_downloader \<Rightarrow> 's chunk_downloader" where
  "look_ahead threads [] d = d"
| "look_ahead threads (i # is) d =
     (if numberOfActiveChunks d \<ge> int threads \<or> \<not> dtNeeded (taskList d ! i) then d
      else look_ahead threads is (if dtDownloading (taskList d ! i) then d else start_download (dtIndex (taskList d ! i)) d))"

text \<open>
  A worker runs the download at position \<open>k\<close> of those under way, and the chunk it delivers is received.
  (\<^verbatim>\<open>completionFunc\<close> sends it on the channel; the last completion of the operator is this one.)
\<close>

definition receive_chunk :: "'s downloader_env \<Rightarrow> nat \<Rightarrow> 's chunk_downloader \<Rightarrow> stuck + 's chunk_downloader" where
  "receive_chunk env k d =
     (let i = inFlight d ! k; op = deOperator env in
      case Run op (download_task (lib op) (opConfig op) (dtHash (taskList d ! i)) (int i) False) (operatorState d) of
        (Some f, s) \<Rightarrow> Inl (Ended f)
      | (None, s) \<Rightarrow>
          (case drop (length (completions (operatorState d))) (completions s) of
             [Downloaded c j] \<Rightarrow>
               Inr (d\<lparr>completedTasks := completedTasks d @ [nat j],
                      taskList := (taskList d)[nat j := (taskList d ! nat j)\<lparr>dtChunk := Some c\<rparr>],
                      numberOfDownloadedChunks := numberOfDownloadedChunks d + 1,
                      numberOfDownloadingChunks := numberOfDownloadingChunks d - 1,
                      inFlight := take k (inFlight d) @ drop (Suc k) (inFlight d), operatorState := s\<rparr>)
           | _ \<Rightarrow> Inl Blocked))"

lemma receive_chunk_inFlight:
  "receive_chunk env k d = Inr d' \<Longrightarrow> inFlight d' = take k (inFlight d) @ drop (Suc k) (inFlight d)"
  by (auto simp: receive_chunk_def Let_def split: prod.splits option.splits list.splits completion.splits)

lemma receive_chunk_shorter:
  "receive_chunk env k d = Inr d' \<Longrightarrow> k < length (inFlight d) \<Longrightarrow> length (inFlight d) = Suc (length (inFlight d'))"
  by (simp add: receive_chunk_inFlight)

function await_chunk :: "'s downloader_env \<Rightarrow> nat \<Rightarrow> 's chunk_downloader \<Rightarrow> stuck + 's chunk_downloader" where
  "await_chunk env i d =
     (if i \<in> set (completedTasks d) then Inr d
      else if inFlight d = [] then Inl Blocked
      else case receive_chunk env (dePick env (inFlight d) mod length (inFlight d)) d of
             Inl r \<Rightarrow> Inl r
           | Inr d' \<Rightarrow> await_chunk env i d')"
  by pat_completeness auto
termination
  by (relation "measure (\<lambda>(env, i, d). length (inFlight d))")
    (auto dest: receive_chunk_shorter)

definition WaitForChunk :: "'s downloader_env \<Rightarrow> nat \<Rightarrow> 's chunk_downloader \<Rightarrow> stuck + chunk_obj \<times> 's chunk_downloader" where
  "WaitForChunk env i d =
     bindE (Reclaim i d) (\<lambda>d.
       if length (taskList d) \<le> i then Inl (Ended RuntimePanic)
       else let d = (if dtDownloading (taskList d ! i) then d else start_download i d);
                d = look_ahead (deThreads env) [Suc i..<length (taskList d)] d
            in bindE (await_chunk env i d) (\<lambda>d. Inr (the (dtChunk (taskList d ! i)), d)))"

declare await_chunk.simps [simp del]

section \<open>Invariant\<close>

text \<open>
  A chunk delivered for a hash has the id of the hash, or is marked broken, which needs the permission to fail.
\<close>

definition good_chunk :: "'s downloader_env \<Rightarrow> string \<Rightarrow> chunk_obj \<Rightarrow> bool" where
  "good_chunk env h c \<longleftrightarrow>
     (if isBroken c then allowFailures (deOperator env)
      else data_id (deOperator env) (GetBytes c) = GetChunkIDFromHash (lib (deOperator env)) (opConfig (deOperator env)) h)"

text \<open>A fatal error of one of the operator's tasks, which ends the process.\<close>

definition operator_fatal :: "'s downloader_env \<Rightarrow> fatal \<Rightarrow> bool" where
  "operator_fatal env f \<longleftrightarrow> (\<exists>t s. fst (Run (deOperator env) t s) = Some f)"

text \<open>A task at its index, and the downloader; every download started from index \<open>m\<close> on is under way or completed.\<close>

definition task_inv :: "'s downloader_env \<Rightarrow> nat \<Rightarrow> nat set \<Rightarrow> nat set \<Rightarrow> nat \<Rightarrow> chunk_download_task \<Rightarrow> bool" where
  "task_inv env m under_way completed i t \<longleftrightarrow> dtIndex t = i
     \<and> (dtChunk t \<noteq> None \<longleftrightarrow> i \<in> completed)
     \<and> (\<forall>c. dtChunk t = Some c \<longrightarrow> good_chunk env (dtHash t) c)
     \<and> (i \<in> under_way \<union> completed \<longrightarrow> dtDownloading t)
     \<and> (m \<le> i \<and> dtDownloading t \<longrightarrow> i \<in> under_way \<union> completed)"

definition downloader_inv :: "'s downloader_env \<Rightarrow> nat \<Rightarrow> 's chunk_downloader \<Rightarrow> bool" where
  "downloader_inv env m d \<longleftrightarrow>
     distinct (inFlight d @ completedTasks d) \<and> set (inFlight d @ completedTasks d) \<subseteq> {..<length (taskList d)}
     \<and> numberOfDownloadingChunks d = int (length (inFlight d))
     \<and> numberOfActiveChunks d = int (length (inFlight d @ completedTasks d))
     \<and> (\<forall>i < length (taskList d). task_inv env m (set (inFlight d)) (set (completedTasks d)) i (taskList d ! i))"

text \<open>What the operations do not change: the hashes and lengths of the tasks.\<close>

definition planned :: "'s chunk_downloader \<Rightarrow> (string \<times> int) list" where
  "planned d = map (\<lambda>t. (dtHash t, dtLength t)) (taskList d)"

lemma planned_length: "planned d' = planned d \<Longrightarrow> length (taskList d') = length (taskList d)"
  unfolding planned_def by (metis length_map)

lemma planned_nth:
  assumes "planned d' = planned d" and "i < length (taskList d)"
  shows "dtHash (taskList d' ! i) = dtHash (taskList d ! i) \<and> dtLength (taskList d' ! i) = dtLength (taskList d ! i)"
proof -
  have "planned d' ! i = planned d ! i" using assms(1) by simp
  then show ?thesis using assms(2) planned_length [OF assms(1)] by (simp add: planned_def)
qed

lemma downloader_inv_mono: "downloader_inv env m d \<Longrightarrow> m \<le> n \<Longrightarrow> downloader_inv env n d"
  by (auto simp: downloader_inv_def task_inv_def)

lemma task_inv_cong:
  "\<lbrakk> i \<in> F' \<longleftrightarrow> i \<in> F; i \<in> C' \<longleftrightarrow> i \<in> C \<rbrakk> \<Longrightarrow> task_inv env m F' C' i t = task_inv env m F C i t"
  by (simp add: task_inv_def)

lemma downloader_inv_cong:
  "\<lbrakk> taskList d' = taskList d; completedTasks d' = completedTasks d; inFlight d' = inFlight d;
     numberOfDownloadingChunks d' = numberOfDownloadingChunks d; numberOfActiveChunks d' = numberOfActiveChunks d \<rbrakk>
   \<Longrightarrow> downloader_inv env m d' = downloader_inv env m d"
  by (simp add: downloader_inv_def)

lemma start_download_fields [simp]:
  "completedTasks (start_download i d) = completedTasks d" "lastChunkIndex (start_download i d) = lastChunkIndex d"
  "inFlight (start_download i d) = inFlight d @ [i]" "operatorState (start_download i d) = operatorState d"
  "length (taskList (start_download i d)) = length (taskList d)"
  "numberOfActiveChunks (start_download i d) = numberOfActiveChunks d + 1"
  by (simp_all add: start_download_def)

lemma start_download_planned [simp]: "planned (start_download i d) = planned d"
  by (cases "i < length (taskList d)")
    (auto simp: planned_def start_download_def map_update list_update_beyond intro!: nth_equalityI simp: nth_list_update)

lemma start_download_inv:
  assumes "downloader_inv env m d" and "i < length (taskList d)" and "\<not> dtDownloading (taskList d ! i)"
  shows "downloader_inv env m (start_download i d)"
proof -
  have t: "task_inv env m (set (inFlight d)) (set (completedTasks d)) j (taskList d ! j)" if "j < length (taskList d)" for j
    using assms(1) that by (simp add: downloader_inv_def)
  have new: "i \<notin> set (inFlight d) \<union> set (completedTasks d)" using t [OF assms(2)] assms(3) by (auto simp: task_inv_def)
  have "task_inv env m (set (inFlight d @ [i])) (set (completedTasks d)) j (taskList (start_download i d) ! j)"
    if "j < length (taskList d)" for j
  proof (cases "j = i")
    case True
    then show ?thesis using t [OF that] that by (auto simp: task_inv_def start_download_def)
  next
    case False
    then show ?thesis using t [OF that] by (auto simp: start_download_def task_inv_def)
  qed
  then show ?thesis using assms(1,2) new by (auto simp: downloader_inv_def start_download_def)
qed

lemma removed_nth:
  assumes "k < length xs"
  shows "set xs = insert (xs ! k) (set (take k xs @ drop (Suc k) xs))" and "distinct xs \<Longrightarrow> distinct (xs ! k # take k xs @ drop (Suc k) xs)"
    and "length xs = Suc (length (take k xs @ drop (Suc k) xs))"
proof -
  have "mset xs = add_mset (xs ! k) (mset (take k xs @ drop (Suc k) xs))"
    using arg_cong [OF id_take_nth_drop [OF assms], of mset] by simp
  then have m: "mset xs = mset (xs ! k # take k xs @ drop (Suc k) xs)" by simp
  show "set xs = insert (xs ! k) (set (take k xs @ drop (Suc k) xs))" using mset_eq_setD [OF m] by simp
  show "distinct xs \<Longrightarrow> distinct (xs ! k # take k xs @ drop (Suc k) xs)" using mset_eq_imp_distinct_iff [OF m] by blast
  show "length xs = Suc (length (take k xs @ drop (Suc k) xs))" using mset_eq_length [OF m] by simp
qed

text \<open>Receiving: the chunk is recorded under its index.\<close>

lemma receive_chunk_inv:
  assumes inv: "downloader_inv env m d" and raw: "\<not> rawData (deOperator env)" and k: "k < length (inFlight d)"
  shows "(\<exists>f. receive_chunk env k d = Inl (Ended f) \<and> operator_fatal env f)
    \<or> (\<exists>d'. receive_chunk env k d = Inr d' \<and> downloader_inv env m d' \<and> planned d' = planned d \<and> lastChunkIndex d' = lastChunkIndex d
        \<and> set (completedTasks d') = insert (inFlight d ! k) (set (completedTasks d)))"
proof -
  define i where "i = inFlight d ! k"
  define op where "op = deOperator env"
  define t where "t = download_task (lib op) (opConfig op) (dtHash (taskList d ! i)) (int i) False"
  have i: "i \<in> set (inFlight d)" using k by (simp add: i_def)
  have run: "Run op t s = DownloadChunk op t s" for s by (simp add: Run_def t_def download_task_def)
  obtain r s where rs: "DownloadChunk op t (operatorState d) = (r, s)" by fastforce
  show ?thesis
  proof (cases r)
    case (Some f)
    then have "receive_chunk env k d = Inl (Ended f)"
      using rs run by (simp add: receive_chunk_def Let_def i_def [symmetric] op_def [symmetric] t_def [symmetric])
    moreover have "operator_fatal env f"
      unfolding operator_fatal_def op_def [symmetric] using rs run Some by (metis fst_conv)
    ultimately show ?thesis by blast
  next
    case None
    obtain c where c: "completions s = completions (operatorState d) @ [Downloaded c (int i)]" and good: "good_chunk env (dtHash (taskList d ! i)) c"
      using DownloadChunk_delivers [of op t "operatorState d" s] rs None raw
      unfolding op_def [symmetric] good_chunk_def by (auto simp: t_def download_task_def)
    define d' where "d' = d\<lparr>completedTasks := completedTasks d @ [i], taskList := (taskList d)[i := (taskList d ! i)\<lparr>dtChunk := Some c\<rparr>],
        numberOfDownloadedChunks := numberOfDownloadedChunks d + 1, numberOfDownloadingChunks := numberOfDownloadingChunks d - 1,
        inFlight := take k (inFlight d) @ drop (Suc k) (inFlight d), operatorState := s\<rparr>"
    have eq: "receive_chunk env k d = Inr d'"
      using rs None c run by (simp add: receive_chunk_def Let_def i_def [symmetric] op_def [symmetric] t_def [symmetric] d'_def)
    define F where "F = take k (inFlight d) @ drop (Suc k) (inFlight d)"
    note F = removed_nth [OF k, folded i_def F_def]
    have "distinct (inFlight d @ completedTasks d)" using inv by (simp add: downloader_inv_def)
    then have Fd: "distinct (F @ completedTasks d @ [i])" using F(1,2) by auto
    have len: "i < length (taskList d)" using inv i by (auto simp: downloader_inv_def)
    have ti: "task_inv env m (set (inFlight d)) (set (completedTasks d)) j (taskList d ! j)" if "j < length (taskList d)" for j
      using inv that by (simp add: downloader_inv_def)
    have "task_inv env m (set F) (set (completedTasks d @ [i])) j (taskList d' ! j)" if "j < length (taskList d)" for j
    proof (cases "j = i")
      case True
      then show ?thesis using ti [OF len] i good len Fd by (auto simp: task_inv_def d'_def)
    next
      case False
      then show ?thesis using ti [OF that] F(1) by (auto simp: task_inv_def d'_def)
    qed
    moreover have "set F \<subseteq> {..<length (taskList d)}" "set (completedTasks d) \<subseteq> {..<length (taskList d)}"
      using inv F(1) by (auto simp: downloader_inv_def)
    ultimately have "downloader_inv env m d'"
      using inv len Fd F(3) by (simp add: downloader_inv_def d'_def F_def [symmetric])
    moreover have "planned d' = planned d"
      using len by (auto simp: planned_def d'_def map_update intro!: nth_equalityI simp: nth_list_update)
    ultimately show ?thesis using eq by (auto simp: d'_def i_def)
  qed
qed

lemma await_chunk_inv:
  assumes "downloader_inv env m d" and "\<not> rawData (deOperator env)" and "i \<in> set (inFlight d) \<union> set (completedTasks d)"
  shows "(\<exists>f. await_chunk env i d = Inl (Ended f) \<and> operator_fatal env f)
    \<or> (\<exists>d'. await_chunk env i d = Inr d' \<and> downloader_inv env m d' \<and> planned d' = planned d \<and> lastChunkIndex d' = lastChunkIndex d
        \<and> i \<in> set (completedTasks d') \<and> length (inFlight d') \<le> length (inFlight d) - (if i \<in> set (completedTasks d) then 0 else 1))"
  using assms
proof (induction "length (inFlight d)" arbitrary: d rule: less_induct)
  case less
  show ?case
  proof (cases "i \<in> set (completedTasks d)")
    case True
    then show ?thesis using less.prems by (simp add: await_chunk.simps)
  next
    case False
    then have ne: "inFlight d \<noteq> []" using less.prems(3) by auto
    define k where "k = dePick env (inFlight d) mod length (inFlight d)"
    have k: "k < length (inFlight d)" using ne by (simp add: k_def)
    have step: "await_chunk env i d = (case receive_chunk env k d of Inl r \<Rightarrow> Inl r | Inr d' \<Rightarrow> await_chunk env i d')"
      using False ne by (subst await_chunk.simps) (simp add: k_def)
    from receive_chunk_inv [OF less.prems(1,2) k] show ?thesis
    proof (elim disjE exE conjE)
      fix d1 assume r: "receive_chunk env k d = Inr d1" and d1: "downloader_inv env m d1" "planned d1 = planned d" "lastChunkIndex d1 = lastChunkIndex d"
        and cs: "set (completedTasks d1) = insert (inFlight d ! k) (set (completedTasks d))"
      have sh: "length (inFlight d) = Suc (length (inFlight d1))" by (rule receive_chunk_shorter [OF r k])
      have "i \<in> set (inFlight d1) \<union> set (completedTasks d1)"
        using less.prems(3) cs removed_nth(1) [OF k] by (auto simp: receive_chunk_inFlight [OF r])
      from less.hyps [OF _ d1(1) less.prems(2) this] show ?thesis using r step sh d1 by auto
    qed (simp add: step)
  qed
qed

text \<open>Reclaiming keeps what is under way and the tasks; it only moves the bound.\<close>

lemma reclaim_chunk_inv:
  assumes "downloader_inv env m d" and "index \<le> m" and "i < length (taskList d)"
  shows "downloader_inv env m (reclaim_chunk index i d) \<and> planned (reclaim_chunk index i d) = planned d
    \<and> inFlight (reclaim_chunk index i d) = inFlight d \<and> lastChunkIndex (reclaim_chunk index i d) = lastChunkIndex d
    \<and> totalChunkSize (reclaim_chunk index i d) = totalChunkSize d"
proof (cases "i < index \<and> dtChunk (taskList d ! i) \<noteq> None")
  case True
  define d' where "d' = reclaim_chunk index i d"
  have d': "taskList d' = (taskList d)[i := (taskList d ! i)\<lparr>dtChunk := None\<rparr>]" "completedTasks d' = removeAll i (completedTasks d)"
    "numberOfActiveChunks d' = numberOfActiveChunks d - 1" "inFlight d' = inFlight d" "lastChunkIndex d' = lastChunkIndex d"
    "numberOfDownloadingChunks d' = numberOfDownloadingChunks d" "totalChunkSize d' = totalChunkSize d"
    using True by (simp_all add: d'_def reclaim_chunk_def)
  have t: "task_inv env m (set (inFlight d)) (set (completedTasks d)) j (taskList d ! j)" if "j < length (taskList d)" for j
    using assms(1) that by (simp add: downloader_inv_def)
  have i: "i \<in> set (completedTasks d)" using t [OF assms(3)] True by (simp add: task_inv_def)
  have dist: "distinct (inFlight d @ completedTasks d)" using assms(1) by (simp add: downloader_inv_def)
  have "task_inv env m (set (inFlight d)) (set (removeAll i (completedTasks d))) j (taskList d' ! j)" if "j < length (taskList d)" for j
  proof (cases "j = i")
    case True
    then show ?thesis using t [OF that] i that assms(2) \<open>i < index \<and> _\<close> dist by (auto simp: task_inv_def d'(1))
  next
    case False
    then show ?thesis using t [OF that] by (auto simp: task_inv_def d'(1))
  qed
  moreover have "length (completedTasks d) = Suc (length (removeAll i (completedTasks d)))"
    using i dist by (simp add: distinct_remove1_removeAll [symmetric] length_remove1) (metis Suc_pred length_pos_if_in_set)
  ultimately have "downloader_inv env m d'"
    using assms(1) dist by (auto simp: downloader_inv_def d' distinct_removeAll)
  moreover have "planned d' = planned d" using assms(3) by (auto simp: planned_def d' map_update intro!: nth_equalityI simp: nth_list_update)
  ultimately show ?thesis using d' by (simp add: d'_def)
qed (use assms in \<open>auto simp: reclaim_chunk_def\<close>)

lemma fold_reclaim_inv:
  assumes "downloader_inv env m d" and "index \<le> m" and "set is \<subseteq> {..<length (taskList d)}"
  shows "downloader_inv env m (fold (reclaim_chunk index) is d) \<and> planned (fold (reclaim_chunk index) is d) = planned d
    \<and> inFlight (fold (reclaim_chunk index) is d) = inFlight d \<and> lastChunkIndex (fold (reclaim_chunk index) is d) = lastChunkIndex d
    \<and> totalChunkSize (fold (reclaim_chunk index) is d) = totalChunkSize d"
  using assms
proof (induction "is" arbitrary: d)
  case (Cons i js)
  have i: "i < length (taskList d)" using Cons.prems(3) by simp
  note r = reclaim_chunk_inv [OF Cons.prems(1,2) i]
  have "set js \<subseteq> {..<length (taskList (reclaim_chunk index i d))}" using Cons.prems(3) planned_length [of "reclaim_chunk index i d" d] r by simp
  from Cons.IH [OF _ Cons.prems(2) this] r show ?case by simp
qed simp

text \<open>Between two calls no more downloads are under way than there are threads, so that none of them waits for the queue.\<close>

definition ready :: "'s downloader_env \<Rightarrow> 's chunk_downloader \<Rightarrow> bool" where
  "ready env d \<longleftrightarrow> downloader_inv env (lastChunkIndex d) d \<and> length (inFlight d) \<le> deThreads env \<and> lastChunkIndex d \<le> length (taskList d)"

lemma Reclaim_ready:
  assumes "ready env d" and "index \<le> length (taskList d)"
  obtains d' where "Reclaim index d = Inr d'" and "ready env d'" and "planned d' = planned d" and "lastChunkIndex d' = max (lastChunkIndex d) index"
proof (cases "lastChunkIndex d \<ge> index")
  case True
  then show ?thesis using that [of d] assms by (simp add: Reclaim_def)
next
  case False
  define d1 where "d1 = fold (reclaim_chunk index) (completedTasks d) d"
  have inv0: "downloader_inv env (lastChunkIndex d) d" and fl: "length (inFlight d) \<le> deThreads env" using assms(1) by (simp_all add: ready_def)
  have inv: "downloader_inv env index d" using downloader_inv_mono [OF inv0, of index] False by simp
  then have c: "set (completedTasks d) \<subseteq> {..<length (taskList d)}" by (simp add: downloader_inv_def)
  note d1 = fold_reclaim_inv [OF inv order_refl c, folded d1_def]
  have len: "length (taskList d1) = length (taskList d)" using planned_length d1 by blast
  define d2 where "d2 = d1\<lparr>totalChunkSize := totalChunkSize d1 - skipped_size (lastChunkIndex d1) index (taskList d1), lastChunkIndex := index\<rparr>"
  have "Reclaim index d = Inr d2" using False len assms(2) by (simp add: Reclaim_def d2_def d1_def Let_def)
  moreover have "downloader_inv env index d2"
    using d1 downloader_inv_cong [of d2 d1 env index] by (simp add: d2_def)
  moreover have "planned d2 = planned d" using d1 by (simp add: d2_def planned_def)
  ultimately show ?thesis using that [of d2] False assms(2) len fl d1 by (auto simp: ready_def d2_def)
qed

text \<open>Starting downloads while there are fewer than threads.\<close>

lemma active_bounds: "downloader_inv env m d \<Longrightarrow> int (length (inFlight d)) \<le> numberOfActiveChunks d"
  by (simp add: downloader_inv_def)

lemma prefetch_chunks_ready:
  assumes "ready env d" and "\<forall>i \<in> set is. i < length (taskList d)"
  obtains d' where "prefetch_chunks (deThreads env) is d = Inr d'" and "ready env d'" and "planned d' = planned d" and "lastChunkIndex d' = lastChunkIndex d"
proof -
  have "\<exists>d'. prefetch_chunks (deThreads env) is d = Inr d' \<and> ready env d' \<and> planned d' = planned d \<and> lastChunkIndex d' = lastChunkIndex d"
    using assms
  proof (induction "is" arbitrary: d)
    case (Cons i js)
    show ?case
    proof (cases "dtNeeded (taskList d ! i) \<and> \<not> dtDownloading (taskList d ! i) \<and> numberOfActiveChunks d < int (deThreads env)")
      case True
      have inv: "downloader_inv env (lastChunkIndex d) d" using Cons.prems(1) by (simp add: ready_def)
      have "ready env (start_download i d)"
        using Cons.prems True start_download_inv [OF inv, of i] active_bounds [OF inv] by (simp add: ready_def)
      from Cons.IH [OF this] show ?thesis using True Cons.prems(2) by auto
    next
      case False
      then show ?thesis using Cons by auto
    qed
  qed simp
  then show ?thesis using that by blast
qed

lemma look_ahead_inv:
  assumes "downloader_inv env m d" and "\<forall>i \<in> set is. i < length (taskList d)"
  shows "downloader_inv env m (look_ahead n is d) \<and> planned (look_ahead n is d) = planned d \<and> lastChunkIndex (look_ahead n is d) = lastChunkIndex d
    \<and> set (inFlight d) \<subseteq> set (inFlight (look_ahead n is d)) \<and> completedTasks (look_ahead n is d) = completedTasks d
    \<and> length (inFlight (look_ahead n is d)) \<le> max n (length (inFlight d))"
  using assms
proof (induction "is" arbitrary: d)
  case (Cons i js)
  have ti: "dtIndex (taskList d ! i) = i" using Cons.prems by (simp add: downloader_inv_def task_inv_def)
  show ?case
  proof (cases "numberOfActiveChunks d < int n \<and> dtNeeded (taskList d ! i) \<and> \<not> dtDownloading (taskList d ! i)")
    case True
    have "downloader_inv env m (start_download i d)" using Cons.prems True by (intro start_download_inv) simp_all
    from Cons.IH [OF this] show ?thesis using True Cons.prems active_bounds [OF Cons.prems(1)] ti by auto
  next
    case False
    then show ?thesis using Cons.IH [OF Cons.prems(1)] Cons.prems ti by auto
  qed
qed simp

lemma Prefetch_ready:
  assumes "ready env d" and "0 \<le> StartChunk e" and "StartChunk e \<le> EndChunk e" and "EndChunk e < int (length (taskList d))"
  obtains d' where "Prefetch env e d = Inr d'" and "ready env d'" and "planned d' = planned d"
    and "lastChunkIndex d' = max (lastChunkIndex d) (nat (StartChunk e))"
proof -
  obtain d1 where d1: "Reclaim (nat (StartChunk e)) d = Inr d1" "ready env d1" "planned d1 = planned d"
      "lastChunkIndex d1 = max (lastChunkIndex d) (nat (StartChunk e))"
    by (rule Reclaim_ready [OF assms(1), of "nat (StartChunk e)"]) (use assms(2-4) in auto)
  have "\<forall>i \<in> set (file_chunks e). i < length (taskList d1)"
    using planned_length [OF d1(3)] assms(2,4) by (auto simp: file_chunks_def)
  then obtain d2 where "prefetch_chunks (deThreads env) (file_chunks e) d1 = Inr d2" "ready env d2" "planned d2 = planned d1"
      "lastChunkIndex d2 = lastChunkIndex d1"
    by (rule prefetch_chunks_ready [OF d1(2)])
  then show ?thesis using that [of d2] d1 assms(2) by (simp add: Prefetch_def)
qed

lemma not_completed:
  "downloader_inv env m d \<Longrightarrow> i < length (taskList d) \<Longrightarrow> \<not> dtDownloading (taskList d ! i) \<Longrightarrow> i \<notin> set (completedTasks d)"
  unfolding downloader_inv_def task_inv_def by blast

lemma started_under_way:
  "downloader_inv env m d \<Longrightarrow> i < length (taskList d) \<Longrightarrow> m \<le> i \<Longrightarrow> dtDownloading (taskList d ! i)
    \<Longrightarrow> i \<in> set (inFlight d) \<union> set (completedTasks d)"
  unfolding downloader_inv_def task_inv_def by blast

lemma WaitForChunk_ready:
  assumes "ready env d" and "\<not> rawData (deOperator env)" and "lastChunkIndex d \<le> i" and "i < length (taskList d)"
  shows "(\<exists>f. WaitForChunk env i d = Inl (Ended f) \<and> operator_fatal env f)
    \<or> (\<exists>c d'. WaitForChunk env i d = Inr (c, d') \<and> good_chunk env (dtHash (taskList d ! i)) c
        \<and> ready env d' \<and> planned d' = planned d \<and> lastChunkIndex d' = i)"
proof -
  let ?n = "deThreads env"
  obtain d1 where d1: "Reclaim i d = Inr d1" "ready env d1" "planned d1 = planned d" "lastChunkIndex d1 = i"
    by (rule Reclaim_ready [OF assms(1), of i]) (use assms(3,4) in auto)
  have len: "length (taskList d1) = length (taskList d)" using planned_length [OF d1(3)] .
  have i: "i < length (taskList d1)" using assms(4) len by simp
  have inv: "downloader_inv env i d1" using d1(2,4) by (simp add: ready_def)
  have fl: "length (inFlight d1) \<le> ?n" using d1(2) by (simp add: ready_def)
  define d2 where "d2 = (if dtDownloading (taskList d1 ! i) then d1 else start_download i d1)"
  have d2: "downloader_inv env i d2" "planned d2 = planned d1" "lastChunkIndex d2 = i" "length (taskList d2) = length (taskList d1)"
    "length (inFlight d2) \<le> ?n + (if i \<in> set (completedTasks d2) then 0 else 1)"
    using inv fl d1(4) i start_download_inv [OF inv i] not_completed [OF inv i] by (simp_all add: d2_def)
  have under: "i \<in> set (inFlight d2) \<union> set (completedTasks d2)"
    using started_under_way [OF inv i] by (auto simp: d2_def)
  have short: "length (inFlight d2) \<le> ?n" if "i \<in> set (completedTasks d2)"
    using d2(5) that by simp
  define d3 where "d3 = look_ahead ?n [Suc i..<length (taskList d2)] d2"
  have d3: "downloader_inv env i d3" "planned d3 = planned d2" "lastChunkIndex d3 = i" "set (inFlight d2) \<subseteq> set (inFlight d3)"
      "completedTasks d3 = completedTasks d2" "length (inFlight d3) \<le> max ?n (length (inFlight d2))"
    using look_ahead_inv [OF d2(1), of "[Suc i..<length (taskList d2)]" ?n] d2(3) by (simp_all add: d3_def)
  have w: "WaitForChunk env i d = bindE (await_chunk env i d3) (\<lambda>d. Inr (the (dtChunk (taskList d ! i)), d))"
    using d1(1) i by (simp add: WaitForChunk_def d3_def d2_def Let_def)
  have "i \<in> set (inFlight d3) \<union> set (completedTasks d3)" using under d3(4,5) by auto
  from await_chunk_inv [OF d3(1) assms(2) this] show ?thesis
  proof (elim disjE exE conjE)
    fix d4 assume a: "await_chunk env i d3 = Inr d4" and d4: "downloader_inv env i d4" "planned d4 = planned d3" "lastChunkIndex d4 = lastChunkIndex d3"
      "i \<in> set (completedTasks d4)" "length (inFlight d4) \<le> length (inFlight d3) - (if i \<in> set (completedTasks d3) then 0 else 1)"
    have pl: "planned d4 = planned d" using d4(2) d3(2) d2(2) d1(3) by simp
    have i4: "i < length (taskList d4)" using planned_length [OF pl] assms(4) by simp
    have "task_inv env i (set (inFlight d4)) (set (completedTasks d4)) i (taskList d4 ! i)" using d4(1) i4 by (simp add: downloader_inv_def)
    then obtain c where c: "dtChunk (taskList d4 ! i) = Some c" "good_chunk env (dtHash (taskList d ! i)) c"
      using d4(4) planned_nth [OF pl assms(4)] by (auto simp: task_inv_def)
    have "length (inFlight d4) \<le> ?n"
      using d4(5) d3(5,6) d2(5) short by (auto split: if_splits)
    then have "ready env d4" using d4(1,3) d3(3) i4 by (simp add: ready_def)
    then show ?thesis using w a c pl d4(3) d3(3) by simp
  qed (simp add: w)
qed


section \<open>The plan\<close>

text \<open>
  A planned entry occupies consecutive tasks, which have the hashes and lengths of the chunks it has in the snapshot.
  An empty file is left as it is.
\<close>

definition row :: "chunk_download_task \<Rightarrow> string \<times> int" where
  "row t = (dtHash t, dtLength t)"

definition chunk_row :: "snapshot \<Rightarrow> int \<Rightarrow> string \<times> int" where
  "chunk_row snap i = (ChunkHashes snap ! nat i, ChunkLengths snap ! nat i)"

definition planned_entry :: "snapshot \<Rightarrow> (string \<times> int) list \<Rightarrow> entry \<Rightarrow> entry \<Rightarrow> bool" where
  "planned_entry snap rows e e' \<longleftrightarrow>
     (if Size e = 0 then e' = e
      else e' = e\<lparr>StartChunk := StartChunk e', EndChunk := EndChunk e'\<rparr>
        \<and> 0 \<le> StartChunk e' \<and> StartChunk e' \<le> EndChunk e' \<and> EndChunk e' < int (length rows)
        \<and> map (\<lambda>i. rows ! nat i) [StartChunk e'..EndChunk e'] = map (chunk_row snap) [StartChunk e..EndChunk e])"

text \<open>Nothing has been downloaded when the plan is made.\<close>

definition fresh_tasks :: "chunk_download_task list \<Rightarrow> bool" where
  "fresh_tasks ts \<longleftrightarrow> (\<forall>i < length ts. dtIndex (ts ! i) = i \<and> dtChunk (ts ! i) = None \<and> \<not> dtDownloading (ts ! i))"

definition plan_inv :: "snapshot \<Rightarrow> chunk_download_task list \<times> int \<times> int \<Rightarrow> bool" where
  "plan_inv snap st = (case st of (ts, lastIndex, sz) \<Rightarrow>
     fresh_tasks ts \<and> (if ts = [] then lastIndex = -1 else row (last ts) = chunk_row snap lastIndex))"

lemma map_row_last: "ts \<noteq> [] \<Longrightarrow> map row (butlast ts @ [(last ts)\<lparr>dtNeeded := True\<rparr>]) = map row ts"
proof -
  assume "ts \<noteq> []"
  then have "map row (butlast ts) @ map row [last ts] = map row ts" by (metis append_butlast_last_id map_append)
  then show ?thesis by (simp add: row_def)
qed

lemma fresh_tasks_snoc:
  "fresh_tasks (ts @ [t]) \<longleftrightarrow> fresh_tasks ts \<and> dtIndex t = length ts \<and> dtChunk t = None \<and> \<not> dtDownloading t"
  by (auto simp: fresh_tasks_def nth_append less_Suc_eq)

lemma fresh_tasks_last:
  assumes "fresh_tasks ts" and "ts \<noteq> []"
  shows "fresh_tasks (butlast ts @ [(last ts)\<lparr>dtNeeded := True\<rparr>])"
proof -
  have "fresh_tasks (butlast ts @ [last ts])" using assms by simp
  then show ?thesis by (simp only: fresh_tasks_snoc) simp
qed

lemma add_chunk_plan:
  assumes "plan_inv snap (ts, li, sz)" and "0 \<le> i" and "i < int (length (ChunkHashes snap))" and "length (ChunkLengths snap) = length (ChunkHashes snap)"
  obtains ts' sz' where "add_chunk snap i (ts, li, sz) = Inr (ts', i, sz')" and "plan_inv snap (ts', i, sz')" and "ts' \<noteq> []"
    and "map row ts' = map row ts @ (if li = i then [] else [chunk_row snap i])"
proof (cases "li = i")
  case True
  then have "ts \<noteq> []" using assms(1,2) by (auto simp: plan_inv_def split: if_splits)
  then show ?thesis
    using that [of "butlast ts @ [(last ts)\<lparr>dtNeeded := True\<rparr>]" sz] True assms(1) fresh_tasks_last [of ts] map_row_last [of ts]
    by (simp add: add_chunk_def plan_inv_def row_def)
next
  case False
  then show ?thesis
    using that [of "ts @ [\<lparr>dtChunk = None, dtIndex = length ts, dtHash = ChunkHashes snap ! nat i, dtLength = ChunkLengths snap ! nat i,
        dtNeeded = False, dtDownloading = False\<rparr>]" "sz + ChunkLengths snap ! nat i"] assms nat_less_iff [of i "length (ChunkHashes snap)"]
    by (simp add: add_chunk_def plan_inv_def fresh_tasks_snoc row_def chunk_row_def)
qed

lemma add_chunks_plan:
  assumes "plan_inv snap (ts, li, sz)" and "0 \<le> a" and "a \<le> b" and "b < int (length (ChunkHashes snap))"
    and "length (ChunkLengths snap) = length (ChunkHashes snap)"
  shows "\<exists>ts' sz'. add_chunks snap [a..b] (ts, li, sz) = Inr (ts', b, sz') \<and> plan_inv snap (ts', b, sz')
    \<and> map row ts' = map row ts @ map (chunk_row snap) (if li = a then [a + 1..b] else [a..b])"
  using assms
proof (induction "nat (b - a)" arbitrary: a ts li sz)
  case 0
  then have "[a..b] = [a]" by simp
  obtain ts' sz' where "add_chunk snap a (ts, li, sz) = Inr (ts', a, sz')" "plan_inv snap (ts', a, sz')"
      "map row ts' = map row ts @ (if li = a then [] else [chunk_row snap a])"
    by (rule add_chunk_plan [OF "0.prems"(1,2) _ "0.prems"(5)]) (use "0.prems"(3,4) in simp_all)
  moreover have "a = b" using 0 by simp
  ultimately show ?case by auto
next
  case (Suc n)
  have ab: "a < b" using Suc.hyps(2) Suc.prems(3) by linarith
  obtain ts1 sz1 where s1: "add_chunk snap a (ts, li, sz) = Inr (ts1, a, sz1)" "plan_inv snap (ts1, a, sz1)"
      "map row ts1 = map row ts @ (if li = a then [] else [chunk_row snap a])"
    by (rule add_chunk_plan [OF Suc.prems(1,2) _ Suc.prems(5)]) (use ab Suc.prems(4) in simp_all)
  have n: "n = nat (b - (a + 1))" using Suc.hyps(2) by linarith
  from Suc.hyps(1) [OF n s1(2) _ _ Suc.prems(4,5)] ab Suc.prems(2)
  obtain ts' sz' where "add_chunks snap [a + 1..b] (ts1, a, sz1) = Inr (ts', b, sz')" "plan_inv snap (ts', b, sz')"
      "map row ts' = map row ts1 @ map (chunk_row snap) [a + 1..b]" by auto
  then show ?case using s1 ab by (simp add: upto_rec1)
qed

lemma planned_entry_extend:
  assumes "planned_entry snap rows e e'"
  shows "planned_entry snap (rows @ xs) e e'"
proof -
  have eq: "map (\<lambda>i. (rows @ xs) ! nat i) [StartChunk e'..EndChunk e'] = map (\<lambda>i. rows ! nat i) [StartChunk e'..EndChunk e']"
    if "0 \<le> StartChunk e'" "EndChunk e' < int (length rows)"
    using that by (auto simp: nth_append nat_less_iff)
  show ?thesis using assms by (cases "Size e = 0") (simp_all add: planned_entry_def eq del: map_eq_conv)
qed

lemma last_rows:
  assumes "int (length xs) = b - a + 1" and "a \<le> b"
  shows "map (\<lambda>i. (rows @ xs) ! nat i) [int (length rows)..int (length rows) + (b - a)] = xs"
proof (rule nth_equalityI)
  fix k assume "k < length (map (\<lambda>i. (rows @ xs) ! nat i) [int (length rows)..int (length rows) + (b - a)])"
  then have "int (length rows) + int k \<le> int (length rows) + (b - a)" by simp
  then show "map (\<lambda>i. (rows @ xs) ! nat i) [int (length rows)..int (length rows) + (b - a)] ! k = xs ! k"
    by (simp add: nth_upto nth_append nat_add_distrib)
qed (use assms in simp)

text \<open>Adding one file that is not empty: its rows are at the end of the list.\<close>

lemma add_file_plan:
  assumes "plan_inv snap (ts, li, sz)" and "0 \<le> StartChunk e" and "StartChunk e \<le> EndChunk e" and "EndChunk e < int (length (ChunkHashes snap))"
    and "length (ChunkLengths snap) = length (ChunkHashes snap)" and "Size e \<noteq> 0"
  obtains ts' sz' xs where "add_chunks snap [StartChunk e..EndChunk e] (ts, li, sz) = Inr (ts', EndChunk e, sz')"
    and "plan_inv snap (ts', EndChunk e, sz')" and "map row ts' = map row ts @ xs"
    and "int (length ts) - 1 \<le> int (length ts') - (EndChunk e - StartChunk e) - 1"
    and "planned_entry snap (map row ts') e
          (e\<lparr>StartChunk := int (length ts') - (EndChunk e - StartChunk e) - 1, EndChunk := int (length ts') - 1\<rparr>)"
proof -
  let ?a = "StartChunk e" and ?b = "EndChunk e"
  obtain ts' sz' where r: "add_chunks snap [?a..?b] (ts, li, sz) = Inr (ts', ?b, sz')" "plan_inv snap (ts', ?b, sz')"
    and rows: "map row ts' = map row ts @ map (chunk_row snap) (if li = ?a then [?a + 1..?b] else [?a..?b])"
    using add_chunks_plan [OF assms(1-5)] by blast
  define pre where "pre = (if li = ?a then map row (butlast ts) else map row ts)"
  have "map row ts' = pre @ map (chunk_row snap) [?a..?b]"
  proof (cases "li = ?a")
    case True
    then have ne: "ts \<noteq> []" and l: "row (last ts) = chunk_row snap ?a" using assms(1,2) by (auto simp: plan_inv_def split: if_splits)
    have "map row ts = map row (butlast ts) @ [row (last ts)]"
      using ne by (metis append_butlast_last_id list.simps(8,9) map_append)
    then show ?thesis using rows True l upto_rec1 [OF assms(3)] by (simp add: pre_def)
  qed (simp add: rows pre_def)
  note pre = this
  have n: "int (length ts') = int (length pre) + (?b - ?a + 1)" using arg_cong [OF pre, of length] assms(3) by simp
  define s where "s = int (length ts') - (?b - ?a) - 1"
  have s: "s = int (length pre)" "int (length ts') - 1 = int (length pre) + (?b - ?a)" using n by (simp_all add: s_def)
  have "length ts - 1 \<le> length pre" by (simp add: pre_def)
  then have "int (length ts) - 1 \<le> s" using s(1) by linarith
  moreover have "map (\<lambda>i. map row ts' ! nat i) [s..int (length ts') - 1] = map (chunk_row snap) [?a..?b]"
    unfolding s pre by (rule last_rows) (use assms(3) in simp_all)
  then have "planned_entry snap (map row ts') e (e\<lparr>StartChunk := s, EndChunk := int (length ts') - 1\<rparr>)"
    using assms(3,6) s by (simp add: planned_entry_def)
  ultimately show ?thesis using that [OF r rows] unfolding s_def by blast
qed

lemma add_files_plan:
  assumes "plan_inv snap (ts, li, sz)"
    and "\<forall>e \<in> set es. Size e \<noteq> 0 \<longrightarrow> 0 \<le> StartChunk e \<and> StartChunk e \<le> EndChunk e \<and> EndChunk e < int (length (ChunkHashes snap))"
    and "length (ChunkLengths snap) = length (ChunkHashes snap)"
  shows "\<exists>es' ts' li' sz' xs. add_files snap es (ts, li, sz) = Inr (es', ts', li', sz') \<and> plan_inv snap (ts', li', sz')
    \<and> map row ts' = map row ts @ xs \<and> list_all2 (planned_entry snap (map row ts')) es es'
    \<and> sorted_wrt (\<lambda>e f. EndChunk e \<le> StartChunk f) (filter (\<lambda>e. Size e \<noteq> 0) es')
    \<and> (\<forall>e \<in> set es'. Size e \<noteq> 0 \<longrightarrow> int (length ts) - 1 \<le> StartChunk e)"
  using assms(1,2)
proof (induction es arbitrary: ts li sz)
  case (Cons e es)
  have prem: "\<forall>e \<in> set es. Size e \<noteq> 0 \<longrightarrow> 0 \<le> StartChunk e \<and> StartChunk e \<le> EndChunk e \<and> EndChunk e < int (length (ChunkHashes snap))"
    using Cons.prems(2) by simp
  show ?case
  proof (cases "Size e = 0")
    case True
    obtain es' ts' li' sz' xs where
      "add_files snap es (ts, li, sz) = Inr (es', ts', li', sz')" "plan_inv snap (ts', li', sz')" "map row ts' = map row ts @ xs"
      "list_all2 (planned_entry snap (map row ts')) es es'" "sorted_wrt (\<lambda>e f. EndChunk e \<le> StartChunk f) (filter (\<lambda>e. Size e \<noteq> 0) es')"
      "\<forall>e \<in> set es'. Size e \<noteq> 0 \<longrightarrow> int (length ts) - 1 \<le> StartChunk e"
      using Cons.IH [OF Cons.prems(1) prem] by blast
    moreover have "planned_entry snap (map row ts') e e" using True by (simp add: planned_entry_def)
    ultimately show ?thesis using True by (intro exI [of _ "e # es'"] exI) auto
  next
    case False
    obtain ts1 sz1 xs1 where r: "add_chunks snap [StartChunk e..EndChunk e] (ts, li, sz) = Inr (ts1, EndChunk e, sz1)"
      "plan_inv snap (ts1, EndChunk e, sz1)" "map row ts1 = map row ts @ xs1"
      "int (length ts) - 1 \<le> int (length ts1) - (EndChunk e - StartChunk e) - 1"
      and p: "planned_entry snap (map row ts1) e
          (e\<lparr>StartChunk := int (length ts1) - (EndChunk e - StartChunk e) - 1, EndChunk := int (length ts1) - 1\<rparr>)"
      by (rule add_file_plan [OF Cons.prems(1) _ _ _ assms(3) False]) (use Cons.prems(2) False in auto)
    define e' where "e' = e\<lparr>StartChunk := int (length ts1) - (EndChunk e - StartChunk e) - 1, EndChunk := int (length ts1) - 1\<rparr>"
    obtain es' ts' li' sz' xs where ih:
      "add_files snap es (ts1, EndChunk e, sz1) = Inr (es', ts', li', sz')" "plan_inv snap (ts', li', sz')" "map row ts' = map row ts1 @ xs"
      "list_all2 (planned_entry snap (map row ts')) es es'" "sorted_wrt (\<lambda>e f. EndChunk e \<le> StartChunk f) (filter (\<lambda>e. Size e \<noteq> 0) es')"
      "\<forall>e \<in> set es'. Size e \<noteq> 0 \<longrightarrow> int (length ts1) - 1 \<le> StartChunk e"
      using Cons.IH [OF r(2) prem] by blast
    have l: "length ts \<le> length ts1" using arg_cong [OF r(3), of length] by simp
    have p': "planned_entry snap (map row ts') e e'" unfolding ih(3) e'_def by (rule planned_entry_extend [OF p])
    have "add_files snap (e # es) (ts, li, sz) = Inr (e' # es', ts', li', sz')" using False r(1) ih(1) by (simp add: Let_def e'_def)
    moreover have "map row ts' = map row ts @ (xs1 @ xs)" using ih(3) r(3) by simp
    moreover have "sorted_wrt (\<lambda>e f. EndChunk e \<le> StartChunk f) (filter (\<lambda>e. Size e \<noteq> 0) (e' # es'))"
      using ih(5,6) by (auto simp: e'_def)
    moreover have "\<forall>x \<in> set (e' # es'). Size x \<noteq> 0 \<longrightarrow> int (length ts) - 1 \<le> StartChunk x"
    proof
      fix x assume "x \<in> set (e' # es')"
      then consider "x = e'" | "x \<in> set es'" by auto
      then show "Size x \<noteq> 0 \<longrightarrow> int (length ts) - 1 \<le> StartChunk x"
      proof cases
        case 1
        then show ?thesis using r(4) by (simp add: e'_def)
      next
        case 2
        then have "Size x \<noteq> 0 \<longrightarrow> int (length ts1) - 1 \<le> StartChunk x" using ih(6) by blast
        then show ?thesis using l by linarith
      qed
    qed
    ultimately show ?thesis using ih(2,4) p' by (intro exI [of _ "e' # es'"] exI) auto
  qed
qed auto

lemma AddFiles_spec:
  assumes "\<forall>e \<in> set es. Size e \<noteq> 0 \<longrightarrow> 0 \<le> StartChunk e \<and> StartChunk e \<le> EndChunk e \<and> EndChunk e < int (length (ChunkHashes snap))"
    and "length (ChunkLengths snap) = length (ChunkHashes snap)"
  shows "\<exists>es' d. downloader_AddFiles snap es (CreateChunkDownloader s) = Inr (es', d) \<and> list_all2 (planned_entry snap (planned d)) es es'
    \<and> sorted_wrt (\<lambda>e f. EndChunk e \<le> StartChunk f) (filter (\<lambda>e. Size e \<noteq> 0) es') \<and> ready env d \<and> inFlight d = [] \<and> lastChunkIndex d = 0"
proof -
  have "plan_inv snap ([], -1, 0)" by (simp add: plan_inv_def fresh_tasks_def)
  from add_files_plan [OF this assms] obtain es' ts li sz where a: "add_files snap es ([], -1, 0) = Inr (es', ts, li, sz)"
    and i: "plan_inv snap (ts, li, sz)" and p: "list_all2 (planned_entry snap (map row ts)) es es'"
    and o: "sorted_wrt (\<lambda>e f. EndChunk e \<le> StartChunk f) (filter (\<lambda>e. Size e \<noteq> 0) es')" by auto
  define d where "d = (CreateChunkDownloader s)\<lparr>taskList := ts, totalChunkSize := sz\<rparr>"
  have "fresh_tasks ts" using i by (simp add: plan_inv_def)
  then have "ready env d"
    by (auto simp: ready_def downloader_inv_def task_inv_def d_def CreateChunkDownloader_def fresh_tasks_def)
  moreover have "planned d = map row ts" by (simp add: planned_def d_def row_def)
  ultimately show ?thesis using a p o by (intro exI [of _ es'] exI [of _ d]) (simp add: downloader_AddFiles_def d_def CreateChunkDownloader_def)
qed

text \<open>
  C32. The plan is right: every file is given consecutive tasks with the hashes and lengths of its own chunks,
  also when it shares its first chunk with the file before, the files come in the order of their tasks,
  overlapping in one task at most, and the downloader is ready to start with nothing under way.
\<close>

theorem AddFiles_plan:
  assumes "\<forall>e \<in> set es. Size e \<noteq> 0 \<longrightarrow> 0 \<le> StartChunk e \<and> StartChunk e \<le> EndChunk e \<and> EndChunk e < int (length (ChunkHashes snap))"
    and "length (ChunkLengths snap) = length (ChunkHashes snap)"
  shows "\<exists>es' d. downloader_AddFiles snap es (CreateChunkDownloader s) = Inr (es', d) \<and> list_all2 (planned_entry snap (planned d)) es es'
    \<and> sorted_wrt (\<lambda>e f. EndChunk e \<le> StartChunk f) (filter (\<lambda>e. Size e \<noteq> 0) es') \<and> ready env d \<and> inFlight d = [] \<and> lastChunkIndex d = 0"
  using assms by (rule AddFiles_spec)

section \<open>Examples\<close>

text \<open>Two stored chunks, and three files in them: the second and the third share the second chunk.\<close>

definition restore_disk :: disk where
  "restore_disk = [(''chunks'', DirNode), (''chunks/41'', DirNode), (''chunks/41/42'', FileNode [76, 90, 52, 32, 1, 65, 66]),
     (''chunks/43'', DirNode), (''chunks/43/44'', FileNode [76, 90, 52, 32, 1, 67, 68, 69])]"

definition download_env :: "disk downloader_env" where
  "download_env = \<lparr>deOperator = example_env, deThreads = 2, dePick = \<lambda>is. 1\<rparr>"

definition download_snapshot :: snapshot where
  "download_snapshot = empty_snapshot\<lparr>ChunkHashes := [''AB'', ''CD''], ChunkLengths := [2, 3]\<rparr>"

definition download_files :: "entry list" where
  "download_files = [(CreateEntry ''a'' 2 0 0)\<lparr>EndOffset := 2, Hash := ''a''\<rparr>,
     (CreateEntry ''b'' 2 0 0)\<lparr>StartChunk := 1, EndChunk := 1, EndOffset := 2, Hash := ''CD''\<rparr>,
     CreateEntry ''e'' 0 0 0,
     (CreateEntry ''c'' 1 0 0)\<lparr>StartChunk := 1, StartOffset := 2, EndChunk := 1, EndOffset := 3, Hash := ''E''\<rparr>]"

definition planned_downloads :: "entry list \<times> disk chunk_downloader" where
  "planned_downloads = (case downloader_AddFiles download_snapshot download_files (CreateChunkDownloader (example_state restore_disk)) of
     Inr r \<Rightarrow> r | Inl _ \<Rightarrow> ([], CreateChunkDownloader (example_state restore_disk)))"

lemma download_files_ok:
  "\<forall>e \<in> set download_files. Size e \<noteq> 0 \<longrightarrow>
     0 \<le> StartChunk e \<and> StartChunk e \<le> EndChunk e \<and> EndChunk e < int (length (ChunkHashes download_snapshot))"
  "length (ChunkLengths download_snapshot) = length (ChunkHashes download_snapshot)"
  by (simp_all add: download_files_def download_snapshot_def CreateEntry_def)

lemma planned_downloads_ready: "ready download_env (snd planned_downloads)" "lastChunkIndex (snd planned_downloads) = 0"
  "downloader_AddFiles download_snapshot download_files (CreateChunkDownloader (example_state restore_disk)) = Inr planned_downloads"
  using AddFiles_spec [OF download_files_ok, of "example_state restore_disk" download_env]
  by (auto simp: planned_downloads_def)

lemma AddFiles_plan_witness:
  "\<exists>es d. downloader_AddFiles download_snapshot download_files (CreateChunkDownloader (example_state restore_disk)) = Inr (es, d)
     \<and> list_all2 (planned_entry download_snapshot [(''AB'', 2), (''CD'', 3)]) download_files es \<and> inFlight d = []"
proof -
  obtain es d where r: "downloader_AddFiles download_snapshot download_files (CreateChunkDownloader (example_state restore_disk)) = Inr (es, d)"
    "list_all2 (planned_entry download_snapshot (planned d)) download_files es" "inFlight d = []"
    using AddFiles_plan [OF download_files_ok, of "example_state restore_disk" download_env] by blast
  have "planned (snd planned_downloads) = [(''AB'', 2), (''CD'', 3)]" by code_simp
  moreover have "snd planned_downloads = d" using r(1) planned_downloads_ready(3) by (metis snd_conv sum.inject(2))
  ultimately have "planned d = [(''AB'', 2), (''CD'', 3)]" by simp
  then show ?thesis using r by auto
qed


end
