(* ===== verification/Spec2Isabelle.thy ===== *)
theory Spec2Isabelle
  imports Chunking File_Listing Backup Chunk_Operator Snapshot_Chunks Fossil_Deletion Retention Backup_Restore Chunk_Downloader
begin

text \<open>
  Duplicacy, a backup program that shares chunks between snapshots without locks.  The theories model the
  Go package \<^verbatim>\<open>src/src\<close>; names of files below leave out the prefix \<^verbatim>\<open>src/src/duplicacy_\<close>, and definitions
  have the names of the functions they translate.

  \<^bold>\<open>How the program works.\<close>  A backup lists the files of a repository in a fixed order, compares them with
  the last snapshot, reads the new and modified ones as one stream of bytes, cuts the stream into chunks
  where a rolling hash says so, and uploads each chunk under the hash of its content.  A snapshot is a small
  JSON file that names the chunks of three sequences: the entries of the files, the hashes of the chunks,
  and their lengths.  Because chunks are named by content, backups from many clients share them without
  coordination.  Pruning is what makes that hard: a chunk no snapshot references may be about to be
  referenced by a backup in progress.  It is therefore renamed to a fossil first and recorded in a fossil
  collection; a later run deletes the fossils of a collection, or brings them back, when every client has
  made a snapshot since.

  \<^bold>\<open>Chunking.\<close>  \<open>Buzhash\<close> (the rolling hash), \<open>Ring_Buffer\<close> (the circular buffer), \<open>Chunk_Maker\<close> (all of
  \<^verbatim>\<open>chunkmaker.go\<close>), \<open>Reference_Chunker\<close> (the chunks as a function of the stream), \<open>Chunking\<close> (the chunk
  maker implements that function whatever the sizes of the reads, conserves bytes and respects the size
  bounds).  Hashes are 64-bit words; the states of the buffer are records with the fields of the code.

  \<^bold>\<open>Files.\<close>  \<open>Go_Strings\<close> (the string functions used), \<open>Path_Order\<close> and \<open>Entry\<close> (\<^verbatim>\<open>entry.go\<close>), \<open>Pattern_Match\<close>
  (filters in \<^verbatim>\<open>utils.go\<close> and \<^verbatim>\<open>snapshot.go\<close>), \<open>File_Listing\<close> (\<^verbatim>\<open>ListEntries\<close>, \<^verbatim>\<open>ListLocalFiles\<close>),
  \<open>Entry_Codec\<close> (the stored form of an entry), \<open>Entry_List\<close> and \<open>Back_Annotation\<close> (\<^verbatim>\<open>entrylist.go\<close>: the
  entries of a backup, kept in memory or on disk, which are told their place in the chunks only after the
  files before them have been read), \<open>Backup\<close> (the merge with the last snapshot, packing, and the decision
  what to upload, in \<^verbatim>\<open>backupmanager.go\<close>).

  \<^bold>\<open>Storage.\<close>  \<open>Storage\<close> has the interface of \<^verbatim>\<open>storage.go\<close> as a record of operations over an abstract state and
  its contract as the locales \<open>file_store\<close> and \<open>reliable_store\<close>; \<open>File_Storage\<close> and \<open>Disk_Tree\<close> interpret them with
  the local disk of \<^verbatim>\<open>filestorage.go\<close>, a list of paths with a directory or the bytes of a file.
  \<open>Config\<close>, \<open>Chunk\<close> (hash, id, compression, encryption and erasure coding of \<^verbatim>\<open>chunk.go\<close>),
  \<open>Chunk_Operator\<close> (\<^verbatim>\<open>chunkoperator.go\<close>: find, delete, fossilize, resurrect, download, upload) and
  \<open>Concurrency\<close> (\<^verbatim>\<open>concurrency.go\<close> and the task queue, as step relations of the goroutines).

  \<^bold>\<open>Snapshots and pruning.\<close>  \<open>Snapshot\<close> (\<^verbatim>\<open>snapshot.go\<close>), \<open>Snapshot_Files\<close> and \<open>Snapshot_Chunks\<close> (the snapshot
  manager's downloads, listings and chunk sequences), \<open>Fossil_Collection\<close>, \<open>Retention\<close> and \<open>Prune\<close>
  (\<^verbatim>\<open>PruneSnapshots\<close> with everything it calls in \<^verbatim>\<open>snapshotmanager.go\<close>); \<open>Prune_Safety\<close>, \<open>Prune_Correct\<close> and
  \<open>Fossil_Deletion\<close> show that neither step ever loses a chunk a snapshot needs.

  \<^bold>\<open>Whole commands.\<close>  \<open>Upload_Snapshot\<close> and \<open>Snapshot_Commit\<close> (\<^verbatim>\<open>uploadSnapshot\<close>: the entries, hashes and lengths are
  cut into chunks themselves, the snapshot file is written after all of them), \<open>Remote_Files\<close> (the entries of a
  snapshot read back, \<^verbatim>\<open>RetrieveFile\<close>, \<^verbatim>\<open>VerifySnapshot\<close>), \<open>Backup_Run\<close> (\<^verbatim>\<open>Backup\<close>, from the listing to the
  snapshot) and \<open>Backup_Restore\<close>, which puts them together: what the backup read from the local files is
  what the stored snapshot gives back for each of them.  \<open>Chunk_Downloader\<close> has the downloads of a restore
  (\<^verbatim>\<open>chunkdownloader.go\<close>): the plan, and waiting for chunks that arrive in any order.

  \<^bold>\<open>Conventions.\<close>  A panic and an error logged with \<^verbatim>\<open>LOG_ERROR\<close>, which ends the command, are values
  (\<open>fatal\<close>, \<open>coding_error\<close>, \<open>chunk_error\<close>, or a string for an \<^verbatim>\<open>error\<close>); warnings and messages are left out.
  Go maps are association lists, and where the order of their iteration could matter the theorems quantify
  over it.  Tasks given to the chunk operator are run in any order.  Strings are strings of bytes.  Sizes
  that the code never lets go below zero are natural numbers, differences are integers; file modes,
  hashes and table entries are words.

  \<^bold>\<open>Parameters.\<close>  Hash functions, ciphers, compressors and the Reed-Solomon code are fields of a record
  \<open>chunk_lib\<close>; JSON parsing, regular expressions, the msgpack encoding of single items, random bytes, the clock
  and the calendar of the local time zone are arguments.  The file system a backup reads is a record of
  functions.  Where a theorem relies on one of them it says so as a hypothesis, and its witness instantiates
  it with a concrete function.

  \<^bold>\<open>Fuel and partiality.\<close>  No definition has fuel.  The listing of a tree of an arbitrary storage and the
  inclusion of filter files may not end: the first is a partial function shown to return on every local
  storage, the second is shown to end.  The loop of the chunk maker ends by a measure on the script of
  reads.

  \<^bold>\<open>Not modelled.\<close>  The drivers and clients of the cloud services, which only translate the storage
  interface to requests; the command line; operating-system glue (shadow copies, key ring, extended attributes);
  logging and statistics.
\<close>

end
